(* ===== verification/Prelude.thy ===== *)
theory Prelude
  imports Main "HOL-Library.Word" "HOL-Library.Multiset"
begin

text \<open>
  Shared ground of the development: the machine types of the C++ code, the faults it can run
  into, a result type with sequencing, bounds-checked vector access, and loops over a list in
  that result type.  The two collections below gather the rules that component proofs use.
\<close>

named_theorems res_simps \<open>rewriting of results and sequencing\<close>
named_theorems ok_intros \<open>total-correctness rules: an operation returns a value\<close>

section \<open>Machine types and faults\<close>

type_synonym u8 = "8 word"
type_synonym u32 = "32 word"
type_synonym u64 = "64 word"

text \<open>An argument is a \<^verbatim>\<open>uint32_t\<close> that is only compared and used as an index.\<close>

type_synonym arg = nat

text \<open>
  \<open>OutOfRange\<close>: an index beyond the end of a \<^verbatim>\<open>std::vector\<close> (undefined behaviour of
  \<^verbatim>\<open>operator[]\<close>); \<open>Diverges\<close>: a loop that does not end; \<open>Indeterminate\<close>: a read of a variable that was never written; \<open>Thrown\<close>: a
  C++ exception; \<open>ExitCode\<close>: a call of \<^verbatim>\<open>exit\<close>; \<open>ContractViolated\<close>: the abort of a CaDiCaL
  API contract; \<open>Aborted\<close>: a failed assertion or fatal error of CaDiCaL; \<open>SignedOverflow\<close>: a signed
  operation whose result does not fit (undefined behaviour); \<open>NullPointer\<close>: the access to an object
  through a null pointer, or through a pointer to an object that was freed.
\<close>

datatype fault =
    OutOfRange | Diverges | Indeterminate | Thrown | ExitCode nat | ContractViolated |
    Aborted | SignedOverflow | NullPointer

type_synonym 'a res = "fault + 'a"

definition bind_res :: "'a res \<Rightarrow> ('a \<Rightarrow> 'b res) \<Rightarrow> 'b res" where
  "bind_res m k = (case m of Inl e \<Rightarrow> Inl e | Inr x \<Rightarrow> k x)"

lemma bind_res_Inr [simp, res_simps]: "bind_res (Inr x) k = k x"
  by (simp add: bind_res_def)

lemma bind_res_Inl [simp, res_simps]: "bind_res (Inl e) k = Inl e"
  by (simp add: bind_res_def)

lemma bind_res_eq_Inr:
  "bind_res m k = Inr y \<longleftrightarrow> (\<exists>x. m = Inr x \<and> k x = Inr y)"
  by (auto simp: bind_res_def split: sum.splits)

lemma bind_res_assoc: "bind_res (bind_res m k) h = bind_res m (\<lambda>x. bind_res (k x) h)"
  by (auto simp: bind_res_def split: sum.splits)

lemma bind_res_cong [fundef_cong]:
  "m = m' \<Longrightarrow> (\<And>x. m' = Inr x \<Longrightarrow> k x = k' x) \<Longrightarrow> bind_res m k = bind_res m' k'"
  by (auto simp: bind_res_def split: sum.splits)

text \<open>An assertion; \<open>dbg\<close> says whether assertions are compiled in.\<close>

definition cassert :: "bool \<Rightarrow> bool \<Rightarrow> unit res" where
  "cassert dbg c = (if dbg \<and> \<not> c then Inl Aborted else Inr ())"

definition INT_MIN :: int where
  "INT_MIN = - 2147483648"

definition INT_MAX :: int where
  "INT_MAX = 2147483647"

definition UINT_MAX :: int where
  "UINT_MAX = 4294967295"

definition PTRDIFF_MAX :: int where
  "PTRDIFF_MAX = 9223372036854775807"

lemma cassert_Inr [simp]: "cassert dbg c = Inr u \<longleftrightarrow> (dbg \<longrightarrow> c)"
  by (auto simp: cassert_def)

section \<open>Vectors\<close>

definition get_at :: "'a list \<Rightarrow> nat \<Rightarrow> 'a res" where
  "get_at xs i = (if i < length xs then Inr (xs ! i) else Inl OutOfRange)"

definition set_at :: "'a list \<Rightarrow> nat \<Rightarrow> 'a \<Rightarrow> 'a list res" where
  "set_at xs i v = (if i < length xs then Inr (xs[i := v]) else Inl OutOfRange)"

text \<open>\<^verbatim>\<open>resize\<close>: keep what is there, cut the tail or append default elements.\<close>

definition resize :: "nat \<Rightarrow> 'a \<Rightarrow> 'a list \<Rightarrow> 'a list" where
  "resize n d xs = take n xs @ replicate (n - length xs) d"

lemma get_at_ok [simp, ok_intros]: "i < length xs \<Longrightarrow> get_at xs i = Inr (xs ! i)"
  by (simp add: get_at_def)

lemma get_at_out [simp]: "\<not> i < length xs \<Longrightarrow> get_at xs i = Inl OutOfRange"
  by (simp add: get_at_def)

lemma get_at_eq_Inr: "get_at xs i = Inr v \<longleftrightarrow> i < length xs \<and> v = xs ! i"
  by (auto simp: get_at_def)

lemma set_at_ok [simp, ok_intros]: "i < length xs \<Longrightarrow> set_at xs i v = Inr (xs[i := v])"
  by (simp add: set_at_def)

lemma set_at_eq_Inr: "set_at xs i v = Inr ys \<longleftrightarrow> i < length xs \<and> ys = xs[i := v]"
  by (auto simp: set_at_def)

lemma length_resize [simp]: "length (resize n d xs) = n"
  by (simp add: resize_def)

lemma resize_Nil [simp]: "resize n d [] = replicate n d"
  by (simp add: resize_def)

lemma list_update_fill: "(xs[i := v]) ! j = (if i = j \<and> i < length xs then v else xs ! j)"
  by (cases "i < length xs") (auto simp: nth_list_update list_update_beyond)

lemma nth_resize: "i < length xs \<Longrightarrow> i < n \<Longrightarrow> resize n d xs ! i = xs ! i"
  by (simp add: resize_def nth_append)

text \<open>The size of an array is doubled until it is above an index.\<close>

function grow :: "nat \<Rightarrow> nat \<Rightarrow> nat" where
  "grow idx n = (if n \<le> idx \<and> 0 < n then grow idx (2 * n) else n)"
  by pat_completeness auto
termination by (relation "measure (\<lambda>(idx, n). idx + 1 - n)") auto

declare grow.simps [simp del]

lemma grow_above: "0 < n \<Longrightarrow> idx < grow idx n"
  by (induction idx n rule: grow.induct) (subst grow.simps, auto)

lemma grow_at_least: "n \<le> grow idx n"
  by (induction idx n rule: grow.induct) (subst grow.simps, auto)

section \<open>Loops over a list\<close>

text \<open>A range-based loop whose body may fault: the first fault stops it.\<close>

fun fold_res :: "('x \<Rightarrow> 's \<Rightarrow> 's res) \<Rightarrow> 'x list \<Rightarrow> 's \<Rightarrow> 's res" where
  "fold_res f [] s = Inr s"
| "fold_res f (x # xs) s = bind_res (f x s) (fold_res f xs)"

lemma fold_res_append:
  "fold_res f (xs @ ys) s = bind_res (fold_res f xs s) (fold_res f ys)"
  by (induction xs arbitrary: s) (auto simp: bind_res_def split: sum.splits)

text \<open>
  The rule for total correctness: if the body, run on the element after a prefix whose
  invariant holds, returns a state satisfying the invariant of the longer prefix, the loop
  returns and establishes the invariant of the whole list.
\<close>

lemma fold_res_invariant:
  assumes start: "I [] s"
    and body: "\<And>pre x post s. xs = pre @ x # post \<Longrightarrow> I pre s \<Longrightarrow>
                 \<exists>s'. f x s = Inr s' \<and> I (pre @ [x]) s'"
  shows "\<exists>s'. fold_res f xs s = Inr s' \<and> I xs s'"
proof -
  have "\<exists>s'. fold_res f post s = Inr s' \<and> I (pre @ post) s'"
    if "xs = pre @ post" "I pre s" for pre post s
    using that
  proof (induction post arbitrary: pre s)
    case Nil
    then show ?case by simp
  next
    case (Cons x post)
    then obtain s1 where "f x s = Inr s1" "I (pre @ [x]) s1"
      using body by blast
    moreover from this Cons.IH [of "pre @ [x]" s1] Cons.prems(1)
    obtain s2 where "fold_res f post s1 = Inr s2" "I (pre @ x # post) s2" by auto
    ultimately show ?case by simp
  qed
  from this [of "[]" xs s] start show ?thesis by simp
qed

lemma fold_res_pure:
  assumes "\<And>x s. x \<in> set xs \<Longrightarrow> P s \<Longrightarrow> f x s = Inr (g x s) \<and> P (g x s)" and "P s"
  shows "fold_res f xs s = Inr (fold g xs s) \<and> P (fold g xs s)"
  using assms by (induction xs arbitrary: s) auto

section \<open>Loops that may not end\<close>

text \<open>
  A loop given by its step, which returns whether to go on; \<open>None\<close> stands for a loop that does not end, and
  \<open>loop\<close> makes a fault of it.
\<close>

partial_function (option) run_loop :: "('s \<Rightarrow> (bool \<times> 's) res) \<Rightarrow> 's \<Rightarrow> 's res option" where
  "run_loop step s =
     (case step s of
        Inl e \<Rightarrow> Some (Inl e)
      | Inr (go, s') \<Rightarrow> if go then run_loop step s' else Some (Inr s'))"

definition loop :: "('s \<Rightarrow> (bool \<times> 's) res) \<Rightarrow> 's \<Rightarrow> 's res" where
  "loop step s = (case run_loop step s of None \<Rightarrow> Inl Diverges | Some r \<Rightarrow> r)"

lemma loop_unfold:
  "loop step s = bind_res (step s) (\<lambda>(go, s'). if go then loop step s' else Inr s')"
  unfolding loop_def by (subst run_loop.simps) (auto simp: bind_res_def split: sum.splits)

declare loop_unfold [code]

text \<open>A loop returns when each turn keeps an invariant and decreases a measure, or leaves with the result wanted.\<close>

lemma loop_returns:
  fixes m :: "'s \<Rightarrow> nat"
  assumes "I s"
    and "\<And>s. I s \<Longrightarrow> \<exists>go s'. step s = Inr (go, s') \<and> (if go then I s' \<and> m s' < m s else Q s')"
  shows "\<exists>s'. loop step s = Inr s' \<and> Q s'"
  using assms(1)
proof (induction "m s" arbitrary: s rule: less_induct)
  case less
  obtain go s' where s': "step s = Inr (go, s')" "if go then I s' \<and> m s' < m s else Q s'"
    using assms(2) [OF less.prems] by blast
  then show ?case using less.hyps [of s'] by (cases go) (auto simp: loop_unfold [of step s])
qed

text \<open>Partial correctness: what holds at the start and is kept by each turn holds at the end.\<close>

definition step_keeps :: "('s \<Rightarrow> bool) \<Rightarrow> ('s \<Rightarrow> (bool \<times> 's) res) \<Rightarrow> bool" where
  "step_keeps I step \<longleftrightarrow> (\<forall>s go t. I s \<longrightarrow> step s = Inr (go, t) \<longrightarrow> I t)"

lemma run_loop_invariant:
  "run_loop step s = Some r \<Longrightarrow> step_keeps I step \<longrightarrow> I s \<longrightarrow> (\<forall>s'. r = Inr s' \<longrightarrow> I s')"
proof (rule run_loop.raw_induct [of "\<lambda>step s r. step_keeps I step \<longrightarrow> I s \<longrightarrow> (\<forall>s'. r = Inr s' \<longrightarrow> I s')"])
  fix rec step s r
  assume IH: "\<And>step s r. rec step s = Some r \<Longrightarrow> step_keeps I step \<longrightarrow> I s \<longrightarrow> (\<forall>s'. r = Inr s' \<longrightarrow> I s')"
    and r: "(case step s of Inl e \<Rightarrow> Some (Inl e)
      | Inr (go, s') \<Rightarrow> if go then rec step s' else Some (Inr s')) = Some r"
  show "step_keeps I step \<longrightarrow> I s \<longrightarrow> (\<forall>s'. r = Inr s' \<longrightarrow> I s')"
  proof (cases "step s")
    case (Inl e)
    then show ?thesis using r by auto
  next
    case (Inr p)
    obtain go t where p: "p = (go, t)" by (cases p)
    show ?thesis
    proof (cases go)
      case True
      then have "rec step t = Some r" using r Inr p by simp
      then have t: "step_keeps I step \<longrightarrow> I t \<longrightarrow> (\<forall>s'. r = Inr s' \<longrightarrow> I s')" by (rule IH)
      have "step_keeps I step \<longrightarrow> I s \<longrightarrow> I t" using Inr p unfolding step_keeps_def by blast
      then show ?thesis using t by blast
    next
      case False
      then show ?thesis using r Inr p by (auto simp: step_keeps_def)
    qed
  qed
qed assumption

lemma loop_invariant:
  assumes "loop step s = Inr s'" "I s" "\<And>s go t. I s \<Longrightarrow> step s = Inr (go, t) \<Longrightarrow> I t"
  shows "I s'"
proof (cases "run_loop step s")
  case None
  then show ?thesis using assms(1) by (simp add: loop_def)
next
  case (Some r)
  then show ?thesis using run_loop_invariant [OF Some, of I] assms by (auto simp: loop_def step_keeps_def)
qed

section \<open>Results that do not depend on assertions\<close>

text \<open>
  The computation returns the same value whether assertions are compiled in or not, with the property wanted: there is
  no fault and no assertion fails.  The rules follow the structure of the computation.
\<close>

definition returns :: "(bool \<Rightarrow> 'a res) \<Rightarrow> ('a \<Rightarrow> bool) \<Rightarrow> bool" where
  "returns f Q \<longleftrightarrow> (\<exists>x. (\<forall>dbg. f dbg = Inr x) \<and> Q x)"

lemma returnsE:
  assumes "returns f Q"
  obtains x where "\<And>dbg. f dbg = Inr x" "Q x"
  using assms by (auto simp: returns_def)

lemma returns_Inr [simp]: "returns (\<lambda>dbg. Inr x) Q \<longleftrightarrow> Q x"
  by (auto simp: returns_def)

lemma returns_bind:
  assumes "returns f R" "\<And>x. R x \<Longrightarrow> returns (\<lambda>dbg. g dbg x) Q"
  shows "returns (\<lambda>dbg. bind_res (f dbg) (g dbg)) Q"
proof -
  obtain x where "\<And>dbg. f dbg = Inr x" "R x" using assms(1) unfolding returns_def by blast
  then show ?thesis using assms(2) [of x] by (simp add: returns_def)
qed

lemma returns_assert:
  assumes "c" "returns (\<lambda>dbg. g dbg ()) Q"
  shows "returns (\<lambda>dbg. bind_res (cassert dbg c) (g dbg)) Q"
  using assms by (simp add: cassert_def)

lemma returns_dbg:
  assumes "returns f (\<lambda>_. True)" "returns (\<lambda>dbg. g dbg ()) Q"
  shows "returns (\<lambda>dbg. bind_res (if dbg then f dbg else Inr ()) (g dbg)) Q"
  using assms by (auto simp: returns_def)

lemma returns_mono: "returns f R \<Longrightarrow> (\<And>x. R x \<Longrightarrow> Q x) \<Longrightarrow> returns f Q"
  by (auto simp: returns_def)

lemma returns_conj: "returns f R \<Longrightarrow> returns f Q \<Longrightarrow> returns f (\<lambda>x. R x \<and> Q x)"
  by (auto simp: returns_def)

lemma returns_fold:
  assumes start: "I [] s"
    and body: "\<And>pre x post s. xs = pre @ x # post \<Longrightarrow> I pre s \<Longrightarrow> returns (\<lambda>dbg. f dbg x s) (I (pre @ [x]))"
  shows "returns (\<lambda>dbg. fold_res (f dbg) xs s) (I xs)"
proof -
  have "returns (\<lambda>dbg. fold_res (f dbg) post s) (\<lambda>s'. I (pre @ post) s')" if "xs = pre @ post" "I pre s" for pre post s
    using that
  proof (induction post arbitrary: pre s)
    case (Cons x post)
    have "returns (\<lambda>dbg. f dbg x s) (I (pre @ [x]))" using body Cons.prems by blast
    then have "returns (\<lambda>dbg. bind_res (f dbg x s) (fold_res (f dbg) post)) (I (pre @ x # post))"
      by (rule returns_bind) (use Cons.IH [of "pre @ [x]"] Cons.prems(1) in simp)
    then show ?case by simp
  qed simp
  from this [of "[]" xs s] start show ?thesis by simp
qed

text \<open>A loop over the numbers from 1.\<close>

lemma returns_upto:
  assumes "I 0 s" "\<And>k s. k < n \<Longrightarrow> I k s \<Longrightarrow> returns (\<lambda>dbg. f dbg (Suc k) s) (I (Suc k))"
  shows "returns (\<lambda>dbg. fold_res (f dbg) [1..<n + 1] s) (I n)"
  using assms
proof (induction n)
  case (Suc n)
  have "returns (\<lambda>dbg. bind_res (fold_res (f dbg) [1..<n + 1] s) (fold_res (f dbg) [Suc n])) (I (Suc n))"
  proof (rule returns_bind [OF Suc.IH])
    fix t assume "I n t"
    then have "returns (\<lambda>dbg. bind_res (f dbg (Suc n) t) (\<lambda>t. Inr t)) (I (Suc n))"
      by (intro returns_bind [OF Suc.prems(2)]) auto
    moreover have "fold_res g [x] t = bind_res (g x t) Inr" for g :: "nat \<Rightarrow> 'a \<Rightarrow> 'a res" and x
      by (simp add: bind_res_def split: sum.splits)
    ultimately show "returns (\<lambda>dbg. fold_res (f dbg) [Suc n] t) (I (Suc n))" by (simp only:)
  qed (use Suc.prems in auto)
  moreover have "[1..<Suc n + 1] = [1..<n + 1] @ [Suc n]" by simp
  ultimately show ?case by (simp only: fold_res_append)
qed simp

lemma returns_loop:
  fixes m :: "'s \<Rightarrow> nat"
  assumes "I s"
    and "\<And>s. I s \<Longrightarrow> returns (\<lambda>dbg. step dbg s) (\<lambda>(go, s'). if go then I s' \<and> m s' < m s else Q s')"
  shows "returns (\<lambda>dbg. loop (step dbg) s) Q"
  using assms(1)
proof (induction "m s" arbitrary: s rule: less_induct)
  case less
  obtain go s' where s': "\<And>dbg. step dbg s = Inr (go, s')" "if go then I s' \<and> m s' < m s else Q s'"
    using assms(2) [OF less.prems] by (auto simp: returns_def)
  show ?case
  proof (cases go)
    case True
    then have "returns (\<lambda>dbg. loop (step dbg) s') Q" using less.hyps [of s'] s'(2) by simp
    then show ?thesis using True s'(1) by (subst loop_unfold) simp
  next
    case False
    then show ?thesis using s' by (subst loop_unfold) simp
  qed
qed

section \<open>Lists and words\<close>

lemma finite_list_card_filter: "card {x \<in> set xs. P x} \<le> length xs"
proof -
  have "card {x \<in> set xs. P x} \<le> card (set xs)" by (rule card_mono) auto
  also have "\<dots> \<le> length xs" by (rule card_length)
  finally show ?thesis .
qed

lemma distinct_nth_mem_prefix:
  "distinct (pre @ x # post) \<Longrightarrow> x \<notin> set pre \<and> x \<notin> set post"
  by auto

lemma unat_Suc_u32: "unat (w :: u32) + 1 < 2 ^ 32 \<Longrightarrow> unat (w + 1) = unat w + 1"
  by (simp add: unat_word_ariths)

lemma unat_minus_u32: "unat (b :: u32) \<le> unat a \<Longrightarrow> unat (a - b) = unat a - unat b"
  by (simp add: unat_sub word_le_nat_alt)

end
