(* ===== verification/VectorBitSet.thy ===== *)
theory VectorBitSet
  imports Prelude
begin

text \<open>
  The set representation of \<^verbatim>\<open>include/util/VectorBitSet.h\<close>: the elements in a vector, and a
  byte per possible element that says whether it is in.
\<close>

record vbs =
  vec :: "arg list"
  bits :: "u8 list"

definition vbs_new :: vbs where
  "vbs_new = \<lparr>vec = [], bits = []\<rparr>"

definition mk_vbs :: "arg list \<Rightarrow> u8 list \<Rightarrow> vbs" where
  "mk_vbs new_vector new_bitset = \<lparr>vec = new_vector, bits = new_bitset\<rparr>"

definition clear :: "vbs \<Rightarrow> vbs" where
  "clear v = v\<lparr>bits := [], vec := []\<rparr>"

text \<open>
  \<^verbatim>\<open>copy\<close>: one loop over the indices of the bit set, which also copies the vector as long as
  the index is inside it.
\<close>

definition copy_step :: "vbs \<Rightarrow> nat \<Rightarrow> arg list \<times> u8 list \<Rightarrow> (arg list \<times> u8 list) res" where
  "copy_step v i = (\<lambda>(cv, cb).
     bind_res (if i < length (vec v) then bind_res (get_at (vec v) i) (\<lambda>x. Inr (cv @ [x]))
               else Inr cv) (\<lambda>cv'.
     bind_res (get_at (bits v) i) (\<lambda>b.
     bind_res (set_at cb i b) (\<lambda>cb'. Inr (cv', cb')))))"

definition copy :: "vbs \<Rightarrow> vbs res" where
  "copy v = bind_res
     (fold_res (copy_step v) [0..<length (bits v)] ([], resize (length (bits v)) 0 []))
     (\<lambda>(cv, cb). Inr (mk_vbs cv cb))"

section \<open>The representation invariant\<close>

text \<open>A set of arguments below \<open>n\<close>: the vector has no duplicates and the bytes agree with it.\<close>

definition vbs_ok :: "nat \<Rightarrow> vbs \<Rightarrow> bool" where
  "vbs_ok n v \<longleftrightarrow> distinct (vec v) \<and> length (bits v) = n \<and> (\<forall>x \<in> set (vec v). x < n) \<and>
     (\<forall>i < n. (bits v ! i \<noteq> 0) = (i \<in> set (vec v)))"

lemma vbs_okD:
  assumes "vbs_ok n v"
  shows "distinct (vec v)" "length (bits v) = n" "\<And>x. x \<in> set (vec v) \<Longrightarrow> x < n"
    "\<And>i. i < n \<Longrightarrow> (bits v ! i \<noteq> 0) = (i \<in> set (vec v))"
  using assms by (auto simp: vbs_ok_def)

lemma vbs_ok_length: "vbs_ok n v \<Longrightarrow> length (vec v) \<le> n"
proof -
  assume ok: "vbs_ok n v"
  then have "set (vec v) \<subseteq> {..<n}" by (auto simp: vbs_ok_def)
  then have "card (set (vec v)) \<le> n" using card_mono [of "{..<n}"] by simp
  with ok show ?thesis by (simp add: vbs_ok_def distinct_card)
qed

lemma vbs_bit_test: "vbs_ok n v \<Longrightarrow> i < n \<Longrightarrow>
    get_at (bits v) i = Inr (bits v ! i) \<and> (bits v ! i \<noteq> 0) = (i \<in> set (vec v))"
  by (simp add: vbs_ok_def)

text \<open>Adding a fresh element: what the loops that build such a set do.\<close>

lemma vbs_ok_snoc:
  "vbs_ok n \<lparr>vec = xs, bits = bs\<rparr> \<Longrightarrow> x < n \<Longrightarrow> x \<notin> set xs \<Longrightarrow>
   vbs_ok n \<lparr>vec = xs @ [x], bits = bs[x := 1]\<rparr>"
  by (auto simp: vbs_ok_def nth_list_update)

lemma vbs_ok_empty: "vbs_ok n \<lparr>vec = [], bits = replicate n 0\<rparr>"
  by (simp add: vbs_ok_def)

section \<open>What copying does\<close>

lemma copy_result: "copy v = Inr (mk_vbs (take (length (bits v)) (vec v)) (bits v))"
proof -
  define I where "I = (\<lambda>(pre :: nat list) (cv :: nat list, cb :: u8 list).
     cv = take (length pre) (vec v) \<and> length cb = length (bits v) \<and>
     take (length pre) cb = take (length pre) (bits v))"
  have "\<exists>s'. fold_res (copy_step v) [0..<length (bits v)] ([], resize (length (bits v)) 0 []) = Inr s'
      \<and> I [0..<length (bits v)] s'"
  proof (rule fold_res_invariant)
    show "I [] ([], resize (length (bits v)) 0 [])" by (simp add: I_def)
  next
    fix pre i post and s :: "nat list \<times> u8 list"
    assume split: "[0..<length (bits v)] = pre @ i # post" and inv: "I pre s"
    have i: "i = length pre" "i < length (bits v)"
      using arg_cong [OF split, of "\<lambda>l. l ! length pre"] arg_cong [OF split, of length]
      by (auto simp: nth_append)
    obtain cv cb where s: "s = (cv, cb)" by (cases s)
    have "take (Suc i) (cb[i := bits v ! i]) = take (Suc i) (bits v)"
      using inv i s by (simp add: I_def take_Suc_conv_app_nth)
    moreover have "take (Suc i) (vec v) = take i (vec v) @ [vec v ! i]" if "i < length (vec v)"
      using that by (rule take_Suc_conv_app_nth)
    ultimately show "\<exists>s'. copy_step v i s = Inr s' \<and> I (pre @ [i]) s'"
      using inv i s by (auto simp: I_def copy_step_def)
  qed
  then show ?thesis by (auto simp: copy_def I_def)
qed

lemma copy_id: "vbs_ok n v \<Longrightarrow> copy v = Inr (mk_vbs (vec v) (bits v))"
  using vbs_ok_length [of n v] by (simp add: copy_result vbs_ok_def)

lemma mk_vbs_simps [simp]: "vec (mk_vbs a b) = a" "bits (mk_vbs a b) = b"
  by (simp_all add: mk_vbs_def)

lemma mk_vbs_same [simp]: "mk_vbs (vec v) (bits v) = v" for v :: vbs
  by (simp add: mk_vbs_def)

section \<open>Properties\<close>

text \<open>
  C28: \<open>copy\<close> never reads out of range.  It copies the bytes, and the elements up to the number of
  bytes, so on a well-formed set it is the identity.
\<close>

theorem copy_correct:
  "copy v = Inr (mk_vbs (take (length (bits v)) (vec v)) (bits v)) \<and> (vbs_ok n v \<longrightarrow> copy v = Inr v)"
  using copy_result [of v] copy_id [of n v] by simp

lemma copy_correct_witness:
  "copy \<lparr>vec = [2, 0], bits = [1, 0, 1]\<rparr> = Inr \<lparr>vec = [2, 0], bits = [1, 0, 1]\<rparr>"
proof -
  have "i < 3 \<longleftrightarrow> i = 0 \<or> i = 1 \<or> i = (2 :: nat)" for i by presburger
  then have "vbs_ok 3 \<lparr>vec = [2, 0], bits = [1, 0, 1]\<rparr>" by (auto simp: vbs_ok_def)
  then show ?thesis using copy_correct [of "\<lparr>vec = [2, 0], bits = [1, 0, 1]\<rparr>" 3] by simp
qed

end
