(* ===== verification/AF.thy ===== *)
theory AF
  imports VectorBitSet
begin

text \<open>
  The framework of \<^verbatim>\<open>include/logic/AF.h\<close> and \<^verbatim>\<open>src/logic/AF.cpp\<close>: the set of attacks filled by
  \<open>add_attack\<close>, and the adjacency vectors and bytes that \<open>finish_initilization\<close> derives from it.
  The iteration order of the \<^verbatim>\<open>std::unordered_set\<close> is the argument \<open>ord\<close> of that function: any
  list that holds every attack once.
\<close>

record af =
  num_args :: u32
  attackers :: "vbs list"
  victims :: "vbs list"
  self_attack :: "u8 list"
  attacks :: "(arg \<times> arg) set"
  symmetric_attacks :: "(arg \<times> arg) set"
  distance_to_query :: "u32 list"

definition af_new :: af where
  "af_new = \<lparr>num_args = 0, attackers = [], victims = [], self_attack = [], attacks = {},
     symmetric_attacks = {}, distance_to_query = []\<rparr>"

definition add_attack :: "arg \<Rightarrow> arg \<Rightarrow> af \<Rightarrow> bool \<times> af" where
  "add_attack attacker victim f =
     (if attacker < 0 \<or> victim < 0 then (False, f)
      else if (attacker, victim) \<in> attacks f then (False, f)
      else (True, f\<lparr>attacks := insert (attacker, victim) (attacks f)\<rparr>))"

definition exists_attack :: "af \<Rightarrow> arg \<Rightarrow> arg \<Rightarrow> bool" where
  "exists_attack f attacker victim \<longleftrightarrow> (attacker, victim) \<in> attacks f"

text \<open>The slots of every vector: \<open>static_cast<uint64_t>(num_args) + 1\<close>, index 0 included.\<close>

definition n_slots :: "af \<Rightarrow> nat" where
  "n_slots f = unat (num_args f) + 1"

text \<open>The sizes are computed in \<^verbatim>\<open>uint64_t\<close>, so \<open>num_args + 1\<close> does not wrap here.\<close>

definition initialize :: "u32 \<Rightarrow> af \<Rightarrow> af" where
  "initialize number_args f =
     (let n = unat number_args + 1
      in f\<lparr>num_args := number_args,
           attackers := resize n vbs_new (attackers f),
           victims := resize n vbs_new (victims f),
           self_attack := map (\<lambda>_. 0) (resize n 0 (self_attack f)),
           distance_to_query := map (\<lambda>_. 0) (resize n 0 (distance_to_query f))\<rparr>)"

text \<open>
  \<open>source\<close> and \<open>target\<close> are \<^verbatim>\<open>int32_t\<close> copies of \<^verbatim>\<open>uint32_t\<close> values: used as an index, a negative
  one becomes a \<^verbatim>\<open>size_t\<close> near \<open>2 ^ 64\<close>; pushed into a \<^verbatim>\<open>uint32_t\<close> vector or a pair of the set, it
  is the original value again.
\<close>

definition int32_index :: "arg \<Rightarrow> nat" where
  "int32_index a = (if a < 2 ^ 31 then a else a + (2 ^ 64 - 2 ^ 32))"

definition push_at :: "'a list list \<Rightarrow> nat \<Rightarrow> 'a \<Rightarrow> 'a list list res" where
  "push_at vs i x = bind_res (get_at vs i) (\<lambda>v. set_at vs i (v @ [x]))"

definition set_bit_at :: "u8 list list \<Rightarrow> nat \<Rightarrow> nat \<Rightarrow> u8 list list res" where
  "set_bit_at bs i j =
     bind_res (get_at bs i) (\<lambda>row. bind_res (set_at row j 1) (\<lambda>row'. set_at bs i row'))"

record fin_state =
  attackers_vectors :: "arg list list"
  attackers_bitsets :: "u8 list list"
  victims_vectors :: "arg list list"
  victims_bitsets :: "u8 list list"
  fin_self :: "u8 list"
  fin_symmetric :: "(arg \<times> arg) set"

definition finish_step :: "af \<Rightarrow> arg \<times> arg \<Rightarrow> fin_state \<Rightarrow> fin_state res" where
  "finish_step f attack st =
     (let source = int32_index (fst attack); target = int32_index (snd attack) in
      bind_res (push_at (attackers_vectors st) target (fst attack)) (\<lambda>av.
      bind_res (set_bit_at (attackers_bitsets st) target source) (\<lambda>ab.
      bind_res (push_at (victims_vectors st) source (snd attack)) (\<lambda>vv.
      bind_res (set_bit_at (victims_bitsets st) source target) (\<lambda>vb.
      bind_res (if source = target then set_at (fin_self st) source 1 else Inr (fin_self st)) (\<lambda>sa.
      Inr \<lparr>attackers_vectors = av, attackers_bitsets = ab, victims_vectors = vv,
           victims_bitsets = vb, fin_self = sa,
           fin_symmetric = (if (snd attack, fst attack) \<in> attacks f
             then insert (snd attack, fst attack) (insert attack (fin_symmetric st))
             else fin_symmetric st)\<rparr>))))))"

text \<open>The two closing loops: every row becomes a \<^verbatim>\<open>VectorBitSet\<close>.\<close>

definition build_rows :: "arg list list \<Rightarrow> u8 list list \<Rightarrow> vbs list \<Rightarrow> vbs list res" where
  "build_rows vs bs rows = fold_res (\<lambda>i rows.
     bind_res (get_at vs i) (\<lambda>v. bind_res (get_at bs i) (\<lambda>b. set_at rows i (mk_vbs v b))))
     [0..<length rows] rows"

definition finish_initilization :: "(arg \<times> arg) list \<Rightarrow> af \<Rightarrow> af res" where
  "finish_initilization ord f =
     (let n = n_slots f;
          st0 = \<lparr>attackers_vectors = replicate n [], attackers_bitsets = replicate n (replicate n 0),
                 victims_vectors = replicate n [], victims_bitsets = replicate n (replicate n 0),
                 fin_self = self_attack f, fin_symmetric = symmetric_attacks f\<rparr> in
      bind_res (fold_res (finish_step f) ord st0) (\<lambda>st.
      bind_res (build_rows (attackers_vectors st) (attackers_bitsets st) (attackers f)) (\<lambda>att.
      bind_res (build_rows (victims_vectors st) (victims_bitsets st) (victims f)) (\<lambda>vic.
      Inr (f\<lparr>attackers := att, victims := vic, self_attack := fin_self st,
             symmetric_attacks := fin_symmetric st\<rparr>)))))"

text \<open>The two reads of the adjacency that every other component uses.\<close>

definition attackers_of :: "af \<Rightarrow> arg \<Rightarrow> arg list res" where
  "attackers_of f a = bind_res (get_at (attackers f) a) (\<lambda>v. Inr (vec v))"

definition victims_of :: "af \<Rightarrow> arg \<Rightarrow> arg list res" where
  "victims_of f a = bind_res (get_at (victims f) a) (\<lambda>v. Inr (vec v))"

definition victim_bit :: "af \<Rightarrow> arg \<Rightarrow> arg \<Rightarrow> bool res" where
  "victim_bit f a b =
     bind_res (get_at (victims f) a) (\<lambda>v. bind_res (get_at (bits v) b) (\<lambda>w. Inr (w \<noteq> 0)))"

section \<open>Well-formed frameworks\<close>

definition nodes :: "af \<Rightarrow> arg set" where
  "nodes f = {1..unat (num_args f)}"

text \<open>The attacks are between arguments the framework has: what the input format promises.\<close>

definition attacks_in_range :: "af \<Rightarrow> bool" where
  "attacks_in_range f \<longleftrightarrow> attacks f \<subseteq> nodes f \<times> nodes f \<and> n_slots f \<le> 2 ^ 31"

definition rows_ok :: "nat \<Rightarrow> vbs list \<Rightarrow> (arg \<times> arg) set \<Rightarrow> bool" where
  "rows_ok n rows r \<longleftrightarrow> length rows = n \<and>
     (\<forall>i < n. vbs_ok n (rows ! i) \<and> set (vec (rows ! i)) = {x. (i, x) \<in> r})"

definition af_ok :: "af \<Rightarrow> bool" where
  "af_ok f \<longleftrightarrow> attacks_in_range f \<and>
     rows_ok (n_slots f) (attackers f) ((attacks f)\<inverse>) \<and>
     rows_ok (n_slots f) (victims f) (attacks f) \<and>
     length (distance_to_query f) = n_slots f"

lemma finite_nodes [simp, intro]: "finite (nodes f)"
  by (simp add: nodes_def)

lemma nodes_less: "a \<in> nodes f \<Longrightarrow> a < n_slots f"
  by (simp add: nodes_def n_slots_def)

lemma attacks_in_rangeD:
  "attacks_in_range f \<Longrightarrow> (a, b) \<in> attacks f \<Longrightarrow> a < n_slots f \<and> b < n_slots f"
  unfolding attacks_in_range_def using nodes_less by blast

lemma af_okD:
  assumes "af_ok f"
  shows "attacks f \<subseteq> nodes f \<times> nodes f" "n_slots f \<le> 2 ^ 31"
    "rows_ok (n_slots f) (attackers f) ((attacks f)\<inverse>)"
    "rows_ok (n_slots f) (victims f) (attacks f)"
    "length (distance_to_query f) = n_slots f"
  using assms by (auto simp: af_ok_def attacks_in_range_def)

lemma rows_okD:
  assumes "rows_ok n rows r" "i < n"
  shows "length rows = n" "vbs_ok n (rows ! i)" "set (vec (rows ! i)) = {x. (i, x) \<in> r}"
  using assms by (auto simp: rows_ok_def)

lemma attackers_of_ok:
  "af_ok f \<Longrightarrow> a < n_slots f \<Longrightarrow>
   \<exists>xs. attackers_of f a = Inr xs \<and> distinct xs \<and> set xs = {b. (b, a) \<in> attacks f}"
  using rows_okD [OF af_okD(3), of f a]
  by (auto simp: attackers_of_def vbs_ok_def)

lemma victims_of_ok:
  "af_ok f \<Longrightarrow> a < n_slots f \<Longrightarrow>
   \<exists>xs. victims_of f a = Inr xs \<and> distinct xs \<and> set xs = {b. (a, b) \<in> attacks f}"
  using rows_okD [OF af_okD(4), of f a]
  by (auto simp: victims_of_def vbs_ok_def)

lemma victim_bit_ok:
  "af_ok f \<Longrightarrow> a < n_slots f \<Longrightarrow> b < n_slots f \<Longrightarrow>
   victim_bit f a b = Inr ((a, b) \<in> attacks f)"
  using rows_okD [OF af_okD(4), of f a]
  by (auto simp: victim_bit_def vbs_ok_def)

section \<open>Building the adjacency\<close>

definition rows_rep :: "nat \<Rightarrow> arg list list \<Rightarrow> u8 list list \<Rightarrow> (arg \<times> arg) set \<Rightarrow> bool" where
  "rows_rep n vs bs r \<longleftrightarrow> length vs = n \<and> length bs = n \<and>
     (\<forall>i < n. vbs_ok n (mk_vbs (vs ! i) (bs ! i)) \<and> set (vs ! i) = {x. (i, x) \<in> r})"

lemma rows_rep_empty: "rows_rep n (replicate n []) (replicate n (replicate n 0)) {}"
  by (auto simp: rows_rep_def vbs_ok_def)

lemma rows_rep_push:
  assumes rep: "rows_rep n vs bs r" and i: "i < n" and x: "x < n" and new: "(i, x) \<notin> r"
  shows "\<exists>vs' bs'. push_at vs i x = Inr vs' \<and> set_bit_at bs i x = Inr bs' \<and>
           rows_rep n vs' bs' (insert (i, x) r)"
proof -
  let ?vs = "vs[i := vs ! i @ [x]]" and ?bs = "bs[i := (bs ! i)[x := 1]]"
  have row: "vbs_ok n (mk_vbs (vs ! i) (bs ! i))" "set (vs ! i) = {x. (i, x) \<in> r}"
    and len: "length vs = n" "length bs = n" "length (bs ! i) = n"
    using rep i by (auto simp: rows_rep_def vbs_ok_def)
  have "vbs_ok n (mk_vbs (vs ! i @ [x]) ((bs ! i)[x := 1]))"
    using vbs_ok_snoc [of n "vs ! i" "bs ! i" x] row x new by (simp add: mk_vbs_def)
  then have "rows_rep n ?vs ?bs (insert (i, x) r)"
    using rep row i by (auto simp: rows_rep_def list_update_fill)
  moreover have "push_at vs i x = Inr ?vs" "set_bit_at bs i x = Inr ?bs"
    using i x len by (simp_all add: push_at_def set_bit_at_def)
  ultimately show ?thesis by blast
qed

lemma build_rows_ok:
  assumes "rows_rep n vs bs r" and "length rows = n"
  shows "\<exists>rows'. build_rows vs bs rows = Inr rows' \<and> rows_ok n rows' r"
proof -
  let ?f = "\<lambda>i rows. bind_res (get_at vs i) (\<lambda>v. bind_res (get_at bs i) (\<lambda>b. set_at rows i (mk_vbs v b)))"
  let ?I = "\<lambda>pre rs. length rs = n \<and> (\<forall>i \<in> set pre. rs ! i = mk_vbs (vs ! i) (bs ! i))"
  have "\<exists>s'. fold_res ?f [0..<length rows] rows = Inr s' \<and> ?I [0..<length rows] s'"
  proof (rule fold_res_invariant)
    show "?I [] rows" using assms(2) by simp
  next
    fix pre i post s
    assume split: "[0..<length rows] = pre @ i # post" and inv: "?I pre s"
    have "i \<in> set [0..<length rows]" by (simp add: split)
    then have "i < n" using assms(2) by simp
    then show "\<exists>s'. ?f i s = Inr s' \<and> ?I (pre @ [i]) s'"
      using inv assms(1) by (auto simp: rows_rep_def nth_list_update)
  qed
  then show ?thesis using assms by (auto simp: build_rows_def rows_ok_def rows_rep_def)
qed

definition fin_inv :: "af \<Rightarrow> (arg \<times> arg) list \<Rightarrow> fin_state \<Rightarrow> bool" where
  "fin_inv f pre st \<longleftrightarrow>
     rows_rep (n_slots f) (attackers_vectors st) (attackers_bitsets st) ((set pre)\<inverse>) \<and>
     rows_rep (n_slots f) (victims_vectors st) (victims_bitsets st) (set pre) \<and>
     length (fin_self st) = n_slots f \<and>
     (\<forall>i < n_slots f. (fin_self st ! i \<noteq> 0) = ((i, i) \<in> set pre)) \<and>
     fin_symmetric st = {(a, b). (a, b) \<in> attacks f \<and> (b, a) \<in> attacks f \<and>
                                 ((a, b) \<in> set pre \<or> (b, a) \<in> set pre)}"

lemma int32_index_small: "a < 2 ^ 31 \<Longrightarrow> int32_index a = a"
  by (simp add: int32_index_def)

lemma finish_step_inv:
  assumes inv: "fin_inv f pre st" and new: "(a, b) \<notin> set pre" and att: "(a, b) \<in> attacks f"
    and range: "a < n_slots f" "b < n_slots f" "n_slots f \<le> 2 ^ 31"
  shows "\<exists>st'. finish_step f (a, b) st = Inr st' \<and> fin_inv f (pre @ [(a, b)]) st'"
proof -
  have idx: "int32_index a = a" "int32_index b = b" using range by (auto intro: int32_index_small)
  have "rows_rep (n_slots f) (attackers_vectors st) (attackers_bitsets st) ((set pre)\<inverse>)"
    and "rows_rep (n_slots f) (victims_vectors st) (victims_bitsets st) (set pre)"
    using inv by (auto simp: fin_inv_def)
  from rows_rep_push [OF this(1) range(2,1)] rows_rep_push [OF this(2) range(1,2)]
  obtain av ab vv vb where
    "push_at (attackers_vectors st) b a = Inr av" "set_bit_at (attackers_bitsets st) b a = Inr ab"
    "rows_rep (n_slots f) av ab (insert (b, a) ((set pre)\<inverse>))"
    "push_at (victims_vectors st) a b = Inr vv" "set_bit_at (victims_bitsets st) a b = Inr vb"
    "rows_rep (n_slots f) vv vb (insert (a, b) (set pre))"
    using new by auto
  note rows = this
  have conv: "insert (b, a) ((set pre)\<inverse>) = (set (pre @ [(a, b)]))\<inverse>"
    "insert (a, b) (set pre) = set (pre @ [(a, b)])" by auto
  have "\<exists>sa. (if a = b then set_at (fin_self st) a 1 else Inr (fin_self st)) = Inr sa \<and>
      length sa = n_slots f \<and> (\<forall>i < n_slots f. (sa ! i \<noteq> 0) = ((i, i) \<in> set (pre @ [(a, b)])))"
    using inv range by (cases "a = b") (auto simp: fin_inv_def list_update_fill)
  then obtain sa where sa: "(if a = b then set_at (fin_self st) a 1 else Inr (fin_self st)) = Inr sa"
    "length sa = n_slots f" "\<forall>i < n_slots f. (sa ! i \<noteq> 0) = ((i, i) \<in> set (pre @ [(a, b)]))"
    by blast
  let ?sy = "if (b, a) \<in> attacks f then insert (b, a) (insert (a, b) (fin_symmetric st))
             else fin_symmetric st"
  have sy: "?sy = {(x, y). (x, y) \<in> attacks f \<and> (y, x) \<in> attacks f \<and>
      ((x, y) \<in> set (pre @ [(a, b)]) \<or> (y, x) \<in> set (pre @ [(a, b)]))}"
    using inv att unfolding fin_inv_def by (cases "(b, a) \<in> attacks f") auto
  have "finish_step f (a, b) st = Inr \<lparr>attackers_vectors = av, attackers_bitsets = ab,
      victims_vectors = vv, victims_bitsets = vb, fin_self = sa, fin_symmetric = ?sy\<rparr>"
    using rows sa(1) by (simp add: finish_step_def idx Let_def)
  moreover have "fin_inv f (pre @ [(a, b)]) \<lparr>attackers_vectors = av, attackers_bitsets = ab,
      victims_vectors = vv, victims_bitsets = vb, fin_self = sa, fin_symmetric = ?sy\<rparr>"
    using rows sa(2,3) sy unfolding fin_inv_def conv by simp
  ultimately show ?thesis by blast
qed

lemma finish_loop_inv:
  assumes range: "attacks_in_range f" and ord: "distinct ord" "set ord = attacks f"
    and st0: "fin_inv f [] st0"
  shows "\<exists>st. fold_res (finish_step f) ord st0 = Inr st \<and> fin_inv f ord st"
proof (rule fold_res_invariant)
  show "fin_inv f [] st0" by (rule st0)
next
  fix pre x post s
  assume split: "ord = pre @ x # post" and inv: "fin_inv f pre s"
  obtain a b where x: "x = (a, b)" by (cases x)
  have ab: "(a, b) \<in> attacks f" using ord(2) split x by auto
  then have "a < n_slots f" "b < n_slots f"
    using attacks_in_rangeD [OF range] by auto
  then show "\<exists>s'. finish_step f x s = Inr s' \<and> fin_inv f (pre @ [x]) s'"
    using finish_step_inv [OF inv _ ab] ord(1) range split x
    by (auto simp: attacks_in_range_def)
qed

definition fresh_af :: "af \<Rightarrow> bool" where
  "fresh_af f \<longleftrightarrow> length (attackers f) = n_slots f \<and> length (victims f) = n_slots f \<and>
     self_attack f = replicate (n_slots f) 0 \<and> symmetric_attacks f = {} \<and>
     distance_to_query f = replicate (n_slots f) 0"

lemma finish_ok:
  assumes fresh: "fresh_af f" and range: "attacks_in_range f"
    and ord: "distinct ord" "set ord = attacks f"
  shows "\<exists>g. finish_initilization ord f = Inr g \<and> af_ok g \<and> num_args g = num_args f \<and>
           attacks g = attacks f \<and> distance_to_query g = replicate (n_slots f) 0 \<and>
           (\<forall>i < n_slots f. (self_attack g ! i \<noteq> 0) = ((i, i) \<in> attacks f)) \<and>
           symmetric_attacks g = {(a, b). (a, b) \<in> attacks f \<and> (b, a) \<in> attacks f}"
proof -
  let ?n = "n_slots f"
  let ?st0 = "\<lparr>attackers_vectors = replicate ?n [], attackers_bitsets = replicate ?n (replicate ?n 0),
    victims_vectors = replicate ?n [], victims_bitsets = replicate ?n (replicate ?n 0),
    fin_self = self_attack f, fin_symmetric = symmetric_attacks f\<rparr>"
  have "fin_inv f [] ?st0"
    using fresh rows_rep_empty [of ?n] by (simp add: fin_inv_def fresh_af_def del: replicate.simps)
  from finish_loop_inv [OF range ord this] obtain st
    where st: "fold_res (finish_step f) ord ?st0 = Inr st" "fin_inv f ord st" by blast
  have len: "length (attackers f) = ?n" "length (victims f) = ?n"
    using fresh by (auto simp: fresh_af_def)
  have reps: "rows_rep ?n (attackers_vectors st) (attackers_bitsets st) ((attacks f)\<inverse>)"
    "rows_rep ?n (victims_vectors st) (victims_bitsets st) (attacks f)"
    using st(2) ord(2) by (simp_all add: fin_inv_def)
  obtain att where att: "build_rows (attackers_vectors st) (attackers_bitsets st) (attackers f) = Inr att"
    "rows_ok ?n att ((attacks f)\<inverse>)" using build_rows_ok [OF reps(1) len(1)] by blast
  obtain vic where vic: "build_rows (victims_vectors st) (victims_bitsets st) (victims f) = Inr vic"
    "rows_ok ?n vic (attacks f)" using build_rows_ok [OF reps(2) len(2)] by blast
  note rows = att vic
  let ?g = "f\<lparr>attackers := att, victims := vic, self_attack := fin_self st,
    symmetric_attacks := fin_symmetric st\<rparr>"
  have n: "n_slots ?g = n_slots f" by (simp add: n_slots_def)
  have "finish_initilization ord f = Inr ?g"
    using st(1) rows by (simp add: finish_initilization_def Let_def)
  moreover have "af_ok ?g"
    using rows range fresh unfolding af_ok_def attacks_in_range_def nodes_def n fresh_af_def by simp
  moreover have "symmetric_attacks ?g = {(a, b). (a, b) \<in> attacks f \<and> (b, a) \<in> attacks f}"
    using st(2) ord(2) unfolding fin_inv_def by auto
  ultimately show ?thesis using st(2) fresh ord(2) by (simp add: fin_inv_def fresh_af_def)
qed

lemma fresh_initialize [simp]: "attackers f = [] \<Longrightarrow> victims f = [] \<Longrightarrow> symmetric_attacks f = {} \<Longrightarrow>
    fresh_af (initialize n f)"
  by (simp add: fresh_af_def initialize_def Let_def map_replicate_const n_slots_def)

lemma initialize_attacks [simp]:
  "attacks (initialize n f) = attacks f" "num_args (initialize n f) = n"
  by (simp_all add: initialize_def Let_def)

lemma add_attack_simps [simp]:
  "attacks (snd (add_attack a b f)) = insert (a, b) (attacks f)"
  "num_args (snd (add_attack a b f)) = num_args f"
  "fresh_af (snd (add_attack a b f)) = fresh_af f"
  by (auto simp: add_attack_def fresh_af_def n_slots_def)

section \<open>The interface the other components rely on\<close>

text \<open>
  What the reduct, the preprocessor, the encoding and the sceptical check use of a framework:
  the list of attackers, the list of victims and the attack test, all total on the arguments.
\<close>

locale attack_graph =
  fixes invar :: "'f \<Rightarrow> bool"
    and slots :: "'f \<Rightarrow> nat"
    and att :: "'f \<Rightarrow> (arg \<times> arg) set"
    and list_attackers :: "'f \<Rightarrow> arg \<Rightarrow> arg list res"
    and list_victims :: "'f \<Rightarrow> arg \<Rightarrow> arg list res"
    and test_attack :: "'f \<Rightarrow> arg \<Rightarrow> arg \<Rightarrow> bool res"
  assumes att_range: "invar f \<Longrightarrow> (a, b) \<in> att f \<Longrightarrow> a < slots f \<and> b < slots f"
    and attackers_law: "invar f \<Longrightarrow> a < slots f \<Longrightarrow>
      \<exists>xs. list_attackers f a = Inr xs \<and> distinct xs \<and> set xs = {b. (b, a) \<in> att f}"
    and victims_law: "invar f \<Longrightarrow> a < slots f \<Longrightarrow>
      \<exists>xs. list_victims f a = Inr xs \<and> distinct xs \<and> set xs = {b. (a, b) \<in> att f}"
    and test_law: "invar f \<Longrightarrow> a < slots f \<Longrightarrow> b < slots f \<Longrightarrow>
      test_attack f a b = Inr ((a, b) \<in> att f)"
begin

text \<open>A loop that looks for an attacker of \<open>b\<close> in a list.\<close>

lemma any_attacker:
  assumes "invar f" "b < slots f" "\<forall>x \<in> set xs. x < slots f"
  shows "fold_res (\<lambda>x found. if found then Inr True else test_attack f x b) xs False =
           Inr (\<exists>x \<in> set xs. (x, b) \<in> att f)"
proof -
  have "fold_res (\<lambda>x found. if found then Inr True else test_attack f x b) xs True = Inr True" for xs
    by (induction xs) auto
  note found = this
  show ?thesis using assms
  proof (induction xs)
    case (Cons a xs)
    then show ?case by (cases "(a, b) \<in> att f") (auto simp: test_law found)
  qed simp
qed

text \<open>A loop that keeps the elements other than \<open>a\<close> that \<open>a\<close> does not attack.\<close>

lemma keep_survivors:
  assumes inv: "invar f" and a: "a < slots f" and ok: "vbs_ok (slots f) v"
  shows "\<exists>bs. fold_res (\<lambda>x (rv, rb).
           bind_res (if x = a then Inr True else test_attack f a x) (\<lambda>skip.
             if skip then Inr (rv, rb)
             else bind_res (set_at rb x (1 :: u8)) (\<lambda>rb'. Inr (rv @ [x], rb'))))
           (vec v) ([], replicate (slots f) 0) = Inr (filter (\<lambda>x. x \<noteq> a \<and> (a, x) \<notin> att f) (vec v), bs)
         \<and> vbs_ok (slots f) (mk_vbs (filter (\<lambda>x. x \<noteq> a \<and> (a, x) \<notin> att f) (vec v)) bs)"
    (is "\<exists>bs. fold_res ?f _ _ = _ \<and> _")
proof -
  let ?keep = "\<lambda>xs. filter (\<lambda>x. x \<noteq> a \<and> (a, x) \<notin> att f) xs"
  let ?I = "\<lambda>pre (rv, rb). rv = ?keep pre \<and> vbs_ok (slots f) (mk_vbs rv rb)"
  have "\<exists>s'. fold_res ?f (vec v) ([], replicate (slots f) 0) = Inr s' \<and> ?I (vec v) s'"
  proof (rule fold_res_invariant)
    show "?I [] ([], replicate (slots f) 0)" by (simp add: vbs_ok_def)
  next
    fix pre x post and s :: "arg list \<times> u8 list"
    assume split: "vec v = pre @ x # post" and inv': "?I pre s"
    obtain rv rb where s: "s = (rv, rb)" by (cases s)
    have x: "x < slots f" "x \<notin> set pre" using ok split by (auto simp: vbs_ok_def)
    show "\<exists>s'. ?f x s = Inr s' \<and> ?I (pre @ [x]) s'"
    proof (cases "x = a \<or> (a, x) \<in> att f")
      case True
      then show ?thesis using inv' s inv a x by (auto simp: test_law)
    next
      case False
      have "vbs_ok (slots f) (mk_vbs (rv @ [x]) (rb[x := 1]))" "x < length rb"
        using vbs_ok_snoc [of "slots f" rv rb x] inv' s x by (auto simp: mk_vbs_def vbs_ok_def)
      then show ?thesis using False inv' s inv a x by (auto simp: test_law)
    qed
  qed
  then show ?thesis by auto
qed

end

interpretation graph: attack_graph af_ok n_slots attacks attackers_of victims_of victim_bit
proof
  fix f a b assume "af_ok f" "(a, b) \<in> attacks f"
  then show "a < n_slots f \<and> b < n_slots f" using af_okD(1) nodes_less by blast
qed (use attackers_of_ok victims_of_ok victim_bit_ok in auto)

section \<open>A small framework\<close>

text \<open>
  Arguments 1 and 2 attack each other and both attack 3, which attacks 4.  The preferred extensions
  are \<open>{1, 4}\<close> and \<open>{2, 4}\<close>: 4 is accepted by all, 1 is not, and nothing is unattacked.
\<close>

definition ex_attacks :: "(arg \<times> arg) list" where
  "ex_attacks = [(1, 2), (2, 1), (1, 3), (2, 3), (3, 4)]"

definition ex_start :: af where
  "ex_start = (initialize 4 af_new)\<lparr>attacks := set ex_attacks\<rparr>"

definition ex_af :: af where
  "ex_af = (case finish_initilization ex_attacks ex_start of Inr g \<Rightarrow> g | Inl e \<Rightarrow> ex_start)"

lemma ex_start_ok:
  "fresh_af ex_start" "attacks_in_range ex_start" "n_slots ex_start = 5" "attacks ex_start = set ex_attacks"
  by (auto simp: ex_start_def ex_attacks_def attacks_in_range_def nodes_def n_slots_def fresh_af_def
      initialize_def af_new_def Let_def map_replicate_const)

lemma ex_af_ok:
  "af_ok ex_af" "num_args ex_af = 4" "attacks ex_af = set ex_attacks" "n_slots ex_af = 5"
  "nodes ex_af = {1..4}" "distance_to_query ex_af = replicate 5 0"
proof -
  have "distinct ex_attacks" by (simp add: ex_attacks_def)
  then obtain g where g: "finish_initilization ex_attacks ex_start = Inr g" "af_ok g"
    "num_args g = num_args ex_start" "attacks g = attacks ex_start"
    "distance_to_query g = replicate (n_slots ex_start) 0"
    using finish_ok [OF ex_start_ok(1,2), of ex_attacks] ex_start_ok(4) by auto
  then have e: "ex_af = g" by (simp add: ex_af_def)
  have n: "num_args ex_start = 4" by (simp add: ex_start_def)
  show "af_ok ex_af" "num_args ex_af = 4" "attacks ex_af = set ex_attacks"
    "distance_to_query ex_af = replicate 5 0"
    using g e n ex_start_ok by simp_all
  then show "n_slots ex_af = 5" "nodes ex_af = {1..4}" by (simp_all add: n_slots_def nodes_def)
qed

lemma all_less_5: "(\<forall>a < 5. P a) \<longleftrightarrow> P 0 \<and> P 1 \<and> P 2 \<and> P 3 \<and> P (4 :: nat)"
proof -
  have "{..<5 :: nat} = {0, 1, 2, 3, 4}" by (simp add: lessThan_nat_numeral lessThan_Suc insert_commute)
  moreover have "(\<forall>a < 5. P a) \<longleftrightarrow> (\<forall>a \<in> {..<5}. P a)" by (simp add: Ball_def)
  ultimately show ?thesis by simp
qed

section \<open>Properties\<close>

text \<open>
  C15: the framework after \<open>finish_initilization\<close>.  Whatever order the hash set is iterated in, every
  row of \<open>attackers\<close> and \<open>victims\<close> holds exactly the neighbours, without repetition and with the
  matching bytes; the self-attack bytes and the symmetric attacks are right.
\<close>

theorem finish_builds_adjacency:
  assumes "fresh_af f" "attacks_in_range f" "distinct ord" "set ord = attacks f"
  shows "\<exists>g. finish_initilization ord f = Inr g \<and> attacks g = attacks f \<and>
    rows_ok (n_slots f) (attackers g) ((attacks f)\<inverse>) \<and> rows_ok (n_slots f) (victims g) (attacks f) \<and>
    (\<forall>i < n_slots f. (self_attack g ! i \<noteq> 0) = ((i, i) \<in> attacks f)) \<and>
    symmetric_attacks g = {(a, b). (a, b) \<in> attacks f \<and> (b, a) \<in> attacks f}"
proof -
  obtain g where g: "finish_initilization ord f = Inr g" "af_ok g" "num_args g = num_args f"
    "attacks g = attacks f" "\<forall>i < n_slots f. (self_attack g ! i \<noteq> 0) = ((i, i) \<in> attacks f)"
    "symmetric_attacks g = {(a, b). (a, b) \<in> attacks f \<and> (b, a) \<in> attacks f}"
    using finish_ok [OF assms] by blast
  have "n_slots g = n_slots f" using g(3) by (simp add: n_slots_def)
  then show ?thesis using g af_okD(3,4) [OF g(2)] by auto
qed

lemma finish_builds_adjacency_witness:
  "\<exists>g. finish_initilization ex_attacks ex_start = Inr g \<and> rows_ok 5 (victims g) (set ex_attacks)"
proof -
  have "distinct ex_attacks" by (simp add: ex_attacks_def)
  from finish_builds_adjacency [OF ex_start_ok(1,2) this] show ?thesis
    using ex_start_ok(3,4) by auto
qed

text \<open>
  An attack whose victim the framework does not have makes \<open>finish_initilization\<close> index its
  vectors out of range: nothing checks the numbers read from the file.
\<close>

theorem attack_out_of_range:
  assumes "n_slots f \<le> b" "b < 2 ^ 31"
  shows "finish_initilization ((a, b) # ord) f = Inl OutOfRange"
  using assms
  by (simp add: finish_initilization_def finish_step_def int32_index_def push_at_def Let_def)

lemma attack_out_of_range_witness: "finish_initilization [(1, 9)] ex_start = Inl OutOfRange"
  by (rule attack_out_of_range) (simp_all add: ex_start_ok)

end
