(* ===== verification/Argumentation.thy ===== *)
theory Argumentation
  imports Main
begin

text \<open>
  The abstract specification: what the program is asked to decide.  A framework is a set of
  arguments \<open>A\<close> and an attack relation \<open>R\<close>; the semantics are Dung's.  Nothing here models code;
  the components are proved to compute these notions.
\<close>

definition conflict_free :: "('a \<times> 'a) set \<Rightarrow> 'a set \<Rightarrow> bool" where
  "conflict_free R S \<longleftrightarrow> (\<forall>a \<in> S. \<forall>b \<in> S. (a, b) \<notin> R)"

definition defends :: "'a set \<Rightarrow> ('a \<times> 'a) set \<Rightarrow> 'a set \<Rightarrow> 'a \<Rightarrow> bool" where
  "defends A R S a \<longleftrightarrow> (\<forall>b \<in> A. (b, a) \<in> R \<longrightarrow> (\<exists>c \<in> S. (c, b) \<in> R))"

definition admissible :: "'a set \<Rightarrow> ('a \<times> 'a) set \<Rightarrow> 'a set \<Rightarrow> bool" where
  "admissible A R S \<longleftrightarrow> S \<subseteq> A \<and> conflict_free R S \<and> (\<forall>a \<in> S. defends A R S a)"

definition preferred :: "'a set \<Rightarrow> ('a \<times> 'a) set \<Rightarrow> 'a set \<Rightarrow> bool" where
  "preferred A R S \<longleftrightarrow> admissible A R S \<and> (\<forall>T. admissible A R T \<longrightarrow> S \<subseteq> T \<longrightarrow> T = S)"

definition sceptical :: "'a set \<Rightarrow> ('a \<times> 'a) set \<Rightarrow> 'a \<Rightarrow> bool" where
  "sceptical A R q \<longleftrightarrow> (\<forall>P. preferred A R P \<longrightarrow> q \<in> P)"

text \<open>The arguments left when a set is accepted: neither in it nor attacked by it.\<close>

definition left_over :: "'a set \<Rightarrow> ('a \<times> 'a) set \<Rightarrow> 'a set \<Rightarrow> 'a set" where
  "left_over A R S = A - S - R `` S"

lemma admissibleI:
  "S \<subseteq> A \<Longrightarrow> (\<And>a b. a \<in> S \<Longrightarrow> b \<in> S \<Longrightarrow> (a, b) \<notin> R) \<Longrightarrow>
   (\<And>a b. a \<in> S \<Longrightarrow> b \<in> A \<Longrightarrow> (b, a) \<in> R \<Longrightarrow> \<exists>c \<in> S. (c, b) \<in> R) \<Longrightarrow> admissible A R S"
  by (auto simp: admissible_def conflict_free_def defends_def)

lemma admissibleD:
  assumes "admissible A R S"
  shows "S \<subseteq> A" "\<And>a b. a \<in> S \<Longrightarrow> b \<in> S \<Longrightarrow> (a, b) \<notin> R"
    "\<And>a b. a \<in> S \<Longrightarrow> b \<in> A \<Longrightarrow> (b, a) \<in> R \<Longrightarrow> \<exists>c \<in> S. (c, b) \<in> R"
  using assms by (auto simp: admissible_def conflict_free_def defends_def)

lemma admissible_empty [simp]: "admissible A R {}"
  by (simp add: admissible_def conflict_free_def)

lemma preferred_admissible: "preferred A R P \<Longrightarrow> admissible A R P"
  by (simp add: preferred_def)

lemma preferred_maximal: "preferred A R P \<Longrightarrow> admissible A R T \<Longrightarrow> P \<subseteq> T \<Longrightarrow> T = P"
  by (simp add: preferred_def)

lemma admissible_not_attacked_by:
  "admissible A R S \<Longrightarrow> a \<in> S \<Longrightarrow> b \<in> S \<Longrightarrow> (b, a) \<notin> R"
  by (auto simp: admissible_def conflict_free_def)

section \<open>Preferred extensions exist\<close>

lemma preferred_extends:
  assumes fin: "finite A" and adm: "admissible A R S"
  shows "\<exists>P. preferred A R P \<and> S \<subseteq> P"
proof -
  let ?C = "{T. admissible A R T \<and> S \<subseteq> T}"
  have "?C \<subseteq> Pow A" by (auto simp: admissible_def)
  with fin have "finite ?C" by (meson finite_Pow_iff finite_subset)
  moreover have "S \<in> ?C" using adm by simp
  ultimately obtain P where "P \<in> ?C" "S \<subseteq> P" "\<forall>T \<in> ?C. P \<subseteq> T \<longrightarrow> P = T"
    using finite_has_maximal2 [of ?C S] by blast
  then have "admissible A R P" "\<forall>T. admissible A R T \<longrightarrow> P \<subseteq> T \<longrightarrow> T = P" by auto
  with \<open>S \<subseteq> P\<close> show ?thesis unfolding preferred_def by blast
qed

section \<open>Modularity: extending a set by a set of what is left over\<close>

lemma left_over_subset: "left_over A R S \<subseteq> A"
  by (auto simp: left_over_def)

lemma left_over_empty [simp]: "left_over A R {} = A"
  by (simp add: left_over_def)

lemma left_over_union: "left_over (left_over A R E) R S = left_over A R (E \<union> S)"
  by (auto simp: left_over_def)

lemma admissible_union:
  assumes E: "admissible A R E" and S: "admissible (left_over A R E) R S"
  shows "admissible A R (E \<union> S)"
proof (rule admissibleI)
  show "E \<union> S \<subseteq> A" using admissibleD(1) [OF E] admissibleD(1) [OF S] by (auto simp: left_over_def)
next
  fix a b assume ab: "a \<in> E \<union> S" "b \<in> E \<union> S"
  have ES: "(a, b) \<notin> R" if "a \<in> E" "b \<in> S" for a b
    using that admissibleD(1) [OF S] by (auto simp: left_over_def)
  have SE: "(a, b) \<notin> R" if "a \<in> S" "b \<in> E" for a b
  proof
    assume att: "(a, b) \<in> R"
    have "a \<in> A" using that(1) admissibleD(1) [OF S] by (auto simp: left_over_def)
    from admissibleD(3) [OF E that(2) this att] ES that(1) show False by blast
  qed
  show "(a, b) \<notin> R"
    using ab ES SE admissibleD(2) [OF E, of a b] admissibleD(2) [OF S, of a b] by auto
next
  fix a b assume a: "a \<in> E \<union> S" and b: "b \<in> A" "(b, a) \<in> R"
  show "\<exists>c \<in> E \<union> S. (c, b) \<in> R"
  proof (cases "a \<in> E")
    case True
    with b admissibleD(3) [OF E] show ?thesis by blast
  next
    case False
    with a have aS: "a \<in> S" by blast
    then have "b \<notin> E" using b admissibleD(1) [OF S] by (auto simp: left_over_def)
    then have "b \<in> R `` E \<or> b \<in> left_over A R E" using b(1) by (auto simp: left_over_def)
    then show ?thesis using aS b(2) admissibleD(3) [OF S] by blast
  qed
qed

lemma admissible_rest:
  assumes E: "admissible A R E" and T: "admissible A R T" and sub: "E \<subseteq> T"
  shows "admissible (left_over A R E) R (T - E)"
proof (rule admissibleI)
  show "T - E \<subseteq> left_over A R E"
    using admissibleD(1,2) [OF T] sub by (auto simp: left_over_def)
next
  fix a b assume "a \<in> T - E" "b \<in> T - E"
  then show "(a, b) \<notin> R" using admissibleD(2) [OF T] by blast
next
  fix a b assume "a \<in> T - E" "b \<in> left_over A R E" "(b, a) \<in> R"
  then obtain c where "c \<in> T" "(c, b) \<in> R" "c \<notin> E"
    using admissibleD(3) [OF T, of a b] by (auto simp: left_over_def)
  then show "\<exists>c \<in> T - E. (c, b) \<in> R" by blast
qed

lemma preferred_iff_nothing_left:
  assumes "admissible A R E"
  shows "preferred A R E \<longleftrightarrow> (\<forall>S. admissible (left_over A R E) R S \<longrightarrow> S = {})"
proof
  assume P: "preferred A R E"
  show "\<forall>S. admissible (left_over A R E) R S \<longrightarrow> S = {}"
  proof (intro allI impI)
    fix S assume S: "admissible (left_over A R E) R S"
    then have "E \<union> S = E" using preferred_maximal [OF P admissible_union [OF assms S]] by blast
    then show "S = {}" using admissibleD(1) [OF S] by (auto simp: left_over_def)
  qed
next
  assume none: "\<forall>S. admissible (left_over A R E) R S \<longrightarrow> S = {}"
  show "preferred A R E"
    unfolding preferred_def using assms none admissible_rest [OF assms] by blast
qed

lemma preferred_rest:
  assumes E: "admissible A R E" and sub: "E \<subseteq> P"
  shows "preferred A R P \<longleftrightarrow> P - E \<subseteq> left_over A R E \<and> preferred (left_over A R E) R (P - E)"
proof
  assume P: "preferred A R P"
  then have adm: "admissible (left_over A R E) R (P - E)"
    using admissible_rest [OF E _ sub] preferred_admissible by blast
  have "T = P - E" if T: "admissible (left_over A R E) R T" "P - E \<subseteq> T" for T
  proof -
    have "E \<union> T = P"
      using preferred_maximal [OF P admissible_union [OF E T(1)]] T(2) sub by blast
    then show ?thesis using admissibleD(1) [OF T(1)] by (auto simp: left_over_def)
  qed
  with adm show "P - E \<subseteq> left_over A R E \<and> preferred (left_over A R E) R (P - E)"
    by (auto simp: preferred_def dest: admissibleD(1))
next
  assume "P - E \<subseteq> left_over A R E \<and> preferred (left_over A R E) R (P - E)"
  then have Q: "preferred (left_over A R E) R (P - E)" by blast
  have eq: "E \<union> (P - E) = P" using sub by blast
  have "admissible A R P"
    using admissible_union [OF E preferred_admissible [OF Q]] eq by simp
  moreover have "T = P" if T: "admissible A R T" "P \<subseteq> T" for T
  proof -
    have "T - E = P - E"
      using preferred_maximal [OF Q admissible_rest [OF E T(1)]] T(2) sub by blast
    then show ?thesis using T(2) sub by blast
  qed
  ultimately show "preferred A R P" by (auto simp: preferred_def)
qed

section \<open>Directionality: only ancestors matter\<close>

definition unattacked_set :: "'a set \<Rightarrow> ('a \<times> 'a) set \<Rightarrow> 'a set \<Rightarrow> bool" where
  "unattacked_set A R U \<longleftrightarrow> U \<subseteq> A \<and> (\<forall>a \<in> U. \<forall>b \<in> A. (b, a) \<in> R \<longrightarrow> b \<in> U)"

lemma admissible_restrict:
  "unattacked_set A R U \<Longrightarrow> admissible A R E \<Longrightarrow> admissible U R (E \<inter> U)"
  unfolding unattacked_set_def admissible_def conflict_free_def defends_def by blast

lemma admissible_lift:
  "unattacked_set A R U \<Longrightarrow> admissible U R T \<Longrightarrow> admissible A R T"
  unfolding unattacked_set_def admissible_def conflict_free_def defends_def by blast

lemma admissible_join:
  assumes U: "unattacked_set A R U" and E: "admissible A R E"
    and T: "admissible U R T" and sub: "E \<inter> U \<subseteq> T"
  shows "admissible A R (E \<union> T)"
proof (rule admissibleI)
  show "E \<union> T \<subseteq> A" using admissibleD(1) [OF E] admissibleD(1) [OF T] U
    by (auto simp: unattacked_set_def)
next
  fix a b assume ab: "a \<in> E \<union> T" "b \<in> E \<union> T"
  have ET: "(a, b) \<notin> R" if "a \<in> E" "b \<in> T" for a b
  proof
    assume att: "(a, b) \<in> R"
    have "b \<in> U" "a \<in> A" using that admissibleD(1) [OF E] admissibleD(1) [OF T] by auto
    then have "a \<in> U" using U att by (auto simp: unattacked_set_def)
    then have "a \<in> T" using that(1) sub by blast
    with that(2) att show False using admissibleD(2) [OF T] by blast
  qed
  have TE: "(a, b) \<notin> R" if aT: "a \<in> T" and bE: "b \<in> E" for a b
  proof
    assume att: "(a, b) \<in> R"
    have "a \<in> A" using aT admissibleD(1) [OF T] U by (auto simp: unattacked_set_def)
    from admissibleD(3) [OF E bE this att] ET aT show False by blast
  qed
  show "(a, b) \<notin> R"
    using ab ET TE admissibleD(2) [OF E, of a b] admissibleD(2) [OF T, of a b] by auto
next
  fix a b assume a: "a \<in> E \<union> T" and b: "b \<in> A" "(b, a) \<in> R"
  show "\<exists>c \<in> E \<union> T. (c, b) \<in> R"
    using a b admissibleD(3) [OF E] admissibleD(3) [OF admissible_lift [OF U T]] by blast
qed

lemma preferred_restrict:
  assumes U: "unattacked_set A R U" and P: "preferred A R P"
  shows "preferred U R (P \<inter> U)"
proof -
  have "T = P \<inter> U" if T: "admissible U R T" "P \<inter> U \<subseteq> T" for T
  proof -
    have "P \<union> T = P"
      using preferred_maximal [OF P admissible_join [OF U preferred_admissible [OF P] T]] by blast
    then show ?thesis using T admissibleD(1) [OF T(1)] by blast
  qed
  with admissible_restrict [OF U preferred_admissible [OF P]] show ?thesis
    by (auto simp: preferred_def)
qed

lemma sceptical_unattacked_set:
  assumes U: "unattacked_set A R U" and fin: "finite A" and q: "q \<in> U"
  shows "sceptical A R q \<longleftrightarrow> sceptical U R q"
proof
  assume all: "sceptical A R q"
  show "sceptical U R q"
    unfolding sceptical_def
  proof (intro allI impI)
    fix P assume P: "preferred U R P"
    then obtain Q where Q: "preferred A R Q" "P \<subseteq> Q"
      using preferred_extends [OF fin] admissible_lift [OF U] preferred_admissible by blast
    have "P \<subseteq> Q \<inter> U" using Q(2) admissibleD(1) [OF preferred_admissible [OF P]] by blast
    then have "Q \<inter> U = P"
      using preferred_maximal [OF P admissible_restrict [OF U preferred_admissible [OF Q(1)]]] by blast
    then show "q \<in> P" using all Q(1) q by (auto simp: sceptical_def)
  qed
next
  assume "sceptical U R q"
  then show "sceptical A R q" using preferred_restrict [OF U] by (auto simp: sceptical_def)
qed

section \<open>Accepting what every preferred extension contains\<close>

lemma unattacked_in_preferred:
  assumes a: "a \<in> A" "\<And>b. b \<in> A \<Longrightarrow> (b, a) \<notin> R" and P: "preferred A R P"
  shows "a \<in> P"
proof -
  have PA: "admissible A R P" using P by (rule preferred_admissible)
  have "admissible A R (insert a P)"
  proof (rule admissibleI)
    show "insert a P \<subseteq> A" using a(1) admissibleD(1) [OF PA] by blast
  next
    fix x y assume xy: "x \<in> insert a P" "y \<in> insert a P"
    show "(x, y) \<notin> R"
    proof
      assume att: "(x, y) \<in> R"
      have "x \<in> A" "y \<in> A" using xy a(1) admissibleD(1) [OF PA] by auto
      then have "y \<noteq> a" using a(2) att by blast
      then have "y \<in> P" using xy by blast
      then have "\<exists>c \<in> P. (c, x) \<in> R" using admissibleD(3) [OF PA _ \<open>x \<in> A\<close> att] by blast
      then have "x \<noteq> a" using a(2) admissibleD(1) [OF PA] by blast
      then have "x \<in> P" using xy by blast
      then show False using admissibleD(2) [OF PA \<open>x \<in> P\<close> \<open>y \<in> P\<close>] att by blast
    qed
  next
    fix x y assume "x \<in> insert a P" "y \<in> A" "(y, x) \<in> R"
    then show "\<exists>c \<in> insert a P. (c, y) \<in> R" using a(2) admissibleD(3) [OF PA] by blast
  qed
  then show ?thesis using preferred_maximal [OF P] by blast
qed

lemma unattacked_admissible:
  "a \<in> A \<Longrightarrow> (\<And>b. b \<in> A \<Longrightarrow> (b, a) \<notin> R) \<Longrightarrow> admissible A R {a}"
  by (rule admissibleI) auto

text \<open>One step of the grounded reduction decides the query or removes an argument.\<close>

lemma sceptical_unattacked:
  assumes a: "a \<in> A" "\<And>b. b \<in> A \<Longrightarrow> (b, a) \<notin> R" and fin: "finite A" and q: "q \<in> A"
  shows "sceptical A R q \<longleftrightarrow> q = a \<or> (a, q) \<notin> R \<and> sceptical (left_over A R {a}) R q"
proof (cases "q = a")
  case True
  then show ?thesis using unattacked_in_preferred [OF a] by (auto simp: sceptical_def)
next
  case qa: False
  have adm: "admissible A R {a}" using a by (rule unattacked_admissible)
  show ?thesis
  proof (cases "(a, q) \<in> R")
    case True
    obtain P where P: "preferred A R P" using preferred_extends [OF fin admissible_empty] by blast
    have "a \<in> P" using unattacked_in_preferred [OF a P] .
    then have "q \<notin> P" using True admissibleD(2) [OF preferred_admissible [OF P]] by blast
    then show ?thesis using P True qa by (auto simp: sceptical_def)
  next
    case False
    have "sceptical A R q \<longleftrightarrow> sceptical (left_over A R {a}) R q"
      unfolding sceptical_def
    proof (intro iffI allI impI)
      fix P assume all: "\<forall>P. preferred A R P \<longrightarrow> q \<in> P" and P: "preferred (left_over A R {a}) R P"
      have "P \<subseteq> left_over A R {a}" using admissibleD(1) [OF preferred_admissible [OF P]] .
      then have "insert a P - {a} = P" by (auto simp: left_over_def)
      then have "preferred A R (insert a P)"
        using preferred_rest [OF adm, of "insert a P"] P \<open>P \<subseteq> _\<close> by auto
      then show "q \<in> P" using all qa by blast
    next
      fix P assume all: "\<forall>P. preferred (left_over A R {a}) R P \<longrightarrow> q \<in> P" and P: "preferred A R P"
      have "{a} \<subseteq> P" using unattacked_in_preferred [OF a P] by blast
      then show "q \<in> P" using preferred_rest [OF adm, of P] P all by blast
    qed
    then show ?thesis using False qa by blast
  qed
qed

lemma sceptical_self_attack:
  "(q, q) \<in> R \<Longrightarrow> finite A \<Longrightarrow> \<not> sceptical A R q"
proof -
  assume self: "(q, q) \<in> R" and fin: "finite A"
  obtain P where P: "preferred A R P" using preferred_extends [OF fin admissible_empty] by blast
  then have "q \<notin> P" using self admissibleD(2) [OF preferred_admissible [OF P], of q q] by blast
  with P show ?thesis by (auto simp: sceptical_def)
qed

section \<open>The grounded extension\<close>

definition characteristic :: "'a set \<Rightarrow> ('a \<times> 'a) set \<Rightarrow> 'a set \<Rightarrow> 'a set" where
  "characteristic A R S = {a \<in> A. defends A R S a}"

definition grounded :: "'a set \<Rightarrow> ('a \<times> 'a) set \<Rightarrow> 'a set" where
  "grounded A R = lfp (characteristic A R)"

lemma mono_characteristic: "mono (characteristic A R)"
  by (rule monoI) (auto simp: characteristic_def defends_def, blast)

lemma grounded_fixpoint: "characteristic A R (grounded A R) = grounded A R"
  unfolding grounded_def by (rule lfp_unfold [OF mono_characteristic, symmetric])

lemma in_groundedI:
  assumes "a \<in> A" "defends A R S a" "S \<subseteq> grounded A R"
  shows "a \<in> grounded A R"
proof -
  have "a \<in> characteristic A R (grounded A R)"
    using assms unfolding characteristic_def defends_def by blast
  then show ?thesis by (simp add: grounded_fixpoint)
qed

lemma grounded_apart:
  assumes "a \<in> grounded A R" "b \<in> grounded A R"
  shows "(b, a) \<notin> R"
proof -
  let ?G = "grounded A R"
  let ?P = "\<lambda>X. \<forall>a \<in> X. \<forall>b \<in> ?G. (b, a) \<notin> R \<and> (a, b) \<notin> R"
  have fix_G: "x \<in> A \<and> defends A R ?G x" if "x \<in> ?G" for x
    using that grounded_fixpoint [of A R] by (auto simp: characteristic_def)
  have "?P (lfp (characteristic A R))"
  proof (rule lfp_ordinal_induct [OF mono_characteristic])
    fix X assume X: "?P X" and "X \<subseteq> lfp (characteristic A R)"
    then have sub: "X \<subseteq> ?G" by (simp add: grounded_def)
    show "?P (characteristic A R X)"
    proof (intro ballI conjI notI)
      fix x b assume x: "x \<in> characteristic A R X" and b: "b \<in> ?G"
      { fix c assume "c \<in> ?G" "(c, x) \<in> R"
        then obtain d where "d \<in> X" "(d, c) \<in> R"
          using x fix_G unfolding characteristic_def defends_def by blast
        then have False using X \<open>c \<in> ?G\<close> by blast }
      note safe = this
      show False if "(b, x) \<in> R" using safe [OF b that] .
      show False if "(x, b) \<in> R"
      proof -
        have "x \<in> A" using x by (simp add: characteristic_def)
        then obtain c where "c \<in> ?G" "(c, x) \<in> R"
          using fix_G [OF b] \<open>(x, b) \<in> R\<close> unfolding defends_def by blast
        then show False by (rule safe)
      qed
    qed
  qed blast
  then show ?thesis using assms by (simp add: grounded_def)
qed

lemma grounded_admissible: "admissible A R (grounded A R)"
  unfolding admissible_def conflict_free_def
proof (intro conjI ballI)
  show "grounded A R \<subseteq> A" using grounded_fixpoint [of A R] by (auto simp: characteristic_def)
  show "defends A R (grounded A R) a" if "a \<in> grounded A R" for a
    using that grounded_fixpoint [of A R] by (auto simp: characteristic_def)
qed (rule grounded_apart)

text \<open>An admissible set inside the grounded extension that leaves nothing unattacked is it.\<close>

lemma grounded_eqI:
  assumes adm: "admissible A R S" and sub: "S \<subseteq> grounded A R"
    and none: "\<And>a. a \<in> left_over A R S \<Longrightarrow> \<exists>b \<in> left_over A R S. (b, a) \<in> R"
  shows "grounded A R = S"
proof
  have "characteristic A R S \<subseteq> S"
  proof
    fix a assume a: "a \<in> characteristic A R S"
    then have aA: "a \<in> A" and def_a: "\<And>b. b \<in> A \<Longrightarrow> (b, a) \<in> R \<Longrightarrow> \<exists>c \<in> S. (c, b) \<in> R"
      by (auto simp: characteristic_def defends_def)
    have "a \<notin> R `` S"
    proof
      assume "a \<in> R `` S"
      then obtain s where s: "s \<in> S" "(s, a) \<in> R" by blast
      then obtain c where "c \<in> S" "(c, s) \<in> R" using def_a admissibleD(1) [OF adm] by blast
      then show False using admissibleD(2) [OF adm] s(1) by blast
    qed
    moreover have "a \<notin> left_over A R S"
    proof
      assume "a \<in> left_over A R S"
      then obtain b where b: "b \<in> left_over A R S" "(b, a) \<in> R" using none by blast
      then have "b \<in> A" by (simp add: left_over_def)
      then have "\<exists>c \<in> S. (c, b) \<in> R" using def_a b(2) by blast
      then show False using b(1) by (auto simp: left_over_def)
    qed
    ultimately show "a \<in> S" using aA by (auto simp: left_over_def)
  qed
  then show "grounded A R \<subseteq> S" unfolding grounded_def by (rule lfp_lowerbound)
qed (rule sub)

end
