(* ===== verification/Reduct.thy ===== *)
theory Reduct
  imports AF Argumentation
begin

text \<open>
  \<^verbatim>\<open>src/logic/Reduct.cpp\<close>: the active arguments that remain when one argument, or a list of
  arguments, is accepted.  Every loop reads the victims' bytes of the framework with a bounds
  check; the theorems say that on a well-formed framework no read is out of range and that the
  result represents the arguments left over.
\<close>

definition get_reduct :: "vbs \<Rightarrow> af \<Rightarrow> arg \<Rightarrow> vbs res" where
  "get_reduct activeArguments f argument = bind_res
     (fold_res (\<lambda>x (rv, rb).
        bind_res (if x = argument then Inr True else victim_bit f argument x) (\<lambda>skip.
          if skip then Inr (rv, rb)
          else bind_res (set_at rb x (1 :: u8)) (\<lambda>rb'. Inr (rv @ [x], rb'))))
       (vec activeArguments) ([], replicate (n_slots f) 0))
     (\<lambda>(rv, rb). Inr (mk_vbs rv rb))"

fun get_reduct_loop :: "af \<Rightarrow> vbs \<Rightarrow> arg list \<Rightarrow> vbs res" where
  "get_reduct_loop f reduct [] = Inr reduct"
| "get_reduct_loop f reduct (m # ms) =
     (if vec reduct = [] then Inr reduct
      else bind_res (get_reduct reduct f m) (\<lambda>reduct'. get_reduct_loop f reduct' ms))"

definition get_reduct_set :: "vbs \<Rightarrow> af \<Rightarrow> arg list \<Rightarrow> vbs res" where
  "get_reduct_set activeArguments f set_arguments =
     (case set_arguments of
        [] \<Rightarrow> Inl Thrown
      | s # rest \<Rightarrow> bind_res (get_reduct activeArguments f s) (\<lambda>reduct.
          if vec reduct = [] then Inr reduct else get_reduct_loop f reduct rest))"

section \<open>Correctness\<close>

definition survivors :: "(arg \<times> arg) set \<Rightarrow> arg list \<Rightarrow> arg list \<Rightarrow> arg list" where
  "survivors r S xs = filter (\<lambda>x. x \<notin> set S \<and> (\<forall>s \<in> set S. (s, x) \<notin> r)) xs"

lemma set_survivors: "set (survivors r S xs) = left_over (set xs) r (set S)"
  by (auto simp: survivors_def left_over_def)

lemma survivors_Nil [simp]: "survivors r S [] = []" "survivors r [] xs = xs"
  by (simp_all add: survivors_def)

lemma survivors_Cons: "survivors r (s # S) xs = survivors r S (survivors r [s] xs)"
  by (auto simp: survivors_def intro: filter_cong)

lemma get_reduct_ok [ok_intros]:
  assumes "af_ok f" "a < n_slots f" "vbs_ok (n_slots f) v"
  shows "\<exists>r. get_reduct v f a = Inr r \<and> vbs_ok (n_slots f) r \<and>
           vec r = survivors (attacks f) [a] (vec v)"
  using graph.keep_survivors [OF assms] by (auto simp: get_reduct_def survivors_def)

lemma get_reduct_loop_ok:
  assumes "af_ok f" "\<forall>a \<in> set S. a < n_slots f" "vbs_ok (n_slots f) v"
  shows "\<exists>r. get_reduct_loop f v S = Inr r \<and> vbs_ok (n_slots f) r \<and>
           vec r = survivors (attacks f) S (vec v)"
  using assms
proof (induction S arbitrary: v)
  case (Cons a S)
  obtain r where "get_reduct v f a = Inr r" "vbs_ok (n_slots f) r"
    "vec r = survivors (attacks f) [a] (vec v)"
    using get_reduct_ok Cons.prems by (metis list.set_intros(1))
  with Cons.IH [of r] Cons.prems show ?case
    by (auto simp: survivors_Cons [of _ a S])
qed simp

lemma get_reduct_set_ok [ok_intros]:
  assumes f: "af_ok f" and S: "\<forall>a \<in> set S. a < n_slots f" "S \<noteq> []" and v: "vbs_ok (n_slots f) v"
  shows "\<exists>r. get_reduct_set v f S = Inr r \<and> vbs_ok (n_slots f) r \<and>
           vec r = survivors (attacks f) S (vec v)"
proof -
  obtain s rest where S_eq: "S = s # rest" using S(2) by (cases S) auto
  obtain r where r: "get_reduct v f s = Inr r" "vbs_ok (n_slots f) r"
    "vec r = survivors (attacks f) [s] (vec v)"
    using get_reduct_ok [OF f _ v] S S_eq by (metis list.set_intros(1))
  show ?thesis
  proof (cases "vec r = []")
    case True
    then show ?thesis using r by (auto simp: get_reduct_set_def S_eq survivors_Cons [of _ s rest])
  next
    case False
    then show ?thesis using r get_reduct_loop_ok [OF f _ r(2), of rest] S(1) S_eq
      by (auto simp: get_reduct_set_def survivors_Cons [of _ s rest])
  qed
qed

lemma get_reduct_set_empty: "get_reduct_set v f [] = Inl Thrown"
  by (simp add: get_reduct_set_def)

section \<open>Properties\<close>

text \<open>
  C16: \<open>get_reduct_set\<close> keeps, in their order, the active arguments that are neither in the set nor
  attacked by it, with the matching bytes; the arguments kept are the ones left over.
\<close>

theorem get_reduct_set_correct:
  assumes "af_ok f" "\<forall>a \<in> set S. a < n_slots f" "S \<noteq> []" "vbs_ok (n_slots f) v"
  shows "\<exists>r. get_reduct_set v f S = Inr r \<and> vbs_ok (n_slots f) r \<and>
    vec r = filter (\<lambda>x. x \<notin> set S \<and> \<not> (\<exists>s \<in> set S. (s, x) \<in> attacks f)) (vec v) \<and>
    set (vec r) = left_over (set (vec v)) (attacks f) (set S)"
proof -
  have "survivors (attacks f) S (vec v) =
      filter (\<lambda>x. x \<notin> set S \<and> \<not> (\<exists>s \<in> set S. (s, x) \<in> attacks f)) (vec v)"
    unfolding survivors_def by (intro filter_cong) auto
  then show ?thesis using get_reduct_set_ok [OF assms] set_survivors by metis
qed

lemma get_reduct_set_correct_witness:
  "\<exists>r. get_reduct_set \<lparr>vec = [4, 3, 1], bits = [0, 1, 0, 1, 1]\<rparr> ex_af [1] = Inr r \<and> vec r = [4]"
  using get_reduct_set_correct [of ex_af "[1]" "\<lparr>vec = [4, 3, 1], bits = [0, 1, 0, 1, 1]\<rparr>"]
  by (auto simp: ex_af_ok vbs_ok_def ex_attacks_def all_less_5)

end
