(* ===== verification/Checks.thy ===== *)
theory Checks
  imports AF
begin

text \<open>
  The small decision procedures of the search: \<^verbatim>\<open>src/logic/ScepticalCheck.cpp\<close> and
  \<^verbatim>\<open>src/logic/Prioritizer.cpp\<close>.
\<close>

section \<open>Sceptical checks\<close>

definition check_rejection :: "arg \<Rightarrow> arg list \<Rightarrow> af \<Rightarrow> bool res" where
  "check_rejection argument initial_set f =
     fold_res (\<lambda>m found. if found then Inr True else victim_bit f m argument) initial_set False"

fun check_terminate_extension_build :: "arg \<Rightarrow> arg list \<Rightarrow> bool" where
  "check_terminate_extension_build argument [] = False"
| "check_terminate_extension_build argument (m # ms) =
     (if m = argument then True else check_terminate_extension_build argument ms)"

lemma check_rejection_ok [ok_intros]:
  "af_ok f \<Longrightarrow> q < n_slots f \<Longrightarrow> \<forall>x \<in> set S. x < n_slots f \<Longrightarrow>
   check_rejection q S f = Inr (\<exists>x \<in> set S. (x, q) \<in> attacks f)"
  unfolding check_rejection_def by (rule graph.any_attacker)

lemma check_terminate_iff [simp]: "check_terminate_extension_build q S \<longleftrightarrow> q \<in> set S"
  by (induction S) auto

section \<open>Task priorities\<close>

definition prio_of :: "af \<Rightarrow> arg \<Rightarrow> u32 res" where
  "prio_of f a = bind_res (get_at (distance_to_query f) a) (\<lambda>d. Inr (num_args f - d))"

definition calculate_priority :: "af \<Rightarrow> arg list \<Rightarrow> u32 res" where
  "calculate_priority f set_arguments =
     (case set_arguments of
        [] \<Rightarrow> Inl Thrown
      | s # rest \<Rightarrow> bind_res (prio_of f s) (\<lambda>prio.
          fold_res (\<lambda>m prio. bind_res (prio_of f m) (\<lambda>newPrio.
            Inr (if prio < newPrio then newPrio else prio))) rest prio))"

text \<open>The distances the preprocessor leaves: never more than the number of arguments.\<close>

definition distances_ok :: "af \<Rightarrow> bool" where
  "distances_ok f \<longleftrightarrow> length (distance_to_query f) = n_slots f \<and>
     (\<forall>a < n_slots f. unat (distance_to_query f ! a) \<le> unat (num_args f))"

lemma prio_of_ok:
  "distances_ok f \<Longrightarrow> a < n_slots f \<Longrightarrow>
   \<exists>p. prio_of f a = Inr p \<and> unat p = unat (num_args f) - unat (distance_to_query f ! a)"
  by (auto simp: prio_of_def distances_ok_def unat_minus_u32)

lemma priority_loop_ok:
  assumes "distances_ok f" "\<forall>a \<in> set S. a < n_slots f"
  shows "\<exists>p'. fold_res (\<lambda>m prio. bind_res (prio_of f m) (\<lambda>newPrio.
             Inr (if prio < newPrio then newPrio else prio))) S p = Inr p' \<and>
           unat p' = Max (insert (unat p)
             ((\<lambda>a. unat (num_args f) - unat (distance_to_query f ! a)) ` set S))"
  using assms
proof (induction S arbitrary: p)
  case (Cons a S)
  let ?g = "\<lambda>a. unat (num_args f) - unat (distance_to_query f ! a)"
  obtain q where q: "prio_of f a = Inr q" "unat q = ?g a"
    using prio_of_ok Cons.prems by (metis list.set_intros(1))
  let ?p = "if p < q then q else p"
  obtain p' where p': "fold_res (\<lambda>m prio. bind_res (prio_of f m) (\<lambda>newPrio.
      Inr (if prio < newPrio then newPrio else prio))) S ?p = Inr p'"
    "unat p' = Max (insert (unat ?p) (?g ` set S))"
    using Cons.IH [of ?p] Cons.prems by auto
  have "unat ?p = max (unat p) (?g a)"
    using q(2) by (auto simp: word_less_nat_alt)
  then have "unat p' = Max (insert (unat p) (?g ` set (a # S)))"
    using p'(2) by (cases "S = []") (auto simp: max.assoc Max_insert)
  then show ?case using p'(1) q(1) by simp
qed simp

lemma calculate_priority_ok:
  assumes "distances_ok f" "\<forall>a \<in> set S. a < n_slots f" "S \<noteq> []"
  shows "\<exists>p. calculate_priority f S = Inr p \<and>
           unat p = Max ((\<lambda>a. unat (num_args f) - unat (distance_to_query f ! a)) ` set S)"
proof -
  obtain s rest where S: "S = s # rest" using assms(3) by (cases S) auto
  obtain p where p: "prio_of f s = Inr p"
    "unat p = unat (num_args f) - unat (distance_to_query f ! s)"
    using prio_of_ok [OF assms(1)] assms(2) S by (metis list.set_intros(1))
  with priority_loop_ok [OF assms(1), of rest p] assms(2) S show ?thesis
    by (auto simp: calculate_priority_def)
qed

section \<open>Properties\<close>

text \<open>C18: \<open>check_rejection\<close> tests whether a member of the set attacks the query.\<close>

theorem check_rejection_correct:
  assumes "af_ok f" "q < n_slots f" "\<forall>x \<in> set S. x < n_slots f"
  shows "check_rejection q S f = Inr (\<exists>x \<in> set S. (x, q) \<in> attacks f)"
  by (rule check_rejection_ok [OF assms])

lemma check_rejection_correct_witness:
  "check_rejection 4 [1, 3] ex_af = Inr True \<and> check_rejection 4 [1, 2] ex_af = Inr False"
  using check_rejection_correct [of ex_af 4 "[1, 3]"] check_rejection_correct [of ex_af 4 "[1, 2]"]
  by (simp add: ex_af_ok ex_attacks_def)

text \<open>
  The priority of a task is the number of arguments minus the smallest distance to the query
  among its extension; the unsigned subtraction does not wrap.
\<close>

theorem calculate_priority_correct:
  assumes "distances_ok f" "\<forall>a \<in> set S. a < n_slots f" "S \<noteq> []"
  shows "\<exists>p. calculate_priority f S = Inr p \<and>
    unat p = unat (num_args f) - Min ((\<lambda>a. unat (distance_to_query f ! a)) ` set S)"
proof -
  let ?d = "\<lambda>a. unat (distance_to_query f ! a)" and ?n = "unat (num_args f)"
  obtain p where p: "calculate_priority f S = Inr p" "unat p = Max ((\<lambda>a. ?n - ?d a) ` set S)"
    using calculate_priority_ok [OF assms] by blast
  have "Max ((\<lambda>a. ?n - ?d a) ` set S) = ?n - Min (?d ` set S)"
  proof (rule Max_eqI)
    have "Min (?d ` set S) \<in> ?d ` set S" using assms(3) by (intro Min_in) auto
    then show "?n - Min (?d ` set S) \<in> (\<lambda>a. ?n - ?d a) ` set S" by auto
    show "y \<le> ?n - Min (?d ` set S)" if "y \<in> (\<lambda>a. ?n - ?d a) ` set S" for y
      using that by (auto intro!: diff_le_mono2 Min_le)
  qed simp
  with p show ?thesis by auto
qed

lemma calculate_priority_correct_witness:
  "\<exists>p. calculate_priority (ex_af\<lparr>distance_to_query := [0, 2, 2, 1, 0]\<rparr>) [1, 3] = Inr p \<and> unat p = 3"
  using calculate_priority_correct [of "ex_af\<lparr>distance_to_query := [0, 2, 2, 1, 0]\<rparr>" "[1, 3]"]
  by (simp add: distances_ok_def ex_af_ok n_slots_def all_less_5)

end
