(* ===== verification/PreProcessor.thy ===== *)
theory PreProcessor
  imports Reduct Checks
begin

text \<open>
  \<^verbatim>\<open>src/logic/PreProcessor_DS_PR.cpp\<close>: the cone of influence of the query (a breadth-first
  search along attackers that also records distances), the reduction by the grounded extension
  (propagation of unattacked arguments with attacker counters), and \<open>process\<close>.  Both loops walk a
  list that grows while it is walked; they are partial functions, and their termination on
  well-formed frameworks is part of the theorems.
\<close>

datatype pre_proc_result = accepted | rejected | unknown

section \<open>Cone of influence\<close>

record cone =
  distances :: "u32 list"
  cone_vector :: "arg list"
  cone_bitset :: "u8 list"

text \<open>One attacker of the argument at the head of the list; returns what was pushed as well.\<close>

definition cone_attacker ::
    "arg \<Rightarrow> u32 \<Rightarrow> arg \<Rightarrow> cone \<times> arg list \<Rightarrow> (cone \<times> arg list) res" where
  "cone_attacker query distance attacker = (\<lambda>(st, pushed).
     bind_res (get_at (distances st) attacker) (\<lambda>d.
       if d > 0 \<or> attacker = query then Inr (st, pushed)
       else bind_res (set_at (distances st) attacker (distance + 1)) (\<lambda>ds.
            bind_res (set_at (cone_bitset st) attacker 1) (\<lambda>bs.
            Inr (\<lparr>distances = ds, cone_vector = cone_vector st @ [attacker], cone_bitset = bs\<rparr>,
                 pushed @ [attacker])))))"

definition cone_visit :: "af \<Rightarrow> arg \<Rightarrow> arg \<Rightarrow> cone \<Rightarrow> (cone \<times> arg list) res" where
  "cone_visit f query argument st =
     bind_res (get_at (distances st) argument) (\<lambda>distance.
     bind_res (attackers_of f argument) (\<lambda>xs.
     fold_res (cone_attacker query distance) xs (st, [])))"

partial_function (option) cone_loop ::
    "af \<Rightarrow> arg \<Rightarrow> arg list \<Rightarrow> cone \<Rightarrow> cone res option" where
  "cone_loop f query ls_args_unprocessed st =
     (case ls_args_unprocessed of
        [] \<Rightarrow> Some (Inr st)
      | argument # rest \<Rightarrow>
          (case cone_visit f query argument st of
             Inl e \<Rightarrow> Some (Inl e)
           | Inr (st', pushed) \<Rightarrow> cone_loop f query (rest @ pushed) st'))"

declare cone_loop.simps [code]

text \<open>A loop without an end is the fault \<open>Diverges\<close>.\<close>

definition run_loop :: "'a res option \<Rightarrow> 'a res" where
  "run_loop r = (case r of None \<Rightarrow> Inl Diverges | Some v \<Rightarrow> v)"

text \<open>
  The bit set has \<open>framework.num_args + 1\<close> bytes, computed in \<^verbatim>\<open>uint32_t\<close>.  The framework is
  passed by reference: its distances are part of the result.
\<close>

definition calculate_cone_influence :: "af \<Rightarrow> arg \<Rightarrow> (af \<times> vbs) res" where
  "calculate_cone_influence f query =
     bind_res (set_at (distance_to_query f) query 0) (\<lambda>ds.
     bind_res (set_at (replicate (unat (num_args f + 1)) 0) query 1) (\<lambda>bs.
     bind_res (run_loop (cone_loop f query [query]
       \<lparr>distances = ds, cone_vector = [query], cone_bitset = bs\<rparr>)) (\<lambda>st.
     Inr (f\<lparr>distance_to_query := distances st\<rparr>, mk_vbs (cone_vector st) (cone_bitset st)))))"

section \<open>Reduction by the grounded extension\<close>

definition count_attackers :: "af \<Rightarrow> vbs \<Rightarrow> (arg list \<times> u32 list) res" where
  "count_attackers f active = fold_res (\<lambda>x (ls, na).
     bind_res (attackers_of f x) (\<lambda>xs.
     bind_res (set_at na x (of_nat (length xs))) (\<lambda>na'.
     Inr (if xs = [] then ls @ [x] else ls, na'))))
     (vec active) ([], replicate (unat (num_args f + 1)) 0)"

text \<open>The innermost statement: one active victim of an active victim loses an attacker.\<close>

definition drop_attacker :: "vbs \<Rightarrow> arg \<Rightarrow> u32 list \<times> arg list \<Rightarrow> (u32 list \<times> arg list) res" where
  "drop_attacker red vvua = (\<lambda>(na, pushed).
     bind_res (get_at (bits red) vvua) (\<lambda>b.
       if b = 0 then Inr (na, pushed)
       else bind_res (get_at na vvua) (\<lambda>c.
            bind_res (set_at na vvua (c - 1)) (\<lambda>na'.
            Inr (na', if c - 1 = 0 then pushed @ [vvua] else pushed)))))"

definition drop_victim :: "af \<Rightarrow> vbs \<Rightarrow> arg \<Rightarrow> u32 list \<times> arg list \<Rightarrow> (u32 list \<times> arg list) res" where
  "drop_victim f red vua s =
     bind_res (get_at (bits red) vua) (\<lambda>b.
       if b = 0 then Inr s
       else bind_res (victims_of f vua) (\<lambda>ws. fold_res (drop_attacker red) ws s))"

definition drop_victims :: "af \<Rightarrow> vbs \<Rightarrow> arg \<Rightarrow> u32 list \<Rightarrow> (u32 list \<times> arg list) res" where
  "drop_victims f red ua na =
     bind_res (victims_of f ua) (\<lambda>vs. fold_res (drop_victim f red) vs (na, []))"

partial_function (option) ground_loop ::
    "af \<Rightarrow> arg \<Rightarrow> arg list \<Rightarrow> u32 list \<Rightarrow> vbs \<Rightarrow> (pre_proc_result \<times> vbs) res option" where
  "ground_loop f query ls_unattacked_unprocessed na red =
     (case ls_unattacked_unprocessed of
        [] \<Rightarrow> Some (Inr (unknown, red))
      | ua # rest \<Rightarrow>
          if ua = query then Some (Inr (accepted, red))
          else (case victim_bit f ua query of
              Inl e \<Rightarrow> Some (Inl e)
            | Inr hit \<Rightarrow>
                if hit then Some (Inr (rejected, red))
                else (case bind_res (drop_victims f red ua na) (\<lambda>(na', pushed).
                        bind_res (get_reduct red f ua) (\<lambda>red'. Inr (na', pushed, red'))) of
                    Inl e \<Rightarrow> Some (Inl e)
                  | Inr (na', pushed, red') \<Rightarrow> ground_loop f query (rest @ pushed) na' red')))"

declare ground_loop.simps [code]

definition reduce_by_grounded :: "af \<Rightarrow> vbs \<Rightarrow> arg \<Rightarrow> (pre_proc_result \<times> vbs) res" where
  "reduce_by_grounded f active_args query =
     bind_res (count_attackers f active_args) (\<lambda>(ls, na).
       run_loop (ground_loop f query ls na active_args))"

text \<open>The result, the framework with its new distances, and the out-parameter \<open>out_reduct\<close>.\<close>

definition process :: "af \<Rightarrow> arg \<Rightarrow> vbs \<Rightarrow> (pre_proc_result \<times> af \<times> vbs) res" where
  "process f query out_reduct =
     bind_res (victim_bit f query query) (\<lambda>self.
       if self then Inr (rejected, f, out_reduct)
       else bind_res (attackers_of f query) (\<lambda>xs.
         if xs = [] then Inr (accepted, f, out_reduct)
         else bind_res (calculate_cone_influence f query) (\<lambda>(g, active_args).
              bind_res (reduce_by_grounded g active_args query) (\<lambda>(result, red).
              Inr (result, g, red)))))"

section \<open>The cone is the set of ancestors of the query\<close>

definition ancestors :: "(arg \<times> arg) set \<Rightarrow> arg \<Rightarrow> arg set" where
  "ancestors r q = {x. (x, q) \<in> r\<^sup>*}"

definition cone_rep :: "nat \<Rightarrow> (arg \<times> arg) set \<Rightarrow> arg \<Rightarrow> cone \<Rightarrow> bool" where
  "cone_rep n r q st \<longleftrightarrow>
     vbs_ok n (mk_vbs (cone_vector st) (cone_bitset st)) \<and> length (distances st) = n \<and>
     q \<in> set (cone_vector st) \<and>
     (\<forall>x < n. x \<in> set (cone_vector st) \<longleftrightarrow> x = q \<or> distances st ! x > 0) \<and>
     (\<forall>i < length (cone_vector st). unat (distances st ! (cone_vector st ! i)) \<le> i) \<and>
     set (cone_vector st) \<subseteq> ancestors r q"

lemma cone_repD:
  assumes "cone_rep n r q st"
  shows "vbs_ok n (mk_vbs (cone_vector st) (cone_bitset st))" "length (distances st) = n"
    "q \<in> set (cone_vector st)" "length (cone_bitset st) = n" "distinct (cone_vector st)"
    "\<And>x. x \<in> set (cone_vector st) \<Longrightarrow> x < n"
    "\<And>x. x < n \<Longrightarrow> x \<in> set (cone_vector st) \<longleftrightarrow> x = q \<or> distances st ! x > 0"
    "\<And>i. i < length (cone_vector st) \<Longrightarrow> unat (distances st ! (cone_vector st ! i)) \<le> i"
    "set (cone_vector st) \<subseteq> ancestors r q" "length (cone_vector st) \<le> n"
  using assms vbs_ok_length [of n "mk_vbs (cone_vector st) (cone_bitset st)"]
  by (auto simp: cone_rep_def vbs_ok_def)

lemma cone_attacker_new:
  assumes rep: "cone_rep n r q st" and n: "n \<le> 2 ^ 31" and b: "b < n" "(b, a) \<in> r"
    and a: "a \<in> ancestors r q" and d: "unat d < length (cone_vector st)"
    and new: "b \<notin> set (cone_vector st)"
  shows "cone_rep n r q \<lparr>distances = (distances st)[b := d + 1],
           cone_vector = cone_vector st @ [b], cone_bitset = (cone_bitset st)[b := 1]\<rparr>"
proof -
  note R = cone_repD [OF rep]
  have small: "unat d + 1 < 2 ^ 32" using d R(10) n by simp
  then have d1: "unat (d + 1) = unat d + 1" by (rule unat_Suc_u32)
  then have pos: "d + 1 > 0" by (simp add: word_less_nat_alt)
  have "b \<in> ancestors r q"
    using b(2) a by (auto simp: ancestors_def intro: converse_rtrancl_into_rtrancl)
  moreover have "vbs_ok n (mk_vbs (cone_vector st @ [b]) ((cone_bitset st)[b := 1]))"
    using vbs_ok_snoc [of n "cone_vector st" "cone_bitset st" b] R(1) b(1) new
    by (simp add: mk_vbs_def)
  moreover have "unat (((distances st)[b := d + 1]) ! ((cone_vector st @ [b]) ! i)) \<le> i"
    if "i < Suc (length (cone_vector st))" for i
  proof (cases "i < length (cone_vector st)")
    case True
    then have "cone_vector st ! i \<noteq> b" using new nth_mem by metis
    then show ?thesis using R(8) [OF True] True by (simp add: nth_append)
  next
    case False
    then show ?thesis using that d d1 b(1) R(2) by (simp add: nth_append)
  qed
  moreover have "x \<in> set (cone_vector st @ [b]) \<longleftrightarrow> x = q \<or> (distances st)[b := d + 1] ! x > 0"
    if "x < n" for x
    using that R(2) R(7) [OF that] pos by (cases "x = b") auto
  ultimately show ?thesis using R by (simp add: cone_rep_def)
qed

lemma cone_attacker_ok:
  assumes rep: "cone_rep n r q st" and n: "n \<le> 2 ^ 31" and b: "b < n" "(b, a) \<in> r"
    and a: "a \<in> ancestors r q" and d: "unat d < length (cone_vector st)"
  shows "\<exists>st' new. cone_attacker q d b (st, p) = Inr (st', p @ new) \<and> cone_rep n r q st' \<and>
           cone_vector st' = cone_vector st @ new \<and> b \<in> set (cone_vector st')"
proof (cases "b \<in> set (cone_vector st)")
  case True
  then have "distances st ! b > 0 \<or> b = q" using cone_repD(7) [OF rep b(1)] by blast
  with True rep b(1) cone_repD(2) [OF rep] show ?thesis
    by (auto simp: cone_attacker_def)
next
  case False
  then have "\<not> distances st ! b > 0" "b \<noteq> q" using cone_repD(7) [OF rep b(1)] by blast+
  then have "cone_attacker q d b (st, p) = Inr (\<lparr>distances = (distances st)[b := d + 1],
      cone_vector = cone_vector st @ [b], cone_bitset = (cone_bitset st)[b := 1]\<rparr>, p @ [b])"
    using b(1) cone_repD(2,4) [OF rep] by (simp add: cone_attacker_def)
  then show ?thesis using cone_attacker_new [OF assms False] by fastforce
qed

lemma cone_visit_ok:
  assumes f: "af_ok f" and rep: "cone_rep (n_slots f) (attacks f) q st"
    and a: "i < length (cone_vector st)" "a = cone_vector st ! i"
  shows "\<exists>st' new. cone_visit f q a st = Inr (st', new) \<and> cone_rep (n_slots f) (attacks f) q st' \<and>
           cone_vector st' = cone_vector st @ new \<and> (\<forall>b. (b, a) \<in> attacks f \<longrightarrow> b \<in> set (cone_vector st'))"
proof -
  let ?n = "n_slots f" and ?R = "attacks f" and ?d = "distances st ! a"
  have amem: "a \<in> set (cone_vector st)" using a by simp
  have an: "a < ?n" and aanc: "a \<in> ancestors ?R q" using amem cone_repD(6,9) [OF rep] by auto
  obtain xs where xs: "attackers_of f a = Inr xs" "set xs = {b. (b, a) \<in> ?R}"
    using attackers_of_ok [OF f an] by blast
  let ?I = "\<lambda>pre (st', new). cone_rep ?n ?R q st' \<and> cone_vector st' = cone_vector st @ new \<and>
      set pre \<subseteq> set (cone_vector st')"
  have "\<exists>s'. fold_res (cone_attacker q ?d) xs (st, []) = Inr s' \<and> ?I xs s'"
  proof (rule fold_res_invariant)
    show "?I [] (st, [])" using rep by simp
  next
    fix pre b post s
    assume split: "xs = pre @ b # post" and inv: "?I pre s"
    obtain st' new where s: "s = (st', new)" by (cases s)
    have "b \<in> set xs" by (simp add: split)
    then have b: "(b, a) \<in> ?R" using xs(2) by blast
    then have bn: "b < ?n" using graph.att_range [OF f] by blast
    have "unat ?d \<le> i" using cone_repD(8) [OF rep a(1)] a(2) by simp
    then have d: "unat ?d < length (cone_vector st')" using inv s a(1) by auto
    show "\<exists>s'. cone_attacker q ?d b s = Inr s' \<and> ?I (pre @ [b]) s'"
      using cone_attacker_ok [OF _ af_okD(2) [OF f] bn b aanc d, where p = new] inv s by fastforce
  qed
  then show ?thesis using xs an cone_repD(2) [OF rep] by (auto simp: cone_visit_def)
qed

lemma cone_loop_ok:
  assumes f: "af_ok f" and rep: "cone_rep (n_slots f) (attacks f) q st"
    and todo: "cone_vector st = visited @ todo"
    and closed: "\<forall>x \<in> set visited. \<forall>b. (b, x) \<in> attacks f \<longrightarrow> b \<in> set (cone_vector st)"
  shows "\<exists>st'. cone_loop f q todo st = Some (Inr st') \<and> cone_rep (n_slots f) (attacks f) q st' \<and>
           (\<forall>x \<in> set (cone_vector st'). \<forall>b. (b, x) \<in> attacks f \<longrightarrow> b \<in> set (cone_vector st'))"
  using rep todo closed
proof (induction "n_slots f - length visited" arbitrary: st visited todo rule: less_induct)
  case less
  show ?case
  proof (cases todo)
    case Nil
    then have "cone_loop f q todo st = Some (Inr st)" by (simp add: cone_loop.simps)
    moreover have "cone_vector st = visited" using less.prems(2) Nil by simp
    ultimately show ?thesis using less.prems(1,3) by simp
  next
    case (Cons a rest)
    have idx: "length visited < length (cone_vector st)" "a = cone_vector st ! length visited"
      by (simp_all add: less.prems(2) Cons)
    obtain st' new where v: "cone_visit f q a st = Inr (st', new)"
      "cone_rep (n_slots f) (attacks f) q st'" "cone_vector st' = cone_vector st @ new"
      "\<forall>b. (b, a) \<in> attacks f \<longrightarrow> b \<in> set (cone_vector st')"
      using cone_visit_ok [OF f less.prems(1) idx] by blast
    have "length visited < n_slots f"
      using cone_repD(10) [OF less.prems(1)] idx(1) by linarith
    then have dec: "n_slots f - length (visited @ [a]) < n_slots f - length visited" by simp
    have eq: "cone_vector st' = (visited @ [a]) @ (rest @ new)" by (simp add: v(3) less.prems(2) Cons)
    have cl: "\<forall>x \<in> set (visited @ [a]). \<forall>b. (b, x) \<in> attacks f \<longrightarrow> b \<in> set (cone_vector st')"
    proof (intro ballI allI impI)
      fix x b assume x: "x \<in> set (visited @ [a])" and b: "(b, x) \<in> attacks f"
      show "b \<in> set (cone_vector st')"
      proof (cases "x = a")
        case True
        then show ?thesis using v(4) b by blast
      next
        case False
        then have "b \<in> set (cone_vector st)" using x b less.prems(3) by auto
        then show ?thesis by (simp add: v(3))
      qed
    qed
    have "cone_loop f q todo st = cone_loop f q (rest @ new) st'"
      using v(1) Cons by (simp add: cone_loop.simps)
    then show ?thesis using less.hyps [OF dec v(2) eq cl] by simp
  qed
qed

lemma ancestors_closed_eq:
  assumes "q \<in> S" "S \<subseteq> ancestors r q" "\<forall>x \<in> S. \<forall>b. (b, x) \<in> r \<longrightarrow> b \<in> S"
  shows "S = ancestors r q"
proof -
  have "x \<in> S" if "(x, q) \<in> r\<^sup>*" for x
    using that by (induction rule: converse_rtrancl_induct) (use assms in auto)
  with assms(2) show ?thesis by (auto simp: ancestors_def)
qed

lemma cone_distances_ok:
  assumes rep: "cone_rep (n_slots f) r q st"
  shows "distances_ok (f\<lparr>distance_to_query := distances st\<rparr>)"
proof -
  have "unat (distances st ! a) \<le> unat (num_args f)" if a: "a < n_slots f" for a
  proof (cases "a \<in> set (cone_vector st)")
    case True
    then obtain i where i: "i < length (cone_vector st)" "cone_vector st ! i = a"
      by (auto simp: in_set_conv_nth)
    then have "unat (distances st ! a) \<le> i" using cone_repD(8) [OF rep i(1)] by simp
    then show ?thesis using i(1) cone_repD(10) [OF rep] by (simp add: n_slots_def)
  next
    case False
    then have "\<not> distances st ! a > 0" using cone_repD(7) [OF rep a] by blast
    then show ?thesis by (simp add: word_less_nat_alt)
  qed
  then show ?thesis using cone_repD(2) [OF rep] by (simp add: distances_ok_def n_slots_def)
qed

definition fresh_distances :: "af \<Rightarrow> bool" where
  "fresh_distances f \<longleftrightarrow> (\<forall>a < n_slots f. distance_to_query f ! a = 0)"

lemma num_args_Suc: "af_ok f \<Longrightarrow> unat (num_args f + 1) = n_slots f"
  using af_okD(2) [of f] unat_Suc_u32 [of "num_args f"] by (simp add: n_slots_def)

lemma af_ok_distances: "af_ok f \<Longrightarrow> length ds = n_slots f \<Longrightarrow> af_ok (f\<lparr>distance_to_query := ds\<rparr>)"
  by (simp add: af_ok_def attacks_in_range_def n_slots_def nodes_def)

lemma calculate_cone_influence_ok:
  assumes f: "af_ok f" and q: "q < n_slots f" and fresh: "fresh_distances f"
  shows "\<exists>ds v. calculate_cone_influence f q = Inr (f\<lparr>distance_to_query := ds\<rparr>, v) \<and>
           vbs_ok (n_slots f) v \<and> set (vec v) = ancestors (attacks f) q \<and>
           af_ok (f\<lparr>distance_to_query := ds\<rparr>) \<and> distances_ok (f\<lparr>distance_to_query := ds\<rparr>) \<and>
           (\<forall>x \<in> ancestors (attacks f) q. x \<noteq> q \<longrightarrow> ds ! x \<noteq> 0)"
proof -
  let ?n = "n_slots f"
  let ?st0 = "\<lparr>distances = (distance_to_query f)[q := 0], cone_vector = [q],
    cone_bitset = (replicate ?n 0)[q := 1]\<rparr>"
  have len: "length (distance_to_query f) = ?n" by (rule af_okD(5) [OF f])
  have "vbs_ok ?n (mk_vbs [q] ((replicate ?n 0)[q := 1]))"
    using vbs_ok_snoc [OF vbs_ok_empty [of ?n] q] by (simp add: mk_vbs_def)
  then have "cone_rep ?n (attacks f) q ?st0"
    using fresh q len by (auto simp: cone_rep_def fresh_distances_def ancestors_def list_update_fill)
  from cone_loop_ok [OF f this, of "[]" "[q]"] obtain st where
    st: "cone_loop f q [q] ?st0 = Some (Inr st)" "cone_rep ?n (attacks f) q st"
    "\<forall>x \<in> set (cone_vector st). \<forall>b. (b, x) \<in> attacks f \<longrightarrow> b \<in> set (cone_vector st)"
    by auto
  have "calculate_cone_influence f q =
      Inr (f\<lparr>distance_to_query := distances st\<rparr>, mk_vbs (cone_vector st) (cone_bitset st))"
    using st(1) q len by (simp add: calculate_cone_influence_def num_args_Suc [OF f] run_loop_def)
  moreover have cone: "set (cone_vector st) = ancestors (attacks f) q"
    using ancestors_closed_eq [OF cone_repD(3,9) [OF st(2)] st(3)] .
  moreover have "distances st ! x \<noteq> 0" if "x \<in> ancestors (attacks f) q" "x \<noteq> q" for x
    using cone_repD(7) [OF st(2), of x] cone_repD(6) [OF st(2), of x] that by (auto simp: cone)
  ultimately show ?thesis
    using cone_repD(1) [OF st(2)] af_ok_distances [OF f cone_repD(2) [OF st(2)]]
      cone_distances_ok [OF st(2)] by auto
qed

section \<open>The counters of the grounded reduction\<close>

definition dec_inv :: "vbs \<Rightarrow> u32 list \<Rightarrow> (arg \<Rightarrow> nat) \<Rightarrow> u32 list \<times> arg list \<Rightarrow> bool" where
  "dec_inv red na0 cnt = (\<lambda>(na, pushed). length na = length na0 \<and>
     (\<forall>x \<in> set (vec red). unat (na0 ! x) = unat (na ! x) + cnt x) \<and> distinct pushed \<and>
     set pushed = {x \<in> set (vec red). na0 ! x \<noteq> 0 \<and> na ! x = 0})"

lemma u32_dec: "(c :: u32) \<noteq> 0 \<Longrightarrow> unat (c - 1) = unat c - 1"
  by (rule unat_minus_one)

lemma drop_attacker_inactive:
  assumes "vbs_ok n red" "x < n" "x \<notin> set (vec red)"
  shows "drop_attacker red x s = Inr s"
  using assms by (cases s) (auto simp: drop_attacker_def vbs_ok_def)

lemma drop_attacker_active:
  assumes ok: "vbs_ok n red" and x: "x \<in> set (vec red)" and len: "length na0 = n"
    and inv: "dec_inv red na0 cnt s" and room: "cnt x < unat (na0 ! x)"
  shows "\<exists>s'. drop_attacker red x s = Inr s' \<and> dec_inv red na0 (cnt(x := cnt x + 1)) s'"
proof -
  obtain na pushed where s: "s = (na, pushed)" by (cases s)
  have xn: "x < n" "bits red ! x \<noteq> 0" "x < length (bits red)" using ok x by (auto simp: vbs_ok_def)
  have na: "length na = n" "unat (na0 ! x) = unat (na ! x) + cnt x"
    "set pushed = {x \<in> set (vec red). na0 ! x \<noteq> 0 \<and> na ! x = 0}" "distinct pushed"
    "\<forall>y \<in> set (vec red). unat (na0 ! y) = unat (na ! y) + cnt y"
    using inv x len by (auto simp: dec_inv_def s)
  have pos: "na ! x \<noteq> 0" using na(2) room by auto
  then have val: "unat (na ! x - 1) = unat (na ! x) - 1" by (rule u32_dec)
  have nz: "na0 ! x \<noteq> 0" using room by auto
  have notin: "x \<notin> set pushed" using na(3) pos by blast
  let ?na = "na[x := na ! x - 1]"
  let ?pushed = "if na ! x - 1 = 0 then pushed @ [x] else pushed"
  have "drop_attacker red x s = Inr (?na, ?pushed)"
    using xn na(1) by (simp add: drop_attacker_def s)
  moreover have "unat (na0 ! y) = unat (?na ! y) + (cnt(x := cnt x + 1)) y"
    if "y \<in> set (vec red)" for y
    using that na(5) val pos xn(1) na(1,2) by (cases "y = x") (auto simp: unat_gt_0 Suc_le_eq)
  moreover have "set ?pushed = {y \<in> set (vec red). na0 ! y \<noteq> 0 \<and> ?na ! y = 0}"
    using na(1,3) xn(1) x nz pos by (auto simp: list_update_fill)
  moreover have "distinct ?pushed" using na(4) notin by auto
  ultimately show ?thesis using na(1) len by (auto simp: dec_inv_def)
qed

lemma drop_victim_active:
  assumes f: "af_ok f" and ok: "vbs_ok (n_slots f) red" and len: "length na0 = n_slots f"
    and v: "v \<in> set (vec red)" "v \<notin> D" and D: "D \<subseteq> set (vec red)"
    and count: "\<And>x. x \<in> set (vec red) \<Longrightarrow> card {b \<in> set (vec red). (b, x) \<in> attacks f} \<le> unat (na0 ! x)"
    and inv: "dec_inv red na0 (\<lambda>x. card {u \<in> D. (u, x) \<in> attacks f}) s"
  shows "\<exists>s'. drop_victim f red v s = Inr s' \<and>
           dec_inv red na0 (\<lambda>x. card {u \<in> insert v D. (u, x) \<in> attacks f}) s'"
proof -
  let ?R = "attacks f"
  have vn: "v < n_slots f" "bits red ! v \<noteq> 0" "v < length (bits red)"
    using ok v(1) by (auto simp: vbs_ok_def)
  obtain ws where ws: "victims_of f v = Inr ws" "distinct ws" "set ws = {b. (v, b) \<in> ?R}"
    using victims_of_ok [OF f vn(1)] by blast
  have finD: "finite D" using D finite_subset by blast
  have grow: "card {u \<in> insert v D. (u, x) \<in> ?R} =
      card {u \<in> D. (u, x) \<in> ?R} + (if (v, x) \<in> ?R then 1 else 0)" for x
  proof -
    have "{u \<in> insert v D. (u, x) \<in> ?R} =
        (if (v, x) \<in> ?R then insert v {u \<in> D. (u, x) \<in> ?R} else {u \<in> D. (u, x) \<in> ?R})" by auto
    then show ?thesis using finD v(2) by simp
  qed
  let ?cnt = "\<lambda>pre x. card {u \<in> D. (u, x) \<in> ?R} + (if x \<in> set pre then 1 else 0)"
  have "\<exists>s'. fold_res (drop_attacker red) ws s = Inr s' \<and> dec_inv red na0 (?cnt ws) s'"
  proof (rule fold_res_invariant)
    show "dec_inv red na0 (?cnt []) s" using inv by simp
  next
    fix pre x post s
    assume split: "ws = pre @ x # post" and I: "dec_inv red na0 (?cnt pre) s"
    have new: "x \<notin> set pre" using ws(2) split by auto
    have att: "(v, x) \<in> ?R" using ws(3) split by auto
    show "\<exists>s'. drop_attacker red x s = Inr s' \<and> dec_inv red na0 (?cnt (pre @ [x])) s'"
    proof (cases "x \<in> set (vec red)")
      case True
      have "card {u \<in> insert v D. (u, x) \<in> ?R} \<le> card {b \<in> set (vec red). (b, x) \<in> ?R}"
        by (rule card_mono) (use D v(1) in auto)
      then have "?cnt pre x < unat (na0 ! x)" using grow [of x] count [OF True] att new by simp
      moreover have "(?cnt pre)(x := ?cnt pre x + 1) = ?cnt (pre @ [x])" using new by auto
      ultimately show ?thesis using drop_attacker_active [OF ok True len I] by simp
    next
      case False
      moreover have "x < n_slots f" using att graph.att_range [OF f] by blast
      moreover have "dec_inv red na0 (?cnt (pre @ [x])) s"
        using I False by (cases s) (auto simp: dec_inv_def)
      ultimately show ?thesis using drop_attacker_inactive [OF ok] by blast
    qed
  qed
  moreover have "?cnt ws = (\<lambda>x. card {u \<in> insert v D. (u, x) \<in> ?R})" using grow ws(3) by auto
  ultimately show ?thesis using vn ws(1) by (simp add: drop_victim_def)
qed

lemma drop_victims_ok:
  assumes f: "af_ok f" and ok: "vbs_ok (n_slots f) red" and len: "length na = n_slots f"
    and ua: "ua < n_slots f"
    and count: "\<And>x. x \<in> set (vec red) \<Longrightarrow> unat (na ! x) = card {b \<in> set (vec red). (b, x) \<in> attacks f}"
  shows "\<exists>na' pushed. drop_victims f red ua na = Inr (na', pushed) \<and>
           dec_inv red na (\<lambda>x. card {v \<in> set (vec red). (ua, v) \<in> attacks f \<and> (v, x) \<in> attacks f})
             (na', pushed)"
proof -
  let ?R = "attacks f"
  obtain vs where vs: "victims_of f ua = Inr vs" "distinct vs" "set vs = {b. (ua, b) \<in> ?R}"
    using victims_of_ok [OF f ua] by blast
  let ?D = "\<lambda>pre. set pre \<inter> set (vec red)"
  let ?I = "\<lambda>pre. dec_inv red na (\<lambda>x. card {u \<in> ?D pre. (u, x) \<in> ?R})"
  have "\<exists>s'. fold_res (drop_victim f red) vs (na, []) = Inr s' \<and> ?I vs s'"
  proof (rule fold_res_invariant)
    show "?I [] (na, [])" by (simp add: dec_inv_def)
  next
    fix pre v post s
    assume split: "vs = pre @ v # post" and I: "?I pre s"
    have new: "v \<notin> set pre" using vs(2) split by auto
    have "(ua, v) \<in> ?R" using vs(3) split by auto
    then have vn: "v < n_slots f" using graph.att_range [OF f] by blast
    show "\<exists>s'. drop_victim f red v s = Inr s' \<and> ?I (pre @ [v]) s'"
    proof (cases "v \<in> set (vec red)")
      case True
      have "?D (pre @ [v]) = insert v (?D pre)" using True by auto
      then show ?thesis
        using drop_victim_active [OF f ok len True, of "?D pre" s] new I count by auto
    next
      case False
      moreover have "?D (pre @ [v]) = ?D pre" using False by auto
      ultimately show ?thesis using I vn ok by (cases s) (auto simp: drop_victim_def vbs_ok_def)
    qed
  qed
  moreover have "{u \<in> ?D vs. (u, x) \<in> ?R} = {v \<in> set (vec red). (ua, v) \<in> ?R \<and> (v, x) \<in> ?R}" for x
    using vs(3) by auto
  ultimately show ?thesis using vs(1) by (auto simp: drop_victims_def)
qed

lemma count_attackers_ok:
  assumes f: "af_ok f" and ok: "vbs_ok (n_slots f) v" and closed: "unattacked_set (nodes f) (attacks f) (set (vec v))"
  shows "\<exists>ls na. count_attackers f v = Inr (ls, na) \<and> length na = n_slots f \<and> distinct ls \<and>
           set ls = {x \<in> set (vec v). na ! x = 0} \<and>
           (\<forall>x \<in> set (vec v). unat (na ! x) = card {b \<in> set (vec v). (b, x) \<in> attacks f})"
proof -
  let ?R = "attacks f" and ?n = "n_slots f"
  let ?f = "\<lambda>x (ls, na). bind_res (attackers_of f x) (\<lambda>xs.
     bind_res (set_at na x (of_nat (length xs) :: u32)) (\<lambda>na'.
     Inr (if xs = [] then ls @ [x] else ls, na')))"
  let ?I = "\<lambda>pre (ls, na). length na = ?n \<and> distinct ls \<and> set ls = {x \<in> set pre. na ! x = 0} \<and>
     (\<forall>x \<in> set pre. unat (na ! x) = card {b. (b, x) \<in> ?R})"
  have "\<exists>s'. fold_res ?f (vec v) ([], replicate ?n 0) = Inr s' \<and> ?I (vec v) s'"
  proof (rule fold_res_invariant)
    show "?I [] ([], replicate ?n 0)" by simp
  next
    fix pre x post and s :: "arg list \<times> u32 list"
    assume split: "vec v = pre @ x # post" and inv: "?I pre s"
    obtain ls na where s: "s = (ls, na)" by (cases s)
    have x: "x < ?n" "x \<notin> set pre" using ok split by (auto simp: vbs_ok_def)
    obtain xs where xs: "attackers_of f x = Inr xs" "distinct xs" "set xs = {b. (b, x) \<in> ?R}"
      using attackers_of_ok [OF f x(1)] by blast
    have "set xs \<subseteq> {..<?n}" using xs(3) graph.att_range [OF f] by auto
    then have "length xs \<le> ?n" using xs(2) card_mono [of "{..<?n}" "set xs"] by (simp add: distinct_card)
    then have val: "unat (of_nat (length xs) :: u32) = length xs"
      using af_okD(2) [OF f] by (simp add: unat_of_nat take_bit_eq_mod)
    then have zero: "(of_nat (length xs) :: u32) = 0 \<longleftrightarrow> xs = []"
      by (metis length_0_conv unat_0 unat_eq_zero)
    have len: "length xs = card {b. (b, x) \<in> ?R}" using xs(2,3) distinct_card by metis
    have "y \<noteq> x" if "y \<in> set pre" for y using that x(2) by blast
    then show "\<exists>s'. ?f x s = Inr s' \<and> ?I (pre @ [x]) s'"
      using inv s x xs(1) val zero len by (auto simp: list_update_fill)
  qed
  moreover have "{b. (b, x) \<in> ?R} = {b \<in> set (vec v). (b, x) \<in> ?R}" if "x \<in> set (vec v)" for x
    using that closed af_okD(1) [OF f] by (auto simp: unattacked_set_def)
  ultimately show ?thesis
    by (auto simp: count_attackers_def num_args_Suc [OF f])
qed

section \<open>The grounded reduction\<close>

text \<open>
  \<open>A\<close> is the cone, \<open>D\<close> the accepted arguments: they are admissible and grounded, the reduct is what
  they leave over, every counter of an active argument is its number of active attackers, and the
  arguments waiting in the list are exactly the active ones without an active attacker.
\<close>

definition ground_inv :: "af \<Rightarrow> arg set \<Rightarrow> arg \<Rightarrow> arg list \<Rightarrow> arg list \<Rightarrow> u32 list \<Rightarrow> vbs \<Rightarrow> bool" where
  "ground_inv f A q D todo na red \<longleftrightarrow>
     vbs_ok (n_slots f) red \<and> set (vec red) = left_over A (attacks f) (set D) \<and>
     length na = n_slots f \<and>
     (\<forall>x \<in> set (vec red). unat (na ! x) = card {b \<in> set (vec red). (b, x) \<in> attacks f}) \<and>
     distinct todo \<and> set todo = {x \<in> set (vec red). na ! x = 0} \<and> q \<in> set (vec red) \<and>
     distinct D \<and> admissible A (attacks f) (set D) \<and> set D \<subseteq> grounded A (attacks f) \<and>
     sceptical A (attacks f) q = sceptical (set (vec red)) (attacks f) q"

lemma ground_invD:
  assumes "ground_inv f A q D todo na red"
  shows "vbs_ok (n_slots f) red" "set (vec red) = left_over A (attacks f) (set D)"
    "length na = n_slots f"
    "\<And>x. x \<in> set (vec red) \<Longrightarrow> unat (na ! x) = card {b \<in> set (vec red). (b, x) \<in> attacks f}"
    "distinct todo" "set todo = {x \<in> set (vec red). na ! x = 0}" "q \<in> set (vec red)"
    "distinct D" "admissible A (attacks f) (set D)" "set D \<subseteq> grounded A (attacks f)"
    "sceptical A (attacks f) q = sceptical (set (vec red)) (attacks f) q"
  using assms by (auto simp: ground_inv_def)

lemma zero_counter_unattacked:
  assumes "ground_inv f A q D todo na red" "x \<in> set (vec red)"
  shows "na ! x = 0 \<longleftrightarrow> (\<forall>b \<in> set (vec red). (b, x) \<notin> attacks f)"
proof -
  have "na ! x = 0 \<longleftrightarrow> card {b \<in> set (vec red). (b, x) \<in> attacks f} = 0"
    using ground_invD(4) [OF assms] by (metis unat_eq_zero)
  also have "\<dots> \<longleftrightarrow> {b \<in> set (vec red). (b, x) \<in> attacks f} = {}" by simp
  finally show ?thesis by blast
qed

lemma count_split:
  assumes fin: "finite S" and ua: "ua \<in> S" "\<And>b. b \<in> S \<Longrightarrow> (b, ua) \<notin> r"
    and x: "x \<in> left_over S r {ua}"
  shows "card {b \<in> S. (b, x) \<in> r} =
    card {b \<in> left_over S r {ua}. (b, x) \<in> r} + card {v \<in> S. (ua, v) \<in> r \<and> (v, x) \<in> r}"
proof -
  have "{b \<in> S. (b, x) \<in> r} =
      {b \<in> left_over S r {ua}. (b, x) \<in> r} \<union> {v \<in> S. (ua, v) \<in> r \<and> (v, x) \<in> r}"
    using x ua(1) by (auto simp: left_over_def)
  moreover have "{b \<in> left_over S r {ua}. (b, x) \<in> r} \<inter> {v \<in> S. (ua, v) \<in> r \<and> (v, x) \<in> r} = {}"
    by (auto simp: left_over_def)
  moreover have "finite {b \<in> left_over S r {ua}. (b, x) \<in> r}"
    using fin by (auto intro: finite_subset [OF _ fin] simp: left_over_def)
  ultimately show ?thesis using fin by (simp add: card_Un_disjoint)
qed

lemma victim_counter_positive:
  assumes fin: "finite S" and ua: "ua \<in> S" "\<And>b. b \<in> S \<Longrightarrow> (b, ua) \<notin> r"
    and x: "x \<in> S" "(ua, x) \<in> r"
  shows "card {v \<in> S. (ua, v) \<in> r \<and> (v, x) \<in> r} < card {b \<in> S. (b, x) \<in> r}"
proof (rule psubset_card_mono)
  show "finite {b \<in> S. (b, x) \<in> r}" using fin by simp
  have "ua \<in> {b \<in> S. (b, x) \<in> r}" using ua(1) x by simp
  moreover have "ua \<notin> {v \<in> S. (ua, v) \<in> r \<and> (v, x) \<in> r}" using ua by blast
  ultimately show "{v \<in> S. (ua, v) \<in> r \<and> (v, x) \<in> r} \<subset> {b \<in> S. (b, x) \<in> r}" by blast
qed

text \<open>The bookkeeping of one turn: which arguments wait in the list afterwards.\<close>

lemma waiting_after_step:
  assumes inv: "ground_inv f A q D (ua # rest) na red"
    and dec: "dec_inv red na (\<lambda>x. card {v \<in> set (vec red). (ua, v) \<in> attacks f \<and> (v, x) \<in> attacks f})
      (na', pushed)"
    and S': "S' = left_over (set (vec red)) (attacks f) {ua}"
  shows "distinct (rest @ pushed) \<and> set (rest @ pushed) = {x \<in> S'. na' ! x = 0} \<and>
    (\<forall>x \<in> S'. unat (na' ! x) = card {b \<in> S'. (b, x) \<in> attacks f})"
proof -
  let ?S = "set (vec red)" and ?R = "attacks f"
  let ?c = "\<lambda>x. card {v \<in> ?S. (ua, v) \<in> ?R \<and> (v, x) \<in> ?R}"
  note I = ground_invD [OF inv]
  have ua: "ua \<in> ?S" "na ! ua = 0" "ua \<notin> set rest" using I(5,6) by auto
  have free: "(b, ua) \<notin> ?R" if "b \<in> ?S" for b
    using that ua zero_counter_unattacked [OF inv ua(1)] by blast
  have na': "\<And>x. x \<in> ?S \<Longrightarrow> unat (na ! x) = unat (na' ! x) + ?c x" "distinct pushed"
    "set pushed = {x \<in> ?S. na ! x \<noteq> 0 \<and> na' ! x = 0}"
    using dec by (auto simp: dec_inv_def)
  have S'_sub: "S' \<subseteq> ?S" using S' by (auto simp: left_over_def)
  have counts: "unat (na' ! x) = card {b \<in> S'. (b, x) \<in> ?R}" if "x \<in> S'" for x
    using count_split [OF _ ua(1) free, of x] that na'(1) I(4) S'_sub S' by auto
  have victim: "na' ! x \<noteq> 0" if "x \<in> ?S" "(ua, x) \<in> ?R" for x
  proof -
    have "?c x < unat (na ! x)"
      using victim_counter_positive [OF _ ua(1) free that] I(4) [OF that(1)] by simp
    then show ?thesis using na'(1) [OF that(1)] by auto
  qed
  have rest: "set rest = {x \<in> ?S. na ! x = 0} - {ua}" using I(5,6) by auto
  have "set (rest @ pushed) = {x \<in> S'. na' ! x = 0}"
  proof
    have "x \<in> S'" "na' ! x = 0" if "x \<in> set rest" for x
    proof -
      have x: "x \<in> ?S" "na ! x = 0" "x \<noteq> ua" using that rest by auto
      then have "(ua, x) \<notin> ?R" using zero_counter_unattacked [OF inv x(1)] ua(1) by blast
      with x S' show "x \<in> S'" by (auto simp: left_over_def)
      show "na' ! x = 0" using na'(1) [OF x(1)] x(2) by (auto simp: unat_eq_zero)
    qed
    moreover have "x \<in> S'" if "x \<in> set pushed" for x
      using that na'(3) victim ua(2) S' by (auto simp: left_over_def)
    ultimately show "set (rest @ pushed) \<subseteq> {x \<in> S'. na' ! x = 0}" using na'(3) by auto
    show "{x \<in> S'. na' ! x = 0} \<subseteq> set (rest @ pushed)"
      using S'_sub S' rest na'(3) by (auto simp: left_over_def)
  qed
  moreover have "distinct (rest @ pushed)" using I(5) na'(2,3) rest by auto
  ultimately show ?thesis using counts by blast
qed

lemma ground_inv_step:
  assumes f: "af_ok f" and finA: "finite A" and inv: "ground_inv f A q D (ua # rest) na red"
    and q: "ua \<noteq> q" "(ua, q) \<notin> attacks f"
  shows "\<exists>na' pushed red'. drop_victims f red ua na = Inr (na', pushed) \<and>
    get_reduct red f ua = Inr red' \<and> ground_inv f A q (D @ [ua]) (rest @ pushed) na' red'"
proof -
  let ?S = "set (vec red)" and ?R = "attacks f"
  note I = ground_invD [OF inv]
  have ua: "ua \<in> ?S" "na ! ua = 0" using I(6) by auto
  have un: "ua < n_slots f" using ua(1) I(1) by (auto simp: vbs_ok_def)
  have free: "\<And>b. b \<in> ?S \<Longrightarrow> (b, ua) \<notin> ?R"
    using ua zero_counter_unattacked [OF inv ua(1)] by blast
  obtain na' pushed where dv: "drop_victims f red ua na = Inr (na', pushed)"
    "dec_inv red na (\<lambda>x. card {v \<in> ?S. (ua, v) \<in> ?R \<and> (v, x) \<in> ?R}) (na', pushed)"
    using drop_victims_ok [OF f I(1) I(3) un I(4)] by blast
  obtain red' where red': "get_reduct red f ua = Inr red'" "vbs_ok (n_slots f) red'"
    "set (vec red') = left_over ?S ?R {ua}"
    using get_reduct_ok [OF f un I(1)] set_survivors by (metis list.set(1) list.simps(15))
  have ad_ua: "admissible ?S ?R {ua}" using ua(1) free by (rule unattacked_admissible)
  have adm: "admissible A ?R (set (D @ [ua]))"
    using admissible_union [OF I(9), of "{ua}"] ad_ua I(2) by simp
  have "defends A ?R (set D) ua"
    unfolding defends_def
  proof (intro ballI impI)
    fix b assume b: "b \<in> A" "(b, ua) \<in> ?R"
    then have "b \<notin> ?S" using free by blast
    moreover have "b \<notin> set D" using b(2) ua(1) I(2) by (auto simp: left_over_def)
    ultimately show "\<exists>c \<in> set D. (c, b) \<in> ?R" using b(1) I(2) by (auto simp: left_over_def)
  qed
  then have "ua \<in> grounded A ?R"
    using in_groundedI [OF _ _ I(10)] ua(1) I(2) by (auto simp: left_over_def)
  then have gr: "set (D @ [ua]) \<subseteq> grounded A ?R" using I(10) by simp
  have scept: "sceptical ?S ?R q = sceptical (left_over ?S ?R {ua}) ?R q"
    using sceptical_unattacked [OF ua(1) free _ I(7)] q by auto
  have lo: "set (vec red') = left_over A ?R (set (D @ [ua]))"
    using red'(3) I(2) by (simp add: left_over_union)
  have q': "q \<in> set (vec red')" using red'(3) I(7) q by (auto simp: left_over_def)
  have D': "distinct (D @ [ua])" using I(8) ua(1) I(2) by (auto simp: left_over_def)
  have "length na' = n_slots f" using dv(2) I(3) by (simp add: dec_inv_def)
  then have "ground_inv f A q (D @ [ua]) (rest @ pushed) na' red'"
    unfolding ground_inv_def
    using waiting_after_step [OF inv dv(2) red'(3)] adm gr lo q' D' red'(2,3) scept I(11) by simp
  then show ?thesis using dv(1) red'(1) by blast
qed

definition ground_result :: "af \<Rightarrow> arg set \<Rightarrow> arg \<Rightarrow> pre_proc_result \<Rightarrow> vbs \<Rightarrow> bool" where
  "ground_result f A q result red \<longleftrightarrow>
     (case result of
        accepted \<Rightarrow> sceptical A (attacks f) q
      | rejected \<Rightarrow> \<not> sceptical A (attacks f) q
      | unknown \<Rightarrow> vbs_ok (n_slots f) red \<and> q \<in> set (vec red) \<and>
          set (vec red) = left_over A (attacks f) (grounded A (attacks f)) \<and>
          sceptical A (attacks f) q = sceptical (set (vec red)) (attacks f) q)"

lemma ground_loop_finished:
  assumes inv: "ground_inv f A q D [] na red"
  shows "ground_result f A q unknown red"
proof -
  note I = ground_invD [OF inv]
  have "grounded A (attacks f) = set D"
  proof (rule grounded_eqI [OF I(9,10)])
    fix a assume "a \<in> left_over A (attacks f) (set D)"
    then have a: "a \<in> set (vec red)" using I(2) by simp
    then have "na ! a \<noteq> 0" using I(6) by auto
    then show "\<exists>b \<in> left_over A (attacks f) (set D). (b, a) \<in> attacks f"
      using zero_counter_unattacked [OF inv a] I(2) by auto
  qed
  then show ?thesis using I by (simp add: ground_result_def)
qed

lemma ground_loop_decides:
  assumes f: "af_ok f" and inv: "ground_inv f A q D (ua # rest) na red"
  shows "ua = q \<Longrightarrow> sceptical A (attacks f) q"
    and "ua \<noteq> q \<Longrightarrow> (ua, q) \<in> attacks f \<Longrightarrow> \<not> sceptical A (attacks f) q"
proof -
  note I = ground_invD [OF inv]
  have ua: "ua \<in> set (vec red)" "na ! ua = 0" using I(6) by auto
  have free: "\<And>b. b \<in> set (vec red) \<Longrightarrow> (b, ua) \<notin> attacks f"
    using ua zero_counter_unattacked [OF inv ua(1)] by blast
  note step = sceptical_unattacked [OF ua(1) free _ I(7), simplified] I(11)
  show "ua = q \<Longrightarrow> sceptical A (attacks f) q" using step by simp
  show "ua \<noteq> q \<Longrightarrow> (ua, q) \<in> attacks f \<Longrightarrow> \<not> sceptical A (attacks f) q" using step by simp
qed

lemma ground_loop_ok:
  assumes f: "af_ok f" and finA: "finite A" and q: "q < n_slots f"
    and inv: "ground_inv f A q D todo na red"
  shows "\<exists>result red'. ground_loop f q todo na red = Some (Inr (result, red')) \<and>
           ground_result f A q result red'"
  using inv
proof (induction "card A - length D" arbitrary: D todo na red rule: less_induct)
  case less
  note I = ground_invD [OF less.prems]
  show ?case
  proof (cases todo)
    case Nil
    then show ?thesis using ground_loop_finished [of f A q D na red] less.prems
      by (simp add: ground_loop.simps)
  next
    case (Cons ua rest)
    note inv = less.prems [unfolded Cons]
    have ua: "ua \<in> set (vec red)" using I(6) Cons by auto
    then have un: "ua < n_slots f" using I(1) by (auto simp: vbs_ok_def)
    have hit: "victim_bit f ua q = Inr ((ua, q) \<in> attacks f)" using victim_bit_ok [OF f un q] .
    consider "ua = q" | "ua \<noteq> q" "(ua, q) \<in> attacks f" | "ua \<noteq> q" "(ua, q) \<notin> attacks f" by blast
    then show ?thesis
    proof cases
      case 1
      then show ?thesis using ground_loop_decides(1) [OF f inv] Cons
        by (simp add: ground_loop.simps ground_result_def)
    next
      case 2
      then show ?thesis using ground_loop_decides(2) [OF f inv] Cons hit
        by (simp add: ground_loop.simps ground_result_def)
    next
      case 3
      obtain na' pushed red' where st: "drop_victims f red ua na = Inr (na', pushed)"
        "get_reduct red f ua = Inr red'" "ground_inv f A q (D @ [ua]) (rest @ pushed) na' red'"
        using ground_inv_step [OF f finA inv 3] by blast
      have "set D \<subset> A" using ua I(2) admissibleD(1) [OF I(9)] by (auto simp: left_over_def)
      then have "length D < card A"
        using psubset_card_mono [OF finA] distinct_card [OF I(8)] by metis
      then have "card A - length (D @ [ua]) < card A - length D" by simp
      from less.hyps [OF this st(3)] show ?thesis
        using 3 Cons hit st(1,2) by (simp add: ground_loop.simps)
    qed
  qed
qed

lemma reduce_by_grounded_ok:
  assumes f: "af_ok f" and v: "vbs_ok (n_slots f) v" and q: "q \<in> set (vec v)"
    and closed: "unattacked_set (nodes f) (attacks f) (set (vec v))"
  shows "\<exists>result red. reduce_by_grounded f v q = Inr (result, red) \<and>
           ground_result f (set (vec v)) q result red"
proof -
  obtain ls na where c: "count_attackers f v = Inr (ls, na)" "length na = n_slots f" "distinct ls"
    "set ls = {x \<in> set (vec v). na ! x = 0}"
    "\<forall>x \<in> set (vec v). unat (na ! x) = card {b \<in> set (vec v). (b, x) \<in> attacks f}"
    using count_attackers_ok [OF f v closed] by blast
  have "ground_inv f (set (vec v)) q [] ls na v"
    using v q c by (simp add: ground_inv_def)
  moreover have "q < n_slots f" using v q by (auto simp: vbs_ok_def)
  ultimately show ?thesis
    using ground_loop_ok [OF f _ _, of "set (vec v)" q "[]" ls na v] c(1)
    by (auto simp: reduce_by_grounded_def run_loop_def)
qed

section \<open>The preprocessor\<close>

lemma ancestors_in_nodes:
  assumes f: "af_ok f" and q: "q \<in> nodes f"
  shows "ancestors (attacks f) q \<subseteq> nodes f"
proof
  fix x assume "x \<in> ancestors (attacks f) q"
  then have "(x, q) \<in> (attacks f)\<^sup>*" by (simp add: ancestors_def)
  then show "x \<in> nodes f"
    by (cases rule: converse_rtranclE) (use q af_okD(1) [OF f] in auto)
qed

lemma ancestors_unattacked:
  assumes f: "af_ok f" and q: "q \<in> nodes f"
  shows "unattacked_set (nodes f) (attacks f) (ancestors (attacks f) q)"
  unfolding unattacked_set_def
proof (intro conjI ballI impI)
  show "ancestors (attacks f) q \<subseteq> nodes f" by (rule ancestors_in_nodes [OF f q])
next
  fix a b assume "a \<in> ancestors (attacks f) q" "(b, a) \<in> attacks f"
  then show "b \<in> ancestors (attacks f) q"
    unfolding ancestors_def by (auto intro: converse_rtrancl_into_rtrancl)
qed

lemma process_self_attack:
  "af_ok f \<Longrightarrow> q \<in> nodes f \<Longrightarrow> (q, q) \<in> attacks f \<Longrightarrow>
   process f q out = Inr (rejected, f, out)"
  by (simp add: process_def victim_bit_ok nodes_less)

lemma process_unattacked:
  assumes "af_ok f" "q \<in> nodes f" "\<forall>b. (b, q) \<notin> attacks f"
  shows "process f q out = Inr (accepted, f, out)"
  using attackers_of_ok [OF assms(1) nodes_less [OF assms(2)]] assms
  by (auto simp: process_def victim_bit_ok nodes_less)

definition process_post :: "af \<Rightarrow> arg \<Rightarrow> pre_proc_result \<Rightarrow> af \<Rightarrow> vbs \<Rightarrow> bool" where
  "process_post f q result g red \<longleftrightarrow>
     (\<exists>ds. g = f\<lparr>distance_to_query := ds\<rparr>) \<and> af_ok g \<and>
     (case result of
        accepted \<Rightarrow> sceptical (nodes f) (attacks f) q
      | rejected \<Rightarrow> \<not> sceptical (nodes f) (attacks f) q
      | unknown \<Rightarrow> distances_ok g \<and> vbs_ok (n_slots f) red \<and> q \<in> set (vec red) \<and> (q, q) \<notin> attacks f \<and>
          set (vec red) = left_over (ancestors (attacks f) q) (attacks f)
            (grounded (ancestors (attacks f) q) (attacks f)) \<and>
          sceptical (nodes f) (attacks f) q = sceptical (set (vec red)) (attacks f) q)"

lemma process_ok:
  assumes f: "af_ok f" and q: "q \<in> nodes f" and fresh: "fresh_distances f"
  shows "\<exists>result g red. process f q out = Inr (result, g, red) \<and> process_post f q result g red"
proof -
  let ?R = "attacks f" and ?A = "ancestors (attacks f) q"
  have same: "\<exists>ds. f = f\<lparr>distance_to_query := ds\<rparr>"
    by (rule exI [where x = "distance_to_query f"]) simp
  consider "(q, q) \<in> ?R" | "\<forall>b. (b, q) \<notin> ?R" | "(q, q) \<notin> ?R" "\<exists>b. (b, q) \<in> ?R" by blast
  then show ?thesis
  proof cases
    case 1
    then show ?thesis
      using process_self_attack [OF f q 1] sceptical_self_attack [OF 1 finite_nodes] f same
      by (auto simp: process_post_def)
  next
    case 2
    have "sceptical (nodes f) ?R q"
      unfolding sceptical_def using unattacked_in_preferred [OF q, of ?R] 2 by blast
    then show ?thesis using process_unattacked [OF f q 2] f same by (auto simp: process_post_def)
  next
    case 3
    obtain ds v where c: "calculate_cone_influence f q = Inr (f\<lparr>distance_to_query := ds\<rparr>, v)"
      "vbs_ok (n_slots f) v" "set (vec v) = ?A"
      "af_ok (f\<lparr>distance_to_query := ds\<rparr>)" "distances_ok (f\<lparr>distance_to_query := ds\<rparr>)"
      using calculate_cone_influence_ok [OF f nodes_less [OF q] fresh] by blast
    let ?g = "f\<lparr>distance_to_query := ds\<rparr>"
    have g: "n_slots ?g = n_slots f" "attacks ?g = ?R" "nodes ?g = nodes f"
      by (simp_all add: n_slots_def nodes_def)
    have un: "unattacked_set (nodes f) ?R ?A" using ancestors_unattacked [OF f q] .
    have qA: "q \<in> ?A" by (simp add: ancestors_def)
    obtain result red where r: "reduce_by_grounded ?g v q = Inr (result, red)"
      "ground_result ?g ?A q result red"
      using reduce_by_grounded_ok [OF c(4), of v q] c(2,3) un qA by (auto simp: g)
    obtain xs where "attackers_of f q = Inr xs" "set xs = {b. (b, q) \<in> ?R}"
      using attackers_of_ok [OF f nodes_less [OF q]] by blast
    moreover from this(2) have "xs \<noteq> []" using 3(2) by auto
    moreover have "victim_bit f q q = Inr False"
      using 3(1) victim_bit_ok [OF f] nodes_less [OF q] by simp
    ultimately have "process f q out = Inr (result, ?g, red)"
      using c(1) r(1) by (simp add: process_def)
    moreover have sc: "sceptical (nodes f) ?R q = sceptical ?A ?R q"
      using sceptical_unattacked_set [OF un finite_nodes qA] .
    have "process_post f q result ?g red"
      unfolding process_post_def
    proof (intro conjI)
      show "\<exists>ds'. ?g = f\<lparr>distance_to_query := ds'\<rparr>" by blast
      show "case result of
          accepted \<Rightarrow> sceptical (nodes f) ?R q
        | rejected \<Rightarrow> \<not> sceptical (nodes f) ?R q
        | unknown \<Rightarrow> distances_ok ?g \<and> vbs_ok (n_slots f) red \<and> q \<in> set (vec red) \<and> (q, q) \<notin> ?R \<and>
            set (vec red) = left_over ?A ?R (grounded ?A ?R) \<and>
            sceptical (nodes f) ?R q = sceptical (set (vec red)) ?R q"
        using r(2) c(5) 3(1) sc unfolding ground_result_def g
        by (cases result) (simp, simp, simp, metis)
    qed (rule c(4))
    ultimately show ?thesis by blast
  qed
qed

text \<open>The distances the preprocessor leaves behind are not zero on the cone, the query apart.\<close>

lemma process_leaves_distances:
  assumes f: "af_ok f" and q: "q \<in> nodes f" and fresh: "fresh_distances f"
    and R: "(q, q) \<notin> attacks f" "(b, q) \<in> attacks f"
  shows "\<exists>result ds red. process f q out = Inr (result, f\<lparr>distance_to_query := ds\<rparr>, red) \<and>
    length ds = n_slots f \<and> (\<forall>x \<in> ancestors (attacks f) q. x \<noteq> q \<longrightarrow> ds ! x \<noteq> 0)"
proof -
  obtain ds v where c: "calculate_cone_influence f q = Inr (f\<lparr>distance_to_query := ds\<rparr>, v)"
    "\<forall>x \<in> ancestors (attacks f) q. x \<noteq> q \<longrightarrow> ds ! x \<noteq> 0" "length ds = n_slots f"
    using calculate_cone_influence_ok [OF f nodes_less [OF q] fresh] by (auto dest: af_okD(5) simp: n_slots_def)
  obtain xs where xs: "attackers_of f q = Inr xs" "set xs = {b. (b, q) \<in> attacks f}"
    using attackers_of_ok [OF f nodes_less [OF q]] by blast
  have "xs \<noteq> []" using xs(2) R(2) by auto
  moreover have "victim_bit f q q = Inr False"
    using R(1) victim_bit_ok [OF f] nodes_less [OF q] by simp
  moreover obtain result red where "process f q out = Inr (result, f\<lparr>distance_to_query := ds\<rparr>, red)"
    using process_ok [OF f q fresh, of out] c(1) xs(1) calculation
    by (auto simp: process_def bind_res_eq_Inr split: sum.splits)
  ultimately show ?thesis using c by blast
qed

text \<open>
  Distances left by an earlier query: attackers whose distance is not zero are taken for visited, and
  the cone is the query alone.
\<close>

lemma process_stale:
  assumes f: "af_ok f" and q: "q \<in> nodes f" and R: "(q, q) \<notin> attacks f" "(b0, q) \<in> attacks f"
    and stale: "\<forall>b. (b, q) \<in> attacks f \<longrightarrow> distance_to_query f ! b \<noteq> 0"
  shows "\<exists>g red. process f q out = Inr (unknown, g, red) \<and> vbs_ok (n_slots f) red \<and> vec red = [q]"
proof -
  let ?n = "n_slots f" and ?ds = "(distance_to_query f)[q := 0]"
  let ?bits = "(replicate ?n 0)[q := 1] :: u8 list"
  let ?st = "\<lparr>distances = ?ds, cone_vector = [q], cone_bitset = ?bits\<rparr>"
  let ?g = "f\<lparr>distance_to_query := ?ds\<rparr>" and ?red = "mk_vbs [q] ?bits"
  have qn: "q < ?n" using nodes_less [OF q] .
  have len: "length (distance_to_query f) = ?n" by (rule af_okD(5) [OF f])
  obtain xs where xs: "attackers_of f q = Inr xs" "set xs = {b. (b, q) \<in> attacks f}"
    using attackers_of_ok [OF f qn] by blast
  have ne: "xs \<noteq> []" using xs(2) R(2) by auto
  have "cone_attacker q d b (?st, []) = Inr (?st, [])" if b: "b \<in> set xs" for b d
  proof -
    have "(b, q) \<in> attacks f" using b xs(2) by blast
    then have "b < ?n" "b \<noteq> q" "?ds ! b \<noteq> 0"
      using graph.att_range [OF f] R(1) stale by (auto simp: list_update_fill)
    then show ?thesis by (simp add: cone_attacker_def len word_gt_0)
  qed
  then have "fold_res (cone_attacker q d) ys (?st, []) = Inr (?st, [])" if "set ys \<subseteq> set xs" for ys d
    using that by (induction ys) auto
  then have visit: "cone_visit f q q ?st = Inr (?st, [])"
    using xs(1) qn len by (simp add: cone_visit_def)
  have "cone_loop f q [q] ?st = Some (Inr ?st)"
    using visit by (subst cone_loop.simps, simp) (subst cone_loop.simps, simp)
  then have cone: "calculate_cone_influence f q = Inr (?g, ?red)"
    using qn len by (simp add: calculate_cone_influence_def num_args_Suc [OF f] run_loop_def)
  have att: "attackers_of ?g q = Inr xs" using xs(1) by (simp add: attackers_of_def)
  obtain na where "count_attackers ?g ?red = Inr ([], na)"
    using att ne qn num_args_Suc [OF f] by (simp add: count_attackers_def)
  then have "reduce_by_grounded ?g ?red q = Inr (unknown, ?red)"
    by (simp add: reduce_by_grounded_def run_loop_def ground_loop.simps)
  moreover have "victim_bit f q q = Inr False" using R(1) victim_bit_ok [OF f] qn by simp
  ultimately have "process f q out = Inr (unknown, ?g, ?red)"
    using cone xs(1) ne by (simp add: process_def)
  moreover have "vbs_ok ?n ?red"
    using vbs_ok_snoc [OF vbs_ok_empty [of ?n] qn] by (simp add: mk_vbs_def)
  ultimately show ?thesis by auto
qed

section \<open>Properties\<close>

lemma ex_af_fresh: "fresh_distances ex_af"
  unfolding fresh_distances_def ex_af_ok by (simp del: replicate.simps)

text \<open>
  C7: the preprocessor.  On a fresh framework it returns; \<open>accepted\<close> and \<open>rejected\<close> are right answers
  for the query, and \<open>unknown\<close> leaves the ancestors of the query without the grounded extension and
  what it attacks, on which the query has the same status.
\<close>

theorem process_correct:
  assumes "af_ok f" "q \<in> nodes f" "fresh_distances f"
  shows "\<exists>result g red. process f q out = Inr (result, g, red) \<and>
    (case result of
       accepted \<Rightarrow> sceptical (nodes f) (attacks f) q
     | rejected \<Rightarrow> \<not> sceptical (nodes f) (attacks f) q
     | unknown \<Rightarrow> vbs_ok (n_slots f) red \<and>
         set (vec red) = left_over (ancestors (attacks f) q) (attacks f)
           (grounded (ancestors (attacks f) q) (attacks f)) \<and>
         sceptical (nodes f) (attacks f) q = sceptical (set (vec red)) (attacks f) q)"
proof -
  obtain result g red where p: "process f q out = Inr (result, g, red)" "process_post f q result g red"
    using process_ok [OF assms] by blast
  show ?thesis
    by (intro exI conjI, rule p(1)) (use p(2) in \<open>cases result; simp add: process_post_def\<close>)
qed

lemma process_correct_witness: "\<exists>result g red. process ex_af 4 vbs_new = Inr (result, g, red)"
  using process_correct [of ex_af 4 vbs_new] ex_af_fresh by (auto simp: ex_af_ok)

text \<open>
  C12: the cone of influence is the set of arguments with a path of attacks to the query, and the
  distances written are zero on none of them but the query and never exceed the number of
  arguments.
\<close>

theorem cone_of_influence_correct:
  assumes "af_ok f" "q < n_slots f" "fresh_distances f"
  shows "\<exists>ds v. calculate_cone_influence f q = Inr (f\<lparr>distance_to_query := ds\<rparr>, v) \<and>
    vbs_ok (n_slots f) v \<and> set (vec v) = {x. (x, q) \<in> (attacks f)\<^sup>*} \<and>
    (\<forall>x \<in> set (vec v). x \<noteq> q \<longrightarrow> ds ! x \<noteq> 0) \<and>
    (\<forall>a < n_slots f. unat (ds ! a) \<le> unat (num_args f))"
proof -
  obtain ds v where c: "calculate_cone_influence f q = Inr (f\<lparr>distance_to_query := ds\<rparr>, v)"
    "vbs_ok (n_slots f) v" "set (vec v) = ancestors (attacks f) q"
    "distances_ok (f\<lparr>distance_to_query := ds\<rparr>)" "\<forall>x \<in> ancestors (attacks f) q. x \<noteq> q \<longrightarrow> ds ! x \<noteq> 0"
    using calculate_cone_influence_ok [OF assms] by blast
  have "\<forall>a < n_slots f. unat (ds ! a) \<le> unat (num_args f)"
    using c(4) by (simp add: distances_ok_def n_slots_def)
  then show ?thesis using c by (auto simp: ancestors_def)
qed

lemma cone_of_influence_correct_witness:
  "\<exists>g v. calculate_cone_influence ex_af 1 = Inr (g, v) \<and> set (vec v) = {x. (x, 1) \<in> (set ex_attacks)\<^sup>*}"
  using cone_of_influence_correct [of ex_af 1] ex_af_fresh by (auto simp: ex_af_ok)

text \<open>
  C11: on arguments nobody outside attacks, \<open>reduce_by_grounded\<close> decides the query or leaves what the
  grounded extension does not decide.
\<close>

theorem reduce_by_grounded_correct:
  assumes "af_ok f" "vbs_ok (n_slots f) v" "q \<in> set (vec v)"
    "unattacked_set (nodes f) (attacks f) (set (vec v))"
  shows "\<exists>result red. reduce_by_grounded f v q = Inr (result, red) \<and>
    (case result of
       accepted \<Rightarrow> sceptical (set (vec v)) (attacks f) q
     | rejected \<Rightarrow> \<not> sceptical (set (vec v)) (attacks f) q
     | unknown \<Rightarrow> q \<in> set (vec red) \<and>
         set (vec red) = left_over (set (vec v)) (attacks f) (grounded (set (vec v)) (attacks f)))"
proof -
  obtain result red where r: "reduce_by_grounded f v q = Inr (result, red)"
    "ground_result f (set (vec v)) q result red"
    using reduce_by_grounded_ok [OF assms] by blast
  show ?thesis
    by (intro exI conjI, rule r(1)) (use r(2) in \<open>cases result; simp add: ground_result_def\<close>)
qed

lemma reduce_by_grounded_correct_witness:
  "\<exists>result red. reduce_by_grounded ex_af \<lparr>vec = [2, 1], bits = [0, 1, 1, 0, 0]\<rparr> 1 = Inr (result, red)"
proof -
  have "vbs_ok 5 \<lparr>vec = [2, 1], bits = [0, 1, 1, 0, 0]\<rparr>" by (simp add: vbs_ok_def all_less_5)
  moreover have "unattacked_set {1..4} (set ex_attacks) {2, 1}"
    by (auto simp: unattacked_set_def ex_attacks_def)
  ultimately show ?thesis
    using reduce_by_grounded_correct [of ex_af "\<lparr>vec = [2, 1], bits = [0, 1, 1, 0, 0]\<rparr>" 1]
    by (auto simp: ex_af_ok)
qed

end
