(* ===== verification/CadicalApi.thy ===== *)
theory CadicalApi
  imports Prelude
begin

text \<open>
  The part of the CaDiCaL interface the program talks to (\<^verbatim>\<open>lib/cadical/src/solver.cpp\<close>, with the
  contracts of \<^verbatim>\<open>contract.hpp\<close> and the state diagram of \<^verbatim>\<open>cadical.hpp\<close>): the state machine of the
  API, clause addition literal by literal, \<open>solve\<close> and \<open>val\<close>.  The search itself (\<^verbatim>\<open>Internal\<close>) is a
  parameter, the field \<open>engine\<close>; \<open>engine_ok\<close> states what its documentation promises.  A contract
  violation aborts the process: the fault \<open>ContractViolated\<close>.
\<close>

section \<open>Literals, clauses, assignments\<close>

type_synonym lit = int
type_synonym assignment = "nat \<Rightarrow> bool"

definition lit_true :: "assignment \<Rightarrow> lit \<Rightarrow> bool" where
  "lit_true \<nu> l = (if l > 0 then \<nu> (nat l) else \<not> \<nu> (nat (- l)))"

definition clause_true :: "assignment \<Rightarrow> lit list \<Rightarrow> bool" where
  "clause_true \<nu> c = list_ex (lit_true \<nu>) c"

definition all_true :: "assignment \<Rightarrow> lit list list \<Rightarrow> bool" where
  "all_true \<nu> cs = list_all (clause_true \<nu>) cs"

lemma lit_true_simps [simp]:
  "0 < n \<Longrightarrow> lit_true \<nu> (int n) = \<nu> n" "0 < n \<Longrightarrow> lit_true \<nu> (- int n) = (\<not> \<nu> n)"
  by (simp_all add: lit_true_def)

lemma clause_true_iff: "clause_true \<nu> c \<longleftrightarrow> (\<exists>l \<in> set c. lit_true \<nu> l)"
  by (simp add: clause_true_def list_ex_iff)

lemma all_true_iff: "all_true \<nu> cs \<longleftrightarrow> (\<forall>c \<in> set cs. clause_true \<nu> c)"
  by (simp add: all_true_def list_all_iff)

lemma all_true_append [simp]: "all_true \<nu> (cs @ ds) \<longleftrightarrow> all_true \<nu> cs \<and> all_true \<nu> ds"
  by (auto simp: all_true_iff)

text \<open>The values \<^verbatim>\<open>External::vals\<close> of a model; variables beyond its end are false.\<close>

definition vals_assignment :: "bool list \<Rightarrow> assignment" where
  "vals_assignment vals v = (v < length vals \<and> vals ! v)"

section \<open>The search engine as a parameter\<close>

datatype verdict = Sat "bool list" | Unsat | Limit

type_synonym engine = "lit list list \<Rightarrow> lit list \<Rightarrow> lit list \<Rightarrow> verdict"

definition problem_true :: "assignment \<Rightarrow> lit list list \<Rightarrow> lit list \<Rightarrow> lit list \<Rightarrow> bool" where
  "problem_true \<nu> cs assumptions constraint \<longleftrightarrow> all_true \<nu> cs \<and>
     list_all (lit_true \<nu>) assumptions \<and> (constraint \<noteq> [] \<longrightarrow> clause_true \<nu> constraint)"

text \<open>
  The documented result of \<open>solve\<close>: 10 with a model, 20 if there is none, and 0 only when a limit
  is hit or the search is terminated, which the program never asks for.
\<close>

definition engine_ok :: "engine \<Rightarrow> bool" where
  "engine_ok e \<longleftrightarrow> (\<forall>cs assumptions constraint.
     case e cs assumptions constraint of
       Sat vals \<Rightarrow> problem_true (vals_assignment vals) cs assumptions constraint
     | Unsat \<Rightarrow> \<forall>\<nu>. \<not> problem_true \<nu> cs assumptions constraint
     | Limit \<Rightarrow> False)"

section \<open>The solver object\<close>

datatype cad_state =
  INITIALIZING | CONFIGURING | STEADY | ADDING | SOLVING | SATISFIED | UNSATISFIED | DELETING

text \<open>
  \<^verbatim>\<open>READY\<close> and \<^verbatim>\<open>VALID\<close> are bit masks in the code.  \<open>clauses\<close> are the complete clauses handed to the
  external solver, \<open>current\<close> the one still open.
\<close>

definition READY :: "cad_state \<Rightarrow> bool" where
  "READY s \<longleftrightarrow> s = CONFIGURING \<or> s = STEADY \<or> s = SATISFIED \<or> s = UNSATISFIED"

definition VALID :: "cad_state \<Rightarrow> bool" where
  "VALID s \<longleftrightarrow> READY s \<or> s = ADDING"

record cadical =
  cstate :: cad_state
  adding_clause :: bool
  adding_constraint :: bool
  max_var :: nat
  clauses :: "lit list list"
  current :: "lit list"
  assumptions :: "lit list"
  constraint :: "lit list"
  vals :: "bool list"
  engine :: engine

definition cadical_new :: "engine \<Rightarrow> cadical" where
  "cadical_new e = \<lparr>cstate = CONFIGURING, adding_clause = False, adding_constraint = False,
     max_var = 0, clauses = [], current = [], assumptions = [], constraint = [], vals = [],
     engine = e\<rparr>"

definition REQUIRE :: "bool \<Rightarrow> 'a res \<Rightarrow> 'a res" where
  "REQUIRE b k = (if b then k else Inl ContractViolated)"

definition valid_lit :: "lit \<Rightarrow> bool" where
  "valid_lit l \<longleftrightarrow> l \<noteq> 0 \<and> l \<noteq> - (2 ^ 31)"

definition transition_to_steady_state :: "cadical \<Rightarrow> cadical" where
  "transition_to_steady_state s =
     (let s' = (if cstate s = SATISFIED \<or> cstate s = UNSATISFIED
                then s\<lparr>assumptions := [], constraint := []\<rparr> else s)
      in if cstate s' \<noteq> STEADY then s'\<lparr>cstate := STEADY\<rparr> else s')"

text \<open>\<^verbatim>\<open>External::add\<close>: a non-zero literal enlarges the variables and joins the open clause.\<close>

definition external_add :: "lit \<Rightarrow> cadical \<Rightarrow> cadical" where
  "external_add l s =
     (if l = 0 then s\<lparr>clauses := clauses s @ [current s], current := []\<rparr>
      else s\<lparr>max_var := max (max_var s) (nat \<bar>l\<bar>), current := current s @ [l]\<rparr>)"

definition add :: "lit \<Rightarrow> cadical \<Rightarrow> cadical res" where
  "add l s = REQUIRE (VALID (cstate s)) (REQUIRE (l = 0 \<or> valid_lit l)
     (let s1 = external_add l (transition_to_steady_state s);
          s2 = s1\<lparr>adding_clause := (l \<noteq> 0)\<rparr>
      in Inr (if adding_clause s2 then s2\<lparr>cstate := ADDING\<rparr>
              else if \<not> adding_constraint s2 then s2\<lparr>cstate := STEADY\<rparr> else s2)))"

text \<open>
  \<open>call_external_solve_and_check_results\<close>: the state is \<^verbatim>\<open>SOLVING\<close> during the call only.
\<close>

definition call_external_solve :: "cadical \<Rightarrow> nat \<times> cadical" where
  "call_external_solve s =
     (let s1 = transition_to_steady_state s
      in case engine s1 (clauses s1) (assumptions s1) (constraint s1) of
           Sat vs \<Rightarrow> (10, s1\<lparr>cstate := SATISFIED, vals := vs\<rparr>)
         | Unsat \<Rightarrow> (20, s1\<lparr>cstate := UNSATISFIED\<rparr>)
         | Limit \<Rightarrow> (0, s1\<lparr>cstate := STEADY, assumptions := [], constraint := []\<rparr>))"

definition solve :: "cadical \<Rightarrow> (nat \<times> cadical) res" where
  "solve s = REQUIRE (VALID (cstate s)) (REQUIRE (cstate s \<noteq> ADDING)
     (Inr (call_external_solve s)))"

text \<open>\<^verbatim>\<open>External::ival\<close> and \<^verbatim>\<open>Solver::val\<close>.\<close>

definition ival :: "cadical \<Rightarrow> lit \<Rightarrow> int" where
  "ival s l =
     (let eidx = nat \<bar>l\<bar>;
          res = (if eidx > max_var s then - int eidx
                 else if eidx \<ge> length (vals s) then - int eidx
                 else if vals s ! eidx then int eidx else - int eidx)
      in if l < 0 then - res else res)"

definition val :: "lit \<Rightarrow> cadical \<Rightarrow> int res" where
  "val l s = REQUIRE (VALID (cstate s)) (REQUIRE (valid_lit l)
     (REQUIRE (cstate s = SATISFIED) (Inr (ival s l))))"

section \<open>The contract of the API\<close>

lemma REQUIRE_True [simp]: "REQUIRE True k = k"
  by (simp add: REQUIRE_def)

lemma REQUIRE_False [simp]: "REQUIRE False k = Inl ContractViolated"
  by (simp add: REQUIRE_def)

text \<open>
  Invariant of a solver the program uses: no assumptions, no constraint, between two calls of the
  wrapper no open clause, every variable of a clause known, and a model that satisfies the clauses
  whenever the state says so.
\<close>

definition cad_inv :: "cadical \<Rightarrow> bool" where
  "cad_inv s \<longleftrightarrow> engine_ok (engine s) \<and> READY (cstate s) \<and> current s = [] \<and> \<not> adding_clause s \<and>
     \<not> adding_constraint s \<and> assumptions s = [] \<and> constraint s = [] \<and>
     (\<forall>c \<in> set (clauses s). \<forall>l \<in> set c. nat \<bar>l\<bar> \<le> max_var s) \<and>
     (cstate s = SATISFIED \<longrightarrow> all_true (vals_assignment (vals s)) (clauses s))"

definition cad_model :: "cadical \<Rightarrow> assignment option" where
  "cad_model s = (if cstate s = SATISFIED
     then Some (\<lambda>v. v \<le> max_var s \<and> vals_assignment (vals s) v) else None)"

lemma cad_inv_new: "engine_ok e \<Longrightarrow> cad_inv (cadical_new e)"
  by (simp add: cad_inv_def cadical_new_def READY_def)

lemma steady_fields:
  "assumptions s = [] \<Longrightarrow> constraint s = [] \<Longrightarrow>
   transition_to_steady_state s = s\<lparr>cstate := STEADY\<rparr>"
  by (cases s) (simp add: transition_to_steady_state_def Let_def)

text \<open>What \<open>add\<close> does to a solver without assumptions: the open clause grows or is closed.\<close>

definition open_ok :: "cadical \<Rightarrow> bool" where
  "open_ok s \<longleftrightarrow> VALID (cstate s) \<and> \<not> adding_constraint s \<and> assumptions s = [] \<and> constraint s = []"

lemma add_literal:
  "open_ok s \<Longrightarrow> valid_lit l \<Longrightarrow>
   add l s = Inr (s\<lparr>cstate := ADDING, adding_clause := True,
     max_var := max (max_var s) (nat \<bar>l\<bar>), current := current s @ [l]\<rparr>)"
  by (simp add: open_ok_def add_def valid_lit_def steady_fields external_add_def Let_def)

lemma add_zero:
  "open_ok s \<Longrightarrow>
   add 0 s = Inr (s\<lparr>cstate := STEADY, adding_clause := False,
     clauses := clauses s @ [current s], current := []\<rparr>)"
  by (simp add: open_ok_def add_def steady_fields external_add_def Let_def)

lemma cad_inv_open: "cad_inv s \<Longrightarrow> open_ok s"
  by (simp add: cad_inv_def open_ok_def VALID_def)

lemma solve_ok:
  assumes inv: "cad_inv s"
  shows "\<exists>r s'. solve s = Inr (r, s') \<and> cad_inv s' \<and> clauses s' = clauses s \<and>
    max_var s' = max_var s \<and>
    (r = 10 \<longrightarrow> cstate s' = SATISFIED) \<and> (r \<noteq> 10 \<longrightarrow> (\<forall>\<nu>. \<not> all_true \<nu> (clauses s)))"
proof -
  let ?s = "s\<lparr>cstate := STEADY\<rparr>"
  have steady: "transition_to_steady_state s = ?s"
    using inv by (simp add: cad_inv_def steady_fields)
  have ready: "VALID (cstate s)" "cstate s \<noteq> ADDING"
    using inv by (auto simp: cad_inv_def VALID_def READY_def)
  have e: "case engine s (clauses s) [] [] of
       Sat vs \<Rightarrow> problem_true (vals_assignment vs) (clauses s) [] []
     | Unsat \<Rightarrow> \<forall>\<nu>. \<not> problem_true \<nu> (clauses s) [] [] | Limit \<Rightarrow> False"
    using inv by (simp add: cad_inv_def engine_ok_def)
  have none: "assumptions s = []" "constraint s = []" using inv by (auto simp: cad_inv_def)
  show ?thesis
  proof (cases "engine s (clauses s) [] []")
    case (Sat vs)
    then have "solve s = Inr (10, ?s\<lparr>cstate := SATISFIED, vals := vs\<rparr>)"
      using ready none by (simp add: solve_def call_external_solve_def steady Let_def)
    moreover have "cad_inv (?s\<lparr>cstate := SATISFIED, vals := vs\<rparr>)"
      using inv e Sat by (simp add: cad_inv_def READY_def problem_true_def)
    ultimately show ?thesis by fastforce
  next
    case Unsat
    then have "solve s = Inr (20, ?s\<lparr>cstate := UNSATISFIED\<rparr>)"
      using ready none by (simp add: solve_def call_external_solve_def steady Let_def)
    moreover have "cad_inv (?s\<lparr>cstate := UNSATISFIED\<rparr>)"
      using inv by (simp add: cad_inv_def READY_def)
    moreover have "\<forall>\<nu>. \<not> all_true \<nu> (clauses s)"
      using e Unsat by (simp add: problem_true_def)
    ultimately show ?thesis by fastforce
  next
    case Limit
    with e show ?thesis by simp
  qed
qed

lemma val_ok:
  assumes "cad_inv s" "cad_model s = Some \<nu>" "0 < v" "v < 2 ^ 31"
  shows "val (int v) s = Inr (if \<nu> v then int v else - int v)"
proof -
  have st: "cstate s = SATISFIED" and nu: "\<nu> = (\<lambda>v. v \<le> max_var s \<and> vals_assignment (vals s) v)"
    using assms(2) by (auto simp: cad_model_def split: if_splits)
  have lit: "valid_lit (int v)" using assms(3,4) by (simp add: valid_lit_def)
  show ?thesis
    using st lit assms(3) by (auto simp: val_def ival_def VALID_def READY_def nu Let_def vals_assignment_def)
qed

lemma lit_true_restrict:
  "l \<noteq> 0 \<Longrightarrow> nat \<bar>l\<bar> \<le> m \<Longrightarrow> lit_true (\<lambda>v. v \<le> m \<and> \<nu> v) l = lit_true \<nu> l"
  by (auto simp: lit_true_def)

lemma val_outside_satisfied:
  "cstate s \<noteq> SATISFIED \<Longrightarrow> val l s = Inl ContractViolated"
  by (cases "VALID (cstate s)"; cases "valid_lit l") (simp_all add: val_def)

end
