(* ===== verification/ReferenceEngine.thy ===== *)
theory ReferenceEngine
  imports CadicalApi
begin

text \<open>
  An engine that meets the contract \<open>engine_ok\<close>: it tries every assignment of the variables that
  occur.  It shows that the contract of the SAT search can be met, and makes the model executable.
\<close>

fun all_vals :: "nat \<Rightarrow> bool list list" where
  "all_vals 0 = [[]]"
| "all_vals (Suc n) = concat (map (\<lambda>vs. [vs @ [False], vs @ [True]]) (all_vals n))"

definition top_var :: "lit list \<Rightarrow> nat" where
  "top_var ls = foldr (\<lambda>l m. max (nat \<bar>l\<bar>) m) ls 0"

definition reference_engine :: engine where
  "reference_engine cs asm con =
     (let n = top_var (concat cs @ asm @ con)
      in case find (\<lambda>vs. problem_true (vals_assignment vs) cs asm con)
                (all_vals (Suc n)) of
           Some vs \<Rightarrow> Sat vs
         | None \<Rightarrow> Unsat)"

lemma prefix_in_all_vals: "map \<nu> [0..<n] \<in> set (all_vals n)"
proof (induction n)
  case (Suc n)
  then show ?case by (cases "\<nu> n") force+
qed simp

lemma top_var_ge: "l \<in> set ls \<Longrightarrow> nat \<bar>l\<bar> \<le> top_var ls"
  unfolding top_var_def by (induction ls) auto

lemma lit_true_prefix:
  assumes "nat \<bar>l\<bar> < n"
  shows "lit_true (vals_assignment (map \<nu> [0..<n])) l = lit_true \<nu> l"
  using assms by (auto simp: lit_true_def vals_assignment_def)

lemma clause_true_cong:
  "(\<And>l. l \<in> set c \<Longrightarrow> lit_true \<mu> l = lit_true \<nu> l) \<Longrightarrow> clause_true \<mu> c = clause_true \<nu> c"
  by (simp add: clause_true_iff)

lemma problem_true_prefix:
  assumes "\<And>l. l \<in> set (concat cs @ asm @ con) \<Longrightarrow> nat \<bar>l\<bar> < n"
  shows "problem_true (vals_assignment (map \<nu> [0..<n])) cs asm con =
    problem_true \<nu> cs asm con"
proof -
  let ?\<nu> = "vals_assignment (map \<nu> [0..<n])"
  have same: "lit_true ?\<nu> l = lit_true \<nu> l" if "l \<in> set (concat cs @ asm @ con)" for l
    using lit_true_prefix assms [OF that] .
  have "all_true ?\<nu> cs = all_true \<nu> cs"
    unfolding all_true_iff by (intro ball_cong refl clause_true_cong) (use same in auto)
  moreover have "clause_true ?\<nu> con = clause_true \<nu> con"
    by (rule clause_true_cong) (use same in auto)
  moreover have "list_all (lit_true ?\<nu>) asm = list_all (lit_true \<nu>) asm"
    using same by (simp add: list_all_iff)
  ultimately show ?thesis by (simp add: problem_true_def)
qed

lemma reference_engine_ok: "engine_ok reference_engine"
  unfolding engine_ok_def
proof (intro allI)
  fix cs asm con
  let ?P = "\<lambda>vs. problem_true (vals_assignment vs) cs asm con"
  let ?n = "Suc (top_var (concat cs @ asm @ con))"
  have cut: "?P (map \<nu> [0..<?n]) = problem_true \<nu> cs asm con" for \<nu>
    using top_var_ge by (intro problem_true_prefix) (simp add: less_Suc_eq_le)
  show "case reference_engine cs asm con of
      Sat vs \<Rightarrow> problem_true (vals_assignment vs) cs asm con
    | Unsat \<Rightarrow> \<forall>\<nu>. \<not> problem_true \<nu> cs asm con
    | Limit \<Rightarrow> False"
  proof (cases "find ?P (all_vals ?n)")
    case None
    then have "\<not> ?P (map \<nu> [0..<?n])" for \<nu>
      using prefix_in_all_vals by (metis find_None_iff)
    then show ?thesis using None cut by (simp add: reference_engine_def Let_def)
  next
    case (Some vs)
    then have "?P vs" by (auto simp: find_Some_iff)
    then show ?thesis using Some by (simp add: reference_engine_def Let_def)
  qed
qed

end
