(* ===== verification/SatSolver.thy ===== *)
theory SatSolver
  imports CadicalApi ReferenceEngine
begin

text \<open>
  The abstract class of \<^verbatim>\<open>include/logic/SatSolver.h\<close> and its implementation
  \<^verbatim>\<open>SatSolver_cadical\<close>.  The virtual functions are the fields of an operations record, the table a
  client calls through; the locale \<open>sat_solver\<close> is what the clients rely on.
\<close>

record 's sat_ops =
  op_add_clause :: "int list \<Rightarrow> 's \<Rightarrow> 's res"
  op_add_clause_short :: "int \<Rightarrow> int \<Rightarrow> 's \<Rightarrow> 's res"
  op_get_model :: "'s \<Rightarrow> bool list res"
  op_check_var_model :: "int \<Rightarrow> 's \<Rightarrow> u8 res"
  op_solve :: "'s \<Rightarrow> (bool \<times> 's) res"

section \<open>The interface\<close>

text \<open>Literals an \<^verbatim>\<open>int64_t\<close> client may pass: not zero and with a magnitude below \<open>2 ^ 31\<close>.\<close>

definition lit_ok :: "int \<Rightarrow> bool" where
  "lit_ok l \<longleftrightarrow> l \<noteq> 0 \<and> \<bar>l\<bar> < 2 ^ 31"

locale sat_solver =
  fixes ops :: "'s sat_ops"
    and invar :: "'s \<Rightarrow> bool"
    and formula :: "'s \<Rightarrow> int list list"
    and model :: "'s \<Rightarrow> assignment option"
  assumes add_clause_law: "invar s \<Longrightarrow> \<forall>l \<in> set c. lit_ok l \<Longrightarrow>
      \<exists>s'. op_add_clause ops c s = Inr s' \<and> invar s' \<and> formula s' = formula s @ [c]"
    and add_short_law: "invar s \<Longrightarrow> lit_ok a \<Longrightarrow> b = 0 \<or> lit_ok b \<Longrightarrow>
      \<exists>s'. op_add_clause_short ops a b s = Inr s' \<and> invar s' \<and>
           formula s' = formula s @ [if b = 0 then [a] else [a, b]]"
    and solve_law: "invar s \<Longrightarrow> \<exists>b s'. op_solve ops s = Inr (b, s') \<and> invar s' \<and>
      formula s' = formula s \<and> (b \<longrightarrow> (\<exists>\<nu>. model s' = Some \<nu>)) \<and>
      (\<not> b \<longrightarrow> (\<forall>\<nu>. \<not> all_true \<nu> (formula s)))"
    and model_law: "invar s \<Longrightarrow> model s = Some \<nu> \<Longrightarrow> all_true \<nu> (formula s)"
    and check_law: "invar s \<Longrightarrow> model s = Some \<nu> \<Longrightarrow> 0 < v \<Longrightarrow> v < 2 ^ 31 \<Longrightarrow>
      op_check_var_model ops (int v) s = Inr (if \<nu> v then 1 else 0)"

section \<open>The CaDiCaL implementation\<close>

text \<open>\<^verbatim>\<open>int\<close> parameters of the library receive \<^verbatim>\<open>int64_t\<close> arguments: the low 32 bits, signed.\<close>

definition to_int32 :: "int \<Rightarrow> int" where
  "to_int32 x = signed_take_bit 31 x"

record sat_cadical =
  cadical_solver :: cadical
  num_variables :: int

definition SatSolver_cadical :: "engine \<Rightarrow> nat \<Rightarrow> sat_cadical" where
  "SatSolver_cadical e number_variables =
     \<lparr>cadical_solver = cadical_new e, num_variables = to_int32 (int number_variables)\<rparr>"

definition add_lit :: "int \<Rightarrow> sat_cadical \<Rightarrow> sat_cadical res" where
  "add_lit l s = bind_res (add (to_int32 l) (cadical_solver s)) (\<lambda>c. Inr (s\<lparr>cadical_solver := c\<rparr>))"

definition add_clause :: "int list \<Rightarrow> sat_cadical \<Rightarrow> sat_cadical res" where
  "add_clause clause s = bind_res (fold_res add_lit clause s) (add_lit 0)"

definition add_clause_short :: "int \<Rightarrow> int \<Rightarrow> sat_cadical \<Rightarrow> sat_cadical res" where
  "add_clause_short lit1 lit2 s = bind_res (add_lit lit1 s) (\<lambda>s1.
     bind_res (if lit2 \<noteq> 0 then add_lit lit2 s1 else Inr s1) (add_lit 0))"

definition get_model :: "sat_cadical \<Rightarrow> bool list res" where
  "get_model s = fold_res (\<lambda>i m. bind_res (val i (cadical_solver s)) (\<lambda>v. Inr (m @ [v > 0])))
     [1..num_variables s] []"

definition check_var_model :: "int \<Rightarrow> sat_cadical \<Rightarrow> u8 res" where
  "check_var_model variable s =
     bind_res (val (to_int32 variable) (cadical_solver s)) (\<lambda>v. Inr (if v > 0 then 1 else 0))"

definition solve_sat :: "sat_cadical \<Rightarrow> (bool \<times> sat_cadical) res" where
  "solve_sat s = bind_res (solve (cadical_solver s)) (\<lambda>(r, c).
     Inr (r = 10, s\<lparr>cadical_solver := c\<rparr>))"

definition cadical_ops :: "sat_cadical sat_ops" where
  "cadical_ops = \<lparr>op_add_clause = add_clause, op_add_clause_short = add_clause_short,
     op_get_model = get_model, op_check_var_model = check_var_model, op_solve = solve_sat\<rparr>"

lemma cadical_ops_simps [simp]:
  "op_add_clause cadical_ops = add_clause" "op_add_clause_short cadical_ops = add_clause_short"
  "op_get_model cadical_ops = get_model" "op_check_var_model cadical_ops = check_var_model"
  "op_solve cadical_ops = solve_sat"
  by (simp_all add: cadical_ops_def)

section \<open>Narrowing\<close>

lemma to_int32_id: "- (2 ^ 31) \<le> x \<Longrightarrow> x < 2 ^ 31 \<Longrightarrow> to_int32 x = x"
  unfolding to_int32_def by (rule signed_take_bit_int_eq_self) simp_all

lemma to_int32_lit: "lit_ok l \<Longrightarrow> to_int32 l = l"
  by (rule to_int32_id) (auto simp: lit_ok_def)

lemma to_int32_zero [simp]: "to_int32 0 = 0"
  by (simp add: to_int32_def)

lemma lit_ok_valid: "lit_ok l \<Longrightarrow> valid_lit l"
  by (auto simp: lit_ok_def valid_lit_def)

section \<open>The implementation keeps the interface's laws\<close>

lemma add_lits_open:
  assumes "open_ok (cadical_solver s)" "\<forall>l \<in> set c. lit_ok l"
  shows "\<exists>k. fold_res add_lit c s = Inr (s\<lparr>cadical_solver := k\<rparr>) \<and> open_ok k \<and>
    clauses k = clauses (cadical_solver s) \<and> current k = current (cadical_solver s) @ c \<and>
    engine k = engine (cadical_solver s) \<and> max_var (cadical_solver s) \<le> max_var k \<and>
    (\<forall>l \<in> set c. nat \<bar>l\<bar> \<le> max_var k)"
  using assms
proof (induction c arbitrary: s)
  case Nil
  then show ?case by (intro exI [where x = "cadical_solver s"]) simp
next
  case (Cons l c)
  let ?c = "cadical_solver s"
  let ?k = "?c\<lparr>cstate := ADDING, adding_clause := True,
     max_var := max (max_var ?c) (nat \<bar>l\<bar>), current := current ?c @ [l]\<rparr>"
  have "add_lit l s = Inr (s\<lparr>cadical_solver := ?k\<rparr>)"
    using Cons.prems by (simp add: add_lit_def to_int32_lit add_literal lit_ok_valid)
  moreover have "open_ok ?k" using Cons.prems(1) by (simp add: open_ok_def VALID_def)
  ultimately show ?case using Cons.IH [of "s\<lparr>cadical_solver := ?k\<rparr>"] Cons.prems(2) by fastforce
qed

lemma add_clause_ok:
  assumes inv: "cad_inv (cadical_solver s)" and c: "\<forall>l \<in> set c. lit_ok l"
  shows "\<exists>s'. add_clause c s = Inr s' \<and> cad_inv (cadical_solver s') \<and>
    clauses (cadical_solver s') = clauses (cadical_solver s) @ [c]"
proof -
  obtain k where k: "fold_res add_lit c s = Inr (s\<lparr>cadical_solver := k\<rparr>)" "open_ok k"
    "clauses k = clauses (cadical_solver s)" "current k = c"
    "engine k = engine (cadical_solver s)" "max_var (cadical_solver s) \<le> max_var k"
    "\<forall>l \<in> set c. nat \<bar>l\<bar> \<le> max_var k"
    using add_lits_open [OF cad_inv_open [OF inv] c] inv by (auto simp: cad_inv_def)
  let ?k = "k\<lparr>cstate := STEADY, adding_clause := False, clauses := clauses k @ [current k], current := []\<rparr>"
  have "add_clause c s = Inr (s\<lparr>cadical_solver := ?k\<rparr>)"
    using k(1,2) by (simp add: add_clause_def add_lit_def add_zero)
  moreover have "\<forall>c \<in> set (clauses ?k). \<forall>l \<in> set c. nat \<bar>l\<bar> \<le> max_var ?k"
    using k inv by (fastforce simp: cad_inv_def)
  then have "cad_inv ?k" using k(2,5) inv by (simp add: cad_inv_def open_ok_def READY_def)
  ultimately show ?thesis using k(3,4) by auto
qed

lemma add_clause_short_eq:
  "add_clause_short a b s = add_clause (if b = 0 then [a] else [a, b]) s"
  by (simp add: add_clause_short_def add_clause_def bind_res_assoc)

lemma solve_sat_ok:
  assumes "cad_inv (cadical_solver s)"
  shows "\<exists>b s'. solve_sat s = Inr (b, s') \<and> cad_inv (cadical_solver s') \<and>
    clauses (cadical_solver s') = clauses (cadical_solver s) \<and>
    (b \<longrightarrow> (\<exists>\<nu>. cad_model (cadical_solver s') = Some \<nu>)) \<and>
    (\<not> b \<longrightarrow> (\<forall>\<nu>. \<not> all_true \<nu> (clauses (cadical_solver s))))"
proof -
  obtain r k where k: "solve (cadical_solver s) = Inr (r, k)" "cad_inv k"
    "clauses k = clauses (cadical_solver s)" "r = 10 \<longrightarrow> cstate k = SATISFIED"
    "r \<noteq> 10 \<longrightarrow> (\<forall>\<nu>. \<not> all_true \<nu> (clauses (cadical_solver s)))"
    using solve_ok [OF assms] by blast
  have "solve_sat s = Inr (r = 10, s\<lparr>cadical_solver := k\<rparr>)" using k(1) by (simp add: solve_sat_def)
  then show ?thesis
    using k(2-5) by (intro exI [where x = "r = 10"] exI [where x = "s\<lparr>cadical_solver := k\<rparr>"])
      (simp add: cad_model_def)
qed

text \<open>Every clause the wrapper adds has literals other than zero, so the model is one of the formula.\<close>

definition wrapper_inv :: "sat_cadical \<Rightarrow> bool" where
  "wrapper_inv s \<longleftrightarrow> cad_inv (cadical_solver s) \<and>
     (\<forall>c \<in> set (clauses (cadical_solver s)). \<forall>l \<in> set c. l \<noteq> 0)"

lemma cad_model_all_true:
  assumes inv: "wrapper_inv s" and m: "cad_model (cadical_solver s) = Some \<nu>"
  shows "all_true \<nu> (clauses (cadical_solver s))"
proof -
  let ?c = "cadical_solver s"
  have nu: "\<nu> = (\<lambda>v. v \<le> max_var ?c \<and> vals_assignment (vals ?c) v)" and "cstate ?c = SATISFIED"
    using m by (auto simp: cad_model_def split: if_splits)
  then have "all_true (vals_assignment (vals ?c)) (clauses ?c)"
    using inv by (auto simp: wrapper_inv_def cad_inv_def)
  moreover have "lit_true \<nu> l = lit_true (vals_assignment (vals ?c)) l"
    if "c \<in> set (clauses ?c)" "l \<in> set c" for c l
  proof -
    have "l \<noteq> 0" "nat \<bar>l\<bar> \<le> max_var ?c" using that inv by (simp_all add: wrapper_inv_def cad_inv_def)
    then show ?thesis unfolding nu by (rule lit_true_restrict)
  qed
  ultimately show ?thesis unfolding all_true_iff clause_true_iff by blast
qed

lemma check_var_model_ok:
  assumes "wrapper_inv s" "cad_model (cadical_solver s) = Some \<nu>" "0 < v" "v < 2 ^ 31"
  shows "check_var_model (int v) s = Inr (if \<nu> v then 1 else 0)"
  using val_ok [of "cadical_solver s" \<nu> v] assms to_int32_id [of "int v"]
  by (auto simp: check_var_model_def wrapper_inv_def)

lemma wrapper_add_clause:
  assumes inv: "wrapper_inv s" and c: "\<forall>l \<in> set c. lit_ok l"
  shows "\<exists>s'. add_clause c s = Inr s' \<and> wrapper_inv s' \<and>
    clauses (cadical_solver s') = clauses (cadical_solver s) @ [c]"
proof -
  have "cad_inv (cadical_solver s)" using inv by (simp add: wrapper_inv_def)
  from add_clause_ok [OF this c] obtain s' where s': "add_clause c s = Inr s'"
    "cad_inv (cadical_solver s')" "clauses (cadical_solver s') = clauses (cadical_solver s) @ [c]"
    by blast
  have "\<forall>l \<in> set c. l \<noteq> 0" using c by (auto simp: lit_ok_def)
  then have "wrapper_inv s'" using inv s'(2) unfolding wrapper_inv_def s'(3) by simp
  with s' show ?thesis by blast
qed

lemma wrapper_solve:
  assumes inv: "wrapper_inv s"
  shows "\<exists>b s'. solve_sat s = Inr (b, s') \<and> wrapper_inv s' \<and>
    clauses (cadical_solver s') = clauses (cadical_solver s) \<and>
    (b \<longrightarrow> (\<exists>\<nu>. cad_model (cadical_solver s') = Some \<nu>)) \<and>
    (\<not> b \<longrightarrow> (\<forall>\<nu>. \<not> all_true \<nu> (clauses (cadical_solver s))))"
proof -
  have "cad_inv (cadical_solver s)" using inv by (simp add: wrapper_inv_def)
  from solve_sat_ok [OF this] obtain b s' where s': "solve_sat s = Inr (b, s')"
    "cad_inv (cadical_solver s')" "clauses (cadical_solver s') = clauses (cadical_solver s)"
    "b \<longrightarrow> (\<exists>\<nu>. cad_model (cadical_solver s') = Some \<nu>)"
    "\<not> b \<longrightarrow> (\<forall>\<nu>. \<not> all_true \<nu> (clauses (cadical_solver s)))" by blast
  have "wrapper_inv s'" using inv s'(2) unfolding wrapper_inv_def s'(3) by simp
  with s' show ?thesis by blast
qed

interpretation cad: sat_solver cadical_ops wrapper_inv "\<lambda>s. clauses (cadical_solver s)"
  "\<lambda>s. cad_model (cadical_solver s)"
proof (unfold_locales, goal_cases)
  case (2 s a b)
  then show ?case
    using wrapper_add_clause [of s "if b = 0 then [a] else [a, b]"] by (auto simp: add_clause_short_eq)
qed (use wrapper_add_clause wrapper_solve cad_model_all_true check_var_model_ok in auto)

lemma wrapper_inv_new: "engine_ok e \<Longrightarrow> wrapper_inv (SatSolver_cadical e n)"
  using cad_inv_new by (simp add: wrapper_inv_def SatSolver_cadical_def) (simp add: cadical_new_def)

lemma new_solver_clauses [simp]: "clauses (cadical_solver (SatSolver_cadical e n)) = []"
  by (simp add: SatSolver_cadical_def cadical_new_def)

section \<open>Properties\<close>

text \<open>
  C14: the wrapper decides.  After any sequence of \<open>add_clause\<close> calls on a new solver, \<open>solve\<close> returns
  whether the clauses have a model, and \<open>check_var_model\<close> then reads one model of all of them.
\<close>

theorem wrapper_decides:
  assumes "engine_ok e" "\<forall>c \<in> set cs. \<forall>l \<in> set c. lit_ok l"
  shows "\<exists>s b s'. fold_res add_clause cs (SatSolver_cadical e n) = Inr s \<and> solve_sat s = Inr (b, s') \<and>
    (b \<longleftrightarrow> (\<exists>\<nu>. all_true \<nu> cs)) \<and>
    (b \<longrightarrow> (\<exists>\<nu>. all_true \<nu> cs \<and>
       (\<forall>v. 0 < v \<and> v < 2 ^ 31 \<longrightarrow> check_var_model (int v) s' = Inr (if \<nu> v then 1 else 0))))"
proof -
  let ?I = "\<lambda>pre s. wrapper_inv s \<and> clauses (cadical_solver s) = pre"
  have "\<exists>s. fold_res add_clause cs (SatSolver_cadical e n) = Inr s \<and> ?I cs s"
  proof (rule fold_res_invariant)
    show "?I [] (SatSolver_cadical e n)" using wrapper_inv_new [OF assms(1)] by simp
  next
    fix pre c post s
    assume "cs = pre @ c # post" "?I pre s"
    then show "\<exists>s'. add_clause c s = Inr s' \<and> ?I (pre @ [c]) s'"
      using wrapper_add_clause [of s c] assms(2) by auto
  qed
  then obtain s where s: "fold_res add_clause cs (SatSolver_cadical e n) = Inr s" "wrapper_inv s"
    "clauses (cadical_solver s) = cs" by blast
  obtain b s' where s': "solve_sat s = Inr (b, s')" "wrapper_inv s'" "clauses (cadical_solver s') = cs"
    "b \<longrightarrow> (\<exists>\<nu>. cad_model (cadical_solver s') = Some \<nu>)" "\<not> b \<longrightarrow> (\<forall>\<nu>. \<not> all_true \<nu> cs)"
    using wrapper_solve [OF s(2)] s(3) by auto
  have "\<exists>\<nu>. all_true \<nu> cs \<and> (\<forall>v. 0 < v \<and> v < 2 ^ 31 \<longrightarrow> check_var_model (int v) s' = Inr (if \<nu> v then 1 else 0))"
    if b
  proof -
    obtain \<nu> where nu: "cad_model (cadical_solver s') = Some \<nu>" using s'(4) \<open>b\<close> by blast
    then show ?thesis
      using cad_model_all_true [OF s'(2) nu] s'(3) check_var_model_ok [OF s'(2) nu] by auto
  qed
  then show ?thesis using s(1) s' by blast
qed

text \<open>
  C19: the cast from \<^verbatim>\<open>int64_t\<close> to \<^verbatim>\<open>int\<close>.  The literal \<open>2 ^ 31\<close> becomes the one literal CaDiCaL
  refuses, so adding it aborts the process; a literal above \<open>2 ^ 32\<close> is silently taken for another.
\<close>

theorem literal_narrowing:
  assumes "lit_ok l"
  shows "add_clause [2 ^ 31] s = Inl ContractViolated \<and> add_clause [l + 2 ^ 32] s = add_clause [l] s"
proof -
  have "to_int32 (2 ^ 31) = - (2 ^ 31)" by (simp add: to_int32_def signed_take_bit_eq_take_bit_shift take_bit_eq_mod)
  then have "add_lit (2 ^ 31) s = Inl ContractViolated"
    by (simp add: add_lit_def add_def valid_lit_def REQUIRE_def)
  moreover have "to_int32 (l + 2 ^ 32) = to_int32 l"
  proof -
    have "l + 2 ^ 32 + 2 ^ 31 = (l + 2 ^ 31) + 2 ^ 32" by simp
    then have "(l + 2 ^ 32 + 2 ^ 31) mod 2 ^ 32 = (l + 2 ^ 31) mod (2 ^ 32 :: int)"
      using mod_add_self2 [of "l + 2 ^ 31" "2 ^ 32"] by (simp only:)
    then show ?thesis
      unfolding to_int32_def signed_take_bit_eq_take_bit_shift take_bit_eq_mod by simp
  qed
  ultimately show ?thesis by (simp add: add_clause_def add_lit_def)
qed

lemma literal_narrowing_witness:
  "add_clause [2 ^ 32 + 7] (SatSolver_cadical (\<lambda>cs as c. Unsat) 7) =
   add_clause [7] (SatSolver_cadical (\<lambda>cs as c. Unsat) 7)"
  using literal_narrowing [of 7] by (simp add: lit_ok_def)

lemma wrapper_decides_witness:
  "\<exists>s s'. fold_res add_clause [[1, -2], [2], [-1]] (SatSolver_cadical reference_engine 2) = Inr s \<and>
     solve_sat s = Inr (False, s')"
proof -
  obtain s b s' where s: "fold_res add_clause [[1, -2], [2], [-1]] (SatSolver_cadical reference_engine 2) = Inr s"
    "solve_sat s = Inr (b, s')" "b \<longleftrightarrow> (\<exists>\<nu>. all_true \<nu> [[1, -2], [2], [-1]])"
    using wrapper_decides [OF reference_engine_ok, of "[[1, -2], [2], [-1]]" 2] by (auto simp: lit_ok_def)
  have "\<not> all_true \<nu> [[1, -2], [2], [-1]]" for \<nu>
    by (auto simp: all_true_iff clause_true_iff lit_true_def)
  then show ?thesis using s by auto
qed

text \<open>
  A model does not survive a new literal.  After \<open>add\<close> the solver has left the state
  \<open>SATISFIED\<close>, and reading a value is a contract violation until the next successful \<open>solve\<close>.
\<close>

theorem add_drops_model:
  assumes "cad_inv s" "valid_lit l" "add l s = Inr s'"
  shows "cstate s' = ADDING \<and> clauses s' = clauses s \<and> current s' = [l] \<and> val m s' = Inl ContractViolated"
proof -
  have "open_ok s" by (rule cad_inv_open [OF assms(1)])
  from add_literal [OF this assms(2)] assms(3)
  have "s' = s\<lparr>cstate := ADDING, adding_clause := True,
     max_var := max (max_var s) (nat \<bar>l\<bar>), current := current s @ [l]\<rparr>" by simp
  then show ?thesis using assms(1) val_outside_satisfied [of s' m] by (simp add: cad_inv_def)
qed

lemma add_drops_model_witness:
  "\<exists>s'. add 5 (cadical_new reference_engine) = Inr s' \<and> val 5 s' = Inl ContractViolated"
proof -
  have inv: "cad_inv (cadical_new reference_engine)" by (rule cad_inv_new [OF reference_engine_ok])
  have lit: "valid_lit 5" by (simp add: valid_lit_def)
  show ?thesis
    using add_literal [OF cad_inv_open [OF inv] lit] add_drops_model [OF inv lit] by blast
qed

end
