(* ===== verification/Encoding.thy ===== *)
theory Encoding
  imports PreProcessor SatSolver
begin

text \<open>
  \<^verbatim>\<open>src/logic/Encoding.cpp\<close> and \<^verbatim>\<open>src/logic/Decoding.cpp\<close>: the clauses that make the models of the
  solver the non-empty admissible sets of the active arguments, the clause that blocks a found
  set, and the set read off a model.  All functions call the solver through its operations
  table, as the code does through the abstract class.
\<close>

definition get_literal_accepted :: "arg \<Rightarrow> bool \<Rightarrow> int" where
  "get_literal_accepted argument isInverted =
     (let variable = int argument in if isInverted then -1 * variable else variable)"

definition get_literal_rejected :: "u32 \<Rightarrow> arg \<Rightarrow> bool \<Rightarrow> int" where
  "get_literal_rejected argsSize argument isInverted =
     (let variable = int argument + int (unat argsSize)
      in if isInverted then -1 * variable else variable)"

text \<open>The clause under construction, \<open>rejection_reason_clause\<close>, is threaded through.\<close>

definition add_rejected_clauses ::
    "'s sat_ops \<Rightarrow> u32 \<Rightarrow> arg \<Rightarrow> 's \<Rightarrow> ('s \<times> int list) res" where
  "add_rejected_clauses ops argsSize argument s =
     bind_res (op_add_clause_short ops (get_literal_rejected argsSize argument True)
                 (get_literal_accepted argument True) s) (\<lambda>s1.
     Inr (s1, [get_literal_rejected argsSize argument True]))"

definition add_rejected_clauses_per_attacker ::
    "'s sat_ops \<Rightarrow> u32 \<Rightarrow> arg \<Rightarrow> arg \<Rightarrow> 's \<times> int list \<Rightarrow> ('s \<times> int list) res" where
  "add_rejected_clauses_per_attacker ops argsSize argument attacker = (\<lambda>(s, reason).
     bind_res (op_add_clause_short ops (get_literal_rejected argsSize argument False)
                 (get_literal_accepted attacker True) s) (\<lambda>s1.
     Inr (s1, reason @ [get_literal_accepted attacker False])))"

definition add_conflict_free_per_attacker :: "'s sat_ops \<Rightarrow> arg \<Rightarrow> arg \<Rightarrow> 's \<Rightarrow> 's res" where
  "add_conflict_free_per_attacker ops argument attacker s =
     (if argument \<noteq> attacker
      then op_add_clause_short ops (get_literal_accepted argument True)
             (get_literal_accepted attacker True) s
      else op_add_clause_short ops (get_literal_accepted argument True) 0 s)"

definition add_defense_per_attacker :: "'s sat_ops \<Rightarrow> u32 \<Rightarrow> arg \<Rightarrow> arg \<Rightarrow> 's \<Rightarrow> 's res" where
  "add_defense_per_attacker ops argsSize argument attacker s =
     (if argument = attacker then Inr s
      else op_add_clause_short ops (get_literal_accepted argument True)
             (get_literal_rejected argsSize attacker False) s)"

definition add_admissible :: "'s sat_ops \<Rightarrow> af \<Rightarrow> vbs \<Rightarrow> arg \<Rightarrow> 's \<Rightarrow> 's res" where
  "add_admissible ops f activeArgs argument s =
     bind_res (add_rejected_clauses ops (num_args f) argument s) (\<lambda>s1.
     bind_res (attackers_of f argument) (\<lambda>attackers.
     bind_res (fold_res (\<lambda>attacker sr.
         bind_res (get_at (bits activeArgs) attacker) (\<lambda>w.
           if w = 0 then Inr sr
           else bind_res (add_rejected_clauses_per_attacker ops (num_args f) argument attacker sr)
             (\<lambda>(s2, reason).
              bind_res (add_conflict_free_per_attacker ops argument attacker s2) (\<lambda>s3.
              bind_res (add_defense_per_attacker ops (num_args f) argument attacker s3) (\<lambda>s4.
              Inr (s4, reason)))))) attackers s1) (\<lambda>(s5, reason).
     op_add_clause ops reason s5)))"

definition add_clauses_nonempty_admissible_set :: "'s sat_ops \<Rightarrow> af \<Rightarrow> vbs \<Rightarrow> 's \<Rightarrow> 's res" where
  "add_clauses_nonempty_admissible_set ops f activeArgs s =
     bind_res (fold_res (\<lambda>a (s, non_empty).
         bind_res (add_admissible ops f activeArgs a s) (\<lambda>s1.
           Inr (s1, non_empty @ [get_literal_accepted a False])))
       (vec activeArgs) (s, [])) (\<lambda>(s, non_empty).
     op_add_clause ops non_empty s)"

definition add_complement_clause :: "'s sat_ops \<Rightarrow> vbs \<Rightarrow> 's \<Rightarrow> 's res" where
  "add_complement_clause ops activeArgs s =
     bind_res (fold_res (\<lambda>a c. bind_res (op_check_var_model ops (int a) s) (\<lambda>v.
         Inr (if v \<noteq> 0 then c @ [-1 * int a] else c))) (vec activeArgs) []) (\<lambda>c.
     op_add_clause ops c s)"

definition get_set_from_solver :: "'s sat_ops \<Rightarrow> vbs \<Rightarrow> 's \<Rightarrow> arg list res" where
  "get_set_from_solver ops activeArgs s =
     fold_res (\<lambda>a out. bind_res (op_check_var_model ops (int a) s) (\<lambda>v.
       Inr (if v \<noteq> 0 then out @ [a] else out))) (vec activeArgs) []"

section \<open>The formula, clause by clause\<close>

text \<open>Literals by variable: the acceptance variable of \<open>a\<close> is \<open>a\<close>, its rejection variable \<open>a + n\<close>.\<close>

definition pos :: "nat \<Rightarrow> int" where
  "pos v = int v"

definition neg :: "nat \<Rightarrow> int" where
  "neg v = - int v"

definition n_args :: "af \<Rightarrow> nat" where
  "n_args f = unat (num_args f)"

definition enc_attacker :: "nat \<Rightarrow> arg \<Rightarrow> arg \<Rightarrow> int list list" where
  "enc_attacker n a b =
     [[pos (a + n), neg b]] @ [if a \<noteq> b then [neg a, neg b] else [neg a]] @
     (if a = b then [] else [[neg a, pos (b + n)]])"

definition enc_arg :: "nat \<Rightarrow> arg \<Rightarrow> arg list \<Rightarrow> int list list" where
  "enc_arg n a bs =
     [[neg (a + n), neg a]] @ concat (map (enc_attacker n a) bs) @ [neg (a + n) # map pos bs]"

definition active_attackers :: "af \<Rightarrow> vbs \<Rightarrow> arg \<Rightarrow> arg list" where
  "active_attackers f act a = filter (\<lambda>b. b \<in> set (vec act)) (vec (attackers f ! a))"

definition enc :: "af \<Rightarrow> vbs \<Rightarrow> int list list" where
  "enc f act = concat (map (\<lambda>a. enc_arg (n_args f) a (active_attackers f act a)) (vec act)) @
     [map pos (vec act)]"

text \<open>
  Argument numbers small enough that both literals of an argument fit an \<^verbatim>\<open>int\<close>, and a set of
  active arguments drawn from the framework.
\<close>

definition encodable :: "af \<Rightarrow> vbs \<Rightarrow> bool" where
  "encodable f act \<longleftrightarrow> af_ok f \<and> 2 * n_args f < 2 ^ 31 \<and>
     vbs_ok (n_slots f) act \<and> set (vec act) \<subseteq> nodes f"

lemma encodableD:
  assumes "encodable f act"
  shows "af_ok f" "vbs_ok (n_slots f) act" "set (vec act) \<subseteq> nodes f" "distinct (vec act)"
    "\<And>a. a \<in> set (vec act) \<Longrightarrow> 0 < a" "\<And>a. a \<in> set (vec act) \<Longrightarrow> a \<le> n_args f"
    "\<And>a. a \<in> set (vec act) \<Longrightarrow> a < n_slots f"
    "\<And>a. a \<in> set (vec act) \<Longrightarrow> a + n_args f < 2 ^ 31"
proof -
  have sub: "set (vec act) \<subseteq> {1..n_args f}" and small: "2 * n_args f < 2 ^ 31"
    using assms by (auto simp: encodable_def nodes_def n_args_def)
  show "0 < a" "a \<le> n_args f" "a < n_slots f" "a + n_args f < 2 ^ 31"
    if "a \<in> set (vec act)" for a
    using that sub small by (auto simp: n_slots_def n_args_def)
qed (use assms in \<open>auto simp: encodable_def vbs_ok_def\<close>)

lemma lit_ok_pos [simp]: "lit_ok (pos v) \<longleftrightarrow> 0 < v \<and> v < 2 ^ 31"
  and lit_ok_neg [simp]: "lit_ok (neg v) \<longleftrightarrow> 0 < v \<and> v < 2 ^ 31"
  by (auto simp: lit_ok_def pos_def neg_def)

lemma lit_nonzero: "0 < v \<Longrightarrow> pos v \<noteq> 0" "0 < v \<Longrightarrow> neg v \<noteq> 0"
  by (auto simp: pos_def neg_def)

lemma lit_true_pos: "0 < v \<Longrightarrow> lit_true \<nu> (pos v) = \<nu> v"
  and lit_true_neg: "0 < v \<Longrightarrow> lit_true \<nu> (neg v) = (\<not> \<nu> v)"
  by (simp_all add: pos_def neg_def)

lemma literals_ok:
  assumes "encodable f act" "a \<in> set (vec act)"
  shows "lit_ok (pos a)" "lit_ok (neg a)" "lit_ok (pos (a + n_args f))"
    "lit_ok (neg (a + n_args f))" "a < 2 ^ 31"
  using encodableD(5,8) [OF assms(1) assms(2)] by auto

lemma literal_simps:
  "get_literal_accepted a False = pos a" "get_literal_accepted a True = neg a"
  "get_literal_rejected (num_args f) a False = pos (a + n_args f)"
  "get_literal_rejected (num_args f) a True = neg (a + n_args f)"
  by (simp_all add: get_literal_accepted_def get_literal_rejected_def Let_def pos_def neg_def n_args_def)

lemma set_active_attackers:
  assumes "encodable f act" "a \<in> set (vec act)"
  shows "set (active_attackers f act a) = {b \<in> set (vec act). (b, a) \<in> attacks f}"
  using rows_okD(3) [OF af_okD(3) [OF encodableD(1) [OF assms(1)]] encodableD(7) [OF assms]]
  by (auto simp: active_attackers_def)

text \<open>The set a model stands for, in the order of the active arguments.\<close>

definition model_set :: "vbs \<Rightarrow> assignment \<Rightarrow> arg list" where
  "model_set act \<nu> = filter \<nu> (vec act)"

section \<open>What the clients prove from the solver's laws\<close>

context sat_solver
begin

lemma per_attacker_law:
  assumes e: "encodable f act" and a: "a \<in> set (vec act)" and b: "b \<in> set (vec act)"
    and s: "invar s"
  shows "\<exists>s'. bind_res (add_rejected_clauses_per_attacker ops (num_args f) a b (s, c))
       (\<lambda>(s2, reason). bind_res (add_conflict_free_per_attacker ops a b s2) (\<lambda>s3.
          bind_res (add_defense_per_attacker ops (num_args f) a b s3) (\<lambda>s4. Inr (s4, reason)))) =
       Inr (s', c @ [pos b]) \<and> invar s' \<and>
       formula s' = formula s @ enc_attacker (n_args f) a b"
proof -
  note A = literals_ok [OF e a] and B = literals_ok [OF e b]
  have nz: "neg b \<noteq> 0" "pos (b + n_args f) \<noteq> 0"
    using encodableD(5) [OF e b] by (simp_all add: lit_nonzero)
  obtain s2 where s2: "op_add_clause_short ops (pos (a + n_args f)) (neg b) s = Inr s2" "invar s2"
    "formula s2 = formula s @ [[pos (a + n_args f), neg b]]"
    using add_short_law [OF s A(3) disjI2 [OF B(2)]] nz(1) by auto
  have "\<exists>s3. add_conflict_free_per_attacker ops a b s2 = Inr s3 \<and> invar s3 \<and>
      formula s3 = formula s2 @ [if a \<noteq> b then [neg a, neg b] else [neg a]]"
    using add_short_law [OF s2(2) A(2) disjI2 [OF B(2)]] add_short_law [OF s2(2) A(2), of 0] nz(1)
    by (cases "a = b") (auto simp: add_conflict_free_per_attacker_def literal_simps)
  then obtain s3 where s3: "add_conflict_free_per_attacker ops a b s2 = Inr s3" "invar s3"
    "formula s3 = formula s2 @ [if a \<noteq> b then [neg a, neg b] else [neg a]]" by blast
  have "\<exists>s4. add_defense_per_attacker ops (num_args f) a b s3 = Inr s4 \<and> invar s4 \<and>
      formula s4 = formula s3 @ (if a = b then [] else [[neg a, pos (b + n_args f)]])"
    using add_short_law [OF s3(2) A(2) disjI2 [OF B(3)]] nz(2) s3(2)
    by (cases "a = b") (auto simp: add_defense_per_attacker_def literal_simps)
  then obtain s4 where s4: "add_defense_per_attacker ops (num_args f) a b s3 = Inr s4" "invar s4"
    "formula s4 = formula s3 @ (if a = b then [] else [[neg a, pos (b + n_args f)]])" by blast
  show ?thesis
    using s2 s3 s4
    by (simp add: add_rejected_clauses_per_attacker_def literal_simps enc_attacker_def)
qed

lemma add_admissible_law:
  assumes e: "encodable f act" and a: "a \<in> set (vec act)" and s: "invar s"
  shows "\<exists>s'. add_admissible ops f act a s = Inr s' \<and> invar s' \<and>
    formula s' = formula s @ enc_arg (n_args f) a (active_attackers f act a)"
proof -
  let ?m = "n_args f"
  note A = literals_ok [OF e a]
  have nz: "neg a \<noteq> 0" using encodableD(5) [OF e a] by (rule lit_nonzero)
  obtain s1 where s1: "add_rejected_clauses ops (num_args f) a s = Inr (s1, [neg (a + ?m)])"
    "invar s1" "formula s1 = formula s @ [[neg (a + ?m), neg a]]"
    using add_short_law [OF s A(4) disjI2 [OF A(2)]] nz
    by (auto simp: add_rejected_clauses_def literal_simps)
  let ?row = "vec (attackers f ! a)"
  have row: "attackers_of f a = Inr ?row" "\<forall>b \<in> set ?row. b < n_slots f"
    using rows_okD [OF af_okD(3) [OF encodableD(1) [OF e]] encodableD(7) [OF e a]]
    by (auto simp: attackers_of_def vbs_ok_def encodableD(7) [OF e a])
  let ?act = "\<lambda>bs. filter (\<lambda>b. b \<in> set (vec act)) bs"
  let ?I = "\<lambda>pre (t, c). invar t \<and> c = neg (a + ?m) # map pos (?act pre) \<and>
     formula t = formula s1 @ concat (map (enc_attacker ?m a) (?act pre))"
  let ?f = "\<lambda>attacker sr. bind_res (get_at (bits act) attacker) (\<lambda>w.
           if w = 0 then Inr sr
           else bind_res (add_rejected_clauses_per_attacker ops (num_args f) a attacker sr)
             (\<lambda>(s2, reason).
              bind_res (add_conflict_free_per_attacker ops a attacker s2) (\<lambda>s3.
              bind_res (add_defense_per_attacker ops (num_args f) a attacker s3) (\<lambda>s4.
              Inr (s4, reason)))))"
  have "\<exists>s'. fold_res ?f ?row (s1, [neg (a + ?m)]) = Inr s' \<and> ?I ?row s'"
  proof (rule fold_res_invariant)
    show "?I [] (s1, [neg (a + ?m)])" using s1 by simp
  next
    fix pre b post t
    assume split: "?row = pre @ b # post" and inv: "?I pre t"
    obtain t1 c where t: "t = (t1, c)" by (cases t)
    have bn: "b < n_slots f" using row(2) unfolding split by simp
    then have bit: "get_at (bits act) b = Inr (bits act ! b)" "(bits act ! b \<noteq> 0) = (b \<in> set (vec act))"
      using vbs_bit_test [OF encodableD(2) [OF e] bn] by auto
    show "\<exists>s'. ?f b t = Inr s' \<and> ?I (pre @ [b]) s'"
    proof (cases "b \<in> set (vec act)")
      case True
      have "invar t1" using inv t by simp
      from per_attacker_law [OF e a True this, of c] show ?thesis
        using inv t bit True by auto
    next
      case False
      then show ?thesis using inv t bit by auto
    qed
  qed
  then obtain s2 c where s2: "fold_res ?f ?row (s1, [neg (a + ?m)]) = Inr (s2, c)" "invar s2"
    "c = neg (a + ?m) # map pos (active_attackers f act a)"
    "formula s2 = formula s1 @ concat (map (enc_attacker ?m a) (active_attackers f act a))"
    by (auto simp: active_attackers_def)
  have "lit_ok (pos b)" if "b \<in> set (active_attackers f act a)" for b
    using that literals_ok(1) [OF e] by (simp add: active_attackers_def)
  then have "\<forall>l \<in> set c. lit_ok l" unfolding s2(3) using A(4) by auto
  from add_clause_law [OF s2(2) this] obtain s3 where "op_add_clause ops c s2 = Inr s3" "invar s3"
    "formula s3 = formula s2 @ [c]" by blast
  then show ?thesis
    using s1 s2 row(1) by (auto simp: add_admissible_def enc_arg_def)
qed

lemma add_clauses_law:
  assumes e: "encodable f act" and s: "invar s"
  shows "\<exists>s'. add_clauses_nonempty_admissible_set ops f act s = Inr s' \<and> invar s' \<and>
    formula s' = formula s @ enc f act"
proof -
  let ?e = "\<lambda>a. enc_arg (n_args f) a (active_attackers f act a)"
  let ?f = "\<lambda>a (s, non_empty). bind_res (add_admissible ops f act a s) (\<lambda>s1.
           Inr (s1, non_empty @ [get_literal_accepted a False]))"
  let ?I = "\<lambda>pre (t, c). invar t \<and> c = map pos pre \<and> formula t = formula s @ concat (map ?e pre)"
  have "\<exists>s'. fold_res ?f (vec act) (s, []) = Inr s' \<and> ?I (vec act) s'"
  proof (rule fold_res_invariant)
    show "?I [] (s, [])" using s by simp
  next
    fix pre a post t
    assume split: "vec act = pre @ a # post" and inv: "?I pre t"
    obtain t1 c where t: "t = (t1, c)" by (cases t)
    have "a \<in> set (vec act)" by (simp add: split)
    from add_admissible_law [OF e this, of t1] obtain t2 where
      "add_admissible ops f act a t1 = Inr t2" "invar t2" "formula t2 = formula t1 @ ?e a"
      using inv t by auto
    then show "\<exists>s'. ?f a t = Inr s' \<and> ?I (pre @ [a]) s'"
      using inv t by (auto simp: literal_simps)
  qed
  then obtain s2 where s2: "fold_res ?f (vec act) (s, []) = Inr (s2, map pos (vec act))" "invar s2"
    "formula s2 = formula s @ concat (map ?e (vec act))" by auto
  have "\<forall>l \<in> set (map pos (vec act)). lit_ok l" using literals_ok(1) [OF e] by auto
  from add_clause_law [OF s2(2) this] show ?thesis
    using s2 by (auto simp: add_clauses_nonempty_admissible_set_def enc_def)
qed

lemma get_set_law:
  assumes e: "encodable f act" and s: "invar s" "model s = Some \<nu>"
  shows "get_set_from_solver ops act s = Inr (model_set act \<nu>)"
proof -
  let ?f = "\<lambda>a out. bind_res (op_check_var_model ops (int a) s) (\<lambda>v.
       Inr (if v \<noteq> 0 then out @ [a] else out))"
  have "\<exists>s'. fold_res ?f (vec act) [] = Inr s' \<and> s' = filter \<nu> (vec act)"
  proof (rule fold_res_invariant)
    fix pre a post out
    assume split: "vec act = pre @ a # post" and inv: "out = filter \<nu> pre"
    have a: "a \<in> set (vec act)" by (simp add: split)
    show "\<exists>s'. ?f a out = Inr s' \<and> s' = filter \<nu> (pre @ [a])"
      using check_law [OF s encodableD(5) [OF e a] literals_ok(5) [OF e a]] inv by auto
  qed simp
  then show ?thesis by (simp add: get_set_from_solver_def model_set_def)
qed

lemma add_complement_law:
  assumes e: "encodable f act" and s: "invar s" "model s = Some \<nu>"
  shows "\<exists>s'. add_complement_clause ops act s = Inr s' \<and> invar s' \<and>
    formula s' = formula s @ [map neg (model_set act \<nu>)]"
proof -
  let ?f = "\<lambda>a c. bind_res (op_check_var_model ops (int a) s) (\<lambda>v.
       Inr (if v \<noteq> 0 then c @ [-1 * int a] else c))"
  have negI: "\<And>a. - int a = neg a" by (simp add: neg_def)
  have "\<exists>s'. fold_res ?f (vec act) [] = Inr s' \<and> s' = map neg (filter \<nu> (vec act))"
  proof (rule fold_res_invariant)
    fix pre a post c
    assume split: "vec act = pre @ a # post" and inv: "c = map neg (filter \<nu> pre)"
    have a: "a \<in> set (vec act)" by (simp add: split)
    show "\<exists>s'. ?f a c = Inr s' \<and> s' = map neg (filter \<nu> (pre @ [a]))"
      using check_law [OF s encodableD(5) [OF e a] literals_ok(5) [OF e a]] inv by (auto simp: negI)
  qed simp
  then have loop: "fold_res ?f (vec act) [] = Inr (map neg (model_set act \<nu>))"
    by (simp add: model_set_def)
  have "\<forall>l \<in> set (map neg (model_set act \<nu>)). lit_ok l"
    using literals_ok(2) [OF e] by (auto simp: model_set_def)
  from add_clause_law [OF s(1) this] show ?thesis using loop by (simp add: add_complement_clause_def)
qed

end

section \<open>Models are non-empty admissible sets\<close>

lemma enc_attacker_true:
  assumes "0 < a" "0 < b"
  shows "all_true \<nu> (enc_attacker n a b) \<longleftrightarrow> (\<nu> b \<longrightarrow> \<nu> (a + n)) \<and> \<not> (\<nu> a \<and> \<nu> b) \<and>
    (a \<noteq> b \<longrightarrow> \<nu> a \<longrightarrow> \<nu> (b + n))"
  using assms
  by (auto simp: enc_attacker_def all_true_iff clause_true_iff lit_true_pos lit_true_neg)

lemma enc_arg_true:
  assumes "0 < a" "\<forall>b \<in> set bs. 0 < b"
  shows "all_true \<nu> (enc_arg n a bs) \<longleftrightarrow> \<not> (\<nu> (a + n) \<and> \<nu> a) \<and>
    (\<forall>b \<in> set bs. (\<nu> b \<longrightarrow> \<nu> (a + n)) \<and> \<not> (\<nu> a \<and> \<nu> b) \<and> (a \<noteq> b \<longrightarrow> \<nu> a \<longrightarrow> \<nu> (b + n))) \<and>
    (\<nu> (a + n) \<longrightarrow> (\<exists>b \<in> set bs. \<nu> b))"
proof -
  have "all_true \<nu> (concat (map (enc_attacker n a) bs)) \<longleftrightarrow>
      (\<forall>b \<in> set bs. all_true \<nu> (enc_attacker n a b))"
    by (auto simp: all_true_iff)
  moreover have "all_true \<nu> [[neg (a + n), neg a]] \<longleftrightarrow> \<not> (\<nu> (a + n) \<and> \<nu> a)"
    using assms(1) by (auto simp: all_true_iff clause_true_iff lit_true_neg)
  moreover have "all_true \<nu> [neg (a + n) # map pos bs] \<longleftrightarrow> (\<nu> (a + n) \<longrightarrow> (\<exists>b \<in> set bs. \<nu> b))"
    using assms by (auto simp: all_true_iff clause_true_iff lit_true_neg lit_true_pos)
  ultimately show ?thesis
    using assms unfolding enc_arg_def all_true_append by (simp add: enc_attacker_true)
qed

lemma enc_true:
  assumes e: "encodable f act"
  shows "all_true \<nu> (enc f act) \<longleftrightarrow>
    (\<forall>a \<in> set (vec act). \<not> (\<nu> (a + n_args f) \<and> \<nu> a) \<and>
       (\<forall>b \<in> set (vec act). (b, a) \<in> attacks f \<longrightarrow> (\<nu> b \<longrightarrow> \<nu> (a + n_args f)) \<and>
          \<not> (\<nu> a \<and> \<nu> b) \<and> (a \<noteq> b \<longrightarrow> \<nu> a \<longrightarrow> \<nu> (b + n_args f))) \<and>
       (\<nu> (a + n_args f) \<longrightarrow> (\<exists>b \<in> set (vec act). (b, a) \<in> attacks f \<and> \<nu> b))) \<and>
    (\<exists>a \<in> set (vec act). \<nu> a)"
proof -
  let ?n = "n_args f"
  have one: "all_true \<nu> (enc_arg ?n a (active_attackers f act a)) \<longleftrightarrow> \<not> (\<nu> (a + ?n) \<and> \<nu> a) \<and>
       (\<forall>b \<in> set (vec act). (b, a) \<in> attacks f \<longrightarrow> (\<nu> b \<longrightarrow> \<nu> (a + ?n)) \<and>
          \<not> (\<nu> a \<and> \<nu> b) \<and> (a \<noteq> b \<longrightarrow> \<nu> a \<longrightarrow> \<nu> (b + ?n))) \<and>
       (\<nu> (a + ?n) \<longrightarrow> (\<exists>b \<in> set (vec act). (b, a) \<in> attacks f \<and> \<nu> b))"
    if a: "a \<in> set (vec act)" for a
    using enc_arg_true [OF encodableD(5) [OF e a], of "active_attackers f act a" \<nu> ?n]
      encodableD(5) [OF e] by (simp add: set_active_attackers [OF e a]) blast
  have "all_true \<nu> (concat (map (\<lambda>a. enc_arg ?n a (active_attackers f act a)) (vec act))) \<longleftrightarrow>
      (\<forall>a \<in> set (vec act). all_true \<nu> (enc_arg ?n a (active_attackers f act a)))"
    by (auto simp: all_true_iff)
  moreover have "all_true \<nu> [map pos (vec act)] \<longleftrightarrow> (\<exists>a \<in> set (vec act). \<nu> a)"
    using encodableD(5) [OF e] by (auto simp: all_true_iff clause_true_iff lit_true_pos)
  ultimately show ?thesis by (simp add: enc_def one)
qed

lemma enc_sound:
  assumes e: "encodable f act" and m: "all_true \<nu> (enc f act)"
  shows "admissible (set (vec act)) (attacks f) {a \<in> set (vec act). \<nu> a}"
    and "{a \<in> set (vec act). \<nu> a} \<noteq> {}"
proof -
  let ?V = "set (vec act)" and ?n = "n_args f"
  note M = m [unfolded enc_true [OF e]]
  show "{a \<in> ?V. \<nu> a} \<noteq> {}" using M by blast
  show "admissible ?V (attacks f) {a \<in> ?V. \<nu> a}"
  proof (rule admissibleI)
    fix a b assume "a \<in> {a \<in> ?V. \<nu> a}" "b \<in> ?V" "(b, a) \<in> attacks f"
    then have a: "a \<in> ?V" "\<nu> a" "b \<in> ?V" "(b, a) \<in> attacks f" by auto
    then have "\<not> \<nu> b" "a \<noteq> b \<longrightarrow> \<nu> (b + ?n)" using M by blast+
    then have "\<nu> (b + ?n)" using a(2) by blast
    then show "\<exists>c \<in> {a \<in> ?V. \<nu> a}. (c, b) \<in> attacks f" using M a(3) by blast
  qed (use M in blast)+
qed

definition enc_model :: "af \<Rightarrow> arg set \<Rightarrow> assignment" where
  "enc_model f S v =
     (if v \<le> n_args f then v \<in> S else (\<exists>s \<in> S. (s, v - n_args f) \<in> attacks f))"

lemma enc_complete:
  assumes e: "encodable f act" and adm: "admissible (set (vec act)) (attacks f) S" and ne: "S \<noteq> {}"
  shows "all_true (enc_model f S) (enc f act)" and "{a \<in> set (vec act). enc_model f S a} = S"
proof -
  let ?V = "set (vec act)" and ?n = "n_args f" and ?nu = "enc_model f S"
  note A = admissibleD [OF adm]
  have acc: "?nu a \<longleftrightarrow> a \<in> S" if "a \<in> ?V" for a
    using encodableD(6) [OF e that] by (simp add: enc_model_def)
  have rej: "?nu (a + ?n) \<longleftrightarrow> (\<exists>s \<in> S. (s, a) \<in> attacks f)" if "a \<in> ?V" for a
    using encodableD(5) [OF e that] by (simp add: enc_model_def)
  show "{a \<in> ?V. ?nu a} = S" using acc A(1) by blast
  show "all_true ?nu (enc f act)"
    unfolding enc_true [OF e]
  proof (intro conjI ballI impI)
    fix a assume a: "a \<in> ?V"
    show "\<not> (?nu (a + ?n) \<and> ?nu a)" using acc [OF a] rej [OF a] A(2) by blast
    { fix b assume b: "b \<in> ?V" "(b, a) \<in> attacks f"
      show "?nu (a + ?n)" if "?nu b" using that acc [OF b(1)] rej [OF a] b(2) by blast
      show "\<not> (?nu a \<and> ?nu b)" using acc [OF a] acc [OF b(1)] A(2) b(2) by blast
      show "?nu (b + ?n)" if "?nu a"
        using that acc [OF a] rej [OF b(1)] A(3) [of a b] b by blast }
    show "\<exists>b \<in> ?V. (b, a) \<in> attacks f \<and> ?nu b" if "?nu (a + ?n)"
      using that rej [OF a] acc A(1) by blast
  next
    show "\<exists>a \<in> ?V. ?nu a" using ne A(1) acc by blast
  qed
qed

text \<open>The complement clause excludes exactly the supersets of the found set.\<close>

lemma complement_true:
  assumes "\<forall>a \<in> set B. 0 < a"
  shows "clause_true \<nu> (map neg B) \<longleftrightarrow> \<not> set B \<subseteq> {a. \<nu> a}"
  using assms by (auto simp: clause_true_iff lit_true_neg)

definition blocked_formula :: "af \<Rightarrow> vbs \<Rightarrow> arg list list \<Rightarrow> int list list" where
  "blocked_formula f act Bs = enc f act @ map (map neg) Bs"

definition open_sets :: "af \<Rightarrow> vbs \<Rightarrow> arg list list \<Rightarrow> arg set set" where
  "open_sets f act Bs = {S. admissible (set (vec act)) (attacks f) S \<and> S \<noteq> {} \<and>
     (\<forall>B \<in> set Bs. \<not> set B \<subseteq> S)}"

lemma blocked_sound:
  assumes e: "encodable f act" and B: "\<forall>B \<in> set Bs. set B \<subseteq> set (vec act)"
    and m: "all_true \<nu> (blocked_formula f act Bs)"
  shows "{a \<in> set (vec act). \<nu> a} \<in> open_sets f act Bs"
proof -
  have enc: "all_true \<nu> (enc f act)" and bl: "all_true \<nu> (map (map neg) Bs)"
    using m by (simp_all add: blocked_formula_def)
  have "\<not> set C \<subseteq> {a \<in> set (vec act). \<nu> a}" if C: "C \<in> set Bs" for C
  proof -
    have "\<forall>a \<in> set C. 0 < a" using B C encodableD(5) [OF e] by blast
    then have "\<not> set C \<subseteq> {a. \<nu> a}"
      using bl C complement_true [of C \<nu>] by (auto simp: all_true_iff)
    then show ?thesis by blast
  qed
  with enc_sound [OF e enc] show ?thesis by (simp add: open_sets_def)
qed

lemma blocked_complete:
  assumes e: "encodable f act" and B: "\<forall>B \<in> set Bs. set B \<subseteq> set (vec act)"
    and none: "\<forall>\<nu>. \<not> all_true \<nu> (blocked_formula f act Bs)"
  shows "open_sets f act Bs = {}"
proof -
  have "all_true (enc_model f S) (blocked_formula f act Bs)" if S: "S \<in> open_sets f act Bs" for S
  proof -
    have adm: "admissible (set (vec act)) (attacks f) S" "S \<noteq> {}" using S by (auto simp: open_sets_def)
    note C = enc_complete [OF e adm]
    have "clause_true (enc_model f S) (map neg D)" if D: "D \<in> set Bs" for D
    proof -
      have pos: "\<forall>a \<in> set D. 0 < a" using B D encodableD(5) [OF e] by blast
      have "\<not> set D \<subseteq> S" using S D by (auto simp: open_sets_def)
      then have "\<not> set D \<subseteq> {a. enc_model f S a}" using C(2) B D by blast
      then show ?thesis using complement_true [OF pos] by blast
    qed
    then show ?thesis using C(1) by (auto simp: blocked_formula_def all_true_iff)
  qed
  with none show ?thesis by blast
qed

section \<open>Properties\<close>

text \<open>
  C8: the clauses the encoder hands to CaDiCaL.  Their models, read on the active arguments, are
  exactly the non-empty admissible sets of the reduct.
\<close>

theorem encoding_correct:
  assumes "encodable f act" "engine_ok e"
  shows "\<exists>s. add_clauses_nonempty_admissible_set cadical_ops f act (SatSolver_cadical e n) = Inr s \<and>
    wrapper_inv s \<and>
    (\<forall>S. (\<exists>\<nu>. all_true \<nu> (clauses (cadical_solver s)) \<and> {a \<in> set (vec act). \<nu> a} = S) \<longleftrightarrow>
         admissible (set (vec act)) (attacks f) S \<and> S \<noteq> {})"
proof -
  obtain s where s: "add_clauses_nonempty_admissible_set cadical_ops f act (SatSolver_cadical e n) = Inr s"
    "wrapper_inv s" "clauses (cadical_solver s) = enc f act"
    using cad.add_clauses_law [OF assms(1) wrapper_inv_new [OF assms(2)]] by auto
  moreover have "(\<exists>\<nu>. all_true \<nu> (enc f act) \<and> {a \<in> set (vec act). \<nu> a} = S) \<longleftrightarrow>
      admissible (set (vec act)) (attacks f) S \<and> S \<noteq> {}" for S
    using enc_sound [OF assms(1)] enc_complete [OF assms(1)] by blast
  ultimately show ?thesis by auto
qed

text \<open>
  C17: reading the solution.  After a successful \<open>solve\<close>, \<open>get_set_from_solver\<close> returns the active
  arguments that the model makes true, and that model satisfies every clause added.
\<close>

theorem decoding_correct:
  assumes "encodable f act" "wrapper_inv s" "solve_sat s = Inr (True, s')"
  shows "\<exists>\<nu>. all_true \<nu> (clauses (cadical_solver s)) \<and>
    get_set_from_solver cadical_ops act s' = Inr (filter \<nu> (vec act))"
proof -
  obtain \<nu> where nu: "cad_model (cadical_solver s') = Some \<nu>" "wrapper_inv s'"
    "clauses (cadical_solver s') = clauses (cadical_solver s)"
    using wrapper_solve [OF assms(2)] assms(3) by auto
  then show ?thesis
    using cad.get_set_law [OF assms(1) nu(2,1)] cad_model_all_true [OF nu(2,1)]
    by (auto simp: model_set_def)
qed

definition ex_reduct :: vbs where
  "ex_reduct = \<lparr>vec = [4, 3, 1, 2], bits = [0, 1, 1, 1, 1]\<rparr>"

lemma ex_encodable: "encodable ex_af ex_reduct"
  by (auto simp: encodable_def ex_af_ok ex_reduct_def vbs_ok_def all_less_5 n_args_def)

lemma encoding_correct_witness:
  "\<exists>s \<nu>. add_clauses_nonempty_admissible_set cadical_ops ex_af ex_reduct (SatSolver_cadical reference_engine 4) = Inr s \<and>
     all_true \<nu> (clauses (cadical_solver s)) \<and> {a \<in> {4, 3, 1, 2}. \<nu> a} = {1, 4}"
proof -
  have "admissible {4, 3, 1, 2} (set ex_attacks) {1, 4}"
    by (rule admissibleI) (auto simp: ex_attacks_def)
  then have adm: "admissible (set (vec ex_reduct)) (attacks ex_af) {1, 4}"
    by (simp add: ex_reduct_def ex_af_ok)
  obtain s where s: "add_clauses_nonempty_admissible_set cadical_ops ex_af ex_reduct (SatSolver_cadical reference_engine 4) = Inr s"
    "\<forall>S. (\<exists>\<nu>. all_true \<nu> (clauses (cadical_solver s)) \<and> {a \<in> set (vec ex_reduct). \<nu> a} = S) \<longleftrightarrow>
         admissible (set (vec ex_reduct)) (attacks ex_af) S \<and> S \<noteq> {}"
    using encoding_correct [OF ex_encodable reference_engine_ok, of 4] by blast
  obtain \<nu> where "all_true \<nu> (clauses (cadical_solver s))" "{a \<in> set (vec ex_reduct). \<nu> a} = {1, 4}"
    using s(2) adm by blast
  then show ?thesis using s(1) by (auto simp: ex_reduct_def)
qed

lemma decoding_correct_witness:
  "\<exists>s' S. solve_sat (SatSolver_cadical reference_engine 4) = Inr (True, s') \<and>
     get_set_from_solver cadical_ops ex_reduct s' = Inr S"
proof -
  have "reference_engine [] [] [] = Sat [False]"
    by (simp add: reference_engine_def top_var_def problem_true_def all_true_def)
  then obtain s' where s': "solve_sat (SatSolver_cadical reference_engine 4) = Inr (True, s')"
    by (simp add: solve_sat_def solve_def SatSolver_cadical_def cadical_new_def VALID_def READY_def
        call_external_solve_def transition_to_steady_state_def Let_def)
  then show ?thesis
    using decoding_correct [OF ex_encodable wrapper_inv_new [OF reference_engine_ok] s'] by blast
qed

end
