(* ===== verification/Search.thy ===== *)
theory Search
  imports Encoding
begin

text \<open>
  The body of \<open>check_rejection_parallel_recursiv\<close> in \<^verbatim>\<open>src/logic/Solver_DS_PR.cpp\<close>: one OpenMP task of
  the search.  A task is cut at its accesses to the memory it shares with the other tasks (the
  flag \<open>isRejected\<close>, the output list, the pool of created tasks); everything between two accesses is
  local and is one step.
\<close>

section \<open>Extending an extension\<close>

text \<open>
  \<^verbatim>\<open>std::list::merge\<close>: the algorithm takes from the second list whenever its head is smaller.  The
  standard asks for sorted lists; the lists here need not be, so only the elements are claimed.
\<close>

fun list_merge :: "arg list \<Rightarrow> arg list \<Rightarrow> arg list" where
  "list_merge [] ys = ys"
| "list_merge xs [] = xs"
| "list_merge (x # xs) (y # ys) =
     (if y < x then y # list_merge (x # xs) ys else x # list_merge xs (y # ys))"

definition ExtendExtension :: "arg list \<Rightarrow> arg list \<Rightarrow> arg list" where
  "ExtendExtension extension_build initial_set = list_merge extension_build initial_set"

lemma mset_list_merge: "mset (list_merge xs ys) = mset xs + mset ys"
  by (induction xs ys rule: list_merge.induct) auto

lemma set_ExtendExtension [simp]: "set (ExtendExtension xs ys) = set xs \<union> set ys"
  using mset_list_merge [of xs ys] unfolding ExtendExtension_def
  by (metis set_mset_mset set_mset_union)

lemma sorted_list_merge: "sorted xs \<Longrightarrow> sorted ys \<Longrightarrow> sorted (list_merge xs ys)"
proof (induction xs ys rule: list_merge.induct)
  case (3 x xs y ys)
  have "set (list_merge xs (y # ys)) = set xs \<union> set (y # ys)"
    "set (list_merge (x # xs) ys) = set (x # xs) \<union> set ys"
    using set_ExtendExtension by (simp_all add: ExtendExtension_def)
  then show ?case using 3 by auto
qed auto

section \<open>One task\<close>

record shared =
  isRejected :: bool
  output_extension :: "arg list"
  printed :: "(arg list \<times> u32) list"

text \<open>
  Where a task stands: before its first read of the flag (\<open>Start\<close>); about to compute its reduct
  and clauses (\<open>Build\<close>); before the second read (\<open>Recheck\<close>); at the head of the loop, with the
  solver and the two flags \<open>isSolved\<close> and \<open>isFirstCalculation\<close> (\<open>Loop\<close>); before the read in the loop
  condition (\<open>Tail\<close>); about to write the flag, then possibly the output (\<open>WriteRejected\<close>); about
  to write the output (\<open>WriteOutput\<close>).  A task that returns leaves the pool.
\<close>

datatype task =
    Start "arg list"
  | Build "arg list"
  | Recheck "arg list" vbs sat_cadical
  | Loop "arg list" vbs sat_cadical bool bool
  | Tail "arg list" vbs sat_cadical
  | WriteRejected "arg list option"
  | WriteOutput "arg list"

definition compute_reduct :: "af \<Rightarrow> vbs \<Rightarrow> arg list \<Rightarrow> vbs res" where
  "compute_reduct f activeArgs extension_build =
     (if extension_build = [] then copy activeArgs else get_reduct_set activeArgs f extension_build)"

text \<open>
  After a set that neither rejects nor contains the query: print and create the child task, then
  recompute the reduct.
\<close>

definition branch_step ::
    "af \<Rightarrow> vbs \<Rightarrow> arg list \<Rightarrow> sat_cadical \<Rightarrow> arg list \<Rightarrow> shared \<Rightarrow> (shared \<times> task list) res" where
  "branch_step f activeArgs ext s initial_set sh =
     (let new_extension_build = ExtendExtension ext initial_set in
      bind_res (calculate_priority f new_extension_build) (\<lambda>prio.
      bind_res (compute_reduct f activeArgs ext) (\<lambda>reduct.
      Inr (sh\<lparr>printed := printed sh @ [(new_extension_build, prio)]\<rparr>,
           [Tail ext reduct s, Start new_extension_build]))))"

text \<open>
  One turn of the loop up to its next shared access.  \<open>continue\<close> jumps to the loop condition,
  whose \<open>isRejected_tmp\<close> still holds the last value read, which was false.
\<close>

definition loop_step ::
    "arg \<Rightarrow> af \<Rightarrow> vbs \<Rightarrow> arg list \<Rightarrow> vbs \<Rightarrow> sat_cadical \<Rightarrow> bool \<Rightarrow> bool \<Rightarrow> shared \<Rightarrow>
     (shared \<times> task list) res" where
  "loop_step argument f activeArgs ext reduct solver isSolved isFirstCalculation sh =
     bind_res (if isSolved then add_complement_clause cadical_ops reduct solver else Inr solver) (\<lambda>s1.
     bind_res (op_solve cadical_ops s1) (\<lambda>(has_Solution, s2).
       if \<not> has_Solution
       then (if isFirstCalculation then Inr (sh, [WriteRejected None]) else Inr (sh, []))
       else bind_res (get_set_from_solver cadical_ops reduct s2) (\<lambda>initial_set.
         if initial_set = []
         then (if isFirstCalculation then Inr (sh, [WriteRejected None]) else Inl (ExitCode 1))
         else bind_res (check_rejection argument initial_set f) (\<lambda>rejects.
           if rejects
           then Inr (sh, [WriteRejected (Some (ExtendExtension ext initial_set))])
           else if check_terminate_extension_build argument initial_set
           then Inr (sh, [Loop ext reduct s2 True False])
           else branch_step f activeArgs ext s2 initial_set sh))))"

fun task_step :: "engine \<Rightarrow> arg \<Rightarrow> af \<Rightarrow> vbs \<Rightarrow> task \<Rightarrow> shared \<Rightarrow> (shared \<times> task list) res" where
  "task_step e argument f activeArgs (Start ext) sh =
     (if isRejected sh then Inr (sh, []) else Inr (sh, [Build ext]))"
| "task_step e argument f activeArgs (Build ext) sh =
     bind_res (compute_reduct f activeArgs ext) (\<lambda>reduct.
       if length (vec reduct) < 2 then Inr (sh, [])
       else bind_res (add_clauses_nonempty_admissible_set cadical_ops f reduct
                        (SatSolver_cadical e (length (vec reduct)))) (\<lambda>solver.
            Inr (sh, [Recheck ext reduct solver])))"
| "task_step e argument f activeArgs (Recheck ext reduct solver) sh =
     (if isRejected sh then Inr (sh, []) else Inr (sh, [Loop ext reduct solver False True]))"
| "task_step e argument f activeArgs (Loop ext reduct solver isSolved isFirst) sh =
     loop_step argument f activeArgs ext reduct solver isSolved isFirst sh"
| "task_step e argument f activeArgs (Tail ext reduct solver) sh =
     (if isRejected sh then Inr (sh, []) else Inr (sh, [Loop ext reduct solver True False]))"
| "task_step e argument f activeArgs (WriteRejected out) sh =
     Inr (sh\<lparr>isRejected := True\<rparr>, case out of None \<Rightarrow> [] | Some ext \<Rightarrow> [WriteOutput ext])"
| "task_step e argument f activeArgs (WriteOutput ext) sh =
     Inr (sh\<lparr>output_extension := ext\<rparr>, [])"

section \<open>The setting of a search\<close>

definition search_ok :: "arg \<Rightarrow> af \<Rightarrow> vbs \<Rightarrow> bool" where
  "search_ok q f act \<longleftrightarrow> encodable f act \<and> distances_ok f \<and> q \<in> set (vec act) \<and> (q, q) \<notin> attacks f"

abbreviation active :: "vbs \<Rightarrow> arg set" where
  "active act \<equiv> set (vec act)"

text \<open>The sets a task may have built: admissible, without the query, not attacking it.\<close>

definition ext_ok :: "arg \<Rightarrow> af \<Rightarrow> vbs \<Rightarrow> arg list \<Rightarrow> bool" where
  "ext_ok q f act ext \<longleftrightarrow> admissible (active act) (attacks f) (set ext) \<and> q \<notin> set ext \<and>
     (\<forall>x \<in> set ext. (x, q) \<notin> attacks f)"

definition red_ok :: "af \<Rightarrow> vbs \<Rightarrow> arg list \<Rightarrow> vbs \<Rightarrow> bool" where
  "red_ok f act ext red \<longleftrightarrow> vbs_ok (n_slots f) red \<and>
     active red = left_over (active act) (attacks f) (set ext)"

lemma search_okD:
  assumes "search_ok q f act"
  shows "encodable f act" "distances_ok f" "q \<in> active act" "(q, q) \<notin> attacks f" "af_ok f"
    "finite (active act)"
  using assms by (auto simp: search_ok_def dest: encodableD(1))

lemma ext_in_range:
  assumes "search_ok q f act" "ext_ok q f act ext"
  shows "\<forall>a \<in> set ext. a < n_slots f"
proof -
  have "set ext \<subseteq> active act" using assms(2) by (auto simp: ext_ok_def dest: admissibleD(1))
  then show ?thesis using encodableD(7) [OF search_okD(1) [OF assms(1)]] by blast
qed

lemma compute_reduct_ok:
  assumes S: "search_ok q f act" and E: "ext_ok q f act ext"
  shows "\<exists>red. compute_reduct f act ext = Inr red \<and> red_ok f act ext red"
proof (cases "ext = []")
  case True
  have ok: "vbs_ok (n_slots f) act" using encodableD(2) [OF search_okD(1) [OF S]] .
  then have "compute_reduct f act ext = Inr act" using True copy_id [OF ok] by (simp add: compute_reduct_def)
  then show ?thesis using ok True by (simp add: red_ok_def)
next
  case False
  then show ?thesis
    using get_reduct_set_ok [OF search_okD(5) [OF S] ext_in_range [OF S E] False
        encodableD(2) [OF search_okD(1) [OF S]]]
    by (auto simp: compute_reduct_def red_ok_def set_survivors)
qed

lemma red_encodable:
  assumes S: "search_ok q f act" and R: "red_ok f act ext red"
  shows "encodable f red"
  using search_okD(1) [OF S] R by (auto simp: encodable_def red_ok_def left_over_def)

lemma query_stays:
  "search_ok q f act \<Longrightarrow> ext_ok q f act ext \<Longrightarrow> red_ok f act ext red \<Longrightarrow> q \<in> active red"
  by (auto simp: search_ok_def ext_ok_def red_ok_def left_over_def)

text \<open>The comment in the code: with fewer than two arguments left, the one left is the query.\<close>

lemma single_left_is_query:
  assumes S: "search_ok q f act" and E: "ext_ok q f act ext" and R: "red_ok f act ext red"
    and small: "length (vec red) < 2"
  shows "active red = {q}"
proof -
  have q: "q \<in> active red" by (rule query_stays [OF S E R])
  then obtain x where "vec red = [x]" using small by (cases "vec red") auto
  with q show ?thesis by simp
qed

lemma single_left_accepts:
  assumes S: "search_ok q f act" and E: "ext_ok q f act ext" and R: "red_ok f act ext red"
    and small: "length (vec red) < 2"
    and P: "preferred (active act) (attacks f) P" "set ext \<subseteq> P"
  shows "q \<in> P"
proof (rule ccontr)
  assume q: "q \<notin> P"
  have one: "active red = {q}" by (rule single_left_is_query [OF S E R small])
  have adm: "admissible (active act) (attacks f) (set ext)" using E by (simp add: ext_ok_def)
  have "P - set ext \<subseteq> {q}"
    using preferred_rest [OF adm P(2)] P(1) one R by (simp add: red_ok_def)
  then have "P = set ext" using q P(2) by blast
  moreover have "admissible {q} (attacks f) {q}"
    by (rule unattacked_admissible) (use search_okD(4) [OF S] in auto)
  ultimately show False
    using preferred_iff_nothing_left [OF adm] P(1) one R by (auto simp: red_ok_def)
qed

section \<open>One turn of the enumeration\<close>

text \<open>The sets blocked so far are read off the clauses after those of the encoding.\<close>

definition blocks_of :: "af \<Rightarrow> vbs \<Rightarrow> sat_cadical \<Rightarrow> arg list list" where
  "blocks_of f red s = map (map (\<lambda>l. nat (- l))) (drop (length (enc f red)) (clauses (cadical_solver s)))"

text \<open>At the head of the loop, a solved problem also blocks the set of its current model.\<close>

definition loop_blocks :: "af \<Rightarrow> vbs \<Rightarrow> sat_cadical \<Rightarrow> bool \<Rightarrow> arg list list" where
  "loop_blocks f red s solved = blocks_of f red s @
     (if solved then [model_set red (the (cad_model (cadical_solver s)))] else [])"

lemma blocks_of_blocked_formula:
  "clauses (cadical_solver s) = blocked_formula f red Bs \<Longrightarrow> blocks_of f red s = Bs"
  by (simp add: blocks_of_def blocked_formula_def neg_def comp_def map_idI)

definition loop_rep :: "af \<Rightarrow> vbs \<Rightarrow> sat_cadical \<Rightarrow> bool \<Rightarrow> bool" where
  "loop_rep f red s solved \<longleftrightarrow> wrapper_inv s \<and>
     clauses (cadical_solver s) = blocked_formula f red (blocks_of f red s) \<and>
     (solved \<longrightarrow> cad_model (cadical_solver s) \<noteq> None) \<and>
     (\<forall>B \<in> set (loop_blocks f red s solved). set B \<subseteq> active red)"

lemma loop_rep_new:
  assumes "encodable f red" "engine_ok e"
  shows "\<exists>s. add_clauses_nonempty_admissible_set cadical_ops f red (SatSolver_cadical e n) = Inr s \<and>
    loop_rep f red s False \<and> loop_blocks f red s False = []"
proof -
  obtain s where s: "add_clauses_nonempty_admissible_set cadical_ops f red (SatSolver_cadical e n) = Inr s"
    "wrapper_inv s" "clauses (cadical_solver s) = enc f red"
    using cad.add_clauses_law [OF assms(1) wrapper_inv_new [OF assms(2)]] by auto
  then have "clauses (cadical_solver s) = blocked_formula f red []" by (simp add: blocked_formula_def)
  moreover from blocks_of_blocked_formula [OF this] have "blocks_of f red s = []" .
  ultimately show ?thesis using s by (simp add: loop_rep_def loop_blocks_def)
qed

lemma complement_step:
  assumes e: "encodable f red" and rep: "loop_rep f red s solved"
  shows "\<exists>s1. (if solved then add_complement_clause cadical_ops red s else Inr s) = Inr s1 \<and>
    wrapper_inv s1 \<and> clauses (cadical_solver s1) = blocked_formula f red (loop_blocks f red s solved)"
proof (cases solved)
  case True
  then obtain \<nu> where nu: "cad_model (cadical_solver s) = Some \<nu>" using rep by (auto simp: loop_rep_def)
  obtain s1 where "add_complement_clause cadical_ops red s = Inr s1" "wrapper_inv s1"
    "clauses (cadical_solver s1) = clauses (cadical_solver s) @ [map (\<lambda>a. - int a) (model_set red \<nu>)]"
    using cad.add_complement_law [OF e _ nu] rep by (auto simp: loop_rep_def neg_def [abs_def])
  moreover have "clauses (cadical_solver s) = blocked_formula f red (blocks_of f red s)"
    using rep by (simp add: loop_rep_def)
  ultimately show ?thesis
    using True nu by (auto simp: loop_blocks_def blocked_formula_def neg_def [abs_def])
next
  case False
  then show ?thesis using rep by (auto simp: loop_rep_def loop_blocks_def)
qed

text \<open>
  The contract of one turn: no solution means that no non-empty admissible set is left; a
  solution is read back as such a set, and is blocked from then on.
\<close>

lemma solve_step:
  assumes e: "encodable f red" and rep: "loop_rep f red s solved"
    and s1: "(if solved then add_complement_clause cadical_ops red s else Inr s) = Inr s1"
  shows "\<exists>b s2. op_solve cadical_ops s1 = Inr (b, s2) \<and>
    (\<not> b \<longrightarrow> open_sets f red (loop_blocks f red s solved) = {}) \<and>
    (b \<longrightarrow> (\<exists>S. get_set_from_solver cadical_ops red s2 = Inr S \<and>
       set S \<in> open_sets f red (loop_blocks f red s solved) \<and> loop_rep f red s2 True \<and>
       loop_blocks f red s2 True = loop_blocks f red s solved @ [S]))"
proof -
  let ?Bs = "loop_blocks f red s solved"
  have B: "\<forall>B \<in> set ?Bs. set B \<subseteq> active red" using rep by (simp add: loop_rep_def)
  have s1': "wrapper_inv s1" "clauses (cadical_solver s1) = blocked_formula f red ?Bs"
    using complement_step [OF e rep] s1 by auto
  obtain b s2 where s2: "op_solve cadical_ops s1 = Inr (b, s2)" "wrapper_inv s2"
    "clauses (cadical_solver s2) = clauses (cadical_solver s1)"
    "b \<longrightarrow> (\<exists>\<nu>. cad_model (cadical_solver s2) = Some \<nu>)"
    "\<not> b \<longrightarrow> (\<forall>\<nu>. \<not> all_true \<nu> (clauses (cadical_solver s1)))"
    using cad.solve_law [OF s1'(1)] by blast
  have "open_sets f red ?Bs = {}" if "\<not> b"
    using blocked_complete [OF e B] s2(5) that s1'(2) by simp
  moreover have "\<exists>S. get_set_from_solver cadical_ops red s2 = Inr S \<and>
       set S \<in> open_sets f red ?Bs \<and> loop_rep f red s2 True \<and> loop_blocks f red s2 True = ?Bs @ [S]"
    if b
  proof -
    obtain \<nu> where nu: "cad_model (cadical_solver s2) = Some \<nu>" using s2(4) \<open>b\<close> by blast
    let ?S = "model_set red \<nu>"
    have cl: "clauses (cadical_solver s2) = blocked_formula f red ?Bs" using s2(3) s1'(2) by simp
    then have "all_true \<nu> (blocked_formula f red ?Bs)" using cad.model_law [OF s2(2) nu] by simp
    from blocked_sound [OF e B this] have S: "set ?S \<in> open_sets f red ?Bs"
      by (simp add: model_set_def)
    have bl: "blocks_of f red s2 = ?Bs" using blocks_of_blocked_formula [OF cl] .
    then have lb: "loop_blocks f red s2 True = ?Bs @ [?S]" by (simp add: loop_blocks_def nu)
    moreover have "loop_rep f red s2 True"
      using s2(2) cl bl lb B nu by (simp add: loop_rep_def model_set_def)
    ultimately show ?thesis using cad.get_set_law [OF e s2(2) nu] S by blast
  qed
  ultimately show ?thesis using s2(1) by blast
qed

lemma open_sets_snoc:
  "open_sets f red (Bs @ [S]) = {T \<in> open_sets f red Bs. \<not> set S \<subseteq> T}"
  by (auto simp: open_sets_def)

lemma finite_open_sets [simp]: "finite (open_sets f red Bs)"
proof -
  have "open_sets f red Bs \<subseteq> Pow (active red)" by (auto simp: open_sets_def dest: admissibleD(1))
  then show ?thesis by (rule finite_subset) simp
qed

lemma open_sets_shrink:
  assumes "set S \<in> open_sets f red Bs"
  shows "card (open_sets f red (Bs @ [S])) < card (open_sets f red Bs)"
proof (rule psubset_card_mono)
  show "open_sets f red (Bs @ [S]) \<subset> open_sets f red Bs"
    using assms by (auto simp: open_sets_snoc)
qed simp

section \<open>The invariant of a task\<close>

definition rejects :: "arg \<Rightarrow> af \<Rightarrow> vbs \<Rightarrow> bool" where
  "rejects q f act \<longleftrightarrow> \<not> sceptical (active act) (attacks f) q"

text \<open>A list that proves the rejection: admissible and attacking the query.\<close>

definition proof_ok :: "arg \<Rightarrow> af \<Rightarrow> vbs \<Rightarrow> arg list \<Rightarrow> bool" where
  "proof_ok q f act ext \<longleftrightarrow> admissible (active act) (attacks f) (set ext) \<and>
     (\<exists>x \<in> set ext. (x, q) \<in> attacks f)"

definition loop_ok :: "arg \<Rightarrow> af \<Rightarrow> vbs \<Rightarrow> arg list \<Rightarrow> vbs \<Rightarrow> sat_cadical \<Rightarrow> bool \<Rightarrow> bool" where
  "loop_ok q f act ext red s solved \<longleftrightarrow> ext_ok q f act ext \<and> red_ok f act ext red \<and>
     compute_reduct f act ext = Inr red \<and> loop_rep f red s solved \<and>
     (\<not> solved \<longrightarrow> loop_blocks f red s solved = [])"

fun task_ok :: "arg \<Rightarrow> af \<Rightarrow> vbs \<Rightarrow> task \<Rightarrow> bool" where
  "task_ok q f act (Start ext) = ext_ok q f act ext"
| "task_ok q f act (Build ext) = ext_ok q f act ext"
| "task_ok q f act (Recheck ext red s) = loop_ok q f act ext red s False"
| "task_ok q f act (Loop ext red s solved first) = (first = (\<not> solved) \<and> loop_ok q f act ext red s solved)"
| "task_ok q f act (Tail ext red s) = loop_ok q f act ext red s True"
| "task_ok q f act (WriteRejected out) =
     (rejects q f act \<and> (case out of None \<Rightarrow> True | Some ext \<Rightarrow> proof_ok q f act ext))"
| "task_ok q f act (WriteOutput ext) = (rejects q f act \<and> proof_ok q f act ext)"

lemma open_set_admissible:
  assumes "red_ok f act ext red" "S \<in> open_sets f red Bs" "ext_ok q f act ext"
  shows "admissible (active act) (attacks f) (set ext \<union> S)" "S \<subseteq> active red" "S \<noteq> {}"
    "admissible (active red) (attacks f) S"
  using assms admissible_union by (auto simp: red_ok_def open_sets_def ext_ok_def dest: admissibleD(1))

text \<open>An admissible set that attacks the query refutes it.\<close>

lemma attacking_set_rejects:
  assumes S: "search_ok q f act" and p: "proof_ok q f act ext"
  shows "rejects q f act"
proof -
  have adm: "admissible (active act) (attacks f) (set ext)" using p by (simp add: proof_ok_def)
  obtain P where P: "preferred (active act) (attacks f) P" "set ext \<subseteq> P"
    using preferred_extends [OF search_okD(6) [OF S] adm] by blast
  obtain x where "x \<in> set ext" "(x, q) \<in> attacks f" using p by (auto simp: proof_ok_def)
  then have "q \<notin> P" using P(2) admissibleD(2) [OF preferred_admissible [OF P(1)], of x q] by blast
  with P(1) show ?thesis by (auto simp: rejects_def sceptical_def)
qed

lemma nothing_open_preferred:
  assumes E: "ext_ok q f act ext" and R: "red_ok f act ext red" and none: "open_sets f red [] = {}"
  shows "preferred (active act) (attacks f) (set ext)"
proof -
  have "\<forall>S. admissible (active red) (attacks f) S \<longrightarrow> S = {}"
    using none by (auto simp: open_sets_def)
  moreover have adm: "admissible (active act) (attacks f) (set ext)" using E by (simp add: ext_ok_def)
  ultimately show ?thesis
    using R preferred_iff_nothing_left [OF adm] by (simp add: red_ok_def)
qed

lemma extended_ok:
  assumes E: "ext_ok q f act ext" and R: "red_ok f act ext red" and S: "set S \<in> open_sets f red Bs"
  shows "(\<exists>x \<in> set S. (x, q) \<in> attacks f) \<Longrightarrow> proof_ok q f act (ExtendExtension ext S)"
    and "\<not> (\<exists>x \<in> set S. (x, q) \<in> attacks f) \<Longrightarrow> q \<notin> set S \<Longrightarrow> ext_ok q f act (ExtendExtension ext S)"
  using open_set_admissible [OF R S E] E by (auto simp: proof_ok_def ext_ok_def)

text \<open>The part of a turn after an open set that does not decide the query.\<close>

lemma branch_step_ok:
  assumes X: "search_ok q f act" and L: "ext_ok q f act ext" "red_ok f act ext red"
      "compute_reduct f act ext = Inr red"
    and S: "set S \<in> open_sets f red Bs" and safe: "\<not> (\<exists>x \<in> set S. (x, q) \<in> attacks f)" "q \<notin> set S"
  shows "\<exists>prio. branch_step f act ext s S sh =
      Inr (sh\<lparr>printed := printed sh @ [(ExtendExtension ext S, prio)]\<rparr>,
           [Tail ext red s, Start (ExtendExtension ext S)])"
proof -
  have E': "ext_ok q f act (ExtendExtension ext S)" using extended_ok(2) [OF L(1,2) S safe] .
  have "set S \<noteq> {}" using open_set_admissible(3) [OF L(2) S L(1)] .
  then have ne: "ExtendExtension ext S \<noteq> []"
    using set_ExtendExtension [of ext S] by (metis Un_empty list.set(1))
  obtain prio where "calculate_priority f (ExtendExtension ext S) = Inr prio"
    using calculate_priority_ok [OF search_okD(2) [OF X] ext_in_range [OF X E'] ne] by blast
  then show ?thesis using L(3) by (auto simp: branch_step_def Let_def)
qed

text \<open>
  All outcomes of one turn of the loop: exhausted, rejecting, accepting on this branch, or
  branching.  None of them is a fault; in particular \<open>exit(1)\<close> is not reached.
\<close>

lemma loop_step_cases:
  assumes X: "search_ok q f act" and L: "loop_ok q f act ext red s solved"
  obtains (exhausted) "open_sets f red (loop_blocks f red s solved) = {}"
      "loop_step q f act ext red s solved (\<not> solved) sh = Inr (sh, if solved then [] else [WriteRejected None])"
  | (rejecting) S where "set S \<in> open_sets f red (loop_blocks f red s solved)"
      "\<exists>x \<in> set S. (x, q) \<in> attacks f"
      "loop_step q f act ext red s solved (\<not> solved) sh = Inr (sh, [WriteRejected (Some (ExtendExtension ext S))])"
  | (accepting) S s2 where "set S \<in> open_sets f red (loop_blocks f red s solved)" "q \<in> set S"
      "loop_rep f red s2 True" "loop_blocks f red s2 True = loop_blocks f red s solved @ [S]"
      "loop_step q f act ext red s solved (\<not> solved) sh = Inr (sh, [Loop ext red s2 True False])"
  | (branching) S s2 prio where "set S \<in> open_sets f red (loop_blocks f red s solved)"
      "\<not> (\<exists>x \<in> set S. (x, q) \<in> attacks f)" "q \<notin> set S"
      "loop_rep f red s2 True" "loop_blocks f red s2 True = loop_blocks f red s solved @ [S]"
      "loop_step q f act ext red s solved (\<not> solved) sh =
         Inr (sh\<lparr>printed := printed sh @ [(ExtendExtension ext S, prio)]\<rparr>,
              [Tail ext red s2, Start (ExtendExtension ext S)])"
proof -
  let ?Bs = "loop_blocks f red s solved"
  have E: "ext_ok q f act ext" "red_ok f act ext red" "compute_reduct f act ext = Inr red"
    "loop_rep f red s solved"
    using L by (simp_all add: loop_ok_def)
  have e: "encodable f red" by (rule red_encodable [OF X E(2)])
  obtain s1 where s1: "(if solved then add_complement_clause cadical_ops red s else Inr s) = Inr s1"
    using complement_step [OF e E(4)] by blast
  obtain b s2 where s2: "op_solve cadical_ops s1 = Inr (b, s2)" "\<not> b \<longrightarrow> open_sets f red ?Bs = {}"
    "b \<longrightarrow> (\<exists>S. get_set_from_solver cadical_ops red s2 = Inr S \<and> set S \<in> open_sets f red ?Bs \<and>
        loop_rep f red s2 True \<and> loop_blocks f red s2 True = ?Bs @ [S])"
    using solve_step [OF e E(4) s1] by blast
  show thesis
  proof (cases b)
    case False
    then show thesis using exhausted s1 s2 by (simp add: loop_step_def)
  next
    case True
    then obtain S where S: "get_set_from_solver cadical_ops red s2 = Inr S"
      "set S \<in> open_sets f red ?Bs" "loop_rep f red s2 True" "loop_blocks f red s2 True = ?Bs @ [S]"
      using s2(3) by blast
    have ne: "S \<noteq> []" using open_set_admissible(3) [OF E(2) S(2) E(1)] by auto
    have "set S \<subseteq> active red" using open_set_admissible(2) [OF E(2) S(2) E(1)] .
    then have "\<forall>a \<in> set S. a < n_slots f" using encodableD(7) [OF e] by blast
    moreover have "q < n_slots f" using encodableD(7) [OF search_okD(1,3) [OF X]] .
    ultimately have rej: "check_rejection q S f = Inr (\<exists>x \<in> set S. (x, q) \<in> attacks f)"
      using check_rejection_ok search_okD(5) [OF X] by blast
    have run: "loop_step q f act ext red s solved (\<not> solved) sh =
      (if \<exists>x \<in> set S. (x, q) \<in> attacks f
       then Inr (sh, [WriteRejected (Some (ExtendExtension ext S))])
       else if q \<in> set S then Inr (sh, [Loop ext red s2 True False])
       else branch_step f act ext s2 S sh)"
      using True by (simp only: loop_step_def s1 s2(1) S(1) ne rej bind_res_Inr prod.case simp_thms
        if_True if_False check_terminate_iff)
    show thesis
    proof (cases "\<exists>x \<in> set S. (x, q) \<in> attacks f")
      case True
      then show thesis using rejecting [OF S(2)] run by (simp only: if_True)
    next
      case safe: False
      show thesis
      proof (cases "q \<in> set S")
        case True
        then show thesis using accepting [OF S(2) True S(3,4)] safe run by (simp only: if_True if_False)
      next
        case False
        obtain prio where "branch_step f act ext s2 S sh =
            Inr (sh\<lparr>printed := printed sh @ [(ExtendExtension ext S, prio)]\<rparr>,
              [Tail ext red s2, Start (ExtendExtension ext S)])"
          using branch_step_ok [OF X E(1-3) S(2) safe False] by blast
        then show thesis using branching [OF S(2) safe False S(3,4)] safe False run
          by (simp only: if_False)
      qed
    qed
  qed
qed

section \<open>Properties\<close>

text \<open>
  C9: one turn of the enumeration.  With the sets \<open>Bs\<close> blocked so far, the next \<open>solve\<close> fails only
  if every non-empty admissible set of the reduct contains a blocked one; otherwise the set read back
  is such a set, and from then on it is blocked too.
\<close>

theorem enumeration_turn:
  assumes "encodable f red" "loop_rep f red s solved"
    "(if solved then add_complement_clause cadical_ops red s else Inr s) = Inr s1"
  shows "\<exists>b s2. op_solve cadical_ops s1 = Inr (b, s2) \<and>
    (\<not> b \<longrightarrow> open_sets f red (loop_blocks f red s solved) = {}) \<and>
    (b \<longrightarrow> (\<exists>S. get_set_from_solver cadical_ops red s2 = Inr S \<and>
       set S \<in> open_sets f red (loop_blocks f red s solved) \<and> loop_rep f red s2 True \<and>
       loop_blocks f red s2 True = loop_blocks f red s solved @ [S]))"
  by (rule solve_step [OF assms])

text \<open>
  C27: \<^verbatim>\<open>merge\<close> of the extension built and the set found keeps every element of both, and orders
  them if both are in order.
\<close>

theorem ExtendExtension_correct:
  assumes "sorted xs" "sorted ys"
  shows "sorted (ExtendExtension xs ys) \<and> mset (ExtendExtension xs ys) = mset xs + mset ys"
  using sorted_list_merge [OF assms] mset_list_merge by (simp add: ExtendExtension_def)

lemma ExtendExtension_correct_witness: "ExtendExtension [1, 4] [2, 3, 9] = [1, 2, 3, 4, 9]"
proof -
  have "sorted (ExtendExtension [1, 4] [2, 3, 9])"
    using ExtendExtension_correct [of "[1, 4]" "[2, 3, 9]"] by simp
  then show ?thesis by (simp add: ExtendExtension_def)
qed

lemma enumeration_turn_witness:
  "\<exists>s b s2. op_solve cadical_ops s = Inr (b, s2) \<and> (b \<longrightarrow> (\<exists>S. get_set_from_solver cadical_ops ex_reduct s2 = Inr S \<and>
     set S \<in> open_sets ex_af ex_reduct []))"
proof -
  obtain s where s: "loop_rep ex_af ex_reduct s False" "loop_blocks ex_af ex_reduct s False = []"
    using loop_rep_new [OF ex_encodable reference_engine_ok] by blast
  then show ?thesis using enumeration_turn [OF ex_encodable s(1), of s] by auto
qed

end
