(* ===== verification/Pool.thy ===== *)
theory Pool
  imports Prelude
begin

text \<open>
  A pool of OpenMP tasks: any thread may take any task and run it up to its next access of shared
  memory.  \<open>pool_step\<close> is that interleaving, with the step of one task as a relation; \<open>run_pool\<close> runs
  one schedule.  The locale \<open>work_pool\<close> is the interface between the pool and the code of its tasks:
  from laws about one step it derives safety, completeness, progress and termination of the pool.
\<close>

section \<open>Interleavings\<close>

type_synonym ('t, 's) task_rel = "'t \<Rightarrow> 's \<Rightarrow> ('s \<times> 't list) res \<Rightarrow> bool"
type_synonym ('t, 's) config = "'s \<times> 't multiset"

inductive pool_step :: "('t, 's) task_rel \<Rightarrow> ('t, 's) config \<Rightarrow> ('t, 's) config \<Rightarrow> bool"
  for step :: "('t, 's) task_rel" where
  run_task: "step t s (Inr (s', ts)) \<Longrightarrow>
    pool_step step (s, add_mset t T) (s', T + mset ts)"

text \<open>A fault of any task is a fault of the program.\<close>

inductive pool_fault :: "('t, 's) task_rel \<Rightarrow> ('t, 's) config \<Rightarrow> fault \<Rightarrow> bool"
  for step :: "('t, 's) task_rel" where
  task_fault: "step t s (Inl e) \<Longrightarrow> pool_fault step (s, add_mset t T) e"

inductive_cases pool_stepE: "pool_step step c c'"
inductive_cases pool_faultE: "pool_fault step c e"
inductive_simps pool_step_empty: "pool_step step (s, {#}) c'"

abbreviation pool_steps :: "('t, 's) task_rel \<Rightarrow> ('t, 's) config \<Rightarrow> ('t, 's) config \<Rightarrow> bool" where
  "pool_steps step \<equiv> (pool_step step)\<^sup>*\<^sup>*"

section \<open>Running one schedule\<close>

text \<open>
  \<open>sched k\<close> picks the task of the \<open>k\<close>-th step, \<open>step k\<close> is that step.  A task that returns is gone,
  one that goes on is put back together with the tasks it created.
\<close>

partial_function (option) run_pool ::
    "(nat \<Rightarrow> 't \<Rightarrow> 's \<Rightarrow> ('s \<times> 't list) res) \<Rightarrow> (nat \<Rightarrow> nat) \<Rightarrow> nat \<Rightarrow> 's \<Rightarrow> 't list \<Rightarrow> 's res option" where
  "run_pool step sched k s ts =
     (if ts = [] then Some (Inr s)
      else let i = sched k mod length ts
           in case step k (ts ! i) s of
                Inl e \<Rightarrow> Some (Inl e)
              | Inr (s', new) \<Rightarrow> run_pool step sched (Suc k) s' (take i ts @ drop (Suc i) ts @ new))"

declare run_pool.simps [code]

lemma mset_remove_nth:
  "i < length ts \<Longrightarrow> mset ts = add_mset (ts ! i) (mset (take i ts @ drop (Suc i) ts))"
  by (metis id_take_nth_drop mset.simps(2) mset_append union_mset_add_mset_right)

section \<open>The interface of a task\<close>

locale work_pool =
  fixes step :: "('t, 's) task_rel"
    and task_inv :: "'t \<Rightarrow> bool"
    and shared_inv :: "'s \<Rightarrow> bool"
    and order :: "('t \<times> 't) set"
    and settled :: "'s \<Rightarrow> bool"
    and covers :: "'t \<Rightarrow> 'p \<Rightarrow> bool"
  assumes order_wf: "wf order"
    and step_exists: "\<And>t s. task_inv t \<Longrightarrow> \<exists>r. step t s r"
    and step_returns: "\<And>t s r. task_inv t \<Longrightarrow> step t s r \<Longrightarrow> \<exists>s' ts. r = Inr (s', ts)"
    and step_inv: "\<And>t s s' ts. task_inv t \<Longrightarrow> shared_inv s \<Longrightarrow> step t s (Inr (s', ts)) \<Longrightarrow>
          shared_inv s' \<and> (\<forall>t' \<in> set ts. task_inv t')"
    and step_decreases: "\<And>t s s' ts t'. task_inv t \<Longrightarrow> step t s (Inr (s', ts)) \<Longrightarrow> t' \<in> set ts \<Longrightarrow>
          (t', t) \<in> order"
    and step_settled: "\<And>t s s' ts. task_inv t \<Longrightarrow> step t s (Inr (s', ts)) \<Longrightarrow> settled s \<Longrightarrow> settled s'"
    and step_covers: "\<And>t s s' ts p. task_inv t \<Longrightarrow> step t s (Inr (s', ts)) \<Longrightarrow> covers t p \<Longrightarrow>
          settled s' \<or> (\<exists>t' \<in> set ts. covers t' p)"
begin

definition config_inv :: "('t, 's) config \<Rightarrow> bool" where
  "config_inv c \<longleftrightarrow> shared_inv (fst c) \<and> (\<forall>t \<in># snd c. task_inv t)"

definition covered :: "('t, 's) config \<Rightarrow> 'p \<Rightarrow> bool" where
  "covered c p \<longleftrightarrow> settled (fst c) \<or> (\<exists>t \<in># snd c. covers t p)"

lemma config_inv_step: "pool_step step c c' \<Longrightarrow> config_inv c \<Longrightarrow> config_inv c'"
  by (erule pool_stepE) (auto simp: config_inv_def dest: step_inv)

lemma config_inv_steps: "pool_steps step c c' \<Longrightarrow> config_inv c \<Longrightarrow> config_inv c'"
  by (induction rule: rtranclp_induct) (auto intro: config_inv_step)

lemma covered_step:
  assumes "pool_step step c c'" "config_inv c" "covered c p"
  shows "covered c' p"
proof -
  obtain t s s' ts T where 1: "c = (s, add_mset t T)" "c' = (s', T + mset ts)" "step t s (Inr (s', ts))"
    using assms(1) by (rule pool_stepE) blast
  then have t: "task_inv t" using assms(2) by (simp add: config_inv_def)
  consider "settled s" | "\<exists>u \<in># T. covers u p" | "covers t p"
    using assms(3) 1(1) by (auto simp: covered_def)
  then show ?thesis
    using step_settled [OF t 1(3)] step_covers [OF t 1(3), of p]
    by cases (auto simp: covered_def 1(2))
qed

lemma covered_steps:
  "pool_steps step c c' \<Longrightarrow> config_inv c \<Longrightarrow> covered c p \<Longrightarrow> covered c' p"
proof (induction rule: rtranclp_induct)
  case (step c' c'')
  then show ?case using covered_step config_inv_steps by blast
qed

text \<open>When the pool is empty, whatever was covered at the start has settled the question.\<close>

lemma finished_settled:
  "pool_steps step c (s, {#}) \<Longrightarrow> config_inv c \<Longrightarrow> covered c p \<Longrightarrow> settled s"
  using covered_steps [of c "(s, {#})" p] by (simp add: covered_def)

lemma no_fault: "config_inv c \<Longrightarrow> \<not> pool_fault step c e"
  by (auto elim!: pool_faultE simp: config_inv_def dest: step_returns)

lemma no_fault_reachable: "pool_steps step c c' \<Longrightarrow> config_inv c \<Longrightarrow> \<not> pool_fault step c' e"
  using no_fault config_inv_steps by blast

text \<open>A pool with a task left can always go on.\<close>

lemma progress:
  assumes "config_inv c" "snd c \<noteq> {#}"
  shows "\<exists>c'. pool_step step c c'"
proof -
  obtain s T t where c: "c = (s, add_mset t T)"
    using assms(2) by (cases c) (metis multiset_cases snd_conv)
  then have "task_inv t" using assms(1) by (simp add: config_inv_def)
  then obtain s' ts where "step t s (Inr (s', ts))" using step_exists step_returns by metis
  then show ?thesis unfolding c using pool_step.run_task by fast
qed

lemma step_mult:
  assumes "pool_step step c c'" "config_inv c"
  shows "(snd c', snd c) \<in> mult order"
proof -
  obtain t s s' ts T where 1: "c = (s, add_mset t T)" "c' = (s', T + mset ts)" "step t s (Inr (s', ts))"
    using assms(1) by (rule pool_stepE) blast
  then have "task_inv t" using assms(2) by (simp add: config_inv_def)
  then have "\<forall>k \<in># mset ts. \<exists>j \<in># {#t#}. (k, j) \<in> order" using step_decreases 1(3) by auto
  then have "(T + mset ts, T + {#t#}) \<in> mult order" by (intro one_step_implies_mult) auto
  then show ?thesis by (simp add: 1)
qed

text \<open>No interleaving runs for ever.\<close>

lemma terminates: "wfP (\<lambda>c' c. pool_step step c c' \<and> config_inv c)"
proof -
  have "wf (inv_image (mult order) (snd :: ('t, 's) config \<Rightarrow> 't multiset))"
    by (intro wf_inv_image wf_mult order_wf)
  then have "wf {(c', c). pool_step step c c' \<and> config_inv c}"
    by (rule wf_subset) (auto dest!: step_mult)
  then show ?thesis by (simp add: wfp_def)
qed

lemma no_infinite_run:
  assumes "config_inv (c 0)"
  shows "\<not> (\<forall>i. pool_step step (c i) (c (Suc i)))"
proof
  assume run: "\<forall>i. pool_step step (c i) (c (Suc i))"
  have "config_inv (c i)" for i
  proof (induction i)
    case (Suc i)
    then show ?case using run config_inv_step by blast
  qed (rule assms)
  then have "\<forall>i. (snd (c (Suc i)), snd (c i)) \<in> mult order" using run step_mult by blast
  moreover have "wf (mult order)" by (intro wf_mult order_wf)
  ultimately show False
    unfolding wf_iff_no_infinite_down_chain by (auto dest: spec [where x = "\<lambda>i. snd (c i)"])
qed

text \<open>Every schedule ends, and what it ends in is reachable by interleaved steps.\<close>

lemma run_pool_ends:
  assumes f: "\<And>k t s. task_inv t \<Longrightarrow> step t s (g k t s)"
  shows "config_inv (s, mset ts) \<Longrightarrow>
    \<exists>s'. run_pool g sched k s ts = Some (Inr s') \<and> pool_steps step (s, mset ts) (s', {#})"
proof (induction "mset ts" arbitrary: s ts k rule: wf_induct_rule [OF wf_mult [OF order_wf]])
  case 1
  show ?case
  proof (cases "ts = []")
    case True
    then show ?thesis by (simp add: run_pool.simps)
  next
    case False
    define i where "i = sched k mod length ts"
    define rest where "rest = take i ts @ drop (Suc i) ts"
    have i: "i < length ts" using False by (simp add: i_def)
    have m: "mset ts = add_mset (ts ! i) (mset rest)" unfolding rest_def by (rule mset_remove_nth [OF i])
    have t: "task_inv (ts ! i)" using 1(2) i by (simp add: config_inv_def)
    then obtain s' new where g: "g k (ts ! i) s = Inr (s', new)"
      using f step_returns by blast
    then have "step (ts ! i) s (Inr (s', new))" using f [OF t, of s k] by simp
    then have st: "pool_step step (s, mset ts) (s', mset (rest @ new))"
      unfolding m mset_append by (rule pool_step.run_task)
    obtain s'' where "run_pool g sched (Suc k) s' (rest @ new) = Some (Inr s'')"
      "pool_steps step (s', mset (rest @ new)) (s'', {#})"
      using 1(1) [of "rest @ new" s' "Suc k"] step_mult [OF st 1(2)] config_inv_step [OF st 1(2)]
      by auto
    then show ?thesis
      using st g False
      by (subst run_pool.simps)
        (auto simp: Let_def i_def [symmetric] rest_def intro: converse_rtranclp_into_rtranclp)
  qed
qed

end

end
