(* ===== verification/Solver.thy ===== *)
theory Solver
  imports Search Pool PreProcessor
begin

text \<open>
  \<open>check_rejection_parallel\<close> and \<open>Solver_DS_PR::solve\<close> (\<^verbatim>\<open>src/logic/Solver_DS_PR.cpp\<close>): the tasks of
  \<^theory_text>\<open>Search\<close> run in the pool of \<^theory_text>\<open>Pool\<close>.  The laws of \<open>work_pool\<close> are proved for the task of the code,
  so every interleaving and every schedule ends without a fault and with the right answer.
\<close>

section \<open>The laws of a task\<close>

text \<open>
  A task that still has to find the preferred extension \<open>P\<close>, which does not contain the query:
  what it has built lies inside \<open>P\<close>, and the rest of \<open>P\<close> is not blocked.
\<close>

fun covers :: "af \<Rightarrow> task \<Rightarrow> arg set \<Rightarrow> bool" where
  "covers f (Start ext) P = (set ext \<subseteq> P)"
| "covers f (Build ext) P = (set ext \<subseteq> P)"
| "covers f (Recheck ext red s) P = (set ext \<subseteq> P)"
| "covers f (Loop ext red s solved first) P =
     (set ext \<subseteq> P \<and> (solved \<longrightarrow> P - set ext \<in> open_sets f red (loop_blocks f red s True)))"
| "covers f (Tail ext red s) P =
     (set ext \<subseteq> P \<and> P - set ext \<in> open_sets f red (loop_blocks f red s True))"
| "covers f (WriteRejected out) P = True"
| "covers f (WriteOutput ext) P = False"

definition refuting :: "arg \<Rightarrow> af \<Rightarrow> vbs \<Rightarrow> arg set \<Rightarrow> bool" where
  "refuting q f act P \<longleftrightarrow> preferred (active act) (attacks f) P \<and> q \<notin> P"

text \<open>The measure of a task: arguments left to decide, phase, open sets of the loop.\<close>

definition left_card :: "af \<Rightarrow> vbs \<Rightarrow> arg list \<Rightarrow> nat" where
  "left_card f act ext = card (left_over (active act) (attacks f) (set ext))"

definition open_card :: "af \<Rightarrow> vbs \<Rightarrow> sat_cadical \<Rightarrow> bool \<Rightarrow> nat" where
  "open_card f red s solved = card (open_sets f red (loop_blocks f red s solved))"

fun rank :: "af \<Rightarrow> vbs \<Rightarrow> task \<Rightarrow> nat \<times> nat \<times> nat" where
  "rank f act (Start ext) = (left_card f act ext, 2, 2)"
| "rank f act (Build ext) = (left_card f act ext, 2, 1)"
| "rank f act (Recheck ext red s) = (left_card f act ext, 2, 0)"
| "rank f act (Loop ext red s solved first) = (left_card f act ext, 1, 2 * open_card f red s solved)"
| "rank f act (Tail ext red s) = (left_card f act ext, 1, 2 * open_card f red s True + 1)"
| "rank f act (WriteRejected out) = (0, 0, 1)"
| "rank f act (WriteOutput ext) = (0, 0, 0)"

definition task_order :: "af \<Rightarrow> vbs \<Rightarrow> (task \<times> task) set" where
  "task_order f act = inv_image (less_than <*lex*> less_than <*lex*> less_than) (rank f act)"

lemma wf_task_order: "wf (task_order f act)"
  unfolding task_order_def by (intro wf_inv_image wf_lex_prod wf_less_than)

lemma task_order_iff:
  "(t', t) \<in> task_order f act \<longleftrightarrow>
     (case (rank f act t', rank f act t) of
        ((m', p', k'), (m, p, k)) \<Rightarrow> m' < m \<or> m' = m \<and> (p' < p \<or> p' = p \<and> k' < k))"
  by (simp add: task_order_def split: prod.splits)

text \<open>What the shared memory says is true.\<close>

definition shared_ok :: "arg \<Rightarrow> af \<Rightarrow> vbs \<Rightarrow> arg list \<Rightarrow> shared \<Rightarrow> bool" where
  "shared_ok q f act initial sh \<longleftrightarrow> (isRejected sh \<longrightarrow> rejects q f act) \<and>
     (output_extension sh = initial \<or> proof_ok q f act (output_extension sh))"

lemma left_over_extend:
  assumes "S \<subseteq> left_over A R E" "S \<noteq> {}"
  shows "left_over A R (E \<union> S) \<subset> left_over A R E"
proof -
  obtain x where "x \<in> S" using assms(2) by blast
  then have "x \<in> left_over A R E" "x \<notin> left_over A R (E \<union> S)"
    using assms(1) by (auto simp: left_over_def)
  moreover have "left_over A R (E \<union> S) \<subseteq> left_over A R E" by (auto simp: left_over_def)
  ultimately show ?thesis by (auto simp: psubset_eq)
qed

lemma left_card_extend:
  assumes X: "search_ok q f act" and E: "ext_ok q f act ext" and R: "red_ok f act ext red"
    and S: "set S \<in> open_sets f red Bs"
  shows "left_card f act (ExtendExtension ext S) < left_card f act ext"
  unfolding left_card_def set_ExtendExtension
proof (rule psubset_card_mono)
  show "finite (left_over (active act) (attacks f) (set ext))"
    by (simp add: left_over_def)
  show "left_over (active act) (attacks f) (set ext \<union> set S)
      \<subset> left_over (active act) (attacks f) (set ext)"
    using open_set_admissible(2,3) [OF R S E] R by (intro left_over_extend) (simp_all add: red_ok_def)
qed

lemma open_card_shrink:
  "set S \<in> open_sets f red (loop_blocks f red s solved) \<Longrightarrow>
   loop_blocks f red s2 True = loop_blocks f red s solved @ [S] \<Longrightarrow>
   open_card f red s2 True < open_card f red s solved"
  unfolding open_card_def using open_sets_shrink by simp

text \<open>An exhausted first turn means that what was built is preferred already.\<close>

lemma exhausted_rejects:
  assumes E: "ext_ok q f act ext" and R: "red_ok f act ext red" and none: "open_sets f red [] = {}"
  shows "rejects q f act"
  using nothing_open_preferred [OF E R none] E by (auto simp: rejects_def sceptical_def ext_ok_def)

text \<open>The rest of a preferred extension above what was built is empty or an open set.\<close>

lemma rest_is_open:
  assumes E: "ext_ok q f act ext" and R: "red_ok f act ext red"
    and P: "preferred (active act) (attacks f) P" "set ext \<subseteq> P"
  shows "P = set ext \<or> P - set ext \<in> open_sets f red []"
proof -
  have adm: "admissible (active act) (attacks f) (set ext)" using E by (simp add: ext_ok_def)
  have "admissible (active red) (attacks f) (P - set ext)"
    using preferred_rest [OF adm P(2)] P(1) R preferred_admissible by (auto simp: red_ok_def)
  then show ?thesis using P(2) by (auto simp: open_sets_def)
qed

lemma build_step_cases:
  assumes X: "search_ok q f act" and E: "ext_ok q f act ext" and e: "engine_ok e"
  obtains (small) "task_step e q f act (Build ext) sh = Inr (sh, [])"
      "\<And>P. refuting q f act P \<Longrightarrow> \<not> set ext \<subseteq> P"
  | (encoded) red s where "task_step e q f act (Build ext) sh = Inr (sh, [Recheck ext red s])"
      "loop_ok q f act ext red s False"
proof -
  obtain red where red: "compute_reduct f act ext = Inr red" "red_ok f act ext red"
    using compute_reduct_ok [OF X E] by blast
  show thesis
  proof (cases "length (vec red) < 2")
    case True
    then have "\<not> set ext \<subseteq> P" if "refuting q f act P" for P
      using single_left_accepts [OF X E red(2)] that by (auto simp: refuting_def)
    then show thesis using small red True by simp
  next
    case False
    obtain s where s: "add_clauses_nonempty_admissible_set cadical_ops f red
          (SatSolver_cadical e (length (vec red))) = Inr s"
      "loop_rep f red s False" "loop_blocks f red s False = []"
      using loop_rep_new [OF red_encodable [OF X red(2)] e] by blast
    show thesis
    proof (rule encoded)
      show "task_step e q f act (Build ext) sh = Inr (sh, [Recheck ext red s])"
        using False red(1) s(1) by simp
      show "loop_ok q f act ext red s False" using red E s by (simp add: loop_ok_def)
    qed
  qed
qed

lemma loop_okD:
  assumes "loop_ok q f act ext red s solved"
  shows "ext_ok q f act ext" "red_ok f act ext red" "compute_reduct f act ext = Inr red"
    "\<not> solved \<Longrightarrow> loop_blocks f red s solved = []"
  using assms by (simp_all add: loop_ok_def)

lemma loop_ok_next:
  "loop_ok q f act ext red s solved \<Longrightarrow> loop_rep f red s2 True \<Longrightarrow> loop_ok q f act ext red s2 True"
  by (simp add: loop_ok_def)

text \<open>A task never faults, and leaves well-formed tasks of smaller rank.\<close>

lemma task_step_returns:
  assumes X: "search_ok q f act" and e: "engine_ok e" and t: "task_ok q f act t"
  shows "\<exists>sh' ts. task_step e q f act t sh = Inr (sh', ts) \<and>
    (\<forall>t' \<in> set ts. task_ok q f act t' \<and> (t', t) \<in> task_order f act) \<and>
    (shared_ok q f act initial sh \<longrightarrow> shared_ok q f act initial sh') \<and>
    (isRejected sh \<longrightarrow> isRejected sh')"
proof (cases t)
  case (Build ext)
  then have E: "ext_ok q f act ext" using t by simp
  show ?thesis
    by (rule build_step_cases [OF X E e, of sh]) (auto simp: Build task_order_iff)
next
  case (Loop ext red s solved first)
  then have L: "loop_ok q f act ext red s solved" and first: "first = (\<not> solved)" using t by auto
  note E = loop_okD [OF L]
  show ?thesis
  proof (cases rule: loop_step_cases [OF X L, of sh, case_names exhausted rejecting accepting branching])
    case exhausted
    then show ?thesis
      using exhausted_rejects [OF E(1,2)] E(4) by (auto simp: Loop first task_order_iff)
  next
    case (rejecting S)
    then show ?thesis
      using extended_ok(1) [OF E(1,2)] attacking_set_rejects [OF X]
      by (auto simp: Loop first task_order_iff)
  next
    case (accepting S s2)
    then show ?thesis
      using loop_ok_next [OF L] open_card_shrink
      by (fastforce simp: Loop first task_order_iff)
  next
    case (branching S s2 prio)
    have "open_card f red s2 True < open_card f red s solved"
      using open_card_shrink branching by blast
    moreover have "loop_ok q f act ext red s2 True" using loop_ok_next [OF L] branching by blast
    moreover have "left_card f act (ExtendExtension ext S) < left_card f act ext"
      using left_card_extend [OF X E(1,2)] branching by blast
    moreover have "ext_ok q f act (ExtendExtension ext S)"
      using extended_ok(2) [OF E(1,2)] branching by blast
    ultimately show ?thesis
      using branching(6) by (simp add: Loop first task_order_iff shared_ok_def)
  qed
next
  case (WriteRejected out)
  then show ?thesis using t by (auto simp: task_order_iff shared_ok_def split: option.splits)
qed (use t in \<open>auto simp: task_order_iff shared_ok_def\<close>)

text \<open>
  Nothing is lost: a refuting extension a task still has to find settles the query in this step,
  or one of the tasks left has to find it.
\<close>

lemma loop_step_covers:
  assumes X: "search_ok q f act" and L: "loop_ok q f act ext red s solved"
    and P: "refuting q f act P" and c: "covers f (Loop ext red s solved (\<not> solved)) P"
    and run: "loop_step q f act ext red s solved (\<not> solved) sh = Inr (sh', ts)"
  shows "\<exists>t \<in> set ts. covers f t P"
proof -
  note E = loop_okD [OF L]
  have pref: "preferred (active act) (attacks f) P" and q: "q \<notin> P" using P by (auto simp: refuting_def)
  have sub: "set ext \<subseteq> P" using c by simp
  let ?Bs = "loop_blocks f red s solved"
  have rest: "P = set ext \<and> \<not> solved \<or> P - set ext \<in> open_sets f red ?Bs"
    using rest_is_open [OF E(1,2) pref sub] c E(4) by (cases solved) auto
  have no_set: "P \<noteq> set ext" if "set S \<in> open_sets f red ?Bs" for S
  proof
    assume "P = set ext"
    then have "\<forall>T. admissible (active red) (attacks f) T \<longrightarrow> T = {}"
      using preferred_iff_nothing_left [of "active act" "attacks f" "set ext"] pref E(1,2)
      by (simp add: ext_ok_def red_ok_def)
    then show False using that by (auto simp: open_sets_def)
  qed
  show ?thesis
  proof (cases rule: loop_step_cases [OF X L, of sh, case_names exhausted rejecting accepting branching])
    case exhausted
    then show ?thesis using run rest by auto
  next
    case (rejecting S)
    then show ?thesis using run by auto
  next
    case (accepting S s2)
    then have "P - set ext \<in> open_sets f red (?Bs @ [S])"
      using rest no_set [OF accepting(1)] q by (auto simp: open_sets_snoc)
    then show ?thesis using accepting run sub by auto
  next
    case (branching S s2 prio)
    show ?thesis
    proof (cases "set S \<subseteq> P")
      case True
      then show ?thesis using branching run sub by auto
    next
      case False
      then have "P - set ext \<in> open_sets f red (?Bs @ [S])"
        using rest no_set [OF branching(1)] by (auto simp: open_sets_snoc)
      then show ?thesis using branching run sub by auto
    qed
  qed
qed

lemma task_step_covers:
  assumes X: "search_ok q f act" and e: "engine_ok e" and t: "task_ok q f act t"
    and P: "refuting q f act P" and c: "covers f t P"
    and run: "task_step e q f act t sh = Inr (sh', ts)"
  shows "isRejected sh' \<or> (\<exists>t' \<in> set ts. covers f t' P)"
proof (cases t)
  case (Build ext)
  then have E: "ext_ok q f act ext" using t by simp
  show ?thesis
    by (rule build_step_cases [OF X E e, of sh]) (use run c P Build in auto)
next
  case (Loop ext red s solved first)
  then show ?thesis using loop_step_covers [OF X _ P] t c run by auto
qed (use run c in \<open>auto split: if_splits\<close>)

section \<open>The pool of the search\<close>

text \<open>
  Each step may use its own engine: nothing depends on the solver giving the same model twice.
\<close>

definition any_engine :: "arg \<Rightarrow> af \<Rightarrow> vbs \<Rightarrow> (task, shared) task_rel" where
  "any_engine q f act t sh r \<longleftrightarrow> (\<exists>e. engine_ok e \<and> r = task_step e q f act t sh)"

definition parallel_start :: "arg list \<Rightarrow> shared" where
  "parallel_start proof_extension =
     \<lparr>isRejected = False, output_extension = proof_extension, printed = []\<rparr>"

text \<open>The tasks of the code satisfy the interface of the pool.\<close>

definition search_inv :: "arg \<Rightarrow> af \<Rightarrow> vbs \<Rightarrow> task \<Rightarrow> bool" where
  "search_inv q f act t \<longleftrightarrow> search_ok q f act \<and> task_ok q f act t"

definition has_to_find :: "arg \<Rightarrow> af \<Rightarrow> vbs \<Rightarrow> task \<Rightarrow> arg set \<Rightarrow> bool" where
  "has_to_find q f act t P \<longleftrightarrow> refuting q f act P \<and> covers f t P"

interpretation search_pool: work_pool "any_engine q f act" "search_inv q f act"
  "shared_ok q f act initial" "task_order f act" isRejected "has_to_find q f act"
  for q f act initial
proof
  show "wf (task_order f act)" by (rule wf_task_order)
next
  fix t sh
  show "\<exists>r. any_engine q f act t sh r" unfolding any_engine_def using reference_engine_ok by blast
next
  fix t sh r
  assume "search_inv q f act t" "any_engine q f act t sh r"
  then show "\<exists>sh' ts. r = Inr (sh', ts)"
    unfolding search_inv_def any_engine_def using task_step_returns by metis
next
  fix t sh sh' ts
  assume a: "search_inv q f act t" "any_engine q f act t sh (Inr (sh', ts))"
  then obtain e where e: "engine_ok e" "task_step e q f act t sh = Inr (sh', ts)"
    by (auto simp: any_engine_def)
  have X: "search_ok q f act" and t: "task_ok q f act t" using a(1) by (auto simp: search_inv_def)
  note ret = task_step_returns [OF X e(1) t, of sh initial] and cov = task_step_covers [OF X e(1) t]
  show "shared_ok q f act initial sh' \<and> (\<forall>t' \<in> set ts. search_inv q f act t')"
    if "shared_ok q f act initial sh"
    using ret X e(2) that by (auto simp: search_inv_def)
  show "(t', t) \<in> task_order f act" if "t' \<in> set ts" for t' using ret e(2) that by auto
  show "isRejected sh'" if "isRejected sh" using ret e(2) that by auto
  show "isRejected sh' \<or> (\<exists>t' \<in> set ts. has_to_find q f act t' P)" if "has_to_find q f act t P" for P
    using cov e(2) that by (auto simp: has_to_find_def)
qed

lemma start_inv:
  assumes "search_ok q f act"
  shows "search_pool.config_inv q f act ext (parallel_start ext, {#Start []#})"
  using assms
  by (simp add: search_pool.config_inv_def shared_ok_def parallel_start_def search_inv_def
      ext_ok_def admissible_empty)

lemma start_covered:
  "refuting q f act P \<Longrightarrow> search_pool.covered q f act (parallel_start ext, {#Start []#}) P"
  by (simp add: search_pool.covered_def has_to_find_def)

lemma pool_final:
  assumes X: "search_ok q f act"
    and run: "pool_steps (any_engine q f act) (parallel_start ext, {#Start []#}) (sh, {#})"
  shows "isRejected sh \<longleftrightarrow> rejects q f act"
    and "output_extension sh = ext \<or> proof_ok q f act (output_extension sh)"
proof -
  note start = start_inv [OF X, of ext]
  have inv: "shared_ok q f act ext sh"
    using search_pool.config_inv_steps [OF run start] by (simp add: search_pool.config_inv_def)
  then show "output_extension sh = ext \<or> proof_ok q f act (output_extension sh)"
    by (simp add: shared_ok_def)
  have "isRejected sh" if "refuting q f act P" for P
    using search_pool.finished_settled [OF run start start_covered [OF that]] .
  then show "isRejected sh \<longleftrightarrow> rejects q f act"
    using inv by (auto simp: shared_ok_def rejects_def sceptical_def refuting_def)
qed

section \<open>\<open>check_rejection_parallel\<close> and \<open>solve\<close>\<close>

text \<open>
  The schedule and the engines of the created solvers stand for what OpenMP and CaDiCaL decide.
  \<open>numCores\<close> only limits which schedules the runtime can choose and is left out.  Besides the
  result, the caller sees the list written through \<open>proof_extension\<close> and the text printed.
\<close>

definition check_rejection_parallel ::
    "(nat \<Rightarrow> nat) \<Rightarrow> (nat \<Rightarrow> engine) \<Rightarrow> arg \<Rightarrow> af \<Rightarrow> vbs \<Rightarrow> arg list \<Rightarrow> shared res" where
  "check_rejection_parallel sched engines argument f active_args proof_extension =
     run_loop (run_pool (\<lambda>k. task_step (engines k) argument f active_args) sched 0
       (parallel_start proof_extension) [Start []])"

definition Solver_DS_PR_solve ::
    "(nat \<Rightarrow> nat) \<Rightarrow> (nat \<Rightarrow> engine) \<Rightarrow> arg \<Rightarrow> af \<Rightarrow> arg list \<Rightarrow> (bool \<times> af \<times> shared) res" where
  "Solver_DS_PR_solve sched engines argument f proof_extension =
     bind_res (process f argument vbs_new) (\<lambda>(result, g, initial_reduct).
       case result of
         accepted \<Rightarrow> Inr (True, g, parallel_start proof_extension)
       | rejected \<Rightarrow> Inr (False, g, parallel_start proof_extension)
       | unknown \<Rightarrow> bind_res (check_rejection_parallel sched engines argument g initial_reduct
                         proof_extension) (\<lambda>sh. Inr (\<not> isRejected sh, g, sh)))"

text \<open>Every interleaving instead of one schedule: the results \<open>solve\<close> may return.\<close>

definition solve_may_return :: "arg \<Rightarrow> af \<Rightarrow> arg list \<Rightarrow> bool \<Rightarrow> arg list \<Rightarrow> bool" where
  "solve_may_return argument f proof_extension b out \<longleftrightarrow>
     (\<exists>result g red. process f argument vbs_new = Inr (result, g, red) \<and>
        (case result of
           accepted \<Rightarrow> b \<and> out = proof_extension
         | rejected \<Rightarrow> \<not> b \<and> out = proof_extension
         | unknown \<Rightarrow> \<exists>sh. pool_steps (any_engine argument g red)
               (parallel_start proof_extension, {#Start []#}) (sh, {#}) \<and>
               b = (\<not> isRejected sh) \<and> out = output_extension sh))"

text \<open>A framework as the parser leaves it, small enough for the \<^verbatim>\<open>int\<close> literals of the solver.\<close>

definition solvable :: "af \<Rightarrow> arg \<Rightarrow> bool" where
  "solvable f q \<longleftrightarrow> af_ok f \<and> q \<in> nodes f \<and> fresh_distances f \<and> 2 * n_args f < 2 ^ 31"

lemma run_search_pool:
  assumes X: "search_ok q f act" and e: "\<And>k. engine_ok (engines k)"
  shows "\<exists>sh. check_rejection_parallel sched engines q f act ext = Inr sh \<and>
    pool_steps (any_engine q f act) (parallel_start ext, {#Start []#}) (sh, {#})"
proof -
  have "any_engine q f act t sh (task_step (engines k) q f act t sh)" for k t sh
    using e unfolding any_engine_def by blast
  moreover have "search_pool.config_inv q f act ext (parallel_start ext, mset [Start []])"
    using start_inv [OF X] by simp
  ultimately obtain sh where
    "run_pool (\<lambda>k. task_step (engines k) q f act) sched 0 (parallel_start ext) [Start []] = Some (Inr sh)"
    "pool_steps (any_engine q f act) (parallel_start ext, mset [Start []]) (sh, {#})"
    using search_pool.run_pool_ends [where g = "\<lambda>k. task_step (engines k) q f act" and sched = sched
        and k = 0 and initial = ext] by blast
  then show ?thesis by (simp add: check_rejection_parallel_def run_loop_def)
qed

text \<open>What the preprocessor hands to the search.\<close>

lemma process_post_unknownD:
  assumes "process_post f q unknown g red"
  shows "af_ok g" "distances_ok g" "vbs_ok (n_slots f) red" "q \<in> active red" "(q, q) \<notin> attacks f"
    "active red = left_over (ancestors (attacks f) q) (attacks f) (grounded (ancestors (attacks f) q) (attacks f))"
    "sceptical (nodes f) (attacks f) q = sceptical (active red) (attacks f) q"
    "\<exists>ds. g = f\<lparr>distance_to_query := ds\<rparr>"
  using assms unfolding process_post_def pre_proc_result.case by blast+

lemma process_search_ok:
  assumes f: "solvable f q" and p: "process_post f q unknown g red"
  shows "search_ok q g red" "rejects q g red \<longleftrightarrow> \<not> sceptical (nodes f) (attacks f) q"
proof -
  note D = process_post_unknownD [OF p]
  obtain ds where g: "g = f\<lparr>distance_to_query := ds\<rparr>" using D(8) by blast
  then have same: "attacks g = attacks f" "n_slots g = n_slots f" "nodes g = nodes f" "n_args g = n_args f"
    by (simp_all add: n_slots_def nodes_def n_args_def)
  have "active red \<subseteq> ancestors (attacks f) q" using D(6) by (auto simp: left_over_def)
  then have "active red \<subseteq> nodes f"
    using ancestors_in_nodes f by (fastforce simp: solvable_def)
  then show "search_ok q g red"
    using f D(1-5) by (simp add: search_ok_def encodable_def solvable_def same)
  show "rejects q g red \<longleftrightarrow> \<not> sceptical (nodes f) (attacks f) q"
    using D(7) by (simp add: rejects_def same)
qed

section \<open>The answers of the solver\<close>

text \<open>The framework, the grounded part and a list that attacks the query in what is left.\<close>

definition refutes :: "af \<Rightarrow> arg \<Rightarrow> arg list \<Rightarrow> bool" where
  "refutes f q out \<longleftrightarrow> (\<exists>x \<in> set out. (x, q) \<in> attacks f) \<and>
     admissible (nodes f) (attacks f) (grounded (ancestors (attacks f) q) (attacks f) \<union> set out)"

lemma proof_ok_refutes:
  assumes f: "solvable f q" and p: "process_post f q unknown g red" and out: "proof_ok q g red out"
  shows "refutes f q out"
proof -
  let ?A = "ancestors (attacks f) q"
  note D = process_post_unknownD [OF p]
  have g: "attacks g = attacks f" using D(8) by auto
  have "admissible (active red) (attacks f) (set out)" using out by (simp add: proof_ok_def g)
  then have "admissible ?A (attacks f) (grounded ?A (attacks f) \<union> set out)"
    unfolding D(6) by (rule admissible_union [OF grounded_admissible])
  then have "admissible (nodes f) (attacks f) ({} \<union> (grounded ?A (attacks f) \<union> set out))"
    using f by (intro admissible_join [OF ancestors_unattacked]) (auto simp: solvable_def)
  then show ?thesis using out by (simp add: refutes_def proof_ok_def g)
qed

lemma solve_may_return_result:
  assumes f: "solvable f q" and r: "solve_may_return q f ext b out"
  shows "b = sceptical (nodes f) (attacks f) q" "out = ext \<or> refutes f q out"
proof -
  obtain result g red where p: "process f q vbs_new = Inr (result, g, red)" "process_post f q result g red"
    using process_ok f unfolding solvable_def by blast
  show "b = sceptical (nodes f) (attacks f) q" "out = ext \<or> refutes f q out"
  proof (atomize (full), cases result)
    case unknown
    note X = process_search_ok [OF f p(2) [unfolded unknown]]
    obtain sh where sh: "b = (\<not> isRejected sh)" "out = output_extension sh"
      and run: "pool_steps (any_engine q g red) (parallel_start ext, {#Start []#}) (sh, {#})"
      using r p(1) by (auto simp: solve_may_return_def unknown)
    show "b = sceptical (nodes f) (attacks f) q \<and> (out = ext \<or> refutes f q out)"
      using sh pool_final [OF X(1) run] X(2) proof_ok_refutes [OF f p(2) [unfolded unknown]] by auto
  qed (use r p in \<open>auto simp: solve_may_return_def process_post_def\<close>)
qed

lemma Solver_DS_PR_solve_may_return:
  assumes f: "solvable f q" and e: "\<And>k. engine_ok (engines k)"
  shows "\<exists>b g sh. Solver_DS_PR_solve sched engines q f ext = Inr (b, g, sh) \<and>
    solve_may_return q f ext b (output_extension sh)"
proof -
  obtain result g red where p: "process f q vbs_new = Inr (result, g, red)" "process_post f q result g red"
    using process_ok f unfolding solvable_def by blast
  show ?thesis
  proof (cases result)
    case unknown
    obtain sh where sh: "check_rejection_parallel sched engines q g red ext = Inr sh"
      "pool_steps (any_engine q g red) (parallel_start ext, {#Start []#}) (sh, {#})"
      using run_search_pool [where engines = engines, OF process_search_ok(1) [OF f p(2) [unfolded unknown]] e]
      by blast
    then show ?thesis using p(1) unknown
      by (auto simp: Solver_DS_PR_solve_def solve_may_return_def)
  qed (use p in \<open>auto simp: Solver_DS_PR_solve_def solve_may_return_def parallel_start_def\<close>)
qed

section \<open>Properties\<close>

text \<open>
  C1: the solver is correct under every schedule of its tasks and for every SAT engine that keeps its
  contract: \<open>solve\<close> returns, without a fault, whether the query is in every preferred extension; and
  the list it leaves in \<open>proof_extension\<close> is untouched or attacks the query and is, together with the
  grounded extension of the cone, an admissible set of the framework.
\<close>

theorem solve_correct:
  assumes "solvable f q" "\<And>k. engine_ok (engines k)"
  shows "\<exists>g sh. Solver_DS_PR_solve sched engines q f ext = Inr (sceptical (nodes f) (attacks f) q, g, sh) \<and>
    (output_extension sh = ext \<or> refutes f q (output_extension sh))"
proof -
  obtain b g sh where s: "Solver_DS_PR_solve sched engines q f ext = Inr (b, g, sh)"
    "solve_may_return q f ext b (output_extension sh)"
    using Solver_DS_PR_solve_may_return [where engines = engines, OF assms] by blast
  then show ?thesis using solve_may_return_result [OF assms(1) s(2)] by auto
qed

lemma ex_af_solvable: "q \<in> {1..4} \<Longrightarrow> solvable ex_af q"
  using ex_af_fresh by (simp add: solvable_def ex_af_ok n_args_def)

lemma solve_correct_witness:
  "\<exists>g sh. Solver_DS_PR_solve (\<lambda>k. k) (\<lambda>k. reference_engine) 4 ex_af [] =
     Inr (sceptical {1..4} (set ex_attacks) 4, g, sh)"
  using solve_correct [where sched = "\<lambda>k. k" and engines = "\<lambda>k. reference_engine" and ext = "[]",
      OF ex_af_solvable [of 4]] reference_engine_ok
  by (auto simp: ex_af_ok)

text \<open>
  C2: every interleaving of the tasks that runs to the end gives the same right answer, even if each
  step uses another engine.
\<close>

theorem interleavings_correct:
  assumes "solvable f q" "solve_may_return q f ext b out"
  shows "b = sceptical (nodes f) (attacks f) q \<and> (out = ext \<or> refutes f q out)"
  using solve_may_return_result [OF assms] by blast

lemma interleavings_correct_witness:
  "\<exists>b out. solve_may_return 4 ex_af [] b out \<and> b = sceptical {1..4} (set ex_attacks) 4"
proof -
  have X: "solvable ex_af 4" by (rule ex_af_solvable) simp
  obtain b out where "solve_may_return 4 ex_af [] b out"
    using Solver_DS_PR_solve_may_return [where engines = "\<lambda>k. reference_engine", OF X reference_engine_ok]
    by blast
  then show ?thesis using interleavings_correct [OF X] by (auto simp: ex_af_ok)
qed

text \<open>
  C4: in every state the tasks can reach, no next step of any task is a fault (no access out of
  range, no contract violation of CaDiCaL, no \<open>exit(1)\<close>); a raised flag is right; and as long as a task
  is left, some task can make a step.
\<close>

theorem search_safe:
  assumes "search_ok q f act"
    "pool_steps (any_engine q f act) (parallel_start ext, {#Start []#}) c"
  shows "\<not> pool_fault (any_engine q f act) c e \<and> (isRejected (fst c) \<longrightarrow> rejects q f act) \<and>
    (snd c \<noteq> {#} \<longrightarrow> (\<exists>c'. pool_step (any_engine q f act) c c'))"
proof -
  have inv: "search_pool.config_inv q f act ext c"
    by (rule search_pool.config_inv_steps [OF assms(2) start_inv [OF assms(1)]])
  then have "shared_ok q f act ext (fst c)" by (simp add: search_pool.config_inv_def)
  then show ?thesis
    using search_pool.no_fault [OF inv] search_pool.progress [OF inv] by (auto simp: shared_ok_def)
qed

lemma ex_search_ok: "search_ok 4 ex_af ex_reduct"
  using ex_encodable
  by (auto simp: search_ok_def ex_af_ok ex_reduct_def all_less_5 distances_ok_def ex_attacks_def)

lemma search_safe_witness:
  "\<not> pool_fault (any_engine 4 ex_af ex_reduct) (parallel_start [], {#Start []#}) (ExitCode 1)"
  using search_safe [OF ex_search_ok, where e = "ExitCode 1"] by blast

text \<open>C6: no interleaving of the tasks goes on for ever.\<close>

theorem search_terminates:
  assumes "search_ok q f act" "c 0 = (parallel_start ext, {#Start []#})"
  shows "\<not> (\<forall>i. pool_step (any_engine q f act) (c i) (c (Suc i)))"
  using search_pool.no_infinite_run [of q f act ext c] start_inv [OF assms(1)] assms(2) by simp

lemma search_terminates_witness:
  "\<not> (\<forall>i :: nat. pool_step (any_engine 4 ex_af ex_reduct) (parallel_start [], {#Start []#})
        (parallel_start [], {#Start []#}))"
  using search_terminates [OF ex_search_ok, of "\<lambda>i. (parallel_start [], {#Start []#})" "[]"] by simp

lemma ex_search_ok_1: "search_ok 1 ex_af ex_reduct"
  using ex_search_ok by (auto simp: search_ok_def ex_reduct_def ex_af_ok ex_attacks_def)

lemma ex_preferred: "preferred {4, 3, 1, 2} (set ex_attacks) {2, 4}"
  unfolding preferred_def
proof (intro conjI allI impI)
  show "admissible {4, 3, 1, 2} (set ex_attacks) {2, 4}" by (rule admissibleI) (auto simp: ex_attacks_def)
  fix S assume S: "admissible {4, 3, 1, 2} (set ex_attacks) S" "{2, 4} \<subseteq> S"
  have "1 \<notin> S" "3 \<notin> S" using S by (auto simp: admissible_def conflict_free_def ex_attacks_def)
  moreover have "S \<subseteq> {4, 3, 1, 2}" using S by (auto simp: admissible_def)
  ultimately show "S = {2, 4}" using S by auto
qed

text \<open>
  C5: nothing is lost.  In every reachable state, as long as the flag is down, every preferred
  extension without the query is still to be found by some task of the pool.
\<close>

theorem search_complete:
  assumes "search_ok q f act"
    "pool_steps (any_engine q f act) (parallel_start ext, {#Start []#}) (sh, T)"
    "preferred (active act) (attacks f) P" "q \<notin> P" "\<not> isRejected sh"
  shows "\<exists>t \<in># T. covers f t P"
  using search_pool.covered_steps [OF assms(2) start_inv [OF assms(1)] start_covered, of P] assms(3-5)
  by (auto simp: search_pool.covered_def has_to_find_def refuting_def)

lemma search_complete_witness:
  "\<exists>sh T. pool_steps (any_engine 1 ex_af ex_reduct) (parallel_start [], {#Start []#}) (sh, T) \<and> \<not> isRejected sh \<and>
     Start [] \<notin># T \<and> preferred {4, 3, 1, 2} (set ex_attacks) {2, 4} \<and> (\<exists>t \<in># T. covers ex_af t {2, 4})"
proof -
  let ?R = "any_engine 1 ex_af ex_reduct" and ?sh = "parallel_start []"
  note X = ex_search_ok_1
  have step: "pool_step ?R (?sh, {#t#}) (?sh, {#t'#})" if "task_step reference_engine 1 ex_af ex_reduct t ?sh = Inr (?sh, [t'])" for t t'
  proof -
    have "?R t ?sh (Inr (?sh, [t']))" unfolding any_engine_def using that reference_engine_ok by metis
    from pool_step.run_task [where step = ?R and t = t and s = ?sh and T = "{#}", OF this] show ?thesis by simp
  qed
  have flag: "\<not> isRejected ?sh" by (simp add: parallel_start_def)
  have ext: "ext_ok 1 ex_af ex_reduct []" using admissible_empty by (simp add: ext_ok_def)
  have P: "preferred (active ex_reduct) (attacks ex_af) {2, 4}" using ex_preferred by (simp add: ex_reduct_def ex_af_ok)
  obtain red s where b: "task_step reference_engine 1 ex_af ex_reduct (Build []) ?sh = Inr (?sh, [Recheck [] red s])"
    "loop_ok 1 ex_af ex_reduct [] red s False"
  proof (rule build_step_cases [OF X ext reference_engine_ok, of ?sh])
    assume "\<And>P. refuting 1 ex_af ex_reduct P \<Longrightarrow> \<not> set [] \<subseteq> P"
    from this [of "{2, 4}"] show thesis using P by (simp add: refuting_def)
  qed (rule that)
  have three: "pool_steps ?R (?sh, {#Start []#}) (?sh, {#Loop [] red s False True#})"
    using step [of "Start []" "Build []"] step [OF b(1)] step [of "Recheck [] red s" "Loop [] red s False True"] flag
    by (auto intro!: converse_rtranclp_into_rtranclp)
  obtain t where t: "loop_step 1 ex_af ex_reduct [] red s False True ?sh = Inr (?sh, [t])" "t \<noteq> Start []"
  proof (rule loop_step_cases [OF X b(2), of ?sh])
    fix S s2 prio assume S: "set S \<in> open_sets ex_af red (loop_blocks ex_af red s False)"
      "\<not> (\<exists>x \<in> set S. (x, 1) \<in> attacks ex_af)" "1 \<notin> set S"
    have "red_ok ex_af ex_reduct [] red" using b(2) by (simp add: loop_ok_def)
    then have "active red = {4, 3, 1, 2}" by (simp add: red_ok_def left_over_def ex_reduct_def)
    then have "admissible {4, 3, 1, 2} (set ex_attacks) (set S)" "set S \<noteq> {}" using S(1) by (simp_all add: open_sets_def ex_af_ok)
    moreover have n: "1 \<notin> set S" "2 \<notin> set S" using S(2,3) by (auto simp: ex_attacks_def ex_af_ok)
    have "3 \<notin> set S" "4 \<notin> set S"
      using admissibleD(3) [OF calculation(1), of 3 1] admissibleD(3) [OF calculation(1), of 4 3] n
      by (auto simp: ex_attacks_def)
    ultimately have "set S \<subseteq> {}" using admissibleD(1) n by blast
    then show thesis using \<open>set S \<noteq> {}\<close> by simp
  qed (use that in auto)
  then have "pool_steps ?R (?sh, {#Start []#}) (?sh, {#t#})"
    using step [of "Loop [] red s False True" t] three by (auto intro: rtranclp.rtrancl_into_rtrancl)
  moreover have "covers ex_af t {2, 4}" using search_complete [OF X calculation P] flag by simp
  ultimately show ?thesis using flag t(2) ex_preferred by fastforce
qed

text \<open>
  C13: the distances of an earlier query make the solver accept.  They are not reset, the cone takes
  an attacker with a distance for visited, and what is left is the query alone.
\<close>

theorem stale_distances_accept:
  assumes "af_ok f" "q \<in> nodes f" "(q, q) \<notin> attacks f" "(b, q) \<in> attacks f"
    "\<forall>b. (b, q) \<in> attacks f \<longrightarrow> distance_to_query f ! b \<noteq> 0"
  shows "\<exists>g sh. Solver_DS_PR_solve sched engines q f ext = Inr (True, g, sh)"
proof -
  obtain g red where p: "process f q vbs_new = Inr (unknown, g, red)" "vbs_ok (n_slots f) red" "vec red = [q]"
    using process_stale [OF assms] by blast
  have "compute_reduct g red [] = Inr red"
    using copy_id [OF p(2)] by (simp add: compute_reduct_def)
  then have "check_rejection_parallel sched engines q g red ext = Inr (parallel_start ext)"
    using p(3) by (simp add: check_rejection_parallel_def run_loop_def run_pool.simps parallel_start_def)
  then show ?thesis using p(1) by (simp add: Solver_DS_PR_solve_def parallel_start_def)
qed

text \<open>Two queries to one framework: 4 is answered, then 3 is accepted although 1 attacks it.\<close>

lemma stale_distances_accept_witness:
  "\<exists>b g sh g' sh'. Solver_DS_PR_solve (\<lambda>k. k) (\<lambda>k. reference_engine) 4 ex_af [] = Inr (b, g, sh) \<and>
     Solver_DS_PR_solve (\<lambda>k. k) (\<lambda>k. reference_engine) 3 g [] = Inr (True, g', sh') \<and>
     nodes g = {1..4} \<and> attacks g = set ex_attacks \<and> \<not> sceptical {1..4} (set ex_attacks) 3"
proof -
  let ?R = "set ex_attacks"
  have R: "(4, 4) \<notin> attacks ex_af" "(3, 4) \<in> attacks ex_af" by (auto simp: ex_af_ok ex_attacks_def)
  have 4: "4 \<in> nodes ex_af" by (simp add: ex_af_ok)
  obtain result ds red where p: "process ex_af 4 vbs_new = Inr (result, ex_af\<lparr>distance_to_query := ds\<rparr>, red)"
    "length ds = 5" "\<forall>x \<in> ancestors ?R 4. x \<noteq> 4 \<longrightarrow> ds ! x \<noteq> 0"
    using process_leaves_distances [OF ex_af_ok(1) 4 ex_af_fresh R, of vbs_new] by (auto simp: ex_af_ok)
  let ?g = "ex_af\<lparr>distance_to_query := ds\<rparr>"
  have X: "solvable ex_af 4" by (rule ex_af_solvable) simp
  obtain b g sh where s: "Solver_DS_PR_solve (\<lambda>k. k) (\<lambda>k. reference_engine) 4 ex_af [] = Inr (b, g, sh)"
    using Solver_DS_PR_solve_may_return [where engines = "\<lambda>k. reference_engine", OF X reference_engine_ok]
    by blast
  then have g: "g = ?g"
    using p(1) by (auto simp: Solver_DS_PR_solve_def bind_res_eq_Inr split: pre_proc_result.splits)
  have anc: "b \<in> ancestors ?R 4" if "(b, 3) \<in> ?R" for b
  proof -
    have "(3, 4) \<in> ?R" by (simp add: ex_attacks_def)
    with that show ?thesis unfolding ancestors_def by (auto intro: converse_rtrancl_into_rtrancl)
  qed
  have "b \<noteq> 4" if "(b, 3) \<in> ?R" for b using that by (auto simp: ex_attacks_def)
  then have stale: "\<forall>b. (b, 3) \<in> attacks ?g \<longrightarrow> distance_to_query ?g ! b \<noteq> 0"
    using anc p(3) by (auto simp: ex_af_ok)
  have "af_ok ?g" using af_ok_distances [OF ex_af_ok(1)] p(2) by (simp add: ex_af_ok)
  moreover have ng: "nodes ?g = {1..4}" "attacks ?g = ?R" using ex_af_ok by (simp_all add: nodes_def)
  moreover have "(3, 3) \<notin> ?R" "(1, 3) \<in> ?R" by (simp_all add: ex_attacks_def)
  ultimately obtain g' sh' where s2: "Solver_DS_PR_solve (\<lambda>k. k) (\<lambda>k. reference_engine) 3 ?g [] = Inr (True, g', sh')"
    using stale_distances_accept [where f = ?g and q = 3 and b = 1 and ext = "[]" and
        sched = "\<lambda>k. k" and engines = "\<lambda>k. reference_engine", OF _ _ _ _ stale] by auto
  have "admissible {1..4} ?R {1}" by (rule admissibleI) (auto simp: ex_attacks_def)
  then obtain P where P: "preferred {1..4} ?R P" "{1} \<subseteq> P" using preferred_extends by blast
  then have "3 \<notin> P"
    using admissibleD(2) [OF preferred_admissible [OF P(1)], of 1 3] by (auto simp: ex_attacks_def)
  then have "\<not> sceptical {1..4} ?R 3" using P(1) by (auto simp: sceptical_def)
  then show ?thesis using s s2 g ng by blast
qed

text \<open>
  C18: the query is not checked.  A number above the number of arguments is used as an index out of
  range, and the number 0, which no argument has, is accepted.
\<close>

theorem query_unchecked:
  assumes "af_ok f"
  shows "(n_slots f \<le> q \<longrightarrow> Solver_DS_PR_solve sched engines q f ext = Inl OutOfRange) \<and>
    Solver_DS_PR_solve sched engines 0 f ext = Inr (True, f, parallel_start ext)"
proof -
  have "length (victims f) = n_slots f" using af_okD(4) [OF assms] by (simp add: rows_ok_def)
  then have "Solver_DS_PR_solve sched engines q f ext = Inl OutOfRange" if "n_slots f \<le> q"
    using that by (simp add: Solver_DS_PR_solve_def process_def victim_bit_def)
  moreover have none: "\<forall>b. (b, 0) \<notin> attacks f" using af_okD(1) [OF assms] by (auto simp: nodes_def)
  have z: "0 < n_slots f" by (simp add: n_slots_def)
  have "process f 0 vbs_new = Inr (accepted, f, vbs_new)"
    using attackers_of_ok [OF assms z] none victim_bit_ok [OF assms z z] by (auto simp: process_def)
  then have "Solver_DS_PR_solve sched engines 0 f ext = Inr (True, f, parallel_start ext)"
    by (simp add: Solver_DS_PR_solve_def)
  ultimately show ?thesis by blast
qed

lemma query_unchecked_witness:
  "Solver_DS_PR_solve (\<lambda>k. k) (\<lambda>k. reference_engine) 5 ex_af [] = Inl OutOfRange"
  using query_unchecked [of ex_af 5 "\<lambda>k. k" "\<lambda>k. reference_engine" "[]"] by (simp add: ex_af_ok)


end
