(* ===== verification/Text.thy ===== *)
theory Text
  imports Prelude
begin

text \<open>
  What the program uses of the C++ library on text: decimal output of integers, formatted input from
  a string stream, and \<^verbatim>\<open>std::getline\<close>.  A stream is its unread characters and \<^verbatim>\<open>good()\<close>.
\<close>

section \<open>Characters and decimals\<close>

definition char_code :: "char \<Rightarrow> nat" where
  "char_code c = of_char c"

definition is_digit :: "char \<Rightarrow> bool" where
  "is_digit c \<longleftrightarrow> 48 \<le> char_code c \<and> char_code c \<le> 57"

definition digit_char :: "nat \<Rightarrow> char" where
  "digit_char d = char_of (48 + d)"

text \<open>\<^verbatim>\<open>isspace\<close> of the C locale: blank, tab, line feed, vertical tab, form feed, carriage return.\<close>

definition is_space :: "char \<Rightarrow> bool" where
  "is_space c \<longleftrightarrow> char_code c = 32 \<or> 9 \<le> char_code c \<and> char_code c \<le> 13"

definition newline :: char where
  "newline = CHR 0x0A"

definition digits_val :: "string \<Rightarrow> nat" where
  "digits_val ds = foldl (\<lambda>v c. 10 * v + (char_code c - 48)) 0 ds"

text \<open>\<^verbatim>\<open>operator<<\<close> of an unsigned integer.\<close>

fun decimal :: "nat \<Rightarrow> string" where
  "decimal n = (if n < 10 then [digit_char n] else decimal (n div 10) @ [digit_char (n mod 10)])"

declare decimal.simps [simp del]

lemma char_code_char_of [simp]: "n < 256 \<Longrightarrow> char_code (char_of n) = n"
  by (simp add: char_code_def of_char_of)

lemma digit_char_props [simp]:
  "d < 10 \<Longrightarrow> is_digit (digit_char d)" "d < 10 \<Longrightarrow> char_code (digit_char d) = 48 + d"
  by (simp_all add: is_digit_def digit_char_def)

lemma digit_not_space: "is_digit c \<Longrightarrow> \<not> is_space c"
  by (auto simp: is_digit_def is_space_def)

lemma newline_space [simp]: "is_space newline" "\<not> is_digit newline"
  by (simp_all add: newline_def is_space_def is_digit_def char_code_def)

lemma blank_space [simp]: "is_space CHR '' ''" "\<not> is_digit CHR '' ''"
  by (simp_all add: char_code_def is_space_def is_digit_def)

lemma digits_val_snoc: "digits_val (ds @ [c]) = 10 * digits_val ds + (char_code c - 48)"
  by (simp add: digits_val_def)

lemma digits_val_Cons: "digits_val (c # cs) = (char_code c - 48) * 10 ^ length cs + digits_val cs"
  by (induction cs rule: rev_induct)
    (simp_all add: digits_val_snoc algebra_simps flip: append_Cons, simp_all add: digits_val_def)

lemma digits_val_decimal [simp]: "digits_val (decimal n) = n"
proof (induction n rule: decimal.induct)
  case (1 n)
  show ?case
  proof (cases "n < 10")
    case True
    then show ?thesis by (simp add: decimal.simps digits_val_def)
  next
    case False
    then show ?thesis using 1 by (subst decimal.simps) (simp add: digits_val_snoc)
  qed
qed

lemma decimal_digits: "\<forall>c \<in> set (decimal n). is_digit c"
proof (induction n rule: decimal.induct)
  case (1 n)
  then show ?case by (subst decimal.simps) auto
qed

lemma decimal_nonempty [simp]: "decimal n \<noteq> []"
  by (subst decimal.simps) simp

lemma decimal_inj: "decimal m = decimal n \<Longrightarrow> m = n"
  by (metis digits_val_decimal)

lemma decimal_head: "\<exists>c cs. decimal n = c # cs \<and> is_digit c"
  using decimal_digits [of n] decimal_nonempty [of n] by (cases "decimal n") auto

section \<open>Streams\<close>

record istream =
  unread :: string
  good :: bool

definition istringstream :: "string \<Rightarrow> istream" where
  "istringstream cs = \<lparr>unread = cs, good = True\<rparr>"

text \<open>
  The sentry of a formatted extraction: fails on a stream that is not good, skips white space, and
  fails when that exhausts the stream.
\<close>

definition sentry :: "istream \<Rightarrow> bool \<times> istream" where
  "sentry s =
     (if \<not> good s then (False, s)
      else let cs = dropWhile is_space (unread s)
           in if cs = [] then (False, \<lparr>unread = [], good = False\<rparr>)
              else (True, \<lparr>unread = cs, good = True\<rparr>))"

text \<open>Extraction of a word; the stream is no longer good once its end was seen.\<close>

definition extract_word :: "istream \<Rightarrow> string option \<times> istream" where
  "extract_word s =
     (let (ok, s1) = sentry s
      in if \<not> ok then (None, s1)
         else let rest = dropWhile (Not \<circ> is_space) (unread s1)
              in (Some (takeWhile (Not \<circ> is_space) (unread s1)), \<lparr>unread = rest, good = rest \<noteq> []\<rparr>))"

text \<open>The characters \<^verbatim>\<open>num_get\<close> accumulates: a sign and decimal digits.\<close>

definition scan_int :: "string \<Rightarrow> bool \<times> string \<times> string" where
  "scan_int cs =
     (let (negative, cs1) = (case cs of [] \<Rightarrow> (False, [])
           | c # r \<Rightarrow> if c = CHR ''-'' then (True, r) else if c = CHR ''+'' then (False, r) else (False, cs))
      in (negative, takeWhile is_digit cs1, dropWhile is_digit cs1))"

text \<open>
  \<open>None\<close>: the variable keeps its old value.  No digits give 0, an overflow the largest value, both
  with the stream failed; a minus sign on an unsigned target wraps around.
\<close>

definition extract_u32 :: "istream \<Rightarrow> u32 option \<times> istream" where
  "extract_u32 s =
     (let (ok, s1) = sentry s
      in if \<not> ok then (None, s1)
         else let (negative, ds, rest) = scan_int (unread s1)
              in if ds = [] then (Some 0, \<lparr>unread = rest, good = False\<rparr>)
                 else if digits_val ds \<ge> 2 ^ 32 then (Some (- 1), \<lparr>unread = rest, good = False\<rparr>)
                 else (Some (if negative then - word_of_nat (digits_val ds)
                             else word_of_nat (digits_val ds)), \<lparr>unread = rest, good = rest \<noteq> []\<rparr>))"

definition extract_i32 :: "istream \<Rightarrow> int option \<times> istream" where
  "extract_i32 s =
     (let (ok, s1) = sentry s
      in if \<not> ok then (None, s1)
         else let (negative, ds, rest) = scan_int (unread s1);
                  v = (if negative then - int (digits_val ds) else int (digits_val ds))
              in if ds = [] then (Some 0, \<lparr>unread = rest, good = False\<rparr>)
                 else if v \<ge> 2 ^ 31 then (Some (2 ^ 31 - 1), \<lparr>unread = rest, good = False\<rparr>)
                 else if v < - (2 ^ 31) then (Some (- (2 ^ 31)), \<lparr>unread = rest, good = False\<rparr>)
                 else (Some v, \<lparr>unread = rest, good = rest \<noteq> []\<rparr>))"

text \<open>\<^verbatim>\<open>std::getline\<close> on a stream that is not at its end: the line, the rest, and \<^verbatim>\<open>eof()\<close> after it.\<close>

definition getline :: "string \<Rightarrow> string \<times> string \<times> bool" where
  "getline cs =
     (let line = takeWhile (\<lambda>c. c \<noteq> newline) cs; rest = dropWhile (\<lambda>c. c \<noteq> newline) cs
      in if rest = [] then (line, [], True) else (line, tl rest, False))"

lemma getline_shorter: "getline cs = (line, rest, False) \<Longrightarrow> length rest < length cs"
proof -
  assume "getline cs = (line, rest, False)"
  then have "rest = tl (dropWhile (\<lambda>c. c \<noteq> newline) cs)" "dropWhile (\<lambda>c. c \<noteq> newline) cs \<noteq> []"
    by (auto simp: getline_def Let_def split: if_splits)
  moreover have "length (dropWhile (\<lambda>c. c \<noteq> newline) cs) \<le> length cs" by (rule length_dropWhile_le)
  ultimately show ?thesis
    by (cases "dropWhile (\<lambda>c. c \<noteq> newline) cs") auto
qed

lemma getline_line:
  "newline \<notin> set line \<Longrightarrow> getline (line @ newline # rest) = (line, rest, False)"
  "newline \<notin> set line \<Longrightarrow> getline line = (line, [], True)"
  by (auto simp: getline_def Let_def dropWhile_append takeWhile_append takeWhile_eq_all_conv
      dropWhile_eq_Nil_conv)

section \<open>Reading what was written\<close>

lemma sentry_digits:
  "is_digit c \<Longrightarrow> sentry \<lparr>unread = c # cs, good = True\<rparr> = (True, \<lparr>unread = c # cs, good = True\<rparr>)"
  using digit_not_space [of c] by (simp add: sentry_def)

lemma sentry_blank:
  "is_space b \<Longrightarrow> sentry \<lparr>unread = b # cs, good = True\<rparr> = sentry \<lparr>unread = cs, good = True\<rparr>"
  by (simp add: sentry_def)

lemma scan_decimal:
  assumes "rest = [] \<or> \<not> is_digit (hd rest)"
  shows "scan_int (decimal n @ rest) = (False, decimal n, rest)"
proof -
  obtain c cs where d: "decimal n = c # cs" "is_digit c" using decimal_head by blast
  have "c \<noteq> CHR ''-''" "c \<noteq> CHR ''+''" using d(2) by (auto simp: is_digit_def char_code_def)
  moreover have "takeWhile is_digit (decimal n @ rest) = decimal n"
    "dropWhile is_digit (decimal n @ rest) = rest"
    using decimal_digits [of n] assms by (cases rest; simp)+
  ultimately show ?thesis using d by (simp add: scan_int_def)
qed

lemma extract_u32_decimal:
  assumes "rest = [] \<or> \<not> is_digit (hd rest)" "n < 2 ^ 32"
  shows "extract_u32 \<lparr>unread = decimal n @ rest, good = True\<rparr> =
    (Some (word_of_nat n), \<lparr>unread = rest, good = rest \<noteq> []\<rparr>)"
proof -
  obtain c cs where "decimal n = c # cs" "is_digit c" using decimal_head by blast
  then have "sentry \<lparr>unread = decimal n @ rest, good = True\<rparr> = (True, \<lparr>unread = decimal n @ rest, good = True\<rparr>)"
    using sentry_digits by simp
  then show ?thesis using scan_decimal [OF assms(1), of n] assms(2) by (simp add: extract_u32_def)
qed

lemma extract_i32_decimal:
  assumes "rest = [] \<or> \<not> is_digit (hd rest)" "n < 2 ^ 31"
  shows "extract_i32 \<lparr>unread = decimal n @ rest, good = True\<rparr> =
    (Some (int n), \<lparr>unread = rest, good = rest \<noteq> []\<rparr>)"
proof -
  obtain c cs where "decimal n = c # cs" "is_digit c" using decimal_head by blast
  then have "sentry \<lparr>unread = decimal n @ rest, good = True\<rparr> = (True, \<lparr>unread = decimal n @ rest, good = True\<rparr>)"
    using sentry_digits by simp
  then show ?thesis using scan_decimal [OF assms(1), of n] assms(2) by (simp add: extract_i32_def)
qed

lemma extract_u32_blank:
  "is_space b \<Longrightarrow> extract_u32 \<lparr>unread = b # cs, good = True\<rparr> = extract_u32 \<lparr>unread = cs, good = True\<rparr>"
  by (simp add: extract_u32_def sentry_blank)

lemma extract_i32_blank:
  "is_space b \<Longrightarrow> extract_i32 \<lparr>unread = b # cs, good = True\<rparr> = extract_i32 \<lparr>unread = cs, good = True\<rparr>"
  by (simp add: extract_i32_def sentry_blank)

end
