(* ===== verification/Parser.thy ===== *)
theory Parser
  imports AF Text "HOL-Library.Product_Lexorder"
begin

text \<open>
  \<^verbatim>\<open>src/logic/Parser_iccma.cpp\<close>: reading a framework in the ICCMA'23 format.  The file system is the
  argument \<open>files\<close> (a name that cannot be opened has no content), the iteration order of the set of
  attacks the argument \<open>iter\<close>.  The text written to \<^verbatim>\<open>cerr\<close> before an \<^verbatim>\<open>exit(1)\<close> is not kept.
\<close>

section \<open>The parser\<close>

text \<open>The \<^verbatim>\<open>p\<close>-line: two words are skipped; \<open>n_args\<close> keeps its 0 if nothing is left to read.\<close>

definition read_header :: "string \<Rightarrow> int" where
  "read_header line =
     (let s1 = snd (extract_word (istringstream line)); s2 = snd (extract_word s1)
      in case fst (extract_i32 s2) of None \<Rightarrow> 0 | Some n_args \<Rightarrow> n_args)"

text \<open>\<open>attacker\<close> and \<open>victim\<close> start uninitialised: using one the stream did not write is a fault.\<close>

definition read_attack :: "string \<Rightarrow> af \<Rightarrow> af res" where
  "read_attack line f =
     (if line = [] \<or> hd line = CHR ''#'' then Inr f
      else let (attacker, s1) = extract_u32 (istringstream line); (victim, s2) = extract_u32 s1
           in case (attacker, victim) of
                (Some a, Some v) \<Rightarrow> Inr (snd (add_attack (unat a) (unat v) f))
              | _ \<Rightarrow> Inl Indeterminate)"

function parse_lines :: "string \<Rightarrow> af \<Rightarrow> af res" where
  "parse_lines input f =
     (let (line, rest, eof) = getline input
      in bind_res (read_attack line f) (\<lambda>f'. if eof then Inr f' else parse_lines rest f'))"
  by pat_completeness auto
termination
proof (relation "measure (\<lambda>(input, f). length input)")
  fix input rest line :: string and f f' :: af and eof x y
  assume "x = getline input" "(line, y) = x" "(rest, eof) = y" "\<not> eof"
  then have "getline input = (line, rest, False)" by simp
  then show "((rest, f'), input, f) \<in> measure (\<lambda>(input, f). length input)"
    using getline_shorter by simp
qed simp

declare parse_lines.simps [simp del]

definition parse_af ::
    "(string \<Rightarrow> string option) \<Rightarrow> ((arg \<times> arg) set \<Rightarrow> (arg \<times> arg) list) \<Rightarrow> string \<Rightarrow> af \<Rightarrow> af res" where
  "parse_af files iter file framework =
     (case files file of
        None \<Rightarrow> Inl (ExitCode 1)
      | Some content \<Rightarrow>
          (let (line, rest, eof) = getline content
           in if line = [] \<or> hd line \<noteq> CHR ''p'' then Inl (ExitCode 1)
              else let f = initialize (word_of_int (read_header line)) framework
                   in bind_res (if eof then Inr f else parse_lines rest f) (\<lambda>f'.
                      finish_initilization (iter (attacks f')) f')))"

text \<open>Any order that lists every attack once.\<close>

definition iter_ok :: "((arg \<times> arg) set \<Rightarrow> (arg \<times> arg) list) \<Rightarrow> bool" where
  "iter_ok iter \<longleftrightarrow> (\<forall>S. finite S \<longrightarrow> distinct (iter S) \<and> set (iter S) = S)"

section \<open>The input format\<close>

datatype input_line = Blank | Comment string | Attack nat nat

fun render_line :: "input_line \<Rightarrow> string" where
  "render_line Blank = []"
| "render_line (Comment s) = CHR ''#'' # s"
| "render_line (Attack a b) = decimal a @ CHR '' '' # decimal b"

fun render_lines :: "input_line list \<Rightarrow> string" where
  "render_lines [] = []"
| "render_lines (l # ls) = render_line l @ newline # render_lines ls"

definition render_af :: "nat \<Rightarrow> input_line list \<Rightarrow> string" where
  "render_af n ls = ''p af '' @ decimal n @ newline # render_lines ls"

fun line_attacks :: "input_line \<Rightarrow> (arg \<times> arg) set" where
  "line_attacks (Attack a b) = {(a, b)}"
| "line_attacks Blank = {}"
| "line_attacks (Comment s) = {}"

definition file_attacks :: "input_line list \<Rightarrow> (arg \<times> arg) set" where
  "file_attacks ls = (\<Union>l \<in> set ls. line_attacks l)"

fun line_ok :: "nat \<Rightarrow> input_line \<Rightarrow> bool" where
  "line_ok n Blank = True"
| "line_ok n (Comment s) = (newline \<notin> set s)"
| "line_ok n (Attack a b) = (1 \<le> a \<and> a \<le> n \<and> 1 \<le> b \<and> b \<le> n)"

definition file_ok :: "nat \<Rightarrow> input_line list \<Rightarrow> bool" where
  "file_ok n ls \<longleftrightarrow> n < 2 ^ 31 \<and> list_all (line_ok n) ls"

lemma decimal_no_newline: "newline \<notin> set (decimal n)"
  using decimal_digits newline_space(2) by blast

lemma render_line_no_newline: "line_ok n l \<Longrightarrow> newline \<notin> set (render_line l)"
  using decimal_no_newline by (cases l) (auto simp: newline_def)

lemma read_header_render:
  assumes "n < 2 ^ 31"
  shows "read_header (''p af '' @ decimal n) = int n"
proof -
  have w1: "extract_word (istringstream (''p af '' @ decimal n)) =
      (Some ''p'', \<lparr>unread = '' af '' @ decimal n, good = True\<rparr>)"
    by (simp add: extract_word_def istringstream_def sentry_def is_space_def char_code_def)
  have w2: "extract_word \<lparr>unread = '' af '' @ decimal n, good = True\<rparr> =
      (Some ''af'', \<lparr>unread = '' '' @ decimal n, good = True\<rparr>)"
    by (simp add: extract_word_def sentry_def is_space_def char_code_def)
  have "extract_i32 \<lparr>unread = '' '' @ decimal n, good = True\<rparr> = (Some (int n), \<lparr>unread = [], good = False\<rparr>)"
    using extract_i32_decimal [of "[]" n] assms by (simp add: extract_i32_blank)
  then show ?thesis using w1 w2 by (simp add: read_header_def Let_def)
qed

lemma read_attack_render:
  assumes "a < 2 ^ 32" "b < 2 ^ 32"
  shows "read_attack (render_line (Attack a b)) f = Inr (snd (add_attack a b f))"
proof -
  obtain c cs where c: "decimal a = c # cs" "is_digit c" using decimal_head by blast
  then have "c \<noteq> CHR ''#''" by (auto simp: is_digit_def char_code_def)
  moreover have "extract_u32 (istringstream (decimal a @ CHR '' '' # decimal b)) =
      (Some (word_of_nat a), \<lparr>unread = CHR '' '' # decimal b, good = True\<rparr>)"
    unfolding istringstream_def using extract_u32_decimal [of "CHR '' '' # decimal b" a] assms by simp
  moreover have "extract_u32 \<lparr>unread = CHR '' '' # decimal b, good = True\<rparr> =
      (Some (word_of_nat b), \<lparr>unread = [], good = False\<rparr>)"
    using extract_u32_decimal [of "[]" b] assms by (simp add: extract_u32_blank)
  moreover have "unat (word_of_nat a :: u32) = a" "unat (word_of_nat b :: u32) = b"
    using assms by (simp_all add: unat_of_nat)
  ultimately show ?thesis using c by (simp add: read_attack_def)
qed

text \<open>What one line does to the framework under construction.\<close>

fun apply_line :: "input_line \<Rightarrow> af \<Rightarrow> af" where
  "apply_line (Attack a b) f = snd (add_attack a b f)"
| "apply_line Blank f = f"
| "apply_line (Comment s) f = f"

lemma read_line_render:
  assumes "line_ok n l" "n < 2 ^ 31"
  shows "read_attack (render_line l) f = Inr (apply_line l f)"
proof (cases l)
  case (Attack a b)
  then show ?thesis using read_attack_render [of a b f] assms by simp
qed (simp_all add: read_attack_def)

lemma parse_lines_render:
  assumes "list_all (line_ok n) ls" "n < 2 ^ 31"
  shows "parse_lines (render_lines ls) f = Inr (fold apply_line ls f)"
  using assms
proof (induction ls arbitrary: f)
  case Nil
  then show ?case by (simp add: parse_lines.simps getline_def read_attack_def)
next
  case (Cons l ls)
  then have "getline (render_line l @ newline # render_lines ls) = (render_line l, render_lines ls, False)"
    by (intro getline_line(1) render_line_no_newline [of n]) simp
  then show ?case
    using Cons read_line_render [of n l f] by (subst parse_lines.simps) simp
qed

lemma fold_apply_line:
  "attacks (fold apply_line ls f) = file_attacks ls \<union> attacks f \<and>
   num_args (fold apply_line ls f) = num_args f \<and> (fresh_af (fold apply_line ls f) \<longleftrightarrow> fresh_af f)"
proof (induction ls arbitrary: f)
  case (Cons l ls)
  then show ?case by (cases l) (simp_all add: file_attacks_def)
qed (simp add: file_attacks_def)

lemma finite_file_attacks: "finite (file_attacks ls)"
  unfolding file_attacks_def by (intro finite_UN_I finite_set) (metis finite.emptyI finite_insert line_attacks.elims)

lemma file_attacks_range:
  assumes "file_ok n ls"
  shows "file_attacks ls \<subseteq> {1..n} \<times> {1..n}"
proof -
  have "line_attacks l \<subseteq> {1..n} \<times> {1..n}" if "l \<in> set ls" for l
    using assms that by (cases l) (auto simp: file_ok_def list_all_iff)
  then show ?thesis by (auto simp: file_attacks_def)
qed

text \<open>A file in the format gives the framework it describes, whatever the iteration order.\<close>

lemma parse_af_render:
  assumes ok: "file_ok n ls" and it: "iter_ok iter" and content: "files file = Some (render_af n ls)"
  shows "\<exists>f. parse_af files iter file af_new = Inr f \<and> af_ok f \<and> num_args f = word_of_nat n \<and>
    unat (num_args f) = n \<and> attacks f = file_attacks ls \<and>
    distance_to_query f = replicate (n + 1) 0"
proof -
  have n: "n < 2 ^ 31" and ls: "list_all (line_ok n) ls" using ok by (auto simp: file_ok_def)
  define f0 where "f0 = initialize (word_of_nat n) af_new"
  define f1 where "f1 = fold apply_line ls f0"
  have un: "unat (word_of_nat n :: u32) = n" using n by (simp add: unat_of_nat)
  have "fresh_af f0" by (simp add: f0_def af_new_def)
  then have f1: "fresh_af f1" "attacks f1 = file_attacks ls" "num_args f1 = word_of_nat n"
    using fold_apply_line [of ls f0] by (simp_all add: f1_def f0_def af_new_def)
  have slots: "n_slots f1 = n + 1" "nodes f1 = {1..n}" using f1(3) un by (simp_all add: n_slots_def nodes_def)
  have "attacks_in_range f1"
    using file_attacks_range [OF ok] n by (simp add: attacks_in_range_def slots f1(2))
  then obtain g where g: "finish_initilization (iter (attacks f1)) f1 = Inr g" "af_ok g"
    "num_args g = num_args f1" "attacks g = attacks f1" "distance_to_query g = replicate (n_slots f1) 0"
    using finish_ok [OF f1(1), of "iter (attacks f1)"] it finite_file_attacks [of ls]
    by (auto simp: iter_ok_def f1(2))
  have "newline \<notin> set (''p af '' @ decimal n)" using decimal_no_newline by (simp add: newline_def)
  then have "getline (render_af n ls) = (''p af '' @ decimal n, render_lines ls, False)"
    using getline_line(1) [of "''p af '' @ decimal n" "render_lines ls"] by (simp add: render_af_def)
  then have "parse_af files iter file af_new = Inr g"
    using content read_header_render [OF n] parse_lines_render [OF ls n] g(1)
    by (simp add: parse_af_def f0_def f1_def)
  then show ?thesis using g f1 un slots by auto
qed

section \<open>Properties\<close>

text \<open>The attacks in lexicographic order: one order a hash set may have.\<close>

lemma sorted_iter_ok: "iter_ok sorted_list_of_set"
  by (simp add: iter_ok_def)

text \<open>
  C10: reading what was written.  A file with a \<^verbatim>\<open>p af n\<close> line, and then attacks, comments and blank
  lines in any order, is parsed into a well-formed framework with \<open>n\<close> arguments and exactly its
  attacks, whatever the iteration order of the hash set.
\<close>

theorem parse_render:
  assumes "file_ok n ls" "iter_ok iter" "files name = Some (render_af n ls)"
  shows "\<exists>f. parse_af files iter name af_new = Inr f \<and> af_ok f \<and> unat (num_args f) = n \<and>
    attacks f = {(a, b). Attack a b \<in> set ls} \<and> (\<forall>i \<le> n. distance_to_query f ! i = 0)"
proof -
  obtain f where f: "parse_af files iter name af_new = Inr f" "af_ok f" "unat (num_args f) = n"
    "attacks f = file_attacks ls" "distance_to_query f = replicate (n + 1) 0"
    using parse_af_render [where files = files, OF assms] by blast
  have "(a, b) \<in> line_attacks l \<longleftrightarrow> l = Attack a b" for a b l by (cases l) auto
  then have "file_attacks ls = {(a, b). Attack a b \<in> set ls}" by (auto simp: file_attacks_def)
  then show ?thesis using f by (auto simp del: replicate.simps)
qed

lemma parse_render_witness:
  "\<exists>f. parse_af (\<lambda>name. Some (render_af 3 [Comment '' two attacks'', Attack 3 2, Blank, Attack 2 1]))
         sorted_list_of_set ''x.i23'' af_new = Inr f \<and> attacks f = {(3, 2), (2, 1)}"
proof -
  let ?ls = "[Comment '' two attacks'', Attack 3 2, Blank, Attack 2 1]"
  have "file_ok 3 ?ls" by (simp add: file_ok_def newline_def)
  from parse_render [OF this sorted_iter_ok, of "\<lambda>name. Some (render_af 3 ?ls)" "''x.i23''"]
  obtain f where "parse_af (\<lambda>name. Some (render_af 3 ?ls)) sorted_list_of_set ''x.i23'' af_new = Inr f"
    "attacks f = {(a, b). Attack a b \<in> set ?ls}" by blast
  moreover have "{(a, b). Attack a b \<in> set ?ls} = {(3, 2), (2, 1)}" by auto
  ultimately show ?thesis by auto
qed

text \<open>
  A line with one number.  The second extraction fails at the end of the line and leaves the
  victim as it was, uninitialised, and the attack is added with it.
\<close>

theorem incomplete_line_indeterminate: "read_attack (decimal a) f = Inl Indeterminate"
proof -
  obtain c cs where c: "decimal a = c # cs" "is_digit c" using decimal_head by blast
  then have "c \<noteq> CHR ''#''" by (auto simp: is_digit_def char_code_def)
  moreover have "sentry (istringstream (decimal a)) = (True, \<lparr>unread = decimal a, good = True\<rparr>)"
    using c sentry_digits by (simp add: istringstream_def)
  then have "\<exists>v. extract_u32 (istringstream (decimal a)) = (v, \<lparr>unread = [], good = False\<rparr>)"
    using scan_decimal [of "[]" a] by (simp add: extract_u32_def)
  moreover have "extract_u32 \<lparr>unread = [], good = False\<rparr> = (None, \<lparr>unread = [], good = False\<rparr>)"
    by (simp add: extract_u32_def sentry_def)
  ultimately show ?thesis using c by (auto simp: read_attack_def split: option.splits)
qed

text \<open>
  A file that cannot be opened, or whose first character is not \<^verbatim>\<open>p\<close>, ends the process with
  status 1.
\<close>

theorem unreadable_file_exits:
  assumes "case files name of None \<Rightarrow> True | Some content \<Rightarrow> content = [] \<or> hd content \<noteq> CHR ''p''"
  shows "parse_af files iter name f = Inl (ExitCode 1)"
proof (cases "files name")
  case (Some content)
  then have bad: "content = [] \<or> hd content \<noteq> CHR ''p''" using assms by simp
  have "fst (getline content) = takeWhile (\<lambda>c. c \<noteq> newline) content" by (simp add: getline_def Let_def)
  then have "fst (getline content) = [] \<or> hd (fst (getline content)) \<noteq> CHR ''p''"
    using bad by (cases content) auto
  then show ?thesis using Some by (auto simp: parse_af_def split: prod.splits)
qed (simp add: parse_af_def)

lemma unreadable_file_exits_witness:
  "parse_af (\<lambda>name. Some ''1 2'') sorted_list_of_set ''x'' af_new = Inl (ExitCode 1)"
  by (rule unreadable_file_exits) simp

end
