(* ===== verification/MainProgram.thy ===== *)
theory MainProgram
  imports Solver Parser
begin

text \<open>
  The command line program: \<^verbatim>\<open>src/Main.cpp\<close> with \<^verbatim>\<open>src/logic/Enums.cpp\<close> and \<^verbatim>\<open>src/util/Printer.cpp\<close>.
  The values returned by the successive calls of \<^verbatim>\<open>getopt_long_only\<close> are the argument \<open>events\<close>; what
  is written to \<^verbatim>\<open>cout\<close> and \<^verbatim>\<open>cerr\<close> is part of the result.
\<close>

section \<open>Printing\<close>

definition print_list :: "nat list \<Rightarrow> string" where
  "print_list xs = (case xs of [] \<Rightarrow> []
     | x # rest \<Rightarrow> foldl (\<lambda>out m. out @ '' '' @ decimal m) (decimal x) rest)"

text \<open>The index loop over a vector; \<open>int\<close> and \<open>size_t\<close> agree below \<open>2 ^ 31\<close> elements.\<close>

definition print_vector :: "nat list \<Rightarrow> string res" where
  "print_vector v =
     (if v = [] then Inr []
      else bind_res (get_at v 0) (\<lambda>x0.
        fold_res (\<lambda>i out. bind_res (get_at v i) (\<lambda>x. Inr (out @ '' '' @ decimal x)))
          [1..<length v] (decimal x0)))"

definition task_trace :: "(arg list \<times> u32) list \<Rightarrow> string" where
  "task_trace prints = concat (map (\<lambda>(ext, prio).
     ''Priority calculated for:'' @ print_list ext @ '' Calculated Priority: '' @
     decimal (unat prio) @ [newline]) prints)"

section \<open>Enumerations\<close>

datatype task_kind = DC | DS | SE | EE | CE | UNKNOWN_TASK
datatype sem_kind = IT | UC | PR | GR | UNKNOWN_SEM

definition string_to_task :: "string \<Rightarrow> task_kind" where
  "string_to_task t =
     (if t = ''DC'' then DC else if t = ''DS'' then DS else if t = ''SE'' then SE
      else if t = ''EE'' then EE else if t = ''CE'' then CE else UNKNOWN_TASK)"

definition string_to_sem :: "string \<Rightarrow> sem_kind" where
  "string_to_sem s =
     (if s = ''IT'' then IT else if s = ''UC'' then UC else if s = ''PR'' then PR
      else if s = ''GR'' then GR else UNKNOWN_SEM)"

section \<open>Strings\<close>

text \<open>Positions are \<^verbatim>\<open>size_t\<close>: \<open>npos + 1\<close> is 0.\<close>

definition npos :: nat where
  "npos = 2 ^ 64 - 1"

definition size_add :: "nat \<Rightarrow> nat \<Rightarrow> nat" where
  "size_add a b = (a + b) mod 2 ^ 64"

definition size_sub :: "nat \<Rightarrow> nat \<Rightarrow> nat" where
  "size_sub a b = (a + (2 ^ 64 - b)) mod 2 ^ 64"

fun find_char :: "char \<Rightarrow> nat \<Rightarrow> string \<Rightarrow> nat" where
  "find_char c i [] = npos"
| "find_char c i (x # xs) = (if x = c then i else find_char c (Suc i) xs)"

fun find_last_char :: "char \<Rightarrow> nat \<Rightarrow> nat \<Rightarrow> string \<Rightarrow> nat" where
  "find_last_char c best i [] = best"
| "find_last_char c best i (x # xs) = find_last_char c (if x = c then i else best) (Suc i) xs"

definition substr :: "nat \<Rightarrow> nat \<Rightarrow> string \<Rightarrow> string res" where
  "substr start len s = (if start > length s then Inl Thrown else Inr (take len (drop start s)))"

definition erase :: "nat \<Rightarrow> nat \<Rightarrow> string \<Rightarrow> string res" where
  "erase start len s =
     (if start > length s then Inl Thrown else Inr (take start s @ drop len (drop start s)))"

text \<open>\<^verbatim>\<open>std::stoi\<close>: leading blanks and trailing text are ignored.\<close>

definition stoi :: "string \<Rightarrow> int res" where
  "stoi s =
     (let (negative, ds, rest) = scan_int (dropWhile is_space s);
          v = (if negative then - int (digits_val ds) else int (digits_val ds))
      in if ds = [] then Inl Thrown
         else if v \<ge> 2 ^ 31 \<or> v < - (2 ^ 31) then Inl Thrown
         else Inr v)"

section \<open>Options\<close>

datatype flag = Version | Usage | Formats | Problems

text \<open>One value of \<^verbatim>\<open>getopt_long_only\<close>: 0 with a flag set, an option with its argument, or \<^verbatim>\<open>'?'\<close>.\<close>

datatype opt_event = SetFlag flag | OptP string | OptF string | OptO string | OptA string | BadOption

record options =
  problem_arg :: string
  file_arg :: string
  format_arg :: string
  query_arg :: string
  flags :: "flag list"

definition options_new :: options where
  "options_new = \<lparr>problem_arg = [], file_arg = [], format_arg = [], query_arg = [], flags = []\<rparr>"

fun read_options :: "opt_event list \<Rightarrow> options \<Rightarrow> options option" where
  "read_options [] opts = Some opts"
| "read_options (SetFlag fl # es) opts = read_options es (opts\<lparr>flags := fl # flags opts\<rparr>)"
| "read_options (OptP s # es) opts = read_options es (opts\<lparr>problem_arg := s\<rparr>)"
| "read_options (OptF s # es) opts = read_options es (opts\<lparr>file_arg := s\<rparr>)"
| "read_options (OptO s # es) opts = read_options es (opts\<lparr>format_arg := s\<rparr>)"
| "read_options (OptA s # es) opts = read_options es (opts\<lparr>query_arg := s\<rparr>)"
| "read_options (BadOption # es) opts = None"

section \<open>Messages\<close>

definition SOLVERNAME :: string where "SOLVERNAME = ''ParallelSolver''"
definition VERSIONNUMBER :: string where "VERSIONNUMBER = ''1.15''"

definition ln :: "string \<Rightarrow> string" where
  "ln s = s @ [newline]"

definition print_usage :: string where
  "print_usage =
     ln (''Usage: '' @ SOLVERNAME @ '' -p <task> -f <file> -fo <format> [-a <query>]'') @ ln '''' @
     ln ''  <task>      computational problem; for a list of available problems use option --problems'' @
     ln ''  <file>      input argumentation framework'' @
     ln ''  <format>    file format for input AF; for a list of available formats use option --formats'' @
     ln ''  <query>     query argument'' @
     ln ''Options:'' @
     ln ''  --help      Displays this help message.'' @
     ln ''  --version   Prints version and author information.'' @
     ln ''  --formats   Prints available file formats.'' @
     ln ''  --problems  Prints available computational tasks.''"

definition print_version :: string where
  "print_version =
     ln (SOLVERNAME @ '' (version '' @ VERSIONNUMBER @ '')'') @
     ln ''Lars Bengel, University of Hagen <lars.bengel@fernuni-hagen.de>'' @
     ln ''Julian Sander, University of Hagen <julian.sander@fernuni-hagen.de>''"

definition print_formats :: string where
  "print_formats = ln ''[i23]''"

definition print_problems :: string where
  "print_problems =
     (let tasks = [''DS'']; sems = [''PR'']
      in ''['' @ concat (map (\<lambda>t. concat (map (\<lambda>j.
           let problem = t @ ''-'' @ sems ! j
           in if j \<noteq> length sems - 1 then problem @ '','' else problem) [0..<length sems])) tasks) @
         ln '']'')"

section \<open>\<open>execute\<close> and \<open>main\<close>\<close>

record console =
  cout :: string
  cerr :: string

text \<open>What the world decides: files, hash order, thread schedule, SAT search.\<close>

record world =
  files :: "string \<Rightarrow> string option"
  iter :: "(arg \<times> arg) set \<Rightarrow> (arg \<times> arg) list"
  sched :: "nat \<Rightarrow> nat"
  engines :: "nat \<Rightarrow> engine"

definition answer_text :: "bool \<Rightarrow> arg list \<Rightarrow> string" where
  "answer_text skept_accepted proof_extension =
     ln (if skept_accepted then ''YES'' else ''NO'') @
     (if \<not> skept_accepted
      then ln ''w '' @ (if proof_extension \<noteq> []
                        then ln (concat (map (\<lambda>m. decimal m @ '' '') proof_extension)) else [])
      else [])"

definition complain :: "string \<Rightarrow> string \<Rightarrow> console \<times> nat" where
  "complain prog msg = (\<lparr>cout = [], cerr = prog @ '': '' @ ln msg\<rparr>, 1)"

definition say :: "string \<Rightarrow> console \<times> nat" where
  "say s = (\<lparr>cout = s, cerr = []\<rparr>, 0)"

text \<open>The file format: the \<^verbatim>\<open>-fo\<close> option, or else what follows the last dot of the file name.\<close>

definition file_format :: "options \<Rightarrow> string res" where
  "file_format opts =
     (if format_arg opts \<noteq> [] then Inr (format_arg opts)
      else let name = file_arg opts; dot = find_last_char (CHR ''.'') npos 0 name
           in substr (size_add dot 1) (size_sub (size_sub (length name) dot) 1) name)"

text \<open>The problem string \<^verbatim>\<open>task-semantics\<close>.\<close>

definition split_problem :: "string \<Rightarrow> (string \<times> string) res" where
  "split_problem problem =
     bind_res (substr 0 (find_char (CHR ''-'') 0 problem) problem) (\<lambda>task.
     bind_res (erase 0 (size_add (find_char (CHR ''-'') 0 problem) 1) problem) (\<lambda>problem'.
     bind_res (substr 0 (find_char (CHR ''-'') 0 problem') problem') (\<lambda>sem.
     Inr (task, sem))))"

definition run_DS :: "world \<Rightarrow> string \<Rightarrow> string \<Rightarrow> string \<Rightarrow> af \<Rightarrow> (console \<times> nat) res" where
  "run_DS w prog query sem framework =
     (if query = [] then Inr (complain prog ''Query argument must be specified via -a flag'')
      else bind_res (stoi query) (\<lambda>n.
        let argument = unat (word_of_int n :: u32) in
        case string_to_sem sem of
          PR \<Rightarrow> bind_res (Solver_DS_PR_solve (sched w) (engines w) argument framework [])
            (\<lambda>(skept_accepted, g, sh).
              Inr (say (task_trace (printed sh) @ answer_text skept_accepted (output_extension sh))))
        | _ \<Rightarrow> Inr (complain prog ''Unsupported semantics'')))"

definition run_problem :: "world \<Rightarrow> string \<Rightarrow> options \<Rightarrow> (console \<times> nat) res" where
  "run_problem w prog opts =
     bind_res (file_format opts) (\<lambda>fileformat.
       if fileformat \<noteq> ''i23'' then Inr (complain prog ''Unsupported file format'')
       else bind_res (parse_af (files w) (iter w) (file_arg opts) af_new) (\<lambda>framework.
       bind_res (split_problem (problem_arg opts)) (\<lambda>(task, sem).
         case string_to_task task of
           DS \<Rightarrow> run_DS w prog (query_arg opts) sem framework
         | _ \<Rightarrow> Inr (complain prog ''Problem not supported!''))))"

definition execute :: "world \<Rightarrow> string \<Rightarrow> nat \<Rightarrow> opt_event list \<Rightarrow> (console \<times> nat) res" where
  "execute w prog argc events =
     (if argc = 1 then Inr (say print_version)
      else case read_options events options_new of
             None \<Rightarrow> Inr (\<lparr>cout = [], cerr = []\<rparr>, 1)
           | Some opts \<Rightarrow>
               if Version \<in> set (flags opts) then Inr (say print_version)
               else if Usage \<in> set (flags opts) then Inr (say print_usage)
               else if Formats \<in> set (flags opts) then Inr (say print_formats)
               else if Problems \<in> set (flags opts) then Inr (say print_problems)
               else if problem_arg opts = []
                 then Inr (complain prog ''Problem must be specified via -p flag'')
               else if file_arg opts = []
                 then Inr (complain prog ''Input file must be specified via -f flag'')
               else run_problem w prog opts)"

text \<open>\<open>main\<close> drops the value of \<open>execute\<close>: the exit status is that of a \<^verbatim>\<open>main\<close> without a return.\<close>

definition main_program :: "world \<Rightarrow> string \<Rightarrow> nat \<Rightarrow> opt_event list \<Rightarrow> (console \<times> nat) res" where
  "main_program w prog argc events =
     bind_res (execute w prog argc events) (\<lambda>(con, ret). Inr (con, 0))"

section \<open>Reading the command line\<close>

lemma scan_int_decimal: "scan_int (decimal n) = (False, decimal n, [])"
  using scan_decimal [of "[]" n] by simp

lemma stoi_decimal: "n < 2 ^ 31 \<Longrightarrow> stoi (decimal n) = Inr (int n)"
proof -
  assume n: "n < 2 ^ 31"
  obtain c cs where c: "decimal n = c # cs" "is_digit c" using decimal_head by blast
  then have "dropWhile is_space (decimal n) = decimal n" using digit_not_space by simp
  then show ?thesis using n by (simp add: stoi_def scan_int_decimal)
qed

lemma find_last_char_append:
  "find_last_char c best i (xs @ c # ys) = (if c \<in> set ys then find_last_char c best (i + length xs) (c # ys)
     else i + length xs)"
proof -
  have skip: "find_last_char c b j ys = b" if "c \<notin> set ys" for b j and ys :: string
    using that by (induction ys arbitrary: b j) auto
  have "find_last_char c best i (xs @ c # ys) = find_last_char c (i + length xs) (Suc (i + length xs)) ys"
    by (induction xs arbitrary: best i) auto
  then show ?thesis using skip by simp
qed

lemma size_sub_le:
  assumes "b \<le> a" "a < 2 ^ 64"
  shows "size_sub a b = a - b"
proof -
  have "a + (2 ^ 64 - b) = (a - b) + 2 ^ 64" using assms by simp
  then have "size_sub a b = (a - b + 2 ^ 64) mod 2 ^ 64" unfolding size_sub_def by (rule arg_cong)
  also have "\<dots> = (a - b) mod 2 ^ 64" by (rule mod_add_self2)
  also have "\<dots> = a - b" using assms by (intro mod_less) simp
  finally show ?thesis .
qed

text \<open>The suffix after the last dot is the format.\<close>

lemma file_format_suffix:
  assumes "format_arg opts = []" "file_arg opts = base @ CHR ''.'' # suffix" "CHR ''.'' \<notin> set suffix"
    and "length (file_arg opts) < 2 ^ 63"
  shows "file_format opts = Inr suffix"
proof -
  let ?n = "length base" and ?m = "length suffix"
  have len: "?n + ?m + 1 < 2 ^ 63" using assms(2,4) by simp
  have "find_last_char CHR ''.'' npos 0 (file_arg opts) = ?n"
    using assms(2,3) by (simp add: find_last_char_append)
  moreover have "size_add ?n 1 = ?n + 1" using len by (simp add: size_add_def)
  moreover have "size_sub (size_sub (?n + ?m + 1) ?n) 1 = ?m" using len by (simp add: size_sub_le)
  ultimately show ?thesis using assms(1,2) by (simp add: file_format_def substr_def)
qed

section \<open>The whole program\<close>

definition world_ok :: "world \<Rightarrow> bool" where
  "world_ok w \<longleftrightarrow> iter_ok (iter w) \<and> (\<forall>k. engine_ok (engines w k))"

definition query_options :: "string \<Rightarrow> nat \<Rightarrow> opt_event list" where
  "query_options name q = [OptP ''DS-PR'', OptF name, OptA (decimal q)]"

text \<open>The framework a file describes, as the specification sees it.\<close>

definition file_sceptical :: "nat \<Rightarrow> input_line list \<Rightarrow> arg \<Rightarrow> bool" where
  "file_sceptical n ls q \<longleftrightarrow> sceptical {1..n} (file_attacks ls) q"

lemma split_problem_DS_PR: "split_problem ''DS-PR'' = Inr (''DS'', ''PR'')"
  by (simp add: split_problem_def substr_def erase_def size_add_def npos_def)

lemma execute_query:
  assumes "argc \<noteq> 1" "name = base @ ''.i23''" "length name < 2 ^ 63"
    "parse_af (files w) (iter w) name af_new = Inr f" "q < 2 ^ 31"
  shows "execute w prog argc (query_options name q) =
    bind_res (Solver_DS_PR_solve (sched w) (engines w) q f []) (\<lambda>(b, g, sh).
      Inr (say (task_trace (printed sh) @ answer_text b (output_extension sh))))"
proof -
  let ?opts = "\<lparr>problem_arg = ''DS-PR'', file_arg = name, format_arg = [], query_arg = decimal q, flags = []\<rparr>"
  have "read_options (query_options name q) options_new = Some ?opts"
    by (simp add: query_options_def options_new_def)
  moreover have "file_format ?opts = Inr ''i23''"
    by (rule file_format_suffix [where base = base]) (use assms(2,3) in simp_all)
  moreover have "stoi (decimal q) = Inr (int q)" using assms(5) by (rule stoi_decimal)
  moreover have "unat (word_of_nat q :: u32) = q" using assms(5) by (simp add: unat_of_nat)
  moreover have "name \<noteq> []" using assms(2) by simp
  ultimately show ?thesis using assms(1,4)
    by (simp add: execute_def run_problem_def split_problem_DS_PR string_to_task_def run_DS_def
        string_to_sem_def)
qed

lemma parsed_solvable:
  assumes "file_ok n ls" "2 * n < 2 ^ 31" "1 \<le> q" "q \<le> n" "world_ok w"
    "files w name = Some (render_af n ls)"
  shows "\<exists>f. parse_af (files w) (iter w) name af_new = Inr f \<and> solvable f q \<and>
    nodes f = {1..n} \<and> attacks f = file_attacks ls"
proof -
  have it: "iter_ok (iter w)" using assms(5) by (simp add: world_ok_def)
  obtain f where f: "parse_af (files w) (iter w) name af_new = Inr f" "af_ok f" "unat (num_args f) = n"
    "attacks f = file_attacks ls" "distance_to_query f = replicate (n + 1) 0"
    using parse_af_render [where files = "files w", OF assms(1) it assms(6)] by blast
  have nd: "nodes f = {1..n}" "n_slots f = n + 1" "n_args f = n"
    using f(3) by (simp_all add: nodes_def n_slots_def n_args_def)
  have "fresh_distances f"
    unfolding fresh_distances_def f(5) nd by (simp del: replicate.simps)
  then show ?thesis using f nd assms(2-4) by (auto simp: solvable_def)
qed

text \<open>What the program prints for a query: the trace of the tasks, then the answer.\<close>

lemma execute_answers:
  assumes ok: "file_ok n ls" "2 * n < 2 ^ 31" "1 \<le> q" "q \<le> n" and w: "world_ok w"
    and content: "files w name = Some (render_af n ls)"
    and call: "argc \<noteq> 1" "name = base @ ''.i23''" "length name < 2 ^ 63"
  shows "\<exists>prints out. execute w prog argc (query_options name q) =
    Inr (say (task_trace prints @ answer_text (file_sceptical n ls q) out))"
proof -
  obtain f where f: "parse_af (files w) (iter w) name af_new = Inr f" "solvable f q"
    "nodes f = {1..n}" "attacks f = file_attacks ls"
    using parsed_solvable [OF ok w content] by blast
  have e: "\<And>k. engine_ok (engines w k)" using w by (simp add: world_ok_def)
  obtain b g sh where s: "Solver_DS_PR_solve (sched w) (engines w) q f [] = Inr (b, g, sh)"
    "solve_may_return q f [] b (output_extension sh)"
    using Solver_DS_PR_solve_may_return [where engines = "engines w", OF f(2) e] by blast
  have "b = file_sceptical n ls q"
    using solve_may_return_result(1) [OF f(2) s(2)] by (simp add: file_sceptical_def f)
  moreover have "q < 2 ^ 31" using ok by simp
  ultimately show ?thesis using execute_query [OF call f(1)] s(1) by auto
qed

section \<open>Properties\<close>

text \<open>
  C3: the whole program.  For a file in the format with at most \<open>2 ^ 30 - 1\<close> arguments, called with
  \<^verbatim>\<open>-p DS-PR -f name.i23 -a q\<close>, whatever the hash order, the schedule and the SAT engine, it ends
  with status 0 after printing the trace of its tasks and then YES or NO, and it prints YES exactly
  if the query is in every preferred extension of the framework in the file.
\<close>

theorem program_correct:
  assumes "file_ok n ls" "2 * n < 2 ^ 31" "1 \<le> q" "q \<le> n" "world_ok w"
    "files w name = Some (render_af n ls)" "argc \<noteq> 1" "name = base @ ''.i23''" "length name < 2 ^ 63"
  shows "\<exists>prints out. main_program w prog argc (query_options name q) =
    Inr (\<lparr>cout = task_trace prints @
      (if sceptical {1..n} (file_attacks ls) q then ln ''YES'' else ln ''NO'' @ ln ''w '' @
         (if out = [] then [] else ln (concat (map (\<lambda>m. decimal m @ '' '') out)))), cerr = []\<rparr>, 0)"
proof -
  obtain prints out where "execute w prog argc (query_options name q) =
      Inr (say (task_trace prints @ answer_text (file_sceptical n ls q) out))"
    using execute_answers [OF assms] by blast
  then show ?thesis
    by (intro exI [where x = prints] exI [where x = out])
      (simp add: main_program_def say_def answer_text_def file_sceptical_def)
qed

definition ex_world :: world where
  "ex_world = \<lparr>files = (\<lambda>name. Some (render_af 2 [Attack 1 2])), iter = sorted_list_of_set,
     sched = (\<lambda>k. 0), engines = (\<lambda>k. reference_engine)\<rparr>"

lemma ex_world_ok: "world_ok ex_world"
  using sorted_iter_ok reference_engine_ok by (simp add: world_ok_def ex_world_def)

lemma program_correct_witness:
  "\<exists>prints. main_program ex_world ''solver'' 7 (query_options ''a.i23'' 1) =
     Inr (\<lparr>cout = task_trace prints @ ln ''YES'', cerr = []\<rparr>, 0)"
proof -
  have fa: "file_attacks [Attack 1 2] = {(1, 2)}" by (simp add: file_attacks_def)
  have "1 \<in> P" if "preferred {1..2} {(1 :: nat, 2)} P" for P
  proof -
    have "admissible {1..2} {(1 :: nat, 2)} {1}" by (rule admissibleI) auto
    then have "admissible {1..2} {(1 :: nat, 2)} (P \<union> {1})"
      using preferred_admissible [OF that] unfolding admissible_def conflict_free_def defends_def by auto
    then have "P \<union> {1} = P" using preferred_maximal [OF that] by blast
    then show ?thesis by blast
  qed
  then have sc: "sceptical {1..2} (file_attacks [Attack 1 2]) 1" unfolding sceptical_def fa by blast
  have f: "file_ok 2 [Attack 1 2]" by (simp add: file_ok_def)
  have c: "files ex_world ''a.i23'' = Some (render_af 2 [Attack 1 2])" by (simp add: ex_world_def)
  have "\<exists>prints out. main_program ex_world ''solver'' 7 (query_options ''a.i23'' 1) =
    Inr (\<lparr>cout = task_trace prints @
      (if sceptical {1..2} (file_attacks [Attack 1 2]) 1 then ln ''YES'' else ln ''NO'' @ ln ''w '' @
         (if out = [] then [] else ln (concat (map (\<lambda>m. decimal m @ '' '') out)))), cerr = []\<rparr>, 0)"
    by (rule program_correct [where base = "''a''", OF f _ _ _ ex_world_ok c]) simp_all
  then show ?thesis unfolding if_P [OF sc] by blast
qed

text \<open>
  C21: \<open>main\<close> forgets the error status.  A call without a problem is reported by \<open>execute\<close> with 1, but the
  process exits with 0.
\<close>

theorem main_forgets_status:
  assumes "argc \<noteq> 1"
  shows "\<exists>con. execute w prog argc [OptF name, OptA query] = Inr (con, 1) \<and> cerr con \<noteq> [] \<and>
    main_program w prog argc [OptF name, OptA query] = Inr (con, 0)"
  using assms by (simp add: execute_def main_program_def options_new_def complain_def ln_def)

lemma main_forgets_status_witness:
  "\<exists>con. main_program ex_world ''solver'' 5 [OptF ''a.i23'', OptA ''1''] = Inr (con, 0) \<and> cerr con \<noteq> []"
  using main_forgets_status [of 5 ex_world "''solver''" "''a.i23''" "''1''"] by auto

text \<open>The two printers, over a list and over the indices of a vector, print the same.\<close>

theorem print_vector_correct: "print_vector v = Inr (print_list v)"
proof (cases v)
  case (Cons x rest)
  let ?body = "\<lambda>i out. bind_res (get_at v i) (\<lambda>x. Inr (out @ '' '' @ decimal x))"
  have "fold_res ?body [1..<1 + length ys] out = Inr (foldl (\<lambda>out m. out @ '' '' @ decimal m) out ys)"
    if "\<exists>zs. rest = ys @ zs" for ys out
    using that
  proof (induction ys rule: rev_induct)
    case (snoc y ys)
    then obtain zs where zs: "rest = ys @ y # zs" by auto
    then have "get_at v (1 + length ys) = Inr y" by (simp add: Cons nth_append)
    then show ?case using snoc zs by (simp add: fold_res_append)
  qed simp
  then show ?thesis by (simp add: print_vector_def print_list_def Cons)
qed (simp add: print_vector_def print_list_def)

end
