(* ===== verification/CadicalOptions.thy ===== *)
theory CadicalOptions
  imports Prelude Text
begin

text \<open>
  The options of the SAT solver: \<^verbatim>\<open>lib/cadical/src/options.hpp\<close>, \<^verbatim>\<open>options.cpp\<close>, \<^verbatim>\<open>config.cpp\<close> and the
  number parser of \<^verbatim>\<open>util.cpp\<close>.  Every solver the program creates runs this code: the constructor
  checks the table, sets the defaults and reads the environment.  The build is the default one
  (\<^verbatim>\<open>LOGGING\<close> and \<^verbatim>\<open>QUIET\<close> not defined); usage texts are left out.
\<close>

section \<open>The table\<close>

record option_row =
  opt_name :: string
  opt_def :: int
  opt_lo :: int
  opt_hi :: int
  opt_O :: nat
  opt_P :: bool
  opt_R :: bool

definition opt :: "string \<Rightarrow> int \<Rightarrow> int \<Rightarrow> int \<Rightarrow> nat \<Rightarrow> nat \<Rightarrow> nat \<Rightarrow> option_row" where
  "opt N V L H O' P R = \<lparr>opt_name = N, opt_def = V, opt_lo = L, opt_hi = H, opt_O = O',
     opt_P = (P \<noteq> 0), opt_R = (R \<noteq> 0)\<rparr>"

definition OPTIONS_a_to_l :: "option_row list" where
  "OPTIONS_a_to_l = [
    opt ''arena'' 1 0 1 0 0 1,
    opt ''arenacompact'' 1 0 1 0 0 1,
    opt ''arenasort'' 1 0 1 0 0 1,
    opt ''arenatype'' 3 1 3 0 0 1,
    opt ''binary'' 1 0 1 0 0 1,
    opt ''block'' 0 0 1 0 1 1,
    opt ''blockmaxclslim'' 100000 1 2000000000 2 0 1,
    opt ''blockminclslim'' 2 2 2000000000 0 0 1,
    opt ''blockocclim'' 100 1 2000000000 2 0 1,
    opt ''bump'' 1 0 1 0 0 1,
    opt ''bumpreason'' 1 0 1 0 0 1,
    opt ''bumpreasondepth'' 1 1 3 0 0 1,
    opt ''check'' 0 0 1 0 0 0,
    opt ''checkassumptions'' 1 0 1 0 0 0,
    opt ''checkconstraint'' 1 0 1 0 0 0,
    opt ''checkfailed'' 1 0 1 0 0 0,
    opt ''checkfrozen'' 0 0 1 0 0 0,
    opt ''checkproof'' 3 0 3 0 0 0,
    opt ''checkwitness'' 1 0 1 0 0 0,
    opt ''chrono'' 1 0 2 0 0 1,
    opt ''chronoalways'' 0 0 1 0 0 1,
    opt ''chronolevelim'' 100 0 2000000000 0 0 1,
    opt ''chronoreusetrail'' 1 0 1 0 0 1,
    opt ''compact'' 1 0 1 0 1 1,
    opt ''compactint'' 2000 1 2000000000 0 0 1,
    opt ''compactlim'' 100 0 1000 0 0 1,
    opt ''compactmin'' 100 1 2000000000 0 0 1,
    opt ''condition'' 0 0 1 0 0 1,
    opt ''conditionint'' 10000 1 2000000000 0 0 1,
    opt ''conditionmaxeff'' 10000000 0 2000000000 1 0 1,
    opt ''conditionmaxrat'' 100 1 2000000000 1 0 1,
    opt ''conditionmineff'' 1000000 0 2000000000 1 0 1,
    opt ''conditionreleff'' 100 1 100000 0 0 1,
    opt ''cover'' 0 0 1 0 1 1,
    opt ''covermaxclslim'' 100000 1 2000000000 2 0 1,
    opt ''covermaxeff'' 100000000 0 2000000000 1 0 1,
    opt ''coverminclslim'' 2 2 2000000000 0 0 1,
    opt ''covermineff'' 1000000 0 2000000000 1 0 1,
    opt ''coverreleff'' 4 1 100000 1 0 1,
    opt ''decompose'' 1 0 1 0 1 1,
    opt ''decomposerounds'' 2 1 16 1 0 1,
    opt ''deduplicate'' 1 0 1 0 1 1,
    opt ''eagersubsume'' 1 0 1 0 0 1,
    opt ''eagersubsumelim'' 20 1 1000 0 0 1,
    opt ''elim'' 1 0 1 0 1 1,
    opt ''elimands'' 1 0 1 0 0 1,
    opt ''elimaxeff'' 2000000000 0 2000000000 1 0 1,
    opt ''elimbackward'' 1 0 1 0 0 1,
    opt ''elimboundmax'' 16 (- 1) 2000000 1 0 1,
    opt ''elimboundmin'' 0 (- 1) 2000000 0 0 1,
    opt ''elimclslim'' 100 2 2000000000 2 0 1,
    opt ''elimequivs'' 1 0 1 0 0 1,
    opt ''elimineff'' 10000000 0 2000000000 1 0 1,
    opt ''elimint'' 2000 1 2000000000 0 0 1,
    opt ''elimites'' 1 0 1 0 0 1,
    opt ''elimlimited'' 1 0 1 0 0 1,
    opt ''elimocclim'' 100 0 2000000000 2 0 1,
    opt ''elimprod'' 1 0 10000 0 0 1,
    opt ''elimreleff'' 1000 1 100000 1 0 1,
    opt ''elimrounds'' 2 1 512 1 0 1,
    opt ''elimsubst'' 1 0 1 0 0 1,
    opt ''elimsum'' 1 0 10000 0 0 1,
    opt ''elimxorlim'' 5 2 27 1 0 1,
    opt ''elimxors'' 1 0 1 0 0 1,
    opt ''emagluefast'' 33 1 2000000000 0 0 1,
    opt ''emaglueslow'' 100000 1 2000000000 0 0 1,
    opt ''emajump'' 100000 1 2000000000 0 0 1,
    opt ''emalevel'' 100000 1 2000000000 0 0 1,
    opt ''emasize'' 100000 1 2000000000 0 0 1,
    opt ''ematrailfast'' 100 1 2000000000 0 0 1,
    opt ''ematrailslow'' 100000 1 2000000000 0 0 1,
    opt ''externallrat'' 0 0 1 0 0 1,
    opt ''flush'' 0 0 1 0 0 1,
    opt ''flushfactor'' 3 1 1000 0 0 1,
    opt ''flushint'' 100000 1 2000000000 0 0 1,
    opt ''forcephase'' 0 0 1 0 0 1,
    opt ''frat'' 0 0 2 0 0 1,
    opt ''idrup'' 0 0 1 0 0 1,
    opt ''ilb'' 1 0 1 0 0 1,
    opt ''ilbassumptions'' 1 0 1 0 0 1,
    opt ''inprocessing'' 1 0 1 0 0 1,
    opt ''instantiate'' 0 0 1 0 1 1,
    opt ''instantiateclslim'' 3 2 2000000000 0 0 1,
    opt ''instantiateocclim'' 1 1 2000000000 2 0 1,
    opt ''instantiateonce'' 1 0 1 0 0 1,
    opt ''lrat'' 0 0 1 0 0 1,
    opt ''lucky'' 1 0 1 0 0 1]"

definition OPTIONS_m_to_w :: "int \<Rightarrow> option_row list" where
  "OPTIONS_m_to_w reportdefault = [
    opt ''minimize'' 1 0 1 0 0 1,
    opt ''minimizedepth'' 1000 0 1000 0 0 1,
    opt ''otfs'' 1 0 1 0 0 1,
    opt ''phase'' 1 0 1 0 0 1,
    opt ''probe'' 1 0 1 0 1 1,
    opt ''probehbr'' 1 0 1 0 0 1,
    opt ''probeint'' 5000 1 2000000000 0 0 1,
    opt ''probemaxeff'' 100000000 0 2000000000 1 0 1,
    opt ''probemineff'' 1000000 0 2000000000 1 0 1,
    opt ''probereleff'' 20 1 100000 1 0 1,
    opt ''proberounds'' 1 1 16 1 0 1,
    opt ''profile'' 2 0 4 0 0 0,
    opt ''quiet'' 0 0 1 0 0 0,
    opt ''radixsortlim'' 800 0 2000000000 0 0 1,
    opt ''realtime'' 0 0 1 0 0 0,
    opt ''reduce'' 1 0 1 0 0 1,
    opt ''reduceint'' 300 10 1000000 0 0 1,
    opt ''reducetarget'' 75 10 100 0 0 1,
    opt ''reducetier1glue'' 2 1 2000000000 0 0 1,
    opt ''reducetier2glue'' 6 1 2000000000 0 0 1,
    opt ''reluctant'' 1024 0 2000000000 0 0 1,
    opt ''reluctantmax'' 1048576 0 2000000000 0 0 1,
    opt ''rephase'' 1 0 1 0 0 1,
    opt ''rephaseint'' 1000 1 2000000000 0 0 1,
    opt ''report'' reportdefault 0 1 0 0 1,
    opt ''reportall'' 0 0 1 0 0 1,
    opt ''reportsolve'' 0 0 1 0 0 1,
    opt ''restart'' 1 0 1 0 0 1,
    opt ''restartint'' 2 1 2000000000 0 0 1,
    opt ''restartmargin'' 10 0 100 0 0 1,
    opt ''restartreusetrail'' 1 0 1 0 0 1,
    opt ''restoreall'' 0 0 2 0 0 1,
    opt ''restoreflush'' 0 0 1 0 0 1,
    opt ''reverse'' 0 0 1 0 0 1,
    opt ''score'' 1 0 1 0 0 1,
    opt ''scorefactor'' 950 500 1000 0 0 1,
    opt ''seed'' 0 0 2000000000 0 0 1,
    opt ''shrink'' 3 0 3 0 0 1,
    opt ''shrinkreap'' 1 0 1 0 0 1,
    opt ''shuffle'' 0 0 1 0 0 1,
    opt ''shufflequeue'' 1 0 1 0 0 1,
    opt ''shufflerandom'' 0 0 1 0 0 1,
    opt ''shufflescores'' 1 0 1 0 0 1,
    opt ''stabilize'' 1 0 1 0 0 1,
    opt ''stabilizefactor'' 200 101 2000000000 0 0 1,
    opt ''stabilizeint'' 1000 1 2000000000 0 0 1,
    opt ''stabilizemaxint'' 2000000000 1 2000000000 0 0 1,
    opt ''stabilizeonly'' 0 0 1 0 0 1,
    opt ''stats'' 0 0 1 0 0 1,
    opt ''subsume'' 1 0 1 0 1 1,
    opt ''subsumebinlim'' 10000 0 2000000000 1 0 1,
    opt ''subsumeclslim'' 100 0 2000000000 2 0 1,
    opt ''subsumeint'' 10000 1 2000000000 0 0 1,
    opt ''subsumelimited'' 1 0 1 0 0 1,
    opt ''subsumemaxeff'' 100000000 0 2000000000 1 0 1,
    opt ''subsumemineff'' 1000000 0 2000000000 1 0 1,
    opt ''subsumeocclim'' 100 0 2000000000 1 0 1,
    opt ''subsumereleff'' 1000 1 100000 1 0 1,
    opt ''subsumestr'' 1 0 1 0 0 1,
    opt ''target'' 1 0 2 0 0 1,
    opt ''terminateint'' 10 0 10000 0 0 1,
    opt ''ternary'' 1 0 1 0 1 1,
    opt ''ternarymaxadd'' 1000 0 10000 1 0 1,
    opt ''ternarymaxeff'' 100000000 0 2000000000 1 0 1,
    opt ''ternarymineff'' 1000000 1 2000000000 1 0 1,
    opt ''ternaryocclim'' 100 1 2000000000 2 0 1,
    opt ''ternaryreleff'' 10 1 100000 1 0 1,
    opt ''ternaryrounds'' 2 1 16 1 0 1,
    opt ''transred'' 1 0 1 0 1 1,
    opt ''transredmaxeff'' 100000000 0 2000000000 1 0 1,
    opt ''transredmineff'' 1000000 0 2000000000 1 0 1,
    opt ''transredreleff'' 100 1 100000 1 0 1,
    opt ''verbose'' 0 0 3 0 0 0,
    opt ''veripb'' 0 0 4 0 0 1,
    opt ''vivify'' 1 0 1 0 1 1,
    opt ''vivifyinst'' 1 0 1 0 0 1,
    opt ''vivifymaxeff'' 20000000 0 2000000000 1 0 1,
    opt ''vivifymineff'' 20000 0 2000000000 1 0 1,
    opt ''vivifyonce'' 0 0 2 0 0 1,
    opt ''vivifyredeff'' 75 0 1000 1 0 1,
    opt ''vivifyreleff'' 20 1 100000 1 0 1,
    opt ''walk'' 1 0 1 0 0 1,
    opt ''walkmaxeff'' 10000000 0 2000000000 1 0 1,
    opt ''walkmineff'' 100000 0 10000000 1 0 1,
    opt ''walknonstable'' 1 0 1 0 0 1,
    opt ''walkredundant'' 0 0 1 0 0 1,
    opt ''walkreleff'' 20 1 100000 1 0 1]"

definition OPTIONS :: "int \<Rightarrow> option_row list" where
  "OPTIONS reportdefault = OPTIONS_a_to_l @ OPTIONS_m_to_w reportdefault"

section \<open>C strings\<close>

text \<open>\<^verbatim>\<open>strcmp\<close>: the sign of the first difference of bytes; the end of a string is the byte 0.\<close>

definition byte :: "char \<Rightarrow> int" where
  "byte c = of_char c"

fun strcmp :: "string \<Rightarrow> string \<Rightarrow> int" where
  "strcmp [] [] = 0"
| "strcmp [] (y # ys) = - 1"
| "strcmp (x # xs) [] = 1"
| "strcmp (x # xs) (y # ys) = (if x = y then strcmp xs ys else byte x - byte y)"

definition str_less :: "string \<Rightarrow> string \<Rightarrow> bool" where
  "str_less x y \<longleftrightarrow> strcmp x y < 0"

definition names_sorted :: "option_row list \<Rightarrow> bool" where
  "names_sorted tbl \<longleftrightarrow> successively str_less (map opt_name tbl)"

lemma table_sorted: "names_sorted (OPTIONS reportdefault)"
  by code_simp

lemma length_table: "length (OPTIONS reportdefault) = 174"
  by (simp add: OPTIONS_def OPTIONS_a_to_l_def OPTIONS_m_to_w_def)

section \<open>Looking up an option\<close>

function has_loop :: "option_row list \<Rightarrow> string \<Rightarrow> nat \<Rightarrow> nat \<Rightarrow> nat option" where
  "has_loop tbl name l r =
     (if l < r
      then let m = l + (r - l) div 2; tmp = strcmp name (opt_name (tbl ! m))
           in if tmp = 0 then Some m
              else if tmp < 0 then has_loop tbl name l m
              else has_loop tbl name (m + 1) r
      else None)"
  by pat_completeness auto
termination by (relation "measure (\<lambda>(tbl, name, l, r). r - l)") auto

declare has_loop.simps [simp del]

text \<open>\<^verbatim>\<open>Options::has\<close>: binary search in the table.\<close>

definition has :: "option_row list \<Rightarrow> string \<Rightarrow> nat option" where
  "has tbl name = has_loop tbl name 0 (length tbl)"

lemma strcmp_self [simp]: "strcmp x x = 0"
  by (induction x) auto

lemma byte_inj: "byte x = byte y \<longleftrightarrow> x = y"
  by (simp add: byte_def)

lemma strcmp_zero: "strcmp x y = 0 \<longleftrightarrow> x = y"
  by (induction x y rule: strcmp.induct) (auto simp: byte_inj)

lemma strcmp_swap: "strcmp x y < 0 \<longleftrightarrow> strcmp y x > 0"
  by (induction x y rule: strcmp.induct) auto

lemma str_less_trans: "str_less x y \<Longrightarrow> str_less y z \<Longrightarrow> str_less x z"
  unfolding str_less_def
proof (induction x y arbitrary: z rule: strcmp.induct)
  case (2 y ys)
  then show ?case by (cases z) auto
next
  case (4 x xs y ys)
  then show ?case by (cases z) (auto simp: byte_inj split: if_splits)
qed auto

lemma names_sorted_nth:
  assumes "names_sorted tbl" "i < j" "j < length tbl"
  shows "strcmp (opt_name (tbl ! i)) (opt_name (tbl ! j)) < 0"
proof -
  have "sorted_wrt str_less (map opt_name tbl)"
    using assms(1) successively_conv_sorted_wrt [of str_less] str_less_trans
    unfolding names_sorted_def transp_def by blast
  then show ?thesis using assms(2,3) by (simp add: sorted_wrt_iff_nth_less str_less_def)
qed

lemma has_loop_correct:
  assumes "names_sorted tbl" "r \<le> length tbl"
    and "\<And>i. i < length tbl \<Longrightarrow> opt_name (tbl ! i) = name \<Longrightarrow> l \<le> i \<and> i < r"
  shows "case has_loop tbl name l r of
      Some i \<Rightarrow> i < length tbl \<and> opt_name (tbl ! i) = name
    | None \<Rightarrow> \<forall>i < length tbl. opt_name (tbl ! i) \<noteq> name"
  using assms
proof (induction tbl name l r rule: has_loop.induct [case_names step])
  case (step tbl name l r)
  show ?case
  proof (cases "l < r")
    case False
    then show ?thesis using step.prems(3) by (subst has_loop.simps) fastforce
  next
    case True
    define m where "m = l + (r - l) div 2"
    define tmp where "tmp = strcmp name (opt_name (tbl ! m))"
    have m: "l \<le> m" "m < r" "m < length tbl" using True step.prems(2) by (auto simp: m_def)
    have unfold: "has_loop tbl name l r = (if tmp = 0 then Some m
        else if tmp < 0 then has_loop tbl name l m else has_loop tbl name (m + 1) r)"
      by (subst has_loop.simps) (simp add: True m_def tmp_def Let_def)
    consider "tmp = 0" | "tmp < 0" | "tmp > 0" by linarith
    then show ?thesis
    proof cases
      case 1
      then have "name = opt_name (tbl ! m)" by (simp add: tmp_def strcmp_zero)
      then show ?thesis using m(3) 1 unfolding unfold by simp
    next
      case 2
      have "i < m" if "i < length tbl" "opt_name (tbl ! i) = name" for i
      proof (rule ccontr)
        assume "\<not> i < m"
        then consider "i = m" | "m < i" by linarith
        then show False
        proof cases
          case 1
          then show False using 2 that by (simp add: tmp_def)
        next
          case 2
          then have "strcmp (opt_name (tbl ! m)) name < 0"
            using names_sorted_nth [OF step.prems(1) 2 that(1)] that(2) by simp
          then have "strcmp name (opt_name (tbl ! m)) > 0" by (rule iffD1 [OF strcmp_swap])
          then show False using \<open>tmp < 0\<close> by (simp add: tmp_def)
        qed
      qed
      then have "case has_loop tbl name l m of
          Some i \<Rightarrow> i < length tbl \<and> opt_name (tbl ! i) = name
        | None \<Rightarrow> \<forall>i < length tbl. opt_name (tbl ! i) \<noteq> name"
        using step.IH(1) [OF True m_def tmp_def] 2 step.prems m by simp
      then show ?thesis using 2 by (simp add: unfold)
    next
      case 3
      have "m + 1 \<le> i" if "i < length tbl" "opt_name (tbl ! i) = name" for i
      proof (rule ccontr)
        assume "\<not> m + 1 \<le> i"
        then consider "i = m" | "i < m" by linarith
        then show False
        proof cases
          case 1
          then show False using 3 that by (simp add: tmp_def)
        next
          case 2
          then show False
            using names_sorted_nth [OF step.prems(1) 2 m(3)] that(2) \<open>tmp > 0\<close> by (simp add: tmp_def)
        qed
      qed
      then have "case has_loop tbl name (m + 1) r of
          Some i \<Rightarrow> i < length tbl \<and> opt_name (tbl ! i) = name
        | None \<Rightarrow> \<forall>i < length tbl. opt_name (tbl ! i) \<noteq> name"
        using step.IH(2) [OF True m_def tmp_def] 3 step.prems by simp
      then show ?thesis using 3 by (simp add: unfold)
    qed
  qed
qed

text \<open>Names are different, so the search finds the one row of a name.\<close>

lemma has_correct:
  assumes "names_sorted tbl"
  shows "has tbl name = Some i \<longleftrightarrow> i < length tbl \<and> opt_name (tbl ! i) = name"
proof -
  note C = has_loop_correct [OF assms, of "length tbl" name 0]
  have uniq: "i = j" if "i < length tbl" "j < length tbl" "opt_name (tbl ! i) = opt_name (tbl ! j)" for i j
    using that names_sorted_nth [OF assms, of i j] names_sorted_nth [OF assms, of j i]
    by (cases i j rule: linorder_cases) auto
  show ?thesis
  proof (cases "has tbl name")
    case None
    then show ?thesis using C by (auto simp: has_def)
  next
    case (Some j)
    then show ?thesis using C uniq [of i j] by (auto simp: has_def)
  qed
qed

section \<open>Numbers\<close>

definition int64 :: "int \<Rightarrow> int res" where
  "int64 v = (if - (2 ^ 63) \<le> v \<and> v < 2 ^ 63 then Inr v else Inl SignedOverflow)"

definition digit_val :: "char \<Rightarrow> int" where
  "digit_val c = int (char_code c) - 48"

definition bound :: int where
  "bound = 2 ^ 31"

fun mantissa_loop :: "int \<Rightarrow> string \<Rightarrow> int \<times> string" where
  "mantissa_loop mantissa [] = (mantissa, [])"
| "mantissa_loop mantissa (c # cs) =
     (if is_digit c
      then let m1 = (if bound div 10 < mantissa then bound else mantissa * 10)
           in mantissa_loop (if bound - digit_val c < m1 then bound else m1 + digit_val c) cs
      else (mantissa, c # cs))"

fun exponent_loop :: "int \<Rightarrow> string \<Rightarrow> int \<times> string" where
  "exponent_loop e [] = (e, [])"
| "exponent_loop e (c # cs) =
     (if is_digit c then exponent_loop (if e \<noteq> 0 then 10 else digit_val c) cs else (e, c # cs))"

text \<open>Multiplication by ten in \<^verbatim>\<open>int64_t\<close>, \<open>exponent\<close> times.\<close>

fun scale :: "nat \<Rightarrow> int \<Rightarrow> int res" where
  "scale 0 v = Inr v"
| "scale (Suc n) v = bind_res (int64 (v * 10)) (scale n)"

definition clamp_int :: "int \<Rightarrow> int" where
  "clamp_int v = (if v < - (2 ^ 31) then - (2 ^ 31) else if v > 2 ^ 31 - 1 then 2 ^ 31 - 1 else v)"

definition parse_int_str :: "string \<Rightarrow> int option res" where
  "parse_int_str val_str =
     (if val_str = ''true'' then Inr (Some 1)
      else if val_str = ''false'' then Inr (Some 0)
      else let (sign, p) = (case val_str of [] \<Rightarrow> (1, []) | c # cs \<Rightarrow> if c = CHR ''-'' then (- 1, cs) else (1, val_str))
      in case p of
           [] \<Rightarrow> Inr None
         | ch # cs \<Rightarrow>
             if \<not> is_digit ch then Inr None
             else let (mantissa, rest) = mantissa_loop (digit_val ch) cs
                  in case rest of
                       [] \<Rightarrow> Inr (Some (clamp_int (sign * mantissa)))
                     | c # rest' \<Rightarrow>
                         if c \<noteq> CHR ''e'' then Inr None
                         else let (exponent, rest'') = exponent_loop 0 rest'
                              in if rest'' \<noteq> [] then Inr None
                                 else bind_res (scale (nat exponent) mantissa) (\<lambda>val64.
                                      Inr (Some (clamp_int (sign * val64)))))"

lemma clamp_int_range: "- (2 ^ 31) \<le> clamp_int v \<and> clamp_int v < 2 ^ 31"
  by (simp add: clamp_int_def)

lemma parse_int_str_range:
  "parse_int_str s = Inr (Some v) \<Longrightarrow> - (2 ^ 31) \<le> v \<and> v < 2 ^ 31"
  using clamp_int_range
  by (auto simp: parse_int_str_def bind_res_eq_Inr split: if_splits list.splits prod.splits)

section \<open>Option values\<close>

text \<open>The members of an \<^verbatim>\<open>Options\<close> object, in the order of the table.\<close>

definition in_bounds :: "option_row \<Rightarrow> int \<Rightarrow> bool" where
  "in_bounds row v \<longleftrightarrow> opt_lo row \<le> v \<and> v \<le> opt_hi row"

definition opts_ok :: "option_row list \<Rightarrow> int list \<Rightarrow> bool" where
  "opts_ok tbl vals \<longleftrightarrow> list_all2 in_bounds tbl vals"

text \<open>
  What the code relies on for a row: the default within the limits, 32 bit limits, a name that fits
  the buffer of the environment key, switches for preprocessing, and a default that can be scaled.
\<close>

definition row_ok :: "option_row \<Rightarrow> bool" where
  "row_ok row \<longleftrightarrow> in_bounds row (opt_def row) \<and> - (2 ^ 31) \<le> opt_lo row \<and> opt_hi row < 2 ^ 31 \<and>
     length (opt_name row) < 71 \<and> (opt_P row \<longrightarrow> opt_lo row = 0 \<and> opt_hi row = 1) \<and>
     (opt_O row \<noteq> 0 \<longrightarrow> 0 \<le> opt_def row \<and> opt_def row \<le> (if opt_O row = 1 then 2000000000 else 100000000))"

definition bound_value :: "option_row \<Rightarrow> int \<Rightarrow> int" where
  "bound_value row v =
     (let v1 = (if v < opt_lo row then opt_lo row else v)
      in if v1 > opt_hi row then opt_hi row else v1)"

text \<open>\<^verbatim>\<open>Options::set\<close> on a row, and by name.\<close>

definition set_row :: "option_row \<Rightarrow> int \<Rightarrow> int \<Rightarrow> int" where
  "set_row row new_val old_val = (if old_val = new_val then old_val else bound_value row new_val)"

definition Options_set :: "option_row list \<Rightarrow> string \<Rightarrow> int \<Rightarrow> int list \<Rightarrow> bool \<times> int list" where
  "Options_set tbl name v vals =
     (case has tbl name of
        None \<Rightarrow> (False, vals)
      | Some i \<Rightarrow> (True, vals[i := set_row (tbl ! i) v (vals ! i)]))"

definition Options_get :: "option_row list \<Rightarrow> string \<Rightarrow> int list \<Rightarrow> int" where
  "Options_get tbl name vals = (case has tbl name of None \<Rightarrow> 0 | Some i \<Rightarrow> vals ! i)"

definition is_preprocessing_option :: "option_row list \<Rightarrow> string \<Rightarrow> bool" where
  "is_preprocessing_option tbl name = (case has tbl name of None \<Rightarrow> False | Some i \<Rightarrow> opt_P (tbl ! i))"

text \<open>
  \<^verbatim>\<open>--<name>\<close>, \<^verbatim>\<open>--no-<name>\<close> and \<^verbatim>\<open>--<name>=<val>\<close>: the name (as the C string the callers read) and the
  value, when the result is \<^verbatim>\<open>true\<close>.
\<close>

definition parse_long_option :: "option_row list \<Rightarrow> string \<Rightarrow> (string \<times> int) option res" where
  "parse_long_option tbl arg =
     (if take 2 arg \<noteq> ''--'' then Inr None
      else let has_no_prefix = (take 3 (drop 2 arg) = ''no-'');
               rest = drop (if has_no_prefix then 5 else 2) arg;
               name = takeWhile (\<lambda>c. c \<noteq> CHR ''='') rest;
               after = drop (length name) rest
           in if has tbl name = None then Inr None
              else case after of
                     [] \<Rightarrow> Inr (Some (name, if has_no_prefix then 0 else 1))
                   | eq # val_str \<Rightarrow> bind_res (parse_int_str val_str) (\<lambda>r.
                       Inr (map_option (\<lambda>v. (name, v)) r)))"

section \<open>Initialization\<close>

definition upper :: "char \<Rightarrow> char" where
  "upper c = (if 97 \<le> char_code c \<and> char_code c \<le> 122 then char_of (char_code c - 32) else c)"

definition env_key :: "option_row \<Rightarrow> string" where
  "env_key row = ''CADICAL_'' @ map upper (opt_name row)"

definition initialize_from_environment ::
    "(string \<Rightarrow> string option) \<Rightarrow> option_row \<Rightarrow> int \<Rightarrow> int res" where
  "initialize_from_environment getenv row val =
     (if \<not> length (opt_name row) + 8 + 1 < 80 then Inl Aborted
      else case getenv (env_key row) of
        None \<Rightarrow> Inr val
      | Some val_str \<Rightarrow> bind_res (parse_int_str val_str) (\<lambda>r.
          case r of None \<Rightarrow> Inr val | Some v \<Rightarrow> Inr (bound_value row v)))"

text \<open>The consistency checks of the constructor, row by row, with the name before it.\<close>

fun check_rows :: "string \<Rightarrow> option_row list \<Rightarrow> int list res" where
  "check_rows prev [] = Inr []"
| "check_rows prev (row # rows) =
     (if opt_lo row > opt_def row \<or> opt_hi row < opt_def row \<or> strcmp prev (opt_name row) > 0
      then Inl Aborted
      else bind_res (check_rows (opt_name row) rows) (\<lambda>vals. Inr (opt_def row # vals)))"

fun map2_res :: "('a \<Rightarrow> 'b \<Rightarrow> 'c res) \<Rightarrow> 'a list \<Rightarrow> 'b list \<Rightarrow> 'c list res" where
  "map2_res f (x # xs) (y # ys) = bind_res (f x y) (\<lambda>z. bind_res (map2_res f xs ys) (\<lambda>zs. Inr (z # zs)))"
| "map2_res f _ _ = Inr []"

definition Options_new :: "(string \<Rightarrow> string option) \<Rightarrow> option_row list \<Rightarrow> int list res" where
  "Options_new getenv tbl =
     bind_res (check_rows [] tbl) (\<lambda>vals.
       if has tbl ''aaaaa'' \<noteq> None \<or> has tbl ''non-existing-option'' \<noteq> None \<or> has tbl ''zzzzz'' \<noteq> None
       then Inl Aborted
       else map2_res (initialize_from_environment getenv) tbl vals)"

section \<open>Changing many options\<close>

text \<open>The powers of two and ten, up to the first above \<^verbatim>\<open>INT_MAX\<close>.\<close>

fun power_limit :: "int \<Rightarrow> nat \<Rightarrow> int \<Rightarrow> int res" where
  "power_limit b 0 factor = Inr factor"
| "power_limit b (Suc n) factor =
     (if factor \<le> 2 ^ 31 - 1 then bind_res (int64 (factor * b)) (power_limit b n) else Inr factor)"

definition optimize_row :: "int \<Rightarrow> int \<Rightarrow> option_row \<Rightarrow> int \<Rightarrow> int res" where
  "optimize_row factor2 factor10 row val =
     (if opt_O row = 0 then Inr val
      else bind_res (int64 ((if opt_O row = 1 then factor2 else factor10) * opt_def row)) (\<lambda>v.
        let new_val = (if v > opt_hi row then opt_hi row else v)
        in if new_val = opt_def row then Inr val
           else if new_val > 2 ^ 31 - 1 then Inl Aborted
           else Inr new_val))"

definition Options_optimize :: "option_row list \<Rightarrow> int \<Rightarrow> int list \<Rightarrow> int list res" where
  "Options_optimize tbl val vals =
     (if val < 0 then Inr vals
      else let n = nat (if val > 31 then 31 else val)
           in bind_res (power_limit 2 n 1) (\<lambda>factor2.
              bind_res (power_limit 10 n 1) (\<lambda>factor10.
              map2_res (optimize_row factor2 factor10) tbl vals)))"

definition disable_preprocessing :: "option_row list \<Rightarrow> int list \<Rightarrow> int list" where
  "disable_preprocessing tbl vals =
     map2 (\<lambda>row v. if \<not> opt_P row then v else if v = 0 then v else 0) tbl vals"

definition reset_default_values :: "option_row list \<Rightarrow> int list \<Rightarrow> int list" where
  "reset_default_values tbl vals =
     map2 (\<lambda>row v. if \<not> opt_R row then v else if v = opt_def row then v else opt_def row) tbl vals"

text \<open>\<^verbatim>\<open>Options::copy\<close> overwrites only where this object differs from the default.\<close>

definition Options_copy :: "option_row list \<Rightarrow> int list \<Rightarrow> int list \<Rightarrow> int list" where
  "Options_copy tbl this other =
     map2 (\<lambda>row (v, w). if v = opt_def row then w else v) tbl (zip this other)"

section \<open>Configurations\<close>

definition sat_config :: "(string \<times> int) list" where
  "sat_config = [(''elimreleff'', 10), (''stabilizeonly'', 1), (''subsumereleff'', 60)]"

definition unsat_config :: "(string \<times> int) list" where
  "unsat_config = [(''stabilize'', 0), (''walk'', 0)]"

definition Config_has :: "string \<Rightarrow> bool" where
  "Config_has name \<longleftrightarrow> name = ''default'' \<or> name = ''plain'' \<or> name = ''sat'' \<or> name = ''unsat''"

text \<open>A configuration is applied option by option; an unknown name fails the assertion.\<close>

definition set_all :: "option_row list \<Rightarrow> (string \<times> int) list \<Rightarrow> int list \<Rightarrow> int list res" where
  "set_all tbl config vals = fold_res (\<lambda>(name, v) vals.
     if has tbl name = None then Inl Aborted else Inr (snd (Options_set tbl name v vals))) config vals"

definition Config_set :: "option_row list \<Rightarrow> string \<Rightarrow> int list \<Rightarrow> (bool \<times> int list) res" where
  "Config_set tbl name vals =
     (if name = ''default'' then Inr (True, reset_default_values tbl vals)
      else if name = ''plain'' then Inr (True, disable_preprocessing tbl vals)
      else if name = ''sat'' then bind_res (set_all tbl sat_config vals) (\<lambda>v. Inr (True, v))
      else if name = ''unsat'' then bind_res (set_all tbl unsat_config vals) (\<lambda>v. Inr (True, v))
      else Inr (False, vals))"

section \<open>The table is consistent\<close>

lemma rows_a_to_l: "list_all row_ok OPTIONS_a_to_l"
  by code_simp

lemma row_ok_switch: "v = 0 \<or> v = 1 \<Longrightarrow> row_ok (opt ''report'' v 0 1 0 0 1)"
  by (auto simp: row_ok_def in_bounds_def opt_def)

lemma rows_m_to_w: "list_all row_ok (OPTIONS_m_to_w 0)" "list_all row_ok (OPTIONS_m_to_w 1)"
  by code_simp+

lemma table_ok: "r = 0 \<or> r = 1 \<Longrightarrow> list_all row_ok (OPTIONS r)"
  using rows_a_to_l rows_m_to_w by (auto simp: OPTIONS_def)

lemma check_rows_ok:
  assumes "list_all row_ok tbl" "names_sorted tbl"
    and "tbl \<noteq> [] \<Longrightarrow> strcmp prev (opt_name (hd tbl)) \<le> 0"
  shows "check_rows prev tbl = Inr (map opt_def tbl)"
  using assms
proof (induction tbl arbitrary: prev)
  case (Cons row rows)
  have "strcmp (opt_name row) (opt_name (hd rows)) \<le> 0" if "rows \<noteq> []"
    using that Cons.prems(2)
    by (cases rows) (auto simp: names_sorted_def str_less_def)
  moreover have "names_sorted rows" using Cons.prems(2)
    by (cases rows) (auto simp: names_sorted_def)
  ultimately have "check_rows (opt_name row) rows = Inr (map opt_def rows)"
    using Cons.IH Cons.prems(1) by simp
  then show ?case using Cons.prems by (auto simp: row_ok_def in_bounds_def)
qed simp

lemma map2_res_ok:
  assumes "length xs = length ys" "\<And>i. i < length xs \<Longrightarrow> f (xs ! i) (ys ! i) = Inr (g (xs ! i) (ys ! i))"
  shows "map2_res f xs ys = Inr (map2 g xs ys)"
  using assms
proof (induction xs ys rule: list_induct2)
  case (Cons x xs y ys)
  have "f x y = Inr (g x y)" using Cons.prems [of 0] by simp
  moreover have "map2_res f xs ys = Inr (map2 g xs ys)"
    using Cons.IH Cons.prems [of "Suc i" for i] by simp
  ultimately show ?case by simp
qed simp

lemma map2_res_fault:
  "length xs = length ys \<Longrightarrow> map2_res f xs ys = Inl e \<Longrightarrow> \<exists>i < length xs. f (xs ! i) (ys ! i) = Inl e"
proof (induction xs ys rule: list_induct2)
  case (Cons x xs y ys)
  then show ?case by (cases "f x y") (fastforce simp: bind_res_def split: sum.splits)+
qed simp

lemma map2_res_each:
  "length xs = length ys \<Longrightarrow> map2_res f xs ys = Inr zs \<Longrightarrow> \<forall>i < length xs. \<exists>w. f (xs ! i) (ys ! i) = Inr w"
proof (induction xs ys arbitrary: zs rule: list_induct2)
  case (Cons x xs y ys)
  then show ?case by (auto simp: bind_res_eq_Inr less_Suc_eq_0_disj)
qed simp

section \<open>Powers and scaling stay within 64 bits\<close>

lemma power_limit_ok:
  assumes "2 \<le> b" "b \<le> 10" "1 \<le> factor" "factor \<le> 2 ^ 31 * b"
  shows "\<exists>v. power_limit b n factor = Inr v \<and> 1 \<le> v \<and> v \<le> 2 ^ 31 * b"
  using assms
proof (induction n arbitrary: factor)
  case (Suc n)
  show ?case
  proof (cases "factor \<le> 2 ^ 31 - 1")
    case True
    have up: "factor * b \<le> 2 ^ 31 * b" using True Suc.prems by (simp add: mult_right_mono)
    have lo: "1 \<le> factor * b" using Suc.prems mult_mono [of 1 factor 1 b] by simp
    have "factor * b < 2 ^ 63" using up Suc.prems(2) by simp
    then have "int64 (factor * b) = Inr (factor * b)" using lo by (simp add: int64_def)
    then show ?thesis using True Suc.IH [OF Suc.prems(1,2) lo up] by simp
  next
    case False
    then show ?thesis using Suc.prems by simp
  qed
qed simp

lemma power_limit_2:
  assumes "1 \<le> factor" "factor * 2 ^ n \<le> 2 ^ 31"
  shows "\<exists>v. power_limit 2 n factor = Inr v \<and> 1 \<le> v \<and> v \<le> 2 ^ 31"
  using assms
proof (induction n arbitrary: factor)
  case (Suc n)
  show ?case
  proof (cases "factor \<le> 2 ^ 31 - 1")
    case True
    then have "int64 (factor * 2) = Inr (factor * 2)" using Suc.prems(1) by (simp add: int64_def)
    then show ?thesis using True Suc.IH [of "factor * 2"] Suc.prems by (simp add: mult.assoc)
  next
    case False
    have "factor \<le> 2 ^ 31" using Suc.prems mult_left_mono [of 1 "2 ^ Suc n" factor]
        order.trans [OF _ Suc.prems(2), of factor] one_le_power [of "2 :: int" "Suc n"]
      by (simp only: mult_1_right)
    then show ?thesis using False Suc.prems(1) by simp
  qed
qed simp

lemma optimize_row_ok:
  assumes "row_ok row" "in_bounds row v" "1 \<le> f2" "f2 \<le> 2 ^ 31" "1 \<le> f10" "f10 \<le> 2 ^ 31 * 10"
  shows "\<exists>w. optimize_row f2 f10 row v = Inr w \<and> in_bounds row w"
proof (cases "opt_O row = 0")
  case True
  then show ?thesis using assms(2) by (simp add: optimize_row_def)
next
  case False
  define f where "f = (if opt_O row = 1 then f2 else f10)"
  have f: "1 \<le> f" using assms(3,5) by (simp add: f_def)
  have d: "0 \<le> opt_def row" using assms(1) False by (simp add: row_ok_def)
  have "f * opt_def row < 2 ^ 63"
  proof (cases "opt_O row = 1")
    case True
    then have "f * opt_def row \<le> 2 ^ 31 * 2000000000"
      using assms d by (intro mult_mono) (auto simp: f_def row_ok_def)
    then show ?thesis by simp
  next
    case False
    then have "f * opt_def row \<le> (2 ^ 31 * 10) * 100000000"
      using assms d \<open>opt_O row \<noteq> 0\<close> by (intro mult_mono) (auto simp: f_def row_ok_def)
    then show ?thesis by simp
  qed
  moreover have ge: "opt_def row \<le> f * opt_def row" using f d mult_right_mono [of 1 f] by simp
  ultimately have "int64 (f * opt_def row) = Inr (f * opt_def row)" using d by (simp add: int64_def)
  then have "optimize_row f2 f10 row v =
      (let w = min (f * opt_def row) (opt_hi row) in
       if w = opt_def row then Inr v else if w > 2 ^ 31 - 1 then Inl Aborted else Inr w)"
    using False by (simp add: optimize_row_def f_def min_def)
  then show ?thesis using assms(1,2) ge by (auto simp: row_ok_def in_bounds_def Let_def)
qed

section \<open>Every operation keeps the values within their bounds\<close>

lemma opts_ok_iff:
  "opts_ok tbl vals \<longleftrightarrow> length vals = length tbl \<and> (\<forall>i < length tbl. in_bounds (tbl ! i) (vals ! i))"
  by (auto simp: opts_ok_def list_all2_conv_all_nth)

lemma bound_value_in: "opt_lo row \<le> opt_hi row \<Longrightarrow> in_bounds row (bound_value row v)"
  by (simp add: bound_value_def in_bounds_def)

lemma bound_value_id: "in_bounds row v \<Longrightarrow> bound_value row v = v"
  by (simp add: bound_value_def in_bounds_def)

lemma row_ok_le: "row_ok row \<Longrightarrow> opt_lo row \<le> opt_hi row"
  by (simp add: row_ok_def in_bounds_def)

lemma row_ok_nth: "list_all row_ok tbl \<Longrightarrow> i < length tbl \<Longrightarrow> row_ok (tbl ! i)"
  by (simp add: list_all_length)

lemma set_row_bound: "in_bounds row old \<Longrightarrow> set_row row v old = bound_value row v"
  by (auto simp: set_row_def bound_value_id)

lemma defaults_ok: "list_all row_ok tbl \<Longrightarrow> opts_ok tbl (map opt_def tbl)"
  by (auto simp: opts_ok_iff row_ok_def list_all_length)

lemma map2_keeps_ok:
  assumes "opts_ok tbl vals" "\<And>i. i < length tbl \<Longrightarrow> in_bounds (tbl ! i) (g (tbl ! i) (vals ! i))"
  shows "opts_ok tbl (map2 g tbl vals)"
  using assms by (auto simp: opts_ok_iff)

lemma Options_set_ok:
  "list_all row_ok tbl \<Longrightarrow> names_sorted tbl \<Longrightarrow> opts_ok tbl vals \<Longrightarrow> opts_ok tbl (snd (Options_set tbl name v vals))"
  by (auto simp: Options_set_def opts_ok_iff list_update_fill has_correct set_row_bound
      intro!: bound_value_in row_ok_le row_ok_nth split: option.splits)

lemma disable_preprocessing_ok:
  "list_all row_ok tbl \<Longrightarrow> opts_ok tbl vals \<Longrightarrow> opts_ok tbl (disable_preprocessing tbl vals)"
  unfolding disable_preprocessing_def
  by (rule map2_keeps_ok) (auto simp: opts_ok_iff row_ok_def in_bounds_def list_all_length)

lemma reset_default_values_ok:
  "list_all row_ok tbl \<Longrightarrow> opts_ok tbl vals \<Longrightarrow> opts_ok tbl (reset_default_values tbl vals)"
  unfolding reset_default_values_def
  by (rule map2_keeps_ok) (auto simp: opts_ok_iff row_ok_def list_all_length)

lemma Options_copy_ok:
  "opts_ok tbl this \<Longrightarrow> opts_ok tbl other \<Longrightarrow> opts_ok tbl (Options_copy tbl this other)"
  by (auto simp: Options_copy_def opts_ok_iff)

lemma map2_res_total:
  assumes "opts_ok tbl vals"
    and "\<And>i. i < length tbl \<Longrightarrow> \<exists>w. f (tbl ! i) (vals ! i) = Inr w \<and> in_bounds (tbl ! i) w"
  shows "\<exists>ws. map2_res f tbl vals = Inr ws \<and> opts_ok tbl ws"
  using assms
proof (induction tbl arbitrary: vals)
  case (Cons row tbl)
  obtain v vs where [simp]: "vals = v # vs" using Cons.prems(1) by (cases vals) (auto simp: opts_ok_def)
  obtain w where w: "f row v = Inr w" "in_bounds row w" using Cons.prems(2) [of 0] by auto
  have "opts_ok tbl vs" using Cons.prems(1) by (simp add: opts_ok_def)
  moreover have "\<exists>w. f (tbl ! i) (vs ! i) = Inr w \<and> in_bounds (tbl ! i) w" if "i < length tbl" for i
    using Cons.prems(2) [of "Suc i"] that by simp
  ultimately obtain ws where "map2_res f tbl vs = Inr ws" "opts_ok tbl ws"
    using Cons.IH by blast
  then show ?case using w by (simp add: opts_ok_def)
qed (simp add: opts_ok_def)

lemma Options_optimize_ok:
  assumes "list_all row_ok tbl" "opts_ok tbl vals"
  shows "\<exists>ws. Options_optimize tbl val vals = Inr ws \<and> opts_ok tbl ws"
proof (cases "val < 0")
  case True
  then show ?thesis using assms(2) by (simp add: Options_optimize_def)
next
  case False
  define n where "n = nat (if val > 31 then 31 else val)"
  have "(2 :: int) ^ n \<le> 2 ^ 31" by (rule power_increasing) (auto simp: n_def)
  then obtain f2 where f2: "power_limit 2 n 1 = Inr f2" "1 \<le> f2" "f2 \<le> 2 ^ 31"
    using power_limit_2 [of 1 n] by auto
  obtain f10 where f10: "power_limit 10 n 1 = Inr f10" "1 \<le> f10" "f10 \<le> 2 ^ 31 * 10"
    using power_limit_ok [of 10 1 n] by auto
  have "\<exists>ws. map2_res (optimize_row f2 f10) tbl vals = Inr ws \<and> opts_ok tbl ws"
    using assms f2 f10
    by (intro map2_res_total optimize_row_ok) (auto simp: opts_ok_iff list_all_length)
  then show ?thesis using False f2(1) f10(1) by (simp add: Options_optimize_def n_def Let_def)
qed

lemma set_all_ok:
  assumes "list_all row_ok tbl" "names_sorted tbl" "opts_ok tbl vals"
    and "\<forall>(name, v) \<in> set config. has tbl name \<noteq> None"
  shows "\<exists>ws. set_all tbl config vals = Inr ws \<and> opts_ok tbl ws"
  using assms(3,4)
proof (induction config arbitrary: vals)
  case (Cons c config)
  obtain name v where c: "c = (name, v)" by (cases c)
  have "opts_ok tbl (snd (Options_set tbl name v vals))"
    by (rule Options_set_ok [OF assms(1,2) Cons.prems(1)])
  then show ?case using Cons.IH Cons.prems(2) by (auto simp: set_all_def c)
qed (simp add: set_all_def)

lemma config_names:
  "\<forall>(name, v) \<in> set sat_config \<union> set unsat_config. has (OPTIONS r) name \<noteq> None"
proof -
  have "has (OPTIONS r) ''elimreleff'' \<noteq> None" "has (OPTIONS r) ''stabilizeonly'' \<noteq> None"
    "has (OPTIONS r) ''subsumereleff'' \<noteq> None" "has (OPTIONS r) ''stabilize'' \<noteq> None"
    "has (OPTIONS r) ''walk'' \<noteq> None"
    by code_simp+
  then show ?thesis by (simp add: sat_config_def unsat_config_def)
qed

section \<open>Properties\<close>

lemma arena_row: "OPTIONS r ! 0 \<in> set (OPTIONS r) \<and> opt_name (OPTIONS r ! 0) = ''arena'' \<and>
    opt_lo (OPTIONS r ! 0) = 0 \<and> opt_hi (OPTIONS r ! 0) = 1"
  by (simp add: OPTIONS_def OPTIONS_a_to_l_def opt_def)

lemma scale_fault: "scale n v = Inl e \<Longrightarrow> e = SignedOverflow"
  by (induction n arbitrary: v) (auto simp: bind_res_def int64_def split: sum.splits if_splits)

lemma parse_int_str_fault: "parse_int_str s = Inl e \<Longrightarrow> e = SignedOverflow"
  using scale_fault
  by (auto simp: parse_int_str_def bind_res_def split: sum.splits if_splits list.splits prod.splits)

lemma table_words: "has (OPTIONS r) ''aaaaa'' = None \<and> has (OPTIONS r) ''non-existing-option'' = None \<and>
    has (OPTIONS r) ''zzzzz'' = None"
  by code_simp

lemma Options_new_rows:
  assumes "r = 0 \<or> r = 1"
  shows "Options_new getenv (OPTIONS r) =
    map2_res (initialize_from_environment getenv) (OPTIONS r) (map opt_def (OPTIONS r))"
proof -
  have "strcmp [] (opt_name (hd (OPTIONS r))) \<le> 0" by code_simp
  then have "check_rows [] (OPTIONS r) = Inr (map opt_def (OPTIONS r))"
    by (intro check_rows_ok table_ok table_sorted assms)
  then show ?thesis using table_words by (simp add: Options_new_def)
qed

definition initial_value :: "(string \<Rightarrow> string option) \<Rightarrow> option_row \<Rightarrow> int" where
  "initial_value getenv row =
     (case getenv (env_key row) of
        None \<Rightarrow> opt_def row
      | Some s \<Rightarrow> (case parse_int_str s of Inr (Some v) \<Rightarrow> bound_value row v | _ \<Rightarrow> opt_def row))"

lemma initialize_value:
  "row_ok row \<Longrightarrow> initialize_from_environment getenv row (opt_def row) =
     (if \<exists>s. getenv (env_key row) = Some s \<and> parse_int_str s = Inl SignedOverflow
      then Inl SignedOverflow else Inr (initial_value getenv row))"
  using parse_int_str_fault
  by (auto simp: initialize_from_environment_def initial_value_def row_ok_def bind_res_def
      split: option.splits sum.splits)

lemma initial_value_in: "row_ok row \<Longrightarrow> in_bounds row (initial_value getenv row)"
  by (auto simp: initial_value_def bound_value_in row_ok_le row_ok_def [of row]
      split: option.splits sum.splits)

text \<open>
  C25: whatever the environment holds, the constructor of the options passes all its checks of the
  table and gives every option a value within its limits: the one the environment names, cut at the
  limits, or the default.  The one exception is a value whose scaling overflows 64 bits.
\<close>

theorem options_constructed:
  assumes "r = 0 \<or> r = 1"
  shows "case Options_new getenv (OPTIONS r) of
      Inr vals \<Rightarrow> opts_ok (OPTIONS r) vals \<and> vals = map (initial_value getenv) (OPTIONS r)
    | Inl e \<Rightarrow> e = SignedOverflow \<and> (\<exists>row \<in> set (OPTIONS r). \<exists>s.
        getenv (env_key row) = Some s \<and> parse_int_str s = Inl SignedOverflow)"
proof -
  let ?f = "initialize_from_environment getenv" and ?T = "OPTIONS r"
  have ok: "row_ok row" if "row \<in> set ?T" for row
    using table_ok [OF assms] that by (simp add: list_all_iff)
  show ?thesis
  proof (cases "\<exists>row \<in> set ?T. \<exists>s. getenv (env_key row) = Some s \<and> parse_int_str s = Inl SignedOverflow")
    case False
    then have "map2_res ?f ?T (map opt_def ?T) = Inr (map2 (\<lambda>row _. initial_value getenv row) ?T (map opt_def ?T))"
      using initialize_value [OF ok, OF nth_mem] by (intro map2_res_ok) auto
    moreover have "map2 (\<lambda>row _. initial_value getenv row) ?T (map opt_def ?T) = map (initial_value getenv) ?T"
      by (rule nth_equalityI) auto
    moreover have "opts_ok ?T (map (initial_value getenv) ?T)"
      using initial_value_in [OF ok] by (auto simp: opts_ok_iff)
    ultimately show ?thesis by (simp add: Options_new_rows [OF assms])
  next
    case True
    show ?thesis
    proof (cases "map2_res ?f ?T (map opt_def ?T)")
      case (Inl e)
      then obtain i where "i < length ?T" "?f (?T ! i) (map opt_def ?T ! i) = Inl e"
        using map2_res_fault [of ?T "map opt_def ?T" ?f e] by auto
      then have "e = SignedOverflow"
        using initialize_value [OF ok, of "?T ! i"] by (auto split: if_splits)
      then show ?thesis using Inl True by (simp add: Options_new_rows [OF assms])
    next
      case (Inr ws)
      then have "\<forall>i < length ?T. \<exists>w. ?f (?T ! i) (opt_def (?T ! i)) = Inr w"
        using map2_res_each [of ?T "map opt_def ?T" ?f ws] by simp
      then show ?thesis using True initialize_value [OF ok] by (fastforce simp: in_set_conv_nth)
    qed
  qed
qed

theorem options_constructed_witness:
  "Options_new (\<lambda>_. None) (OPTIONS 0) = Inr (map opt_def (OPTIONS 0))"
  using options_constructed [of 0 "\<lambda>_. None"]
  by (auto simp: initial_value_def [abs_def] split: sum.splits)

text \<open>
  Setting an option by name finds exactly the names of the table, stores the value cut at the
  limits of that option, leaves all others alone, and keeps every value within its limits.
\<close>

theorem options_set_get:
  assumes "r = 0 \<or> r = 1" "opts_ok (OPTIONS r) vals" "row \<in> set (OPTIONS r)"
    and "Options_set (OPTIONS r) name v vals = (found, vals')"
  shows "(found \<longleftrightarrow> name \<in> opt_name ` set (OPTIONS r)) \<and> opts_ok (OPTIONS r) vals' \<and>
    Options_get (OPTIONS r) (opt_name row) vals' =
      (if opt_name row = name then bound_value row v else Options_get (OPTIONS r) (opt_name row) vals)"
proof -
  let ?T = "OPTIONS r"
  have H: "has ?T nm = Some i \<longleftrightarrow> i < length ?T \<and> opt_name (?T ! i) = nm" for nm i
    by (rule has_correct [OF table_sorted])
  obtain j where j: "j < length ?T" "?T ! j = row" using assms(3) by (auto simp: in_set_conv_nth)
  then have hj: "has ?T (opt_name row) = Some j" by (simp add: H)
  have found: "found \<longleftrightarrow> name \<in> opt_name ` set ?T"
  proof
    assume found
    then obtain i where "has ?T name = Some i" using assms(4) by (auto simp: Options_set_def split: option.splits)
    then show "name \<in> opt_name ` set ?T" by (auto simp: H)
  next
    assume "name \<in> opt_name ` set ?T"
    then obtain i where "has ?T name = Some i" by (auto simp: in_set_conv_nth H)
    then show found using assms(4) by (simp add: Options_set_def)
  qed
  have ok: "opts_ok ?T vals'"
    using Options_set_ok [OF table_ok [OF assms(1)] table_sorted assms(2), of name v] assms(4) by simp
  have "Options_get ?T (opt_name row) vals' =
      (if opt_name row = name then bound_value row v else Options_get ?T (opt_name row) vals)"
  proof (cases "has ?T name")
    case None
    then have "opt_name row \<noteq> name" using hj by auto
    then show ?thesis using None assms(4) by (simp add: Options_set_def)
  next
    case (Some i)
    then have i: "i < length ?T" "opt_name (?T ! i) = name" by (auto simp: H)
    have "opt_name row = name" if "i = j" using i(2) j(2) that by simp
    moreover have "i = j" if "opt_name row = name" using Some hj that by simp
    moreover have "Options_get ?T (opt_name row) vals = vals ! j"
      "Options_get ?T (opt_name row) vals' = vals' ! j" using hj by (simp_all add: Options_get_def)
    moreover have "vals' = vals[i := set_row (?T ! i) v (vals ! i)]"
      using Some assms(4) by (simp add: Options_set_def)
    moreover have "length vals = length ?T" "set_row (?T ! i) v (vals ! i) = bound_value (?T ! i) v"
      using assms(2) i(1) set_row_bound by (simp_all add: opts_ok_iff)
    moreover have "vals' ! j = (if i = j then bound_value row v else vals ! j)"
      using calculation(5,6,7) i(1) j by (cases "i = j") simp_all
    ultimately show ?thesis by (cases "i = j") auto
  qed
  then show ?thesis using found ok by blast
qed

theorem options_set_get_witness:
  "Options_get (OPTIONS 0) ''arena'' (snd (Options_set (OPTIONS 0) ''arena'' 7 (map opt_def (OPTIONS 0)))) = 1"
  using options_set_get [of 0 "map opt_def (OPTIONS 0)" "OPTIONS 0 ! 0" "''arena''" 7
      "fst (Options_set (OPTIONS 0) ''arena'' 7 (map opt_def (OPTIONS 0)))"]
    defaults_ok [OF table_ok, of 0] length_table [of 0]
  by (simp add: arena_row bound_value_def)

text \<open>
  C26: every mass change of the options (the optimisation levels, the configurations, resetting,
  switching preprocessing off, copying) runs without overflow or failed assertion and keeps every
  value within its limits; a configuration is applied exactly when its name is known.
\<close>

theorem options_stay_in_bounds:
  assumes "r = 0 \<or> r = 1" "opts_ok (OPTIONS r) vals" "opts_ok (OPTIONS r) other"
  shows "(\<exists>ws. Options_optimize (OPTIONS r) level vals = Inr ws \<and> opts_ok (OPTIONS r) ws) \<and>
    (\<exists>ws. Config_set (OPTIONS r) name vals = Inr (Config_has name, ws) \<and> opts_ok (OPTIONS r) ws) \<and>
    opts_ok (OPTIONS r) (Options_copy (OPTIONS r) vals other)"
proof (intro conjI)
  let ?T = "OPTIONS r"
  note tbl = table_ok [OF assms(1)]
  show "\<exists>ws. Options_optimize ?T level vals = Inr ws \<and> opts_ok ?T ws"
    by (rule Options_optimize_ok [OF tbl assms(2)])
  show "opts_ok ?T (Options_copy ?T vals other)" by (rule Options_copy_ok [OF assms(2,3)])
  obtain s where s: "set_all ?T sat_config vals = Inr s" "opts_ok ?T s"
    using set_all_ok [OF tbl table_sorted assms(2), of sat_config] config_names by blast
  obtain u where u: "set_all ?T unsat_config vals = Inr u" "opts_ok ?T u"
    using set_all_ok [OF tbl table_sorted assms(2), of unsat_config] config_names by blast
  consider "name = ''default''" | "name = ''plain''" | "name = ''sat''" | "name = ''unsat''"
    | "\<not> Config_has name"
    by (auto simp: Config_has_def)
  then show "\<exists>ws. Config_set ?T name vals = Inr (Config_has name, ws) \<and> opts_ok ?T ws"
    by cases (simp_all add: Config_set_def Config_has_def s u assms(2) tbl
        disable_preprocessing_ok reset_default_values_ok)
qed

theorem options_stay_in_bounds_witness:
  "\<exists>ws. Options_optimize (OPTIONS 0) 3 (map opt_def (OPTIONS 0)) = Inr ws \<and> opts_ok (OPTIONS 0) ws"
  using options_stay_in_bounds [of 0 "map opt_def (OPTIONS 0)" "map opt_def (OPTIONS 0)" 3]
    defaults_ok [OF table_ok, of 0]
  by simp

lemma mantissa_decimal:
  "\<forall>c \<in> set ds. is_digit c \<Longrightarrow> 0 \<le> m \<Longrightarrow> m * 10 ^ length ds + int (digits_val ds) \<le> 2 ^ 31 - 1 \<Longrightarrow>
   mantissa_loop m ds = (m * 10 ^ length ds + int (digits_val ds), [])"
proof (induction ds arbitrary: m)
  case (Cons c ds)
  have val: "digits_val (c # ds) = (char_code c - 48) * 10 ^ length ds + digits_val ds"
    by (rule digits_val_Cons)
  have dv: "int (char_code c - 48) = digit_val c" "0 \<le> digit_val c" "digit_val c \<le> 9"
    using Cons.prems(1) by (auto simp: digit_val_def is_digit_def)
  let ?m = "m * 10 + digit_val c"
  have eq: "m * 10 ^ length (c # ds) + int (digits_val (c # ds)) = ?m * 10 ^ length ds + int (digits_val ds)"
    unfolding val of_nat_add of_nat_mult dv(1) by (simp add: algebra_simps)
  have "?m * 1 \<le> ?m * 10 ^ length ds" using dv(2) Cons.prems(2) by (intro mult_left_mono) auto
  then have "?m \<le> 2 ^ 31 - 1" using Cons.prems(3) eq by simp
  then have "\<not> bound div 10 < m" "\<not> bound - digit_val c < m * 10" using dv(2) by (auto simp: bound_def)
  then have "mantissa_loop m (c # ds) = mantissa_loop ?m ds"
    using Cons.prems(1) by (simp add: Let_def)
  then show ?case using Cons.IH [of ?m] Cons.prems eq dv(2) by simp
qed (simp add: digits_val_def)

lemma parse_int_str_decimal:
  assumes "int n < 2 ^ 31"
  shows "parse_int_str (decimal n) = Inr (Some (int n))"
    and "parse_int_str (CHR ''-'' # decimal n) = Inr (Some (- int n))"
proof -
  obtain c cs where d: "decimal n = c # cs" "is_digit c" using decimal_head by blast
  have digits: "\<forall>x \<in> set cs. is_digit x" using decimal_digits [of n] d by simp
  have dv: "int (char_code c - 48) = digit_val c" "0 \<le> digit_val c"
    using d(2) by (auto simp: digit_val_def is_digit_def)
  have n: "digit_val c * 10 ^ length cs + int (digits_val cs) = int n"
    using digits_val_Cons [of c cs] dv(1) digits_val_decimal [of n] d(1) by (metis of_nat_add of_nat_mult of_nat_numeral of_nat_power)
  have M: "mantissa_loop (digit_val c) cs = (int n, [])"
    using mantissa_decimal [OF digits dv(2)] n assms by simp
  have c: "c \<noteq> CHR ''t''" "c \<noteq> CHR ''f''" "c \<noteq> CHR ''-''" using d(2) by (auto simp: is_digit_def char_code_def)
  show "parse_int_str (decimal n) = Inr (Some (int n))"
    using c M d(2) assms by (simp add: parse_int_str_def d(1) clamp_int_def)
  show "parse_int_str (CHR ''-'' # decimal n) = Inr (Some (- int n))"
    using c M d(2) assms by (simp add: parse_int_str_def d(1) clamp_int_def)
qed

definition plain_name :: "string \<Rightarrow> bool" where
  "plain_name s \<longleftrightarrow> list_all (\<lambda>c. c \<noteq> CHR ''='') s \<and> take 3 s \<noteq> ''no-''"

lemma table_names: "list_all (\<lambda>row. plain_name (opt_name row) \<and> CHR ''-'' \<notin> set (opt_name row)) (OPTIONS r)"
  by code_simp

text \<open>
  C27: the command line form of an option is read back: for every option of the table and every
  32 bit number, \<^verbatim>\<open>--name=number\<close> gives the name and the number, \<^verbatim>\<open>--name\<close> gives 1 and \<^verbatim>\<open>--no-name\<close> gives 0.
\<close>

theorem long_option_round_trip:
  assumes "row \<in> set (OPTIONS r)" "int n < 2 ^ 31"
  shows "parse_long_option (OPTIONS r) (''--'' @ opt_name row @ ''='' @ decimal n) = Inr (Some (opt_name row, int n)) \<and>
    parse_long_option (OPTIONS r) (''--'' @ opt_name row @ ''=-'' @ decimal n) = Inr (Some (opt_name row, - int n)) \<and>
    parse_long_option (OPTIONS r) (''--'' @ opt_name row) = Inr (Some (opt_name row, 1)) \<and>
    parse_long_option (OPTIONS r) (''--no-'' @ opt_name row) = Inr (Some (opt_name row, 0))"
proof -
  let ?T = "OPTIONS r" and ?nm = "opt_name row"
  have nm: "plain_name ?nm" "CHR ''-'' \<notin> set ?nm" using assms(1) table_names by (auto simp: list_all_iff)
  obtain i where "i < length ?T" "?T ! i = row" using assms(1) by (auto simp: in_set_conv_nth)
  then have h: "has ?T ?nm = Some i" by (simp add: has_correct [OF table_sorted])
  have tw: "takeWhile (\<lambda>c. c \<noteq> CHR ''='') (?nm @ CHR ''='' # rest) = ?nm"
    "takeWhile (\<lambda>c. c \<noteq> CHR ''='') ?nm = ?nm" for rest
    using nm(1) by (auto simp: plain_name_def list_all_iff takeWhile_append2 takeWhile_eq_all_conv)
  have pre: "take 3 (?nm @ CHR ''='' # rest) \<noteq> ''no-''" "take 3 ?nm \<noteq> ''no-''" for rest
    using nm by (auto simp: plain_name_def take_Cons' take_append split: if_splits
        dest: arg_cong [where f = "\<lambda>s. CHR ''='' \<in> set s"])
  show ?thesis
    using h pre parse_int_str_decimal [OF assms(2)]
    by (simp add: parse_long_option_def Let_def tw del: take_append)
qed

theorem long_option_round_trip_witness:
  "parse_long_option (OPTIONS 0) (''--arena='' @ decimal 12) = Inr (Some (''arena'', 12))"
  using long_option_round_trip [of "OPTIONS 0 ! 0" 0 12] length_table [of 0] by (simp add: arena_row)

text \<open>
  A number in exponent form can overflow the 64 bit product, which is undefined behaviour; through
  the environment this reaches the constructor of every solver.
\<close>

theorem exponent_overflow:
  "parse_int_str ''1000000000e10'' = Inl SignedOverflow \<and>
   initialize_from_environment (\<lambda>key. if key = ''CADICAL_ARENA'' then Some ''1000000000e10'' else None)
     (OPTIONS r ! 0) 1 = Inl SignedOverflow"
  by code_simp

end
