(* ===== verification/Clauses.thy ===== *)
theory Clauses
  imports Prelude
begin

text \<open>
  The specification that the parts of the SAT solver are measured against: literals are non-zero integers as in
  the code, an assignment says which variables are true; entailment and unsatisfiability; and the reconstruction
  of models along a list of removed clauses with witnesses.
\<close>

section \<open>Meaning of clauses\<close>

definition sat_lit :: "(nat \<Rightarrow> bool) \<Rightarrow> int \<Rightarrow> bool" where
  "sat_lit M l = (if l > 0 then M (nat l) else \<not> M (nat (- l)))"

definition sat_clause :: "(nat \<Rightarrow> bool) \<Rightarrow> int list \<Rightarrow> bool" where
  "sat_clause M c \<longleftrightarrow> (\<exists>l \<in> set c. sat_lit M l)"

definition entails :: "int list set \<Rightarrow> int list \<Rightarrow> bool" where
  "entails F c \<longleftrightarrow> (\<forall>M. (\<forall>d \<in> F. sat_clause M d) \<longrightarrow> sat_clause M c)"

lemma sat_lit_neg [simp]: "l \<noteq> 0 \<Longrightarrow> sat_lit M (- l) \<longleftrightarrow> \<not> sat_lit M l"
  by (auto simp: sat_lit_def)

lemma entails_mono: "entails F c \<Longrightarrow> F \<subseteq> G \<Longrightarrow> entails G c"
  by (auto simp: entails_def)

lemma entails_member: "c \<in> F \<Longrightarrow> entails F c"
  by (auto simp: entails_def)

lemma entails_weaker: "entails F c \<Longrightarrow> set c \<subseteq> set d \<Longrightarrow> entails F d"
  by (fastforce simp: entails_def sat_clause_def)

definition unsat :: "int list set \<Rightarrow> bool" where
  "unsat F \<longleftrightarrow> \<not> (\<exists>M. \<forall>c \<in> F. sat_clause M c)"

section \<open>Reconstruction of models\<close>

text \<open>A removed clause with its witness: literals that may be made true when the clause is false.\<close>

type_synonym entry = "int list \<times> u64 \<times> int list"

abbreviation entry_witness :: "entry \<Rightarrow> int list" where
  "entry_witness e \<equiv> fst e"

abbreviation entry_id :: "entry \<Rightarrow> u64" where
  "entry_id e \<equiv> fst (snd e)"

abbreviation entry_clause :: "entry \<Rightarrow> int list" where
  "entry_clause e \<equiv> snd (snd e)"

definition make_true :: "int \<Rightarrow> (nat \<Rightarrow> bool) \<Rightarrow> nat \<Rightarrow> bool" where
  "make_true l M = M(nat \<bar>l\<bar> := l > 0)"

definition repair :: "entry \<Rightarrow> (nat \<Rightarrow> bool) \<Rightarrow> nat \<Rightarrow> bool" where
  "repair e M = (if sat_clause M (entry_clause e) then M else foldr make_true (entry_witness e) M)"

definition reconstruct :: "entry list \<Rightarrow> (nat \<Rightarrow> bool) \<Rightarrow> nat \<Rightarrow> bool" where
  "reconstruct es = foldr repair es"

definition models :: "(nat \<Rightarrow> bool) \<Rightarrow> int list set \<Rightarrow> bool" where
  "models M F \<longleftrightarrow> (\<forall>c \<in> F. sat_clause M c)"

abbreviation clauses_of :: "entry list \<Rightarrow> int list set" where
  "clauses_of es \<equiv> entry_clause ` set es"

text \<open>
  Each removed clause is redundant, by its witness, in the formula together with the clauses removed after it:
  a model in which it is false becomes one in which it is true when the witness is made true.
\<close>

fun redundant_stack :: "int list set \<Rightarrow> entry list \<Rightarrow> bool" where
  "redundant_stack F [] \<longleftrightarrow> True"
| "redundant_stack F (e # es) \<longleftrightarrow>
     redundant_stack F es \<and>
     (\<forall>M. models M (F \<union> clauses_of es) \<longrightarrow> models (repair e M) (F \<union> clauses_of (e # es)))"

lemma models_Un [simp]: "models M (F \<union> G) \<longleftrightarrow> models M F \<and> models M G"
  by (auto simp: models_def)

lemma models_insert [simp]: "models M (insert c F) \<longleftrightarrow> sat_clause M c \<and> models M F"
  by (auto simp: models_def)

lemma models_empty [simp]: "models M {}"
  by (simp add: models_def)

lemma models_mono: "models M G \<Longrightarrow> F \<subseteq> G \<Longrightarrow> models M F"
  by (auto simp: models_def)

lemma entails_models: "entails F c \<longleftrightarrow> (\<forall>M. models M F \<longrightarrow> sat_clause M c)"
  by (simp add: entails_def models_def)

lemma reconstruct_sound: "redundant_stack F es \<Longrightarrow> models M F \<Longrightarrow> models (reconstruct es M) (F \<union> clauses_of es)"
proof (induction es)
  case (Cons e es)
  then have "models (reconstruct es M) (F \<union> clauses_of es)" by simp
  then have "models (repair e (reconstruct es M)) (F \<union> clauses_of (e # es))" using Cons.prems(1) by simp
  then show ?case by (simp add: reconstruct_def)
qed (simp add: reconstruct_def)

text \<open>Making literals true keeps the clauses without a complementary literal.\<close>

lemma sat_make_true: "k \<noteq> 0 \<Longrightarrow> l \<noteq> 0 \<Longrightarrow> sat_lit (make_true k M) l \<longleftrightarrow> l = k \<or> (l \<noteq> - k \<and> sat_lit M l)"
  by (auto simp: sat_lit_def make_true_def)

lemma sat_make_true_list:
  assumes "0 \<notin> set w" "l \<noteq> 0" "- l \<notin> set w" "sat_lit M l"
  shows "sat_lit (foldr make_true w M) l"
  using assms by (induction w) (auto simp: sat_make_true)

lemma sat_clause_make_true:
  assumes "0 \<notin> set w" "0 \<notin> set c" "\<forall>l \<in> set c. - l \<notin> set w" "sat_clause M c"
  shows "sat_clause (foldr make_true w M) c"
  using assms sat_make_true_list [OF assms(1), of _ M] unfolding sat_clause_def by metis

lemma sat_clause_repair:
  assumes "0 \<notin> set (entry_witness e)" "0 \<notin> set c" "\<forall>l \<in> set c. - l \<notin> set (entry_witness e)" "sat_clause M c"
  shows "sat_clause (repair e M) c"
  using assms by (auto simp: repair_def intro: sat_clause_make_true)

text \<open>
  The case of variable elimination and blocked clauses: the witness is a literal of the clause, and every other
  clause with its negation has a literal whose negation is in the clause, too.
\<close>

lemma blocked_clause_redundant:
  assumes l: "l \<in> set c" "0 \<notin> set c"
    and blocked: "\<And>d. d \<in> F \<union> clauses_of es \<Longrightarrow> 0 \<notin> set d \<Longrightarrow> - l \<in> set d \<Longrightarrow> \<exists>k \<in> set d. k \<noteq> - l \<and> k \<noteq> l \<and> - k \<in> set c"
    and nz: "\<forall>d \<in> F \<union> clauses_of es. 0 \<notin> set d"
    and st: "redundant_stack F es"
  shows "redundant_stack F (([l], i, c) # es)"
proof -
  have l0: "l \<noteq> 0" using l by auto
  have "models (repair ([l], i, c) M) (F \<union> clauses_of (([l], i, c) # es))" if M: "models M (F \<union> clauses_of es)" for M
  proof (cases "sat_clause M c")
    case True
    then show ?thesis using M by (simp add: repair_def)
  next
    case False
    have "sat_clause (make_true l M) d" if d: "d \<in> F \<union> clauses_of es" for d
    proof (cases "- l \<in> set d")
      case True
      then obtain k where k: "k \<in> set d" "k \<noteq> - l" "k \<noteq> l" "- k \<in> set c" using blocked d nz by metis
      have "k \<noteq> 0" using k(1) d nz by auto
      have "\<not> sat_lit M (- k)" using False k(4) by (auto simp: sat_clause_def)
      then have "sat_lit (make_true l M) k" using \<open>k \<noteq> 0\<close> k l0 by (simp add: sat_make_true)
      then show ?thesis using k(1) by (auto simp: sat_clause_def)
    next
      case no: False
      have "0 \<notin> set d" "sat_clause M d" using d nz M by (auto simp: models_def)
      then show ?thesis using no l0 sat_clause_make_true [of "[l]" d M]
        by (metis empty_set equation_minus_iff foldr.simps(1) foldr.simps(2) comp_apply id_apply insertE list.simps(15) empty_iff)
    qed
    moreover have "sat_clause (make_true l M) c"
      using l l0 by (auto simp: sat_clause_def sat_make_true intro: bexI [of _ l])
    ultimately show ?thesis using False by (auto simp: repair_def models_def)
  qed
  then show ?thesis using st by simp
qed

end
