(* ===== verification/LratChecker.thy ===== *)
theory LratChecker
  imports Clauses
begin

unbundle bit_operations_syntax

text \<open>
  The proof checker of the SAT solver: \<^verbatim>\<open>lib/cadical/src/lratchecker.cpp\<close> and \<^verbatim>\<open>lratchecker.hpp\<close>, with the
  part of \<^verbatim>\<open>random.hpp\<close> it uses.  Each clause the solver learns comes with the ids of the clauses it
  follows from; the checker keeps all clauses in a hash table, replays each derivation, and aborts when
  it fails.  Profiling, statistics and messages are left out.  The flag \<open>dbg\<close> says whether assertions
  are compiled in (they are not in the default build); results hold for both.
\<close>

section \<open>Clauses and the state\<close>

text \<open>A clause; the pointer to the next one in its chain is the order of the list it is in.\<close>

record lclause =
  chash :: u64
  cid :: u64
  cgarbage :: bool
  cused :: bool
  ctaut :: bool
  clits :: "int list"

record lrat_checker =
  size_vars :: nat
  strict_lrat :: bool
  checked_lits :: "bool list"
  marks :: "bool list"
  clauses_to_reconstruct :: "u64 \<rightharpoonup> int list"
  assumptions :: "int list"
  constraint :: "int list"
  concluded :: bool
  num_clauses :: nat
  num_finalized :: nat
  num_garbage :: nat
  clauses :: "lclause list list"
  garbage :: "lclause list"
  imported_clause :: "int list"
  assumption_clauses :: "u64 list"
  nonces :: "u64 list"
  last_hash :: u64
  last_id :: u64
  current_id :: u64

section \<open>Bits of literals\<close>

text \<open>\<^verbatim>\<open>2 * (abs (lit) - 1)\<close> is computed in \<^verbatim>\<open>int\<close> and then converted to \<^verbatim>\<open>unsigned\<close>.\<close>

definition l2u :: "bool \<Rightarrow> int \<Rightarrow> nat res" where
  "l2u dbg lit =
     bind_res (cassert dbg (lit \<noteq> 0 \<and> lit \<noteq> INT_MIN)) (\<lambda>_.
       if 2 * (\<bar>lit\<bar> - 1) > INT_MAX then Inl SignedOverflow
       else Inr (nat ((2 * (\<bar>lit\<bar> - 1) + (if lit < 0 then 1 else 0)) mod (UINT_MAX + 1))))"

text \<open>\<^verbatim>\<open>mark\<close> and \<^verbatim>\<open>checked_lit\<close> return a reference into a vector: reading and writing through it.\<close>

definition get_bit :: "bool \<Rightarrow> bool list \<Rightarrow> int \<Rightarrow> bool res" where
  "get_bit dbg bits lit =
     bind_res (l2u dbg lit) (\<lambda>u. bind_res (cassert dbg (u < length bits)) (\<lambda>_. get_at bits u))"

definition set_bit :: "bool \<Rightarrow> int \<Rightarrow> bool \<Rightarrow> bool list \<Rightarrow> bool list res" where
  "set_bit dbg lit v bits =
     bind_res (l2u dbg lit) (\<lambda>u. bind_res (cassert dbg (u < length bits)) (\<lambda>_. set_at bits u v))"

definition set_bits :: "bool \<Rightarrow> int list \<Rightarrow> bool \<Rightarrow> bool list \<Rightarrow> bool list res" where
  "set_bits dbg lits v = fold_res (\<lambda>lit. set_bit dbg lit v) lits"

section \<open>Variables and imported clauses\<close>

definition enlarge_vars :: "nat \<Rightarrow> lrat_checker \<Rightarrow> lrat_checker" where
  "enlarge_vars idx st =
     (let new_size_vars = grow idx (if size_vars st \<noteq> 0 then 2 * size_vars st else 2)
      in st\<lparr>marks := resize (2 * new_size_vars) False (marks st),
            checked_lits := resize (2 * new_size_vars) False (checked_lits st),
            size_vars := new_size_vars\<rparr>)"

definition import_literal :: "bool \<Rightarrow> int \<Rightarrow> lrat_checker \<Rightarrow> lrat_checker res" where
  "import_literal dbg lit st =
     bind_res (cassert dbg (lit \<noteq> 0 \<and> lit \<noteq> INT_MIN)) (\<lambda>_.
       if lit = INT_MIN then Inl SignedOverflow
       else let idx = nat \<bar>lit\<bar>;
                st1 = (if idx \<ge> size_vars st then enlarge_vars idx st else st)
            in Inr (st1\<lparr>imported_clause := imported_clause st1 @ [lit]\<rparr>))"

definition import_clause :: "bool \<Rightarrow> int list \<Rightarrow> lrat_checker \<Rightarrow> lrat_checker res" where
  "import_clause dbg = fold_res (import_literal dbg)"

section \<open>The hash table\<close>

text \<open>
  Folding of the hash value: the shift is 32, 16, 8, 4, 2, 1, 0 and with a size of at least 1 the loop
  ends at 0 at the latest; with size 0, which only an assertion excludes, it never does.
\<close>

function reduce_loop :: "nat \<Rightarrow> u64 \<Rightarrow> u64 \<Rightarrow> u64" where
  "reduce_loop shift r sz =
     (if push_bit shift 1 > sz \<and> shift \<noteq> 0 then reduce_loop (shift div 2) (r XOR drop_bit shift r) sz
      else r)"
  by pat_completeness auto
termination by (relation "measure (\<lambda>(shift, r, sz). shift)") auto

declare reduce_loop.simps [simp del]

text \<open>The loop for the one shift it starts with, unrolled.\<close>

lemma reduce_loop_code [code]:
  "reduce_loop shift r sz =
     (if shift = 0 then r
      else if shift = 32 then if 4294967296 > sz then reduce_loop 16 (r XOR drop_bit 32 r) sz else r
      else if shift = 16 then if 65536 > sz then reduce_loop 8 (r XOR drop_bit 16 r) sz else r
      else if shift = 8 then if 256 > sz then reduce_loop 4 (r XOR drop_bit 8 r) sz else r
      else if shift = 4 then if 16 > sz then reduce_loop 2 (r XOR drop_bit 4 r) sz else r
      else if shift = 2 then if 4 > sz then reduce_loop 1 (r XOR drop_bit 2 r) sz else r
      else if shift = 1 then if 2 > sz then r XOR drop_bit 1 r else r
      else if push_bit shift 1 > sz then reduce_loop (shift div 2) (r XOR drop_bit shift r) sz else r)"
  by (simp add: reduce_loop.simps [of shift] reduce_loop.simps [of 0])

definition reduce_hash :: "bool \<Rightarrow> u64 \<Rightarrow> u64 \<Rightarrow> u64 res" where
  "reduce_hash dbg hash sz =
     bind_res (cassert dbg (sz > 0)) (\<lambda>_.
       if sz = 0 then Inl Diverges
       else let r = reduce_loop 32 hash sz AND (sz - 1)
            in bind_res (cassert dbg (r < sz)) (\<lambda>_. Inr r))"

definition compute_hash :: "bool \<Rightarrow> u64 \<Rightarrow> lrat_checker \<Rightarrow> (u64 \<times> lrat_checker) res" where
  "compute_hash dbg i st =
     bind_res (cassert dbg (i > 0)) (\<lambda>_.
       bind_res (get_at (nonces st) (unat (i mod 4))) (\<lambda>nonce.
         Inr (nonce * i, st\<lparr>last_hash := nonce * i\<rparr>)))"

definition size_clauses :: "lrat_checker \<Rightarrow> u64" where
  "size_clauses st = word_of_nat (length (clauses st))"

text \<open>The position of the clause in a chain; the length of the chain stands for the null link.\<close>

fun find_in :: "lclause list \<Rightarrow> u64 \<Rightarrow> u64 \<Rightarrow> nat" where
  "find_in [] hash i = 0"
| "find_in (c # cs) hash i = (if chash c = hash \<and> cid c = i then 0 else Suc (find_in cs hash i))"

text \<open>A pointer to a link is the index of a chain and a position in it.\<close>

definition find :: "bool \<Rightarrow> u64 \<Rightarrow> lrat_checker \<Rightarrow> (nat \<times> nat \<times> lrat_checker) res" where
  "find dbg i st =
     bind_res (compute_hash dbg i st) (\<lambda>(hash, st1).
     bind_res (reduce_hash dbg hash (size_clauses st1)) (\<lambda>h.
     bind_res (get_at (clauses st1) (unat h)) (\<lambda>chain.
       Inr (unat h, find_in chain hash i, st1))))"

definition clause_at :: "lrat_checker \<Rightarrow> nat \<Rightarrow> nat \<Rightarrow> lclause option" where
  "clause_at st h k = (if k < length (clauses st ! h) then Some (clauses st ! h ! k) else None)"

text \<open>\<^verbatim>\<open>enlarge_clauses\<close>: an array of pointers above \<^verbatim>\<open>PTRDIFF_MAX\<close> bytes cannot be allocated.\<close>

definition push_chain :: "bool \<Rightarrow> u64 \<Rightarrow> lclause \<Rightarrow> lclause list list \<Rightarrow> lclause list list res" where
  "push_chain dbg sz c table =
     bind_res (reduce_hash dbg (chash c) sz) (\<lambda>h.
     bind_res (get_at table (unat h)) (\<lambda>chain. set_at table (unat h) (c # chain)))"

definition enlarge_clauses :: "bool \<Rightarrow> lrat_checker \<Rightarrow> lrat_checker res" where
  "enlarge_clauses dbg st =
     bind_res (cassert dbg (num_clauses st = length (clauses st))) (\<lambda>_.
       let new_size = (if clauses st \<noteq> [] then 2 * length (clauses st) else 1)
       in if 8 * int new_size > PTRDIFF_MAX then Inl Thrown
          else bind_res (fold_res (push_chain dbg (word_of_nat new_size)) (concat (clauses st))
                 (replicate new_size [])) (\<lambda>table.
               Inr (st\<lparr>clauses := table\<rparr>)))"

text \<open>\<^verbatim>\<open>new_clause\<close>: a clause object for the imported literals, checked for complementary ones.\<close>

definition new_clause :: "bool \<Rightarrow> lrat_checker \<Rightarrow> (lclause \<times> lrat_checker) res" where
  "new_clause dbg st =
     (let lits = imported_clause st
      in bind_res (cassert dbg (int (length lits) \<le> UINT_MAX)) (\<lambda>_.
         bind_res (fold_res (\<lambda>lit (bits, taut).
             bind_res (set_bit dbg (- lit) True bits) (\<lambda>bits.
             bind_res (get_bit dbg bits lit) (\<lambda>b. Inr (bits, taut \<or> b)))) lits
           (map (\<lambda>_. False) (checked_lits st), False)) (\<lambda>(bits, taut).
         bind_res (fold_res (\<lambda>lit. set_bit dbg (- lit) False) lits bits) (\<lambda>bits.
           Inr (\<lparr>chash = last_hash st, cid = last_id st, cgarbage = False, cused = False,
                  ctaut = taut, clits = lits\<rparr>,
                st\<lparr>checked_lits := bits, num_clauses := num_clauses st + 1\<rparr>)))))"

definition insert :: "bool \<Rightarrow> lrat_checker \<Rightarrow> lrat_checker res" where
  "insert dbg st =
     bind_res (if num_clauses st = length (clauses st) then enlarge_clauses dbg st else Inr st) (\<lambda>st.
     bind_res (compute_hash dbg (last_id st) st) (\<lambda>(hash, st).
     bind_res (reduce_hash dbg hash (size_clauses st)) (\<lambda>h.
     bind_res (new_clause dbg st) (\<lambda>(c, st).
     bind_res (get_at (clauses st) (unat h)) (\<lambda>chain.
       Inr (st\<lparr>clauses := (clauses st)[unat h := c # chain]\<rparr>))))))"

text \<open>\<^verbatim>\<open>delete_clause\<close> of a clause object, and the collection of all garbage.\<close>

definition delete_object :: "bool \<Rightarrow> lclause \<Rightarrow> lrat_checker \<Rightarrow> lrat_checker res" where
  "delete_object dbg c st =
     (if \<not> cgarbage c
      then bind_res (cassert dbg (num_clauses st \<noteq> 0)) (\<lambda>_. Inr (st\<lparr>num_clauses := num_clauses st - 1\<rparr>))
      else bind_res (cassert dbg (num_garbage st \<noteq> 0)) (\<lambda>_. Inr (st\<lparr>num_garbage := num_garbage st - 1\<rparr>)))"

definition collect_garbage_clauses :: "bool \<Rightarrow> lrat_checker \<Rightarrow> lrat_checker res" where
  "collect_garbage_clauses dbg st =
     bind_res (fold_res (delete_object dbg) (garbage st) st) (\<lambda>st.
     bind_res (cassert dbg (num_garbage st = 0)) (\<lambda>_. Inr (st\<lparr>garbage := []\<rparr>)))"

section \<open>Construction\<close>

definition random_next :: "u64 \<Rightarrow> u64" where
  "random_next state = state * 6364136223846793005 + 1442695040888963407"

text \<open>Four odd random numbers from the seed 42.\<close>

fun init_nonces :: "nat \<Rightarrow> u64 \<Rightarrow> u64 list" where
  "init_nonces 0 random = []"
| "init_nonces (Suc n) random =
     (let nonce = random_next random
      in (if nonce AND 1 = 0 then nonce + 1 else nonce) # init_nonces n nonce)"

definition LratChecker_new :: "bool \<Rightarrow> lrat_checker" where
  "LratChecker_new lrat =
     \<lparr>size_vars = 0, strict_lrat = lrat, checked_lits = [], marks = [],
      clauses_to_reconstruct = Map.empty, assumptions = [], constraint = [], concluded = False,
      num_clauses = 0, num_finalized = 0, num_garbage = 0, clauses = [], garbage = [],
      imported_clause = [], assumption_clauses = [], nonces = init_nonces 4 42, last_hash = 0,
      last_id = 0, current_id = 0\<rparr>"

section \<open>Checking a derivation\<close>

text \<open>
  The one literal of a clause that is not falsified, 0 if there is none, \<^verbatim>\<open>INT_MIN\<close> if there are several.
\<close>

fun find_unit :: "bool \<Rightarrow> bool list \<Rightarrow> int list \<Rightarrow> int \<Rightarrow> int res" where
  "find_unit dbg bits [] unit = Inr unit"
| "find_unit dbg bits (lit # lits) unit =
     bind_res (get_bit dbg bits (- lit)) (\<lambda>falsified.
       if falsified then find_unit dbg bits lits unit
       else if unit \<noteq> 0 \<and> unit \<noteq> lit then Inr INT_MIN
       else find_unit dbg bits lits lit)"

definition set_used :: "bool \<Rightarrow> nat \<times> nat \<Rightarrow> lrat_checker \<Rightarrow> lrat_checker" where
  "set_used v p st =
     st\<lparr>clauses := (clauses st)[fst p :=
       (clauses st ! fst p)[snd p := (clauses st ! fst p ! snd p)\<lparr>cused := v\<rparr>]]\<rparr>"

fun check_loop :: "bool \<Rightarrow> u64 list \<Rightarrow> lrat_checker \<Rightarrow> (nat \<times> nat) list \<Rightarrow>
    (bool \<times> lrat_checker \<times> (nat \<times> nat) list) res" where
  "check_loop dbg [] st used_clauses = Inr (False, st, used_clauses)"
| "check_loop dbg (i # proof_chain) st used_clauses =
     bind_res (find dbg i st) (\<lambda>(h, k, st).
       case clause_at st h k of
         None \<Rightarrow> Inr (False, st, used_clauses)
       | Some c \<Rightarrow>
           if ctaut c then Inr (False, st, used_clauses)
           else let used_clauses = used_clauses @ [(h, k)]
           in if cused c then Inr (False, st, used_clauses)
           else let st = set_used True (h, k) st
           in bind_res (find_unit dbg (checked_lits st) (clits c) 0) (\<lambda>unit.
             if unit = INT_MIN then Inr (False, st, used_clauses)
             else if unit = 0 then Inr (True, st, used_clauses)
             else bind_res (set_bit dbg unit True (checked_lits st)) (\<lambda>bits.
               check_loop dbg proof_chain (st\<lparr>checked_lits := bits\<rparr>) used_clauses)))"

text \<open>Assume the negation of the clause; the left result says that it is tautological.\<close>

fun assume_negation :: "bool \<Rightarrow> int list \<Rightarrow> bool list \<Rightarrow> (bool \<times> bool list) res" where
  "assume_negation dbg [] bits = Inr (False, bits)"
| "assume_negation dbg (lit # lits) bits =
     bind_res (set_bit dbg (- lit) True bits) (\<lambda>bits.
     bind_res (get_bit dbg bits lit) (\<lambda>b.
       if b then Inr (True, bits) else assume_negation dbg lits bits))"

definition check :: "bool \<Rightarrow> u64 list \<Rightarrow> lrat_checker \<Rightarrow> (bool \<times> lrat_checker) res" where
  "check dbg proof_chain st =
     bind_res (assume_negation dbg (imported_clause st) (map (\<lambda>_. False) (checked_lits st))) (\<lambda>(taut, bits).
       let st = st\<lparr>checked_lits := bits\<rparr>
       in if taut then bind_res (cassert dbg (proof_chain = [])) (\<lambda>_. Inr (True, st))
          else bind_res (cassert dbg (proof_chain \<noteq> [])) (\<lambda>_.
               bind_res (check_loop dbg proof_chain st []) (\<lambda>(checking, st, used_clauses).
                 Inr (checking, fold (set_used False) used_clauses st))))"

section \<open>Checking the resolution steps\<close>

definition bits_of_clause :: "bool \<Rightarrow> int list \<Rightarrow> bool list \<Rightarrow> bool list res" where
  "bits_of_clause dbg = fold_res (\<lambda>lit bits.
     bind_res (set_bit dbg lit True bits) (\<lambda>bits.
     bind_res (get_bit dbg bits (- lit)) (\<lambda>b.
     bind_res (cassert dbg (\<not> b)) (\<lambda>_. Inr bits))))"

definition resolve_clause :: "bool \<Rightarrow> int list \<Rightarrow> bool list \<Rightarrow> bool list res" where
  "resolve_clause dbg = fold_res (\<lambda>lit bits.
     bind_res (get_bit dbg bits (- lit)) (\<lambda>b.
       if \<not> b then set_bit dbg lit True bits else set_bit dbg (- lit) False bits))"

text \<open>The clause an id points to; the code dereferences the pointer without a test.\<close>

definition find_clause :: "bool \<Rightarrow> u64 \<Rightarrow> lrat_checker \<Rightarrow> (lclause \<times> lrat_checker) res" where
  "find_clause dbg i st =
     bind_res (find dbg i st) (\<lambda>(h, k, st).
       case clause_at st h k of
         None \<Rightarrow> bind_res (cassert dbg False) (\<lambda>_. Inl NullPointer)
       | Some c \<Rightarrow> Inr (c, st))"

definition resolve_step :: "bool \<Rightarrow> u64 \<Rightarrow> lrat_checker \<Rightarrow> lrat_checker res" where
  "resolve_step dbg i st =
     bind_res (find_clause dbg i st) (\<lambda>(c, st).
     bind_res (resolve_clause dbg (clits c) (checked_lits st)) (\<lambda>bits.
       Inr (st\<lparr>checked_lits := bits\<rparr>)))"

text \<open>The left result says that a literal of the learned clause was resolved away.\<close>

fun match_clause :: "bool \<Rightarrow> int list \<Rightarrow> bool list \<Rightarrow> (bool \<times> bool list) res" where
  "match_clause dbg [] bits = Inr (False, bits)"
| "match_clause dbg (lit # lits) bits =
     bind_res (get_bit dbg bits (- lit)) (\<lambda>resolved.
       if resolved then Inr (True, bits)
       else bind_res (get_bit dbg bits lit) (\<lambda>present.
            bind_res (if \<not> present then set_bit dbg lit True bits else Inr bits) (\<lambda>bits.
            bind_res (set_bit dbg (- lit) True bits) (\<lambda>bits. match_clause dbg lits bits))))"

fun all_matched :: "bool \<Rightarrow> bool list \<Rightarrow> int list \<Rightarrow> bool res" where
  "all_matched dbg bits [] = Inr True"
| "all_matched dbg bits (lit # lits) =
     bind_res (get_bit dbg bits lit) (\<lambda>p. bind_res (get_bit dbg bits (- lit)) (\<lambda>n.
       if p \<noteq> n then Inr False else all_matched dbg bits lits))"

definition check_resolution :: "bool \<Rightarrow> u64 list \<Rightarrow> lrat_checker \<Rightarrow> (bool \<times> lrat_checker) res" where
  "check_resolution dbg proof_chain st =
     (if proof_chain = [] then Inr (True, st)
      else if strict_lrat st then Inr (True, st)
      else bind_res (find_clause dbg (last proof_chain) st) (\<lambda>(c, st).
           bind_res (bits_of_clause dbg (clits c) (map (\<lambda>_. False) (checked_lits st))) (\<lambda>bits.
           bind_res (fold_res (resolve_step dbg) (rev (butlast proof_chain)) (st\<lparr>checked_lits := bits\<rparr>)) (\<lambda>st.
           bind_res (match_clause dbg (imported_clause st) (checked_lits st)) (\<lambda>(resolved, bits).
             let st = st\<lparr>checked_lits := bits\<rparr>
             in if resolved then Inr (False, st)
                else bind_res (all_matched dbg bits (map int [1..<size_vars st])) (\<lambda>ok. Inr (ok, st)))))))"

section \<open>The proof events\<close>

definition fatal_if :: "bool \<Rightarrow> unit res" where
  "fatal_if c = (if c then Inl Aborted else Inr ())"

definition find_present :: "bool \<Rightarrow> u64 \<Rightarrow> lrat_checker \<Rightarrow> (bool \<times> lrat_checker) res" where
  "find_present dbg i st =
     bind_res (find dbg i st) (\<lambda>(h, k, st). Inr (clause_at st h k \<noteq> None, st))"

definition restore_clause :: "u64 \<Rightarrow> int list \<Rightarrow> lrat_checker \<Rightarrow> lrat_checker res" where
  "restore_clause i c st =
     (case clauses_to_reconstruct st i of
        None \<Rightarrow> if \<not> strict_lrat st then Inr st else Inl Aborted
      | Some d \<Rightarrow>
          let e = sort c;
              eq = (length c = length d \<and> list_all2 (=) e d)
          in bind_res (fatal_if (\<not> eq)) (\<lambda>_.
               Inr (st\<lparr>clauses_to_reconstruct := (clauses_to_reconstruct st)(i := None)\<rparr>)))"

definition add_original_clause :: "bool \<Rightarrow> u64 \<Rightarrow> int list \<Rightarrow> bool \<Rightarrow> lrat_checker \<Rightarrow> lrat_checker res" where
  "add_original_clause dbg i c restore st =
     bind_res (if restore then restore_clause i c st else Inr st) (\<lambda>st.
     bind_res (import_clause dbg c st) (\<lambda>st.
     let st = st\<lparr>last_id := i\<rparr>;
         st = (if \<not> restore \<and> i = 1 + current_id st then st\<lparr>current_id := i\<rparr> else st)
     in bind_res (if clauses st \<noteq> [] \<and> \<not> restore then find_present dbg i st else Inr (False, st)) (\<lambda>(d, st).
        bind_res (fatal_if d) (\<lambda>_.
        bind_res (cassert dbg (i \<noteq> 0)) (\<lambda>_.
        bind_res (insert dbg st) (\<lambda>st. Inr (st\<lparr>imported_clause := []\<rparr>)))))))"

definition add_derived_clause :: "bool \<Rightarrow> u64 \<Rightarrow> int list \<Rightarrow> u64 list \<Rightarrow> lrat_checker \<Rightarrow> lrat_checker res" where
  "add_derived_clause dbg i c proof_chain st =
     bind_res (import_clause dbg c st) (\<lambda>st.
     let st = st\<lparr>last_id := i\<rparr>
     in bind_res (cassert dbg (i = current_id st + 1)) (\<lambda>_.
        let st = st\<lparr>current_id := i\<rparr>
        in bind_res (if clauses st \<noteq> [] then find_present dbg i st else Inr (False, st)) (\<lambda>(d, st).
           bind_res (fatal_if d) (\<lambda>_.
           bind_res (cassert dbg (i \<noteq> 0)) (\<lambda>_.
           bind_res (check dbg proof_chain st) (\<lambda>(ok, st).
           bind_res (if ok then check_resolution dbg proof_chain st else Inr (False, st)) (\<lambda>(ok, st).
           bind_res (fatal_if (\<not> ok)) (\<lambda>_.
           bind_res (insert dbg st) (\<lambda>st. Inr (st\<lparr>imported_clause := []\<rparr>))))))))))"

text \<open>
  Every literal of the stored clause must be among the imported ones; the marks are set before and
  cleared after the test.
\<close>

fun all_marked :: "bool \<Rightarrow> bool list \<Rightarrow> int list \<Rightarrow> bool res" where
  "all_marked dbg bits [] = Inr True"
| "all_marked dbg bits (lit # lits) =
     bind_res (get_bit dbg bits lit) (\<lambda>b. if b then all_marked dbg bits lits else Inr False)"

definition check_stored :: "bool \<Rightarrow> lclause option \<Rightarrow> lrat_checker \<Rightarrow> lrat_checker res" where
  "check_stored dbg d st =
     (case d of
        None \<Rightarrow> Inl Aborted
      | Some d \<Rightarrow>
          bind_res (set_bits dbg (imported_clause st) True (marks st)) (\<lambda>bits.
          bind_res (all_marked dbg bits (clits d)) (\<lambda>ok.
          bind_res (fatal_if (\<not> ok)) (\<lambda>_.
          bind_res (set_bits dbg (imported_clause st) False bits) (\<lambda>bits.
            Inr (st\<lparr>marks := bits\<rparr>))))))"

text \<open>Unlink the clause from its chain and connect it to the garbage list.\<close>

definition unlink :: "nat \<Rightarrow> nat \<Rightarrow> lrat_checker \<Rightarrow> lrat_checker" where
  "unlink h k st =
     (let chain = clauses st ! h; d = chain ! k
      in st\<lparr>clauses := (clauses st)[h := take k chain @ drop (Suc k) chain],
            garbage := d\<lparr>cgarbage := True\<rparr> # garbage st\<rparr>)"

definition delete_clause :: "bool \<Rightarrow> u64 \<Rightarrow> int list \<Rightarrow> lrat_checker \<Rightarrow> lrat_checker res" where
  "delete_clause dbg i c st =
     bind_res (import_clause dbg c st) (\<lambda>st.
     bind_res (find dbg i (st\<lparr>last_id := i\<rparr>)) (\<lambda>(h, k, st).
     bind_res (check_stored dbg (clause_at st h k) st) (\<lambda>st.
     bind_res (cassert dbg (num_clauses st \<noteq> 0)) (\<lambda>_.
     let st = unlink h k (st\<lparr>num_garbage := num_garbage st + 1, num_clauses := num_clauses st - 1\<rparr>)
     in bind_res (if 2 * num_garbage st > max (length (clauses st)) (size_vars st)
                  then collect_garbage_clauses dbg st else Inr st) (\<lambda>st.
        Inr (st\<lparr>imported_clause := []\<rparr>))))))"

definition add_assumption_clause :: "bool \<Rightarrow> u64 \<Rightarrow> int list \<Rightarrow> u64 list \<Rightarrow> lrat_checker \<Rightarrow> lrat_checker res" where
  "add_assumption_clause dbg i c chain st =
     bind_res (fatal_if (\<exists>lit \<in> set c. - lit \<notin> set (assumptions st) \<and> - lit \<notin> set (constraint st))) (\<lambda>_.
     bind_res (add_derived_clause dbg i c chain st) (\<lambda>st.
     bind_res (delete_clause dbg i c st) (\<lambda>st.
       Inr (st\<lparr>assumption_clauses := assumption_clauses st @ [i]\<rparr>))))"

definition add_assumption :: "int \<Rightarrow> lrat_checker \<Rightarrow> lrat_checker" where
  "add_assumption a st = st\<lparr>assumptions := assumptions st @ [a]\<rparr>"

definition add_constraint :: "bool \<Rightarrow> int list \<Rightarrow> lrat_checker \<Rightarrow> lrat_checker res" where
  "add_constraint dbg c st =
     fold_res (\<lambda>lit st.
       bind_res (cassert dbg (lit \<noteq> 0)) (\<lambda>_.
         if lit \<in> set (constraint st) then Inr st
         else Inr (st\<lparr>constraint := constraint st @ [lit]\<rparr>))) c (st\<lparr>constraint := []\<rparr>)"

definition reset_assumptions :: "lrat_checker \<Rightarrow> lrat_checker" where
  "reset_assumptions st = st\<lparr>assumption_clauses := [], assumptions := [], concluded := False\<rparr>"

datatype conclusion = CONFLICT | ASSUMPTIONS | CONSTRAINT

definition vec_back :: "'a list \<Rightarrow> 'a res" where
  "vec_back xs = (if xs = [] then Inl OutOfRange else Inr (last xs))"

definition conclude_unsat :: "bool \<Rightarrow> conclusion \<Rightarrow> u64 list \<Rightarrow> lrat_checker \<Rightarrow> lrat_checker res" where
  "conclude_unsat dbg conc ids st =
     bind_res (fatal_if (concluded st)) (\<lambda>_.
     let st = st\<lparr>concluded := True\<rparr>
     in case conc of
          CONFLICT \<Rightarrow>
            bind_res (vec_back ids) (\<lambda>i. bind_res (find dbg i st) (\<lambda>(h, k, st).
              case clause_at st h k of
                None \<Rightarrow> Inl Aborted
              | Some d \<Rightarrow> bind_res (fatal_if (clits d \<noteq> [])) (\<lambda>_. Inr st)))
        | ASSUMPTIONS \<Rightarrow>
            bind_res (fatal_if (length ids \<noteq> 1 \<or> length (assumption_clauses st) \<noteq> 1)) (\<lambda>_.
            bind_res (fatal_if (last ids \<noteq> last (assumption_clauses st))) (\<lambda>_. Inr st))
        | CONSTRAINT \<Rightarrow>
            bind_res (fatal_if (length (constraint st) \<noteq> length ids)) (\<lambda>_.
            bind_res (fatal_if (\<exists>i \<in> set ids. i \<notin> set (assumption_clauses st))) (\<lambda>_. Inr st)))"

definition weaken_minus :: "bool \<Rightarrow> u64 \<Rightarrow> int list \<Rightarrow> lrat_checker \<Rightarrow> lrat_checker res" where
  "weaken_minus dbg i c st =
     bind_res (import_clause dbg c st) (\<lambda>st.
     bind_res (cassert dbg (i \<le> current_id st)) (\<lambda>_.
     bind_res (find dbg i (st\<lparr>last_id := i\<rparr>)) (\<lambda>(h, k, st).
     bind_res (check_stored dbg (clause_at st h k) st) (\<lambda>st.
       Inr (st\<lparr>imported_clause := [],
               clauses_to_reconstruct := (clauses_to_reconstruct st)(i \<mapsto> sort c)\<rparr>)))))"

definition finalize_clause :: "bool \<Rightarrow> u64 \<Rightarrow> int list \<Rightarrow> lrat_checker \<Rightarrow> lrat_checker res" where
  "finalize_clause dbg i c st =
     bind_res (import_clause dbg c (st\<lparr>num_finalized := num_finalized st + 1\<rparr>)) (\<lambda>st.
     bind_res (cassert dbg (i \<le> current_id st)) (\<lambda>_.
     bind_res (find dbg i (st\<lparr>last_id := i\<rparr>)) (\<lambda>(h, k, st).
     bind_res (check_stored dbg (clause_at st h k) st) (\<lambda>st. Inr (st\<lparr>imported_clause := []\<rparr>)))))"

definition report_status :: "lrat_checker \<Rightarrow> lrat_checker res" where
  "report_status st =
     (if num_finalized st = num_clauses st then Inr (st\<lparr>num_finalized := 0\<rparr>) else Inl Aborted)"

definition begin_proof :: "u64 \<Rightarrow> lrat_checker \<Rightarrow> lrat_checker" where
  "begin_proof i st = st\<lparr>current_id := i\<rparr>"

definition connect_internal :: "bool \<Rightarrow> lrat_checker \<Rightarrow> lrat_checker" where
  "connect_internal lrat st = st\<lparr>strict_lrat := lrat\<rparr>"

text \<open>The calls a checker receives, one constructor per virtual function.\<close>

datatype proof_event =
    ConnectInternal bool
  | BeginProof u64
  | AddOriginal u64 "int list" bool
  | AddDerived u64 "int list" "u64 list"
  | AddAssumptionClause u64 "int list" "u64 list"
  | DeleteClause u64 "int list"
  | WeakenMinus u64 "int list"
  | FinalizeClause u64 "int list"
  | AddAssumption int
  | AddConstraint "int list"
  | ResetAssumptions
  | ConcludeUnsat conclusion "u64 list"
  | ReportStatus

fun handle :: "bool \<Rightarrow> proof_event \<Rightarrow> lrat_checker \<Rightarrow> lrat_checker res" where
  "handle dbg (ConnectInternal lrat) st = Inr (connect_internal lrat st)"
| "handle dbg (BeginProof i) st = Inr (begin_proof i st)"
| "handle dbg (AddOriginal i c restore) st = add_original_clause dbg i c restore st"
| "handle dbg (AddDerived i c chain) st = add_derived_clause dbg i c chain st"
| "handle dbg (AddAssumptionClause i c chain) st = add_assumption_clause dbg i c chain st"
| "handle dbg (DeleteClause i c) st = delete_clause dbg i c st"
| "handle dbg (WeakenMinus i c) st = weaken_minus dbg i c st"
| "handle dbg (FinalizeClause i c) st = finalize_clause dbg i c st"
| "handle dbg (AddAssumption a) st = Inr (add_assumption a st)"
| "handle dbg (AddConstraint c) st = add_constraint dbg c st"
| "handle dbg ResetAssumptions st = Inr (reset_assumptions st)"
| "handle dbg (ConcludeUnsat conc ids) st = conclude_unsat dbg conc ids st"
| "handle dbg ReportStatus st = report_status st"

definition replay :: "bool \<Rightarrow> proof_event list \<Rightarrow> lrat_checker \<Rightarrow> lrat_checker res" where
  "replay dbg = fold_res (handle dbg)"

section \<open>Bits as a partial assignment\<close>

lemma fatal_if_Inr [simp]: "fatal_if c = Inr u \<longleftrightarrow> \<not> c"
  by (auto simp: fatal_if_def)

lemma l2u_Inr:
  "l \<noteq> 0 \<Longrightarrow> l2u dbg l = Inr u \<Longrightarrow> int u = 2 * (\<bar>l\<bar> - 1) + (if l < 0 then 1 else 0)"
  by (auto simp: l2u_def bind_res_eq_Inr INT_MAX_def UINT_MAX_def split: if_splits)

lemma l2u_inj: "l \<noteq> 0 \<Longrightarrow> l' \<noteq> 0 \<Longrightarrow> l2u dbg l = Inr u \<Longrightarrow> l2u dbg l' = Inr u \<Longrightarrow> l = l'"
proof -
  assume "l \<noteq> 0" "l' \<noteq> 0" "l2u dbg l = Inr u" "l2u dbg l' = Inr u"
  then have "2 * (\<bar>l\<bar> - 1) + (if l < 0 then 1 else 0) = 2 * (\<bar>l'\<bar> - 1) + (if l' < 0 then 1 else 0)"
    using l2u_Inr [of l dbg u] l2u_Inr [of l' dbg u] by simp
  then show "l = l'" by (cases "l < 0"; cases "l' < 0"; simp) presburger+
qed

lemma set_bit_length: "set_bit dbg l v bits = Inr bits' \<Longrightarrow> length bits' = length bits"
  by (auto simp: set_bit_def bind_res_eq_Inr set_at_eq_Inr)

lemma get_set_bit:
  assumes "l \<noteq> 0" "l' \<noteq> 0" "set_bit dbg l v bits = Inr bits'"
  shows "get_bit dbg bits' l' = (if l = l' then Inr v else get_bit dbg bits l')"
proof -
  obtain u where u: "l2u dbg l = Inr u" "u < length bits" "bits' = bits[u := v]"
    using assms(3) by (auto simp: set_bit_def bind_res_eq_Inr set_at_eq_Inr)
  show ?thesis
  proof (cases "l2u dbg l'")
    case (Inl e)
    then show ?thesis using u(1) by (auto simp: get_bit_def)
  next
    case (Inr u')
    have "u = u' \<longleftrightarrow> l = l'" using l2u_inj [OF assms(1,2) u(1)] Inr u(1) by auto
    then show ?thesis using Inr u by (auto simp: get_bit_def get_at_def cassert_def bind_res_def)
  qed
qed

section \<open>Bits that hold in an assignment\<close>

text \<open>All literals with their bit set are true in \<open>M\<close>.\<close>

definition bits_hold :: "bool \<Rightarrow> (nat \<Rightarrow> bool) \<Rightarrow> bool list \<Rightarrow> bool" where
  "bits_hold dbg M bits \<longleftrightarrow> (\<forall>l. l \<noteq> 0 \<longrightarrow> get_bit dbg bits l = Inr True \<longrightarrow> sat_lit M l)"

lemma bits_hold_clear [simp]: "bits_hold dbg M (map (\<lambda>_. False) bits)"
  by (auto simp: bits_hold_def get_bit_def bind_res_eq_Inr get_at_eq_Inr)

lemma bits_hold_set:
  "bits_hold dbg M bits \<Longrightarrow> l \<noteq> 0 \<Longrightarrow> sat_lit M l \<Longrightarrow> set_bit dbg l True bits = Inr bits' \<Longrightarrow> bits_hold dbg M bits'"
  by (auto simp: bits_hold_def get_set_bit)

lemma assume_negation_sound:
  "assume_negation dbg lits bits = Inr (taut, bits') \<Longrightarrow> bits_hold dbg M bits \<Longrightarrow> 0 \<notin> set lits \<Longrightarrow>
   \<not> sat_clause M lits \<Longrightarrow> \<not> taut \<and> bits_hold dbg M bits'"
proof (induction lits arbitrary: bits)
  case (Cons lit lits)
  have lit: "lit \<noteq> 0" "\<not> sat_lit M lit" "0 \<notin> set lits" "\<not> sat_clause M lits"
    using Cons.prems(3,4) by (auto simp: sat_clause_def)
  obtain b1 b where b: "set_bit dbg (- lit) True bits = Inr b1" "get_bit dbg b1 lit = Inr b"
    "(if b then Inr (True, b1) else assume_negation dbg lits b1) = Inr (taut, bits')"
    using Cons.prems(1) by (auto simp: bind_res_eq_Inr)
  have h: "bits_hold dbg M b1" using bits_hold_set [OF Cons.prems(2) _ _ b(1)] lit by simp
  then have "\<not> b" using b(2) lit(1,2) by (auto simp: bits_hold_def)
  then show ?case using Cons.IH [OF _ h lit(3,4)] b(3) by simp
qed simp

lemma find_unit_spec:
  "find_unit dbg bits lits u = Inr r \<Longrightarrow> r \<noteq> INT_MIN \<Longrightarrow> 0 \<notin> set lits \<Longrightarrow>
   (u \<noteq> 0 \<longrightarrow> r = u) \<and> (\<forall>l \<in> set lits. get_bit dbg bits (- l) = Inr True \<or> l = r)"
proof (induction lits arbitrary: u)
  case (Cons lit lits)
  obtain b where b: "get_bit dbg bits (- lit) = Inr b"
    "(if b then find_unit dbg bits lits u
      else if u \<noteq> 0 \<and> u \<noteq> lit then Inr INT_MIN else find_unit dbg bits lits lit) = Inr r"
    using Cons.prems(1) by (auto simp: bind_res_eq_Inr)
  show ?case
  proof (cases b)
    case True
    then show ?thesis using Cons.IH [of u] b Cons.prems(2,3) by auto
  next
    case False
    then have "find_unit dbg bits lits lit = Inr r" "u \<noteq> 0 \<longrightarrow> u = lit"
      using b(2) Cons.prems(2) by (auto split: if_splits)
    then show ?thesis using Cons.IH [of lit] Cons.prems(2,3) by auto
  qed
qed simp

section \<open>What the operations leave alone\<close>

text \<open>The clauses in the table, as lists of literals.\<close>

definition table_lits :: "lclause list list \<Rightarrow> int list set" where
  "table_lits table = (\<Union>chain \<in> set table. clits ` set chain)"

definition stored :: "lrat_checker \<Rightarrow> int list set" where
  "stored st = table_lits (clauses st)"

lemma table_lits_update: "table_lits (table[h := chain]) \<subseteq> table_lits table \<union> clits ` set chain"
  unfolding table_lits_def using set_update_subset_insert [of table h chain] by auto

lemma table_lits_nth: "h < length table \<Longrightarrow> clits ` set (table ! h) \<subseteq> table_lits table"
  unfolding table_lits_def using nth_mem by blast

lemma table_lits_empty [simp]: "table_lits (replicate n []) = {}"
  by (auto simp: table_lits_def)

lemma table_lits_concat: "table_lits table = clits ` set (concat table)"
  by (auto simp: table_lits_def)

text \<open>The table operations change neither the log of the proof nor the imported clause.\<close>

definition same_log :: "lrat_checker \<Rightarrow> lrat_checker \<Rightarrow> bool" where
  "same_log st st' \<longleftrightarrow> strict_lrat st' = strict_lrat st \<and> assumptions st' = assumptions st \<and>
     clauses_to_reconstruct st' = clauses_to_reconstruct st \<and> constraint st' = constraint st \<and>
     assumption_clauses st' = assumption_clauses st"

definition frame :: "lrat_checker \<Rightarrow> lrat_checker \<Rightarrow> bool" where
  "frame st st' \<longleftrightarrow> same_log st st' \<and> imported_clause st' = imported_clause st \<and> last_id st' = last_id st \<and>
     marks st' = marks st \<and> stored st' \<subseteq> stored st"

lemma frame_refl [simp, intro]: "frame st st"
  by (simp add: frame_def same_log_def)

lemma frame_trans [trans]: "frame s t \<Longrightarrow> frame t u \<Longrightarrow> frame s u"
  by (auto simp: frame_def same_log_def)

lemma same_log_refl [simp, intro]: "same_log st st"
  by (simp add: same_log_def)

lemma same_log_trans [trans]: "same_log s t \<Longrightarrow> same_log t u \<Longrightarrow> same_log s u"
  by (simp add: same_log_def)

lemma fold_res_frame:
  assumes "\<And>x s s'. x \<in> set xs \<Longrightarrow> f x s = Inr s' \<Longrightarrow> R s s'"
    and "\<And>s. R s s" "\<And>s t u. R s t \<Longrightarrow> R t u \<Longrightarrow> R s u"
  shows "fold_res f xs s = Inr s' \<Longrightarrow> R s s'"
  using assms(1)
proof (induction xs arbitrary: s)
  case (Cons x xs)
  then obtain t where "f x s = Inr t" "fold_res f xs t = Inr s'" by (auto simp: bind_res_eq_Inr)
  then show ?case using Cons assms(3) by (meson list.set_intros)
qed (simp add: assms(2))

lemma import_literal_keeps:
  "import_literal dbg lit st = Inr st' \<Longrightarrow>
   same_log st st' \<and> clauses st' = clauses st \<and> imported_clause st' = imported_clause st @ [lit]"
  by (auto simp: import_literal_def bind_res_eq_Inr enlarge_vars_def same_log_def Let_def split: if_splits)

lemma import_clause_keeps:
  "import_clause dbg c st = Inr st' \<Longrightarrow>
   same_log st st' \<and> clauses st' = clauses st \<and> imported_clause st' = imported_clause st @ c"
  unfolding import_clause_def
proof (induction c arbitrary: st)
  case (Cons lit c)
  then obtain t where t: "import_literal dbg lit st = Inr t" "fold_res (import_literal dbg) c t = Inr st'"
    by (auto simp: bind_res_eq_Inr)
  then show ?case using Cons.IH [of t] import_literal_keeps [OF t(1)] by (auto simp: same_log_def)
qed simp

lemma compute_hash_keeps: "compute_hash dbg i st = Inr (hash, st') \<Longrightarrow> st' = st\<lparr>last_hash := hash\<rparr>"
  by (auto simp: compute_hash_def bind_res_eq_Inr)

lemma find_keeps:
  assumes "find dbg i st = Inr (h, k, st')"
  shows "frame st st' \<and> clauses st' = clauses st \<and> checked_lits st' = checked_lits st \<and>
    marks st' = marks st \<and> h < length (clauses st)"
proof -
  obtain hash where s: "compute_hash dbg i st = Inr (hash, st')" "h < length (clauses st')"
    using assms by (auto simp: find_def bind_res_eq_Inr get_at_eq_Inr)
  have "st' = st\<lparr>last_hash := hash\<rparr>" by (rule compute_hash_keeps [OF s(1)])
  then show ?thesis using s by (simp add: frame_def same_log_def stored_def)
qed

lemma find_present_keeps: "find_present dbg i st = Inr (d, st') \<Longrightarrow> frame st st' \<and> clauses st' = clauses st"
  using find_keeps by (fastforce simp: find_present_def bind_res_eq_Inr)

lemma clause_at_stored: "clause_at st h k = Some c \<Longrightarrow> h < length (clauses st) \<Longrightarrow> clits c \<in> stored st"
  using table_lits_nth [of h "clauses st"] by (auto simp: clause_at_def stored_def split: if_splits)

lemma set_used_frame: "frame st (set_used v p st)"
proof (cases "fst p < length (clauses st) \<and> snd p < length (clauses st ! fst p)")
  case True
  let ?ch = "clauses st ! fst p"
  let ?c = "(?ch ! snd p)\<lparr>cused := v\<rparr>"
  have "map clits (?ch[snd p := ?c]) = map clits ?ch"
    using True by (simp add: map_update list_update_same_conv)
  then have "clits ` set (?ch[snd p := ?c]) = clits ` set ?ch" by (metis set_map)
  then have "clits ` set (?ch[snd p := ?c]) \<subseteq> table_lits (clauses st)"
    using table_lits_nth [of "fst p" "clauses st"] True by simp
  then have "table_lits ((clauses st)[fst p := ?ch[snd p := ?c]]) \<subseteq> table_lits (clauses st)"
    by (rule order.trans [OF table_lits_update Un_least [OF order_refl]])
  then show ?thesis by (simp add: frame_def same_log_def set_used_def stored_def)
next
  case False
  then have "(clauses st)[fst p := (clauses st ! fst p)[snd p := (clauses st ! fst p ! snd p)\<lparr>cused := v\<rparr>]] = clauses st"
    by (metis list_update_beyond list_update_id not_le)
  then show ?thesis by (simp add: frame_def same_log_def set_used_def stored_def)
qed

lemma fold_set_used_frame: "frame st (fold (set_used v) ps st)"
  by (induction ps arbitrary: st) (auto intro: frame_trans set_used_frame)

section \<open>The derivation check is sound\<close>

lemma check_loop_keeps: "check_loop dbg ids st used = Inr (b, st', used') \<Longrightarrow> frame st st'"
proof (induction ids arbitrary: st used)
  case (Cons i ids)
  obtain h k s where f: "find dbg i st = Inr (h, k, s)" "frame st s"
    using Cons.prems find_keeps by (fastforce simp: bind_res_eq_Inr)
  have su: "frame s (set_used True (h, k) s)" by (rule set_used_frame)
  show ?case
  proof (cases "\<exists>bits. check_loop dbg ids ((set_used True (h, k) s)\<lparr>checked_lits := bits\<rparr>) (used @ [(h, k)]) = Inr (b, st', used')")
    case True
    then obtain bits where "frame ((set_used True (h, k) s)\<lparr>checked_lits := bits\<rparr>) st'" using Cons.IH by blast
    moreover have "frame (set_used True (h, k) s) ((set_used True (h, k) s)\<lparr>checked_lits := bits\<rparr>)"
      by (simp add: frame_def same_log_def stored_def)
    ultimately show ?thesis using f(2) su frame_trans by blast
  next
    case False
    then have "st' = s \<or> st' = set_used True (h, k) s"
      using Cons.prems f(1)
      by (auto simp: bind_res_eq_Inr Let_def split: option.splits if_splits)
    then show ?thesis using f(2) su frame_trans by blast
  qed
qed simp

lemma check_loop_sound:
  assumes "check_loop dbg ids st used = Inr (True, st', used')"
    and "\<forall>c \<in> stored st. sat_clause M c \<and> 0 \<notin> set c" "bits_hold dbg M (checked_lits st)"
  shows False
  using assms
proof (induction ids arbitrary: st used)
  case (Cons i ids)
  obtain h k s where f: "find dbg i st = Inr (h, k, s)" using Cons.prems(1) by (auto simp: bind_res_eq_Inr)
  note fk = find_keeps [OF f]
  obtain c where c: "clause_at s h k = Some c" using Cons.prems(1) f by (auto split: option.splits)
  define t where "t = set_used True (h, k) s"
  have cst: "clits c \<in> stored st" using clause_at_stored [OF c] fk by (simp add: stored_def)
  obtain unit where unit: "find_unit dbg (checked_lits t) (clits c) 0 = Inr unit" "unit \<noteq> INT_MIN"
    "unit = 0 \<or> (\<exists>bits. set_bit dbg unit True (checked_lits t) = Inr bits \<and>
       check_loop dbg ids (t\<lparr>checked_lits := bits\<rparr>) (used @ [(h, k)]) = Inr (True, st', used'))"
    using Cons.prems(1) f c by (auto simp: bind_res_eq_Inr Let_def t_def split: if_splits)
  have ct: "checked_lits t = checked_lits st" using fk by (simp add: t_def set_used_def)
  have lits: "\<forall>l \<in> set (clits c). \<not> sat_lit M l \<or> l = unit"
  proof
    fix l assume l: "l \<in> set (clits c)"
    then have "l \<noteq> 0" using Cons.prems(2) cst by auto
    moreover have "get_bit dbg (checked_lits t) (- l) = Inr True \<or> l = unit"
      using find_unit_spec [OF unit(1,2)] Cons.prems(2) cst l by auto
    moreover have "sat_lit M (- l)" if "get_bit dbg (checked_lits t) (- l) = Inr True"
      using that Cons.prems(3) \<open>l \<noteq> 0\<close> unfolding bits_hold_def ct by (metis neg_equal_0_iff_equal)
    ultimately show "\<not> sat_lit M l \<or> l = unit" by auto
  qed
  then have u: "unit \<noteq> 0" "sat_lit M unit"
    using Cons.prems(2) cst by (auto simp: sat_clause_def)
  then obtain bits where b: "set_bit dbg unit True (checked_lits t) = Inr bits"
    "check_loop dbg ids (t\<lparr>checked_lits := bits\<rparr>) (used @ [(h, k)]) = Inr (True, st', used')"
    using unit(3) by blast
  have "stored (t\<lparr>checked_lits := bits\<rparr>) \<subseteq> stored st"
    using set_used_frame [of s True "(h, k)"] fk by (simp add: frame_def t_def stored_def)
  then show ?case
    using Cons.IH [OF b(2)] Cons.prems(2) bits_hold_set [OF Cons.prems(3) u, of "bits"] b(1) ct by auto
qed simp

text \<open>A clause that passes the check follows from the stored ones.\<close>

lemma check_sound:
  assumes "check dbg chain st = Inr (True, st')"
    and "\<forall>c \<in> stored st. sat_clause M c \<and> 0 \<notin> set c" "0 \<notin> set (imported_clause st)"
  shows "sat_clause M (imported_clause st)"
proof (rule ccontr)
  assume neg: "\<not> sat_clause M (imported_clause st)"
  obtain taut bits where a:
    "assume_negation dbg (imported_clause st) (map (\<lambda>_. False) (checked_lits st)) = Inr (taut, bits)"
    using assms(1) by (auto simp: check_def bind_res_eq_Inr)
  have "\<not> taut \<and> bits_hold dbg M bits"
    by (rule assume_negation_sound [OF a bits_hold_clear assms(3) neg])
  moreover from this a assms(1) obtain s used
    where "check_loop dbg chain (st\<lparr>checked_lits := bits\<rparr>) [] = Inr (True, s, used)"
    by (auto simp: check_def bind_res_eq_Inr)
  ultimately show False
    using check_loop_sound [of dbg chain "st\<lparr>checked_lits := bits\<rparr>" "[]" s used M] assms(2)
    by (simp add: stored_def)
qed

lemma check_keeps: "check dbg chain st = Inr (b, st') \<Longrightarrow> frame st st'"
proof -
  assume a: "check dbg chain st = Inr (b, st')"
  have upd: "frame st (st\<lparr>checked_lits := bits\<rparr>)" for bits
    by (simp add: frame_def same_log_def stored_def)
  obtain taut bits where n: "assume_negation dbg (imported_clause st) (map (\<lambda>_. False) (checked_lits st)) = Inr (taut, bits)"
    using a by (auto simp: check_def bind_res_eq_Inr)
  show ?thesis
  proof (cases taut)
    case True
    then show ?thesis using a n upd by (auto simp: check_def bind_res_eq_Inr)
  next
    case False
    then obtain s used where "check_loop dbg chain (st\<lparr>checked_lits := bits\<rparr>) [] = Inr (b, s, used)"
      "st' = fold (set_used False) used s"
      using a n by (auto simp: check_def bind_res_eq_Inr)
    then show ?thesis using upd check_loop_keeps fold_set_used_frame frame_trans by metis
  qed
qed
section \<open>The other operations keep the stored clauses\<close>

lemma find_clause_keeps: "find_clause dbg i st = Inr (c, st') \<Longrightarrow> frame st st'"
  using find_keeps by (fastforce simp: find_clause_def bind_res_eq_Inr split: option.splits)

lemma frame_checked [simp]: "frame st (st\<lparr>checked_lits := bits\<rparr>)"
  by (simp add: frame_def same_log_def stored_def)

lemma resolve_step_keeps: "resolve_step dbg i st = Inr st' \<Longrightarrow> frame st st'"
  using find_clause_keeps frame_trans frame_checked by (fastforce simp: resolve_step_def bind_res_eq_Inr)

lemma resolve_steps_keep: "fold_res (resolve_step dbg) ids st = Inr st' \<Longrightarrow> frame st st'"
  by (rule fold_res_frame [where R = frame]) (auto intro: frame_trans resolve_step_keeps)

lemma check_resolution_keeps:
  assumes "check_resolution dbg chain st = Inr (b, st')"
  shows "frame st st'"
proof (cases "chain = [] \<or> strict_lrat st")
  case True
  then show ?thesis using assms by (cases "chain = []") (auto simp: check_resolution_def)
next
  case False
  then have ne: "chain \<noteq> []" "\<not> strict_lrat st" by auto
  obtain c s where s: "find_clause dbg (last chain) st = Inr (c, s)"
    using assms ne by (cases "find_clause dbg (last chain) st") (auto simp: check_resolution_def)
  obtain bits t where t: "fold_res (resolve_step dbg) (rev (butlast chain)) (s\<lparr>checked_lits := bits\<rparr>) = Inr t"
    "\<exists>bits'. st' = t\<lparr>checked_lits := bits'\<rparr>"
    using assms unfolding check_resolution_def if_not_P [OF ne(1)] if_not_P [OF ne(2)] s
    by (auto simp: bind_res_eq_Inr Let_def split: if_splits)
  then show ?thesis
    using find_clause_keeps [OF s] resolve_steps_keep [OF t(1)] frame_checked frame_trans by metis
qed

lemma check_stored_keeps:
  "check_stored dbg d st = Inr st' \<Longrightarrow>
   \<exists>c bits bits'. d = Some c \<and> set_bits dbg (imported_clause st) True (marks st) = Inr bits \<and>
     all_marked dbg bits (clits c) = Inr True \<and> set_bits dbg (imported_clause st) False bits = Inr bits' \<and>
     st' = st\<lparr>marks := bits'\<rparr>"
  by (auto simp: check_stored_def bind_res_eq_Inr split: option.splits)

lemma push_chain_stored:
  "push_chain dbg sz c table = Inr table' \<Longrightarrow>
   table_lits table' \<subseteq> Set.insert (clits c) (table_lits table)"
proof -
  assume "push_chain dbg sz c table = Inr table'"
  then obtain h where h: "h < length table" "table' = table[h := c # table ! h]"
    by (auto simp: push_chain_def bind_res_eq_Inr get_at_eq_Inr set_at_eq_Inr)
  have "clits ` set (c # table ! h) \<subseteq> Set.insert (clits c) (table_lits table)"
    using table_lits_nth [OF h(1)] by auto
  then show ?thesis using table_lits_update [of table h "c # table ! h"] h(2) by blast
qed

lemma fold_push_chain_stored:
  "fold_res (push_chain dbg sz) cs table = Inr table' \<Longrightarrow>
   table_lits table' \<subseteq> clits ` set cs \<union> table_lits table"
proof (induction cs arbitrary: table)
  case (Cons c cs)
  then obtain t where "push_chain dbg sz c table = Inr t" "fold_res (push_chain dbg sz) cs t = Inr table'"
    by (auto simp: bind_res_eq_Inr)
  then show ?case using Cons.IH [of t] push_chain_stored [of dbg sz c table t] by auto
qed auto

lemma enlarge_clauses_keeps: "enlarge_clauses dbg st = Inr st' \<Longrightarrow> frame st st'"
proof -
  assume "enlarge_clauses dbg st = Inr st'"
  moreover define n where "n = (if clauses st \<noteq> [] then 2 * length (clauses st) else 1)"
  ultimately obtain table where
    t: "fold_res (push_chain dbg (word_of_nat n)) (concat (clauses st)) (replicate n []) = Inr table"
    "st' = st\<lparr>clauses := table\<rparr>"
    unfolding enlarge_clauses_def n_def [symmetric] by (auto simp: bind_res_eq_Inr Let_def split: if_splits)
  have "table_lits table \<subseteq> table_lits (clauses st)"
    using fold_push_chain_stored [OF t(1)] by (simp add: table_lits_concat)
  then show ?thesis using t(2) by (simp add: frame_def same_log_def stored_def)
qed

lemma new_clause_keeps:
  "new_clause dbg st = Inr (c, st') \<Longrightarrow> frame st st' \<and> clauses st' = clauses st \<and> clits c = imported_clause st"
  by (auto simp: new_clause_def bind_res_eq_Inr Let_def frame_def same_log_def stored_def)

lemma insert_keeps:
  assumes "insert dbg st = Inr st'"
  shows "same_log st st' \<and> marks st' = marks st \<and> stored st' \<subseteq> Set.insert (imported_clause st) (stored st)"
proof -
  obtain s where s: "(if num_clauses st = length (clauses st) then enlarge_clauses dbg st else Inr st) = Inr s"
    using assms by (auto simp: insert_def bind_res_eq_Inr)
  have fs: "frame st s" using s enlarge_clauses_keeps by (auto split: if_splits)
  obtain hash t h c u where r: "compute_hash dbg (last_id s) s = Inr (hash, t)"
    "new_clause dbg t = Inr (c, u)" "h < length (clauses u)"
    "st' = u\<lparr>clauses := (clauses u)[h := c # clauses u ! h]\<rparr>"
    using assms s by (auto simp: insert_def bind_res_eq_Inr get_at_eq_Inr)
  have fu: "frame s u" "clits c = imported_clause s" "clauses u = clauses s"
    using compute_hash_keeps [OF r(1)] new_clause_keeps [OF r(2)]
    by (auto simp: frame_def same_log_def stored_def)
  have "clits ` set (c # clauses u ! h) \<subseteq> Set.insert (clits c) (stored u)"
    using table_lits_nth [OF r(3)] by (auto simp: stored_def)
  then have "stored st' \<subseteq> Set.insert (clits c) (stored u)"
    using table_lits_update [of "clauses u" h "c # clauses u ! h"] r(4) by (simp add: stored_def) blast
  then show ?thesis using fs fu r(4) by (auto simp: frame_def same_log_def)
qed

lemma collect_garbage_keeps: "collect_garbage_clauses dbg st = Inr st' \<Longrightarrow> frame st st'"
proof -
  assume "collect_garbage_clauses dbg st = Inr st'"
  then obtain s where s: "fold_res (delete_object dbg) (garbage st) st = Inr s" "st' = s\<lparr>garbage := []\<rparr>"
    by (auto simp: collect_garbage_clauses_def bind_res_eq_Inr)
  have "frame u v" if "delete_object dbg c u = Inr v" for c u v
    using that by (auto simp: delete_object_def bind_res_eq_Inr frame_def same_log_def stored_def split: if_splits)
  then have "frame st s"
    by (intro fold_res_frame [of "garbage st" "delete_object dbg" frame, OF _ _ _ s(1)]) (auto intro: frame_trans)
  then show ?thesis using s(2) by (auto simp: frame_def same_log_def stored_def)
qed

lemma unlink_stored: "h < length (clauses st) \<Longrightarrow> frame st (unlink h k st)"
proof -
  assume h: "h < length (clauses st)"
  have "set (take k (clauses st ! h) @ drop (Suc k) (clauses st ! h)) \<subseteq> set (clauses st ! h)"
    by (auto dest: in_set_takeD in_set_dropD)
  then have "clits ` set (take k (clauses st ! h) @ drop (Suc k) (clauses st ! h)) \<subseteq> table_lits (clauses st)"
    using table_lits_nth [OF h] by blast
  then have "table_lits ((clauses st)[h := take k (clauses st ! h) @ drop (Suc k) (clauses st ! h)]) \<subseteq> table_lits (clauses st)"
    using table_lits_update [of "clauses st" h "take k (clauses st ! h) @ drop (Suc k) (clauses st ! h)"] by blast
  then show ?thesis by (simp add: frame_def same_log_def unlink_def Let_def stored_def)
qed
section \<open>Marks\<close>

definition marks_clear :: "bool \<Rightarrow> bool list \<Rightarrow> bool" where
  "marks_clear dbg bits \<longleftrightarrow> (\<forall>l. l \<noteq> 0 \<longrightarrow> get_bit dbg bits l \<noteq> Inr True)"

lemma get_set_bits:
  "set_bits dbg lits v bits = Inr bits' \<Longrightarrow> 0 \<notin> set lits \<Longrightarrow> l \<noteq> 0 \<Longrightarrow>
   get_bit dbg bits' l = (if l \<in> set lits then Inr v else get_bit dbg bits l)"
  unfolding set_bits_def
proof (induction lits arbitrary: bits)
  case (Cons lit lits)
  then obtain b where b: "set_bit dbg lit v bits = Inr b" "fold_res (\<lambda>lit. set_bit dbg lit v) lits b = Inr bits'"
    by (auto simp: bind_res_eq_Inr)
  show ?case using Cons.IH [OF b(2)] Cons.prems(2,3) get_set_bit [OF _ Cons.prems(3) b(1)] by auto
qed simp

lemma all_marked_True: "all_marked dbg bits lits = Inr True \<Longrightarrow> \<forall>l \<in> set lits. get_bit dbg bits l = Inr True"
  by (induction lits) (auto simp: bind_res_eq_Inr split: if_splits)

lemma marks_clear_resize: "marks_clear dbg bits \<Longrightarrow> marks_clear dbg (resize n False bits)"
  by (auto simp: marks_clear_def get_bit_def bind_res_eq_Inr get_at_eq_Inr resize_def nth_append split: if_splits)

lemma marks_clear_Nil [simp]: "marks_clear dbg []"
  by (auto simp: marks_clear_def get_bit_def bind_res_eq_Inr get_at_eq_Inr)

lemma import_literal_marks:
  "import_literal dbg lit st = Inr st' \<Longrightarrow> marks_clear dbg (marks st) \<Longrightarrow> marks_clear dbg (marks st')"
  by (auto simp: import_literal_def bind_res_eq_Inr enlarge_vars_def marks_clear_resize Let_def split: if_splits)

lemma import_clause_marks:
  "import_clause dbg c st = Inr st' \<Longrightarrow> marks_clear dbg (marks st) \<Longrightarrow> marks_clear dbg (marks st')"
  unfolding import_clause_def
  by (rule fold_res_frame [where R = "\<lambda>s s'. marks_clear dbg (marks s) \<longrightarrow> marks_clear dbg (marks s')", THEN mp])
    (auto intro: import_literal_marks)

text \<open>A stored clause that passes the test has all its literals among the imported ones.\<close>

lemma check_stored_subset:
  assumes "check_stored dbg d st = Inr st'" "marks_clear dbg (marks st)" "0 \<notin> set (imported_clause st)"
  shows "\<exists>c. d = Some c \<and> (0 \<notin> set (clits c) \<longrightarrow> set (clits c) \<subseteq> set (imported_clause st)) \<and>
    (\<exists>bits. st' = st\<lparr>marks := bits\<rparr> \<and> marks_clear dbg bits)"
proof -
  obtain c bits bits' where c: "d = Some c" "set_bits dbg (imported_clause st) True (marks st) = Inr bits"
    "all_marked dbg bits (clits c) = Inr True" "set_bits dbg (imported_clause st) False bits = Inr bits'"
    "st' = st\<lparr>marks := bits'\<rparr>"
    using check_stored_keeps [OF assms(1)] by blast
  have "l \<in> set (imported_clause st)" if "l \<in> set (clits c)" "l \<noteq> 0" for l
    using all_marked_True [OF c(3)] that get_set_bits [OF c(2) assms(3), of l] assms(2)
    by (auto simp: marks_clear_def split: if_splits)
  moreover have "marks_clear dbg bits'"
    using get_set_bits [OF c(2) assms(3)] get_set_bits [OF c(4) assms(3)] assms(2)
    by (auto simp: marks_clear_def)
  ultimately show ?thesis using c(1,5) by (metis subsetI)
qed

section \<open>The invariant of the proof\<close>

text \<open>
  Relative to the clauses \<open>F\<close> taken as given and the constraint literals \<open>K\<close>: every stored clause and every
  clause kept for restoring follows from \<open>F\<close>; so does every accepted assumption clause, which moreover
  consists of negated assumptions and constraint literals.
\<close>

definition sound_state :: "bool \<Rightarrow> int list set \<Rightarrow> int set \<Rightarrow> lrat_checker \<Rightarrow> bool" where
  "sound_state dbg F K st \<longleftrightarrow> imported_clause st = [] \<and> marks_clear dbg (marks st) \<and>
     (\<forall>c \<in> stored st. 0 \<notin> set c \<and> entails F c) \<and>
     (\<forall>i d. clauses_to_reconstruct st i = Some d \<longrightarrow> entails F d) \<and>
     (\<forall>i \<in> set (assumption_clauses st). \<exists>c. 0 \<notin> set c \<and> entails F c \<and> uminus ` set c \<subseteq> set (assumptions st) \<union> K) \<and>
     set (constraint st) \<subseteq> K"

lemma sound_state_mono:
  assumes "sound_state dbg F K st" "F \<subseteq> G"
  shows "sound_state dbg G K st"
proof -
  have "entails G c" if "entails F c" for c using that assms(2) by (rule entails_mono)
  then show ?thesis using assms(1) unfolding sound_state_def by meson
qed

text \<open>An operation that keeps the log, adds at most implied clauses and clears the imported clause.\<close>

lemma sound_state_step:
  assumes "sound_state dbg F K st" "same_log st st'" "imported_clause st' = []" "marks_clear dbg (marks st')"
    and "\<forall>c \<in> stored st'. c \<in> stored st \<or> 0 \<notin> set c \<and> entails F c"
  shows "sound_state dbg F K st'"
  using assms unfolding sound_state_def same_log_def by auto

lemma restore_clause_sound:
  assumes "restore_clause i c st = Inr st'" "sound_state dbg F K st"
  shows "sound_state dbg F K st' \<and> strict_lrat st' = strict_lrat st \<and> (strict_lrat st \<longrightarrow> entails F c)"
proof (cases "clauses_to_reconstruct st i")
  case None
  then show ?thesis using assms by (auto simp: restore_clause_def split: if_splits)
next
  case (Some d)
  then have r: "list_all2 (=) (sort c) d"
    "st' = st\<lparr>clauses_to_reconstruct := (clauses_to_reconstruct st)(i := None)\<rparr>"
    using assms(1) by (auto simp: restore_clause_def bind_res_eq_Inr)
  have "entails F (sort c)" using r(1) Some assms(2) by (simp add: list.rel_eq sound_state_def)
  then have "entails F c" by (rule entails_weaker) simp
  moreover have "sound_state dbg F K st'"
    using assms(2) unfolding r(2) sound_state_def stored_def by simp
  ultimately show ?thesis using r(2) by simp
qed

text \<open>The end of both kinds of addition: the new clause enters the table.\<close>

lemma insert_sound:
  assumes "insert dbg st = Inr st'" "sound_state dbg F K (st\<lparr>imported_clause := []\<rparr>)"
    and "0 \<notin> set (imported_clause st)" "entails F (imported_clause st)"
  shows "sound_state dbg F K (st'\<lparr>imported_clause := []\<rparr>) \<and> strict_lrat st' = strict_lrat st"
proof -
  note k = insert_keeps [OF assms(1)]
  have "sound_state dbg F K (st'\<lparr>imported_clause := []\<rparr>)"
  proof (rule sound_state_step [OF assms(2)])
    show "same_log (st\<lparr>imported_clause := []\<rparr>) (st'\<lparr>imported_clause := []\<rparr>)"
      using k by (simp add: same_log_def)
    show "marks_clear dbg (marks (st'\<lparr>imported_clause := []\<rparr>))"
      using k assms(2) by (simp add: sound_state_def)
    show "\<forall>c\<in>stored (st'\<lparr>imported_clause := []\<rparr>). c \<in> stored (st\<lparr>imported_clause := []\<rparr>) \<or> 0 \<notin> set c \<and> entails F c"
      using k assms(3,4) by (auto simp: stored_def)
  qed simp
  then show ?thesis using k by (simp add: same_log_def)
qed

text \<open>Steps before it: all keep the invariant but for the imported clause.\<close>

definition keeps :: "bool \<Rightarrow> lrat_checker \<Rightarrow> lrat_checker \<Rightarrow> bool" where
  "keeps dbg s t \<longleftrightarrow> same_log s t \<and> stored t \<subseteq> stored s \<and> (marks_clear dbg (marks s) \<longrightarrow> marks_clear dbg (marks t))"

lemma keeps_trans: "keeps dbg s t \<Longrightarrow> keeps dbg t u \<Longrightarrow> keeps dbg s u"
  by (auto simp: keeps_def same_log_def)

lemma keeps_frame: "frame s t \<Longrightarrow> keeps dbg s t"
  by (auto simp: keeps_def frame_def)

lemma keeps_import: "import_clause dbg c s = Inr t \<Longrightarrow> keeps dbg s t"
  using import_clause_keeps import_clause_marks by (fastforce simp: keeps_def stored_def)

lemma keeps_ids [simp]: "keeps dbg s (s\<lparr>last_id := i\<rparr>)" "keeps dbg s (s\<lparr>current_id := i\<rparr>)"
  "keeps dbg s (s\<lparr>imported_clause := c\<rparr>)" "keeps dbg s (s\<lparr>num_finalized := n\<rparr>)"
  "keeps dbg s (s\<lparr>num_garbage := n, num_clauses := m\<rparr>)" "keeps dbg s (s\<lparr>concluded := b\<rparr>)" "keeps dbg s s"
  by (simp_all add: keeps_def same_log_def stored_def)

lemma keeps_sound:
  assumes "keeps dbg s t" "sound_state dbg F K (s\<lparr>imported_clause := []\<rparr>)"
  shows "sound_state dbg F K (t\<lparr>imported_clause := []\<rparr>)"
proof (rule sound_state_step [OF assms(2)])
  show "same_log (s\<lparr>imported_clause := []\<rparr>) (t\<lparr>imported_clause := []\<rparr>)"
    using assms(1) by (simp add: keeps_def same_log_def)
  show "marks_clear dbg (marks (t\<lparr>imported_clause := []\<rparr>))"
    using assms by (simp add: keeps_def sound_state_def)
  show "\<forall>c\<in>stored (t\<lparr>imported_clause := []\<rparr>). c \<in> stored (s\<lparr>imported_clause := []\<rparr>) \<or> 0 \<notin> set c \<and> entails F c"
    using assms(1) by (auto simp: keeps_def stored_def)
qed simp

lemma sound_state_clear: "sound_state dbg F K st \<Longrightarrow> st\<lparr>imported_clause := []\<rparr> = st"
  by (simp add: sound_state_def)

lemma add_original_clause_sound:
  assumes "add_original_clause dbg i c restore st = Inr st'" "sound_state dbg F K st" "0 \<notin> set c"
  shows "sound_state dbg (if restore \<and> strict_lrat st then F else Set.insert c F) K st' \<and>
    strict_lrat st' = strict_lrat st"
proof -
  let ?F = "if restore \<and> strict_lrat st then F else Set.insert c F"
  obtain s where s: "(if restore then restore_clause i c st else Inr st) = Inr s"
    using assms(1) by (auto simp: add_original_clause_def bind_res_eq_Inr)
  have ss: "sound_state dbg ?F K s" "strict_lrat s = strict_lrat st" "entails ?F c"
    using s restore_clause_sound [OF _ assms(2), of i c s] assms(2)
      sound_state_mono [of dbg F K s "Set.insert c F"] entails_member [of c "Set.insert c F"]
    by (auto split: if_splits)
  obtain t where t: "import_clause dbg c s = Inr t"
    using assms(1) s by (auto simp: add_original_clause_def bind_res_eq_Inr)
  define t' where "t' = (let t = t\<lparr>last_id := i\<rparr> in
    if \<not> restore \<and> i = 1 + current_id t then t\<lparr>current_id := i\<rparr> else t)"
  have kt: "keeps dbg t t'" "imported_clause t' = imported_clause t"
    unfolding t'_def Let_def by (auto intro: keeps_trans keeps_ids)
  obtain d u v where u: "(if clauses t' \<noteq> [] \<and> \<not> restore then find_present dbg i t' else Inr (False, t')) = Inr (d, u)"
    "insert dbg u = Inr v" "st' = v\<lparr>imported_clause := []\<rparr>"
    using assms(1) unfolding add_original_clause_def s bind_res_Inr t Let_def t'_def [unfolded Let_def, symmetric]
    by (auto simp: bind_res_eq_Inr)
  have fu: "frame t' u" using u(1) find_present_keeps [of dbg i t' d u] by (auto split: if_splits)
  have k: "keeps dbg s u" using keeps_import [OF t] kt(1) keeps_frame [OF fu] keeps_trans by blast
  have imp: "imported_clause u = c"
    using import_clause_keeps [OF t] kt(2) fu ss(1) by (simp add: frame_def sound_state_def)
  have "sound_state dbg ?F K (u\<lparr>imported_clause := []\<rparr>)"
    using keeps_sound [OF k] ss(1) sound_state_clear [OF ss(1)] by simp
  then show ?thesis
    using insert_sound [OF u(2), of ?F K] imp assms(3) ss u(3) k by (simp add: keeps_def same_log_def)
qed

lemma add_derived_clause_sound:
  assumes "add_derived_clause dbg i c chain st = Inr st'" "sound_state dbg F K st" "0 \<notin> set c"
  shows "sound_state dbg F K st' \<and> strict_lrat st' = strict_lrat st \<and> entails F c \<and>
    assumptions st' = assumptions st \<and> constraint st' = constraint st"
proof -
  obtain s where s: "import_clause dbg c st = Inr s"
    using assms(1) by (auto simp: add_derived_clause_def bind_res_eq_Inr)
  define s' where "s' = s\<lparr>last_id := i, current_id := i\<rparr>"
  have upd: "s\<lparr>last_id := i\<rparr>\<lparr>current_id := i\<rparr> = s'" by (simp add: s'_def)
  obtain d t where t: "(if clauses s' \<noteq> [] then find_present dbg i s' else Inr (False, s')) = Inr (d, t)"
    using assms(1) unfolding add_derived_clause_def s bind_res_Inr Let_def upd by (auto simp: bind_res_eq_Inr)
  obtain u where u: "check dbg chain t = Inr (True, u)"
    using assms(1) unfolding add_derived_clause_def s bind_res_Inr Let_def upd t
    by (auto simp: bind_res_eq_Inr split: if_splits)
  obtain v w where v: "check_resolution dbg chain u = Inr (True, v)" "insert dbg v = Inr w"
    "st' = w\<lparr>imported_clause := []\<rparr>"
    using assms(1) unfolding add_derived_clause_def s bind_res_Inr Let_def upd t
    by (auto simp: bind_res_eq_Inr u split: if_splits)
  have ks: "keeps dbg st s'" "imported_clause s' = c"
    using keeps_import [OF s] import_clause_keeps [OF s] assms(2) keeps_trans [of dbg st s s'] keeps_ids
    by (auto simp: s'_def sound_state_def keeps_def same_log_def stored_def)
  have ft: "frame s' t" using t find_present_keeps [of dbg i s' d t] by (auto split: if_splits)
  have fv: "frame t v" using check_keeps [OF u] check_resolution_keeps [OF v(1)] by (rule frame_trans)
  have kt: "keeps dbg st t" using keeps_trans [OF ks(1) keeps_frame [OF ft]] .
  have kv: "keeps dbg st v" using keeps_trans [OF kt keeps_frame [OF fv]] .
  have imp: "imported_clause t = c" "imported_clause v = c" using ft fv ks(2) by (auto simp: frame_def)
  have sv: "sound_state dbg F K (v\<lparr>imported_clause := []\<rparr>)"
    using keeps_sound [OF kv] assms(2) sound_state_clear [OF assms(2)] by simp
  have "sat_clause M c" if "\<forall>d \<in> F. sat_clause M d" for M
  proof -
    have "\<forall>d \<in> stored t. sat_clause M d \<and> 0 \<notin> set d"
      using kt assms(2) that by (auto simp: keeps_def sound_state_def entails_def)
    then show ?thesis using check_sound [OF u] imp(1) assms(3) by simp
  qed
  then have ent: "entails F c" by (simp add: entails_def)
  show ?thesis
    using insert_sound [OF v(2) sv] imp(2) assms(3) ent v(3) kv insert_keeps [OF v(2)]
    by (simp add: keeps_def same_log_def)
qed

lemma delete_clause_sound:
  assumes "delete_clause dbg i c st = Inr st'" "sound_state dbg F K st" "0 \<notin> set c"
  shows "sound_state dbg F K st' \<and> strict_lrat st' = strict_lrat st \<and>
    assumptions st' = assumptions st \<and> constraint st' = constraint st"
proof -
  obtain s where s: "import_clause dbg c st = Inr s"
    using assms(1) by (auto simp: delete_clause_def bind_res_eq_Inr)
  obtain h k t where t: "find dbg i (s\<lparr>last_id := i\<rparr>) = Inr (h, k, t)"
    using assms(1) s by (auto simp: delete_clause_def bind_res_eq_Inr)
  obtain u where u: "check_stored dbg (clause_at t h k) t = Inr u"
    using assms(1) s t by (auto simp: delete_clause_def bind_res_eq_Inr)
  define u' where "u' = u\<lparr>num_garbage := num_garbage u + 1, num_clauses := num_clauses u - 1\<rparr>"
  obtain v where v: "(if 2 * num_garbage (unlink h k u') > max (length (clauses (unlink h k u'))) (size_vars (unlink h k u'))
      then collect_garbage_clauses dbg (unlink h k u') else Inr (unlink h k u')) = Inr v"
    "st' = v\<lparr>imported_clause := []\<rparr>"
    using assms(1) unfolding delete_clause_def s bind_res_Inr t prod.case u Let_def u'_def [symmetric]
    by (auto simp: bind_res_eq_Inr)
  note ft = find_keeps [OF t]
  have ks: "keeps dbg st t"
    using keeps_import [OF s] ft keeps_trans [OF _ keeps_trans [OF keeps_ids(1) keeps_frame]] by blast
  have imp: "imported_clause t = c"
    using ft import_clause_keeps [OF s] assms(2) by (simp add: frame_def sound_state_def)
  have "marks_clear dbg (marks t)" using ks assms(2) by (simp add: keeps_def sound_state_def)
  then obtain bits where b: "u = t\<lparr>marks := bits\<rparr>" "marks_clear dbg bits"
    using check_stored_subset [OF u] imp assms(3) by auto
  have ku: "keeps dbg t u'" using b by (simp add: keeps_def same_log_def stored_def u'_def)
  have "h < length (clauses u')" using ft b by (simp add: u'_def)
  then have kl: "keeps dbg u' (unlink h k u')" by (intro keeps_frame unlink_stored)
  have "keeps dbg (unlink h k u') v"
    using v(1) keeps_frame [OF collect_garbage_keeps, of dbg "unlink h k u'" v] by (auto split: if_splits)
  then have kv: "keeps dbg st v" using ks ku kl keeps_trans by blast
  then have "sound_state dbg F K (v\<lparr>imported_clause := []\<rparr>)"
    using keeps_sound assms(2) sound_state_clear [OF assms(2)] by simp
  then show ?thesis using v(2) kv by (simp add: keeps_def same_log_def)
qed

lemma sound_stateD:
  "sound_state dbg F K st \<Longrightarrow> imported_clause st = []"
  "sound_state dbg F K st \<Longrightarrow> set (constraint st) \<subseteq> K"
  "sound_state dbg F K st \<Longrightarrow> c \<in> stored st \<Longrightarrow> 0 \<notin> set c \<and> entails F c"
  by (simp_all add: sound_state_def)

lemma add_assumption_clause_sound:
  assumes "add_assumption_clause dbg i c chain st = Inr st'" "sound_state dbg F K st" "0 \<notin> set c"
  shows "sound_state dbg F K st' \<and> strict_lrat st' = strict_lrat st"
proof -
  have sub: "uminus ` set c \<subseteq> set (assumptions st) \<union> set (constraint st)"
    using assms(1) by (auto simp: add_assumption_clause_def bind_res_eq_Inr)
  obtain s t where s: "add_derived_clause dbg i c chain st = Inr s" "delete_clause dbg i c s = Inr t"
    "st' = t\<lparr>assumption_clauses := assumption_clauses t @ [i]\<rparr>"
    using assms(1) by (auto simp: add_assumption_clause_def bind_res_eq_Inr)
  note ds = add_derived_clause_sound [OF s(1) assms(2,3)]
  note dt = delete_clause_sound [OF s(2) conjunct1 [OF ds] assms(3)]
  have "\<exists>d. 0 \<notin> set d \<and> entails F d \<and> uminus ` set d \<subseteq> set (assumptions t) \<union> K"
    using ds dt sub assms(3) sound_stateD(2) [OF assms(2)] by (intro exI [of _ c]) auto
  then have "sound_state dbg F K st'"
    using conjunct1 [OF dt] unfolding s(3) sound_state_def stored_def by simp
  then show ?thesis using ds dt s(3) by simp
qed

text \<open>Weakening and finalizing look a clause up and test it.\<close>

lemma lookup_sound:
  assumes "import_clause dbg c st = Inr s" "find dbg i (s\<lparr>last_id := i\<rparr>) = Inr (h, k, t)"
    "check_stored dbg (clause_at t h k) t = Inr u" "sound_state dbg F K (st\<lparr>imported_clause := []\<rparr>)"
    "imported_clause st = []" "0 \<notin> set c"
  shows "sound_state dbg F K (u\<lparr>imported_clause := []\<rparr>) \<and> strict_lrat u = strict_lrat st \<and> entails F c"
proof -
  note ft = find_keeps [OF assms(2)]
  have ks: "keeps dbg st t"
    using keeps_import [OF assms(1)] ft keeps_trans [OF _ keeps_trans [OF keeps_ids(1) keeps_frame]] by blast
  have imp: "imported_clause t = c"
    using ft import_clause_keeps [OF assms(1)] assms(5) by (simp add: frame_def)
  have "marks_clear dbg (marks t)" using ks assms(4) by (simp add: keeps_def sound_state_def)
  then obtain d bits where d: "clause_at t h k = Some d" "0 \<notin> set (clits d) \<longrightarrow> set (clits d) \<subseteq> set c"
    "u = t\<lparr>marks := bits\<rparr>" "marks_clear dbg bits"
    using check_stored_subset [OF assms(3)] imp assms(6) by auto
  have "clits d \<in> stored st"
    using clause_at_stored [OF d(1)] ft ks by (auto simp: keeps_def)
  then have "0 \<notin> set (clits d)" "entails F (clits d)"
    using assms(4) by (auto simp: sound_state_def stored_def)
  then have ent: "entails F c" using entails_weaker d(2) by blast
  have "keeps dbg st u" using ks d(3,4) by (simp add: keeps_def same_log_def stored_def)
  then show ?thesis using keeps_sound [OF _ assms(4)] ent by (simp add: keeps_def same_log_def)
qed

lemma weaken_minus_sound:
  assumes "weaken_minus dbg i c st = Inr st'" "sound_state dbg F K st" "0 \<notin> set c"
  shows "sound_state dbg F K st' \<and> strict_lrat st' = strict_lrat st"
proof -
  obtain s h k t u where s: "import_clause dbg c st = Inr s" "find dbg i (s\<lparr>last_id := i\<rparr>) = Inr (h, k, t)"
    "check_stored dbg (clause_at t h k) t = Inr u"
    "st' = u\<lparr>imported_clause := [], clauses_to_reconstruct := (clauses_to_reconstruct u)(i \<mapsto> sort c)\<rparr>"
    using assms(1) by (auto simp: weaken_minus_def bind_res_eq_Inr)
  have l: "sound_state dbg F K (u\<lparr>imported_clause := []\<rparr>)" "strict_lrat u = strict_lrat st" "entails F c"
    using lookup_sound [OF s(1,2,3), of F K] assms(2,3) sound_state_clear [OF assms(2)] sound_stateD(1) [OF assms(2)]
    by simp_all
  have "entails F (sort c)" by (rule entails_weaker [OF l(3)]) simp
  then have "sound_state dbg F K st'" using l(1) unfolding s(4) sound_state_def stored_def by simp
  then show ?thesis using l(2) s(4) by simp
qed

lemma finalize_clause_sound:
  assumes "finalize_clause dbg i c st = Inr st'" "sound_state dbg F K st" "0 \<notin> set c"
  shows "sound_state dbg F K st' \<and> strict_lrat st' = strict_lrat st"
proof -
  let ?st = "st\<lparr>num_finalized := num_finalized st + 1\<rparr>"
  obtain s h k t u where s: "import_clause dbg c ?st = Inr s" "find dbg i (s\<lparr>last_id := i\<rparr>) = Inr (h, k, t)"
    "check_stored dbg (clause_at t h k) t = Inr u" "st' = u\<lparr>imported_clause := []\<rparr>"
    using assms(1) by (auto simp: finalize_clause_def bind_res_eq_Inr)
  have "sound_state dbg F K (?st\<lparr>imported_clause := []\<rparr>)" "imported_clause ?st = []"
    using keeps_sound [OF keeps_ids(4) [of dbg st "num_finalized st + 1"], of F K] assms(2)
      sound_state_clear [OF assms(2)] sound_stateD(1) [OF assms(2)] by simp_all
  then show ?thesis using lookup_sound [OF s(1,2,3)] assms(3) s(4) by simp
qed

lemma add_constraint_sound:
  assumes "add_constraint dbg c st = Inr st'" "sound_state dbg F K st" "set c \<subseteq> K"
  shows "sound_state dbg F K st' \<and> strict_lrat st' = strict_lrat st"
proof -
  have "\<exists>ks. st' = s\<lparr>constraint := ks\<rparr> \<and> set ks \<subseteq> set (constraint s) \<union> set c"
    if "fold_res (\<lambda>lit st. bind_res (cassert dbg (lit \<noteq> 0)) (\<lambda>_.
        if lit \<in> set (constraint st) then Inr st
        else Inr (st\<lparr>constraint := constraint st @ [lit]\<rparr>))) c s = Inr st'" for s
    using that
  proof (induction c arbitrary: s)
    case Nil
    then show ?case by (intro exI [of _ "constraint s"]) simp
  next
    case (Cons lit c)
    let ?s = "if lit \<in> set (constraint s) then s else s\<lparr>constraint := constraint s @ [lit]\<rparr>"
    obtain ks where "st' = ?s\<lparr>constraint := ks\<rparr>" "set ks \<subseteq> set (constraint ?s) \<union> set c"
      using Cons.IH [of ?s] Cons.prems by (auto simp: bind_res_eq_Inr split: if_splits)
    then show ?case by (intro exI [of _ ks]) (auto split: if_splits)
  qed
  from this [of "st\<lparr>constraint := []\<rparr>"] assms(1)
  obtain ks where "st' = st\<lparr>constraint := ks\<rparr>" "set ks \<subseteq> set c" by (auto simp: add_constraint_def)
  then show ?thesis using assms(2,3) unfolding sound_state_def stored_def by auto
qed

lemma conclude_unsat_sound:
  assumes "conclude_unsat dbg conc ids st = Inr st'" "sound_state dbg F K st"
  shows "sound_state dbg F K st' \<and> strict_lrat st' = strict_lrat st"
proof -
  let ?st = "st\<lparr>concluded := True\<rparr>"
  have "frame ?st st'"
    using assms(1) find_keeps
    by (cases conc) (fastforce simp: conclude_unsat_def bind_res_eq_Inr Let_def split: option.splits)+
  then have k: "keeps dbg st st'" using keeps_trans [OF keeps_ids(6) keeps_frame] by blast
  have "imported_clause st' = []" using \<open>frame ?st st'\<close> assms(2) by (simp add: frame_def sound_state_def)
  then have "st'\<lparr>imported_clause := []\<rparr> = st'" by simp
  then show ?thesis
    using keeps_sound [OF k] assms(2) sound_state_clear [OF assms(2)] k by (simp add: keeps_def same_log_def)
qed

section \<open>A whole proof\<close>

text \<open>The literals of an event; constraint literals stay within \<open>K\<close>.\<close>

fun event_ok :: "int set \<Rightarrow> proof_event \<Rightarrow> bool" where
  "event_ok K (AddOriginal i c restore) \<longleftrightarrow> 0 \<notin> set c"
| "event_ok K (AddDerived i c chain) \<longleftrightarrow> 0 \<notin> set c"
| "event_ok K (AddAssumptionClause i c chain) \<longleftrightarrow> 0 \<notin> set c"
| "event_ok K (DeleteClause i c) \<longleftrightarrow> 0 \<notin> set c"
| "event_ok K (WeakenMinus i c) \<longleftrightarrow> 0 \<notin> set c"
| "event_ok K (FinalizeClause i c) \<longleftrightarrow> 0 \<notin> set c"
| "event_ok K (AddConstraint c) \<longleftrightarrow> set c \<subseteq> K"
| "event_ok K _ \<longleftrightarrow> True"

text \<open>
  The clauses a proof takes as given: the original ones, without those that are restored while the
  checker is strict, since it compares these with the clauses weakened before.
\<close>

fun given_clauses :: "bool \<Rightarrow> proof_event list \<Rightarrow> int list set" where
  "given_clauses strict [] = {}"
| "given_clauses strict (ConnectInternal lrat # evs) = given_clauses lrat evs"
| "given_clauses strict (AddOriginal i c restore # evs) =
     (if restore \<and> strict then given_clauses strict evs else Set.insert c (given_clauses strict evs))"
| "given_clauses strict (_ # evs) = given_clauses strict evs"

lemma handle_sound:
  assumes "handle dbg ev st = Inr st'" "sound_state dbg F K st" "event_ok K ev"
  shows "sound_state dbg (F \<union> given_clauses (strict_lrat st) [ev]) K st' \<and>
    strict_lrat st' = (case ev of ConnectInternal lrat \<Rightarrow> lrat | _ \<Rightarrow> strict_lrat st)"
proof (cases ev)
  case (AddOriginal i c restore)
  then show ?thesis
    using add_original_clause_sound [of dbg i c restore st st' F K] assms by (auto split: if_splits)
next
  case (ConnectInternal lrat)
  then show ?thesis using assms by (auto simp: connect_internal_def sound_state_def stored_def)
next
  case (BeginProof i)
  then show ?thesis using assms by (auto simp: begin_proof_def sound_state_def stored_def)
next
  case (AddAssumption a)
  then show ?thesis using assms by (fastforce simp: add_assumption_def sound_state_def stored_def)
next
  case ResetAssumptions
  then show ?thesis using assms by (auto simp: reset_assumptions_def sound_state_def stored_def)
next
  case ReportStatus
  then show ?thesis using assms by (auto simp: report_status_def sound_state_def stored_def split: if_splits)
qed (use assms add_derived_clause_sound add_assumption_clause_sound delete_clause_sound weaken_minus_sound
    finalize_clause_sound add_constraint_sound conclude_unsat_sound in force)+

lemma premises_Cons:
  "given_clauses strict (ev # evs) = given_clauses strict [ev] \<union>
     given_clauses (case ev of ConnectInternal lrat \<Rightarrow> lrat | _ \<Rightarrow> strict) evs"
  by (cases ev) auto

lemma replay_sound:
  assumes "replay dbg evs st = Inr st'" "sound_state dbg F K st" "\<forall>ev \<in> set evs. event_ok K ev"
  shows "sound_state dbg (F \<union> given_clauses (strict_lrat st) evs) K st'"
  using assms
proof (induction evs arbitrary: st F)
  case (Cons ev evs)
  then obtain s where s: "handle dbg ev st = Inr s" "replay dbg evs s = Inr st'"
    by (auto simp: replay_def bind_res_eq_Inr)
  note h = handle_sound [OF s(1) Cons.prems(2)]
  show ?case
    using Cons.IH [OF s(2), of "F \<union> given_clauses (strict_lrat st) [ev]"] h Cons.prems(3)
      premises_Cons [of "strict_lrat st" ev evs]
    by (simp add: Un_assoc)
qed (simp add: replay_def)

lemma sound_state_new: "sound_state dbg {} K (LratChecker_new lrat)"
  by (simp add: sound_state_def LratChecker_new_def stored_def table_lits_def)

lemma replay_snoc: "replay dbg (evs @ [ev]) st = bind_res (replay dbg evs st) (handle dbg ev)"
  by (auto simp: replay_def fold_res_append bind_res_def split: sum.splits)

section \<open>Properties\<close>

definition example_proof :: "proof_event list" where
  "example_proof = [AddOriginal 1 [1] False, AddOriginal 2 [-1] False, AddDerived 3 [] [1, 2]]"

definition accepted :: "lrat_checker res \<Rightarrow> bool" where
  "accepted r = (case r of Inl e \<Rightarrow> False | Inr st \<Rightarrow> True)"

lemma accepted_Inr: "accepted r \<longleftrightarrow> (\<exists>st. r = Inr st)"
  by (auto simp: accepted_def split: sum.splits)

lemma example_accepted: "accepted (replay False (example_proof @ [ConcludeUnsat CONFLICT [3]]) (LratChecker_new False))"
  by code_simp

text \<open>
  C20: whatever proof the checker accepts, with additions, deletions, weakened and restored clauses in
  any order, every clause in its table follows from the clauses given to it, so no derivation step the
  checker lets pass is wrong.
\<close>

theorem lrat_proof_sound:
  assumes "replay dbg evs (LratChecker_new lrat) = Inr st" "\<forall>ev \<in> set evs. event_ok UNIV ev"
  shows "\<forall>c \<in> stored st. entails (given_clauses lrat evs) c"
proof -
  have "sound_state dbg ({} \<union> given_clauses lrat evs) UNIV st"
    using replay_sound [OF assms(1) sound_state_new assms(2)] by (simp add: LratChecker_new_def)
  then show ?thesis using sound_stateD(3) by auto
qed

theorem lrat_proof_sound_witness:
  "\<exists>st. replay False example_proof (LratChecker_new False) = Inr st \<and> (\<forall>c \<in> stored st. entails {[1], [-1]} c)"
proof -
  obtain st where st: "replay False example_proof (LratChecker_new False) = Inr st"
    using example_accepted by (auto simp: accepted_Inr replay_snoc bind_res_eq_Inr)
  have "\<forall>ev \<in> set example_proof. event_ok UNIV ev" by (simp add: example_proof_def)
  moreover have "given_clauses False example_proof = {[1], [-1]}" by (simp add: example_proof_def)
  ultimately show ?thesis using st lrat_proof_sound [OF st] by auto
qed

text \<open>
  C21: a proof whose conclusion \<open>CONFLICT\<close> is accepted shows that the given clauses are unsatisfiable.
\<close>

theorem lrat_conflict_sound:
  assumes "replay dbg (evs @ [ConcludeUnsat CONFLICT ids]) (LratChecker_new lrat) = Inr st"
    and "\<forall>ev \<in> set evs. event_ok UNIV ev"
  shows "unsat (given_clauses lrat evs)"
proof -
  obtain s where s: "replay dbg evs (LratChecker_new lrat) = Inr s"
    "conclude_unsat dbg CONFLICT ids s = Inr st"
    using assms(1) by (auto simp: replay_snoc bind_res_eq_Inr)
  let ?s = "s\<lparr>concluded := True\<rparr>"
  obtain i h k t where f: "find dbg i ?s = Inr (h, k, t)"
    "(case clause_at t h k of None \<Rightarrow> Inl Aborted | Some d \<Rightarrow> bind_res (fatal_if (clits d \<noteq> [])) (\<lambda>_. Inr t)) = Inr st"
    using s(2) by (auto simp: conclude_unsat_def bind_res_eq_Inr)
  then obtain d where d: "clause_at t h k = Some d" "clits d = []"
    by (auto simp: bind_res_eq_Inr split: option.splits)
  have "clits d \<in> stored t" using clause_at_stored [OF d(1)] find_keeps [OF f(1)] by simp
  then have "[] \<in> stored s" using find_keeps [OF f(1)] d(2) by (simp add: stored_def)
  moreover have "sound_state dbg ({} \<union> given_clauses lrat evs) UNIV s"
    using replay_sound [OF s(1) sound_state_new assms(2)] by (simp add: LratChecker_new_def)
  ultimately have "entails (given_clauses lrat evs) []" using sound_stateD(3) by fastforce
  then show ?thesis by (auto simp: unsat_def entails_def sat_clause_def)
qed

theorem lrat_conflict_sound_witness: "unsat {[1], [-1]}"
proof -
  obtain st where "replay False (example_proof @ [ConcludeUnsat CONFLICT [3]]) (LratChecker_new False) = Inr st"
    using example_accepted by (auto simp: accepted_Inr)
  moreover have "\<forall>ev \<in> set example_proof. event_ok UNIV ev" by (simp add: example_proof_def)
  ultimately have "unsat (given_clauses False example_proof)" by (rule lrat_conflict_sound)
  then show ?thesis by (simp add: example_proof_def)
qed

text \<open>
  C22: without a constraint, an accepted conclusion \<open>ASSUMPTIONS\<close> shows that the given clauses are
  unsatisfiable together with the assumptions made.
\<close>

theorem lrat_assumptions_sound:
  assumes "replay dbg (evs @ [ConcludeUnsat ASSUMPTIONS ids]) (LratChecker_new lrat) = Inr st"
    and "\<forall>ev \<in> set evs. event_ok {} ev"
  shows "unsat (given_clauses lrat evs \<union> (\<lambda>a. [a]) ` set (assumptions st))"
proof -
  obtain s where s: "replay dbg evs (LratChecker_new lrat) = Inr s"
    "conclude_unsat dbg ASSUMPTIONS ids s = Inr st"
    using assms(1) by (auto simp: replay_snoc bind_res_eq_Inr)
  have c: "st = s\<lparr>concluded := True\<rparr>" "length (assumption_clauses s) = 1"
    using s(2) by (auto simp: conclude_unsat_def bind_res_eq_Inr)
  have "sound_state dbg ({} \<union> given_clauses lrat evs) {} s"
    using replay_sound [OF s(1) sound_state_new assms(2)] by (simp add: LratChecker_new_def)
  moreover obtain i where "i \<in> set (assumption_clauses s)" using c(2) by (cases "assumption_clauses s") auto
  ultimately obtain d where d: "0 \<notin> set d" "entails (given_clauses lrat evs) d"
    "uminus ` set d \<subseteq> set (assumptions s)"
    unfolding sound_state_def by (metis Un_empty_right sup_bot_left)
  have refuted: "\<exists>a \<in> set (assumptions s). \<not> sat_lit M a" if "\<forall>c \<in> given_clauses lrat evs. sat_clause M c" for M
  proof -
    have "sat_clause M d" using d(2) that by (auto simp: entails_def)
    then obtain l where l: "l \<in> set d" "sat_lit M l" by (auto simp: sat_clause_def)
    then have "- l \<in> set (assumptions s)" "l \<noteq> 0" using d(1,3) by auto
    then show ?thesis using l(2) by force
  qed
  have False if M: "\<forall>c \<in> given_clauses lrat evs \<union> (\<lambda>a. [a]) ` set (assumptions s). sat_clause M c" for M
  proof -
    obtain a where "a \<in> set (assumptions s)" "\<not> sat_lit M a" using refuted [of M] M by auto
    moreover from this have "sat_clause M [a]" using M by simp
    ultimately show False by (simp add: sat_clause_def)
  qed
  then have "unsat (given_clauses lrat evs \<union> (\<lambda>a. [a]) ` set (assumptions s))" unfolding unsat_def by blast
  then show ?thesis using c(1) by simp
qed

definition example_assumptions :: "proof_event list" where
  "example_assumptions = [AddOriginal 1 [-1] False, AddAssumption 1, AddAssumptionClause 2 [-1] [1]]"

theorem lrat_assumptions_sound_witness: "unsat {[-1], [1]}"
proof -
  let ?r = "replay False (example_assumptions @ [ConcludeUnsat ASSUMPTIONS [2]]) (LratChecker_new False)"
  have "case ?r of Inl e \<Rightarrow> False | Inr st \<Rightarrow> assumptions st = [1]" by code_simp
  then obtain st where st: "?r = Inr st" "assumptions st = [1]" by (auto split: sum.splits)
  have "\<forall>ev \<in> set example_assumptions. event_ok {} ev" by (simp add: example_assumptions_def)
  then have "unsat (given_clauses False example_assumptions \<union> (\<lambda>a. [a]) ` set (assumptions st))"
    by (rule lrat_assumptions_sound [OF st(1)])
  then show ?thesis using st(2) by (simp add: example_assumptions_def insert_commute)
qed

text \<open>
  With a constraint the conclusions are not checked enough.  The ids given for a constraint may all
  be the same, and a single assumption clause may mention a literal of the constraint: both conclusions
  below are accepted, although the clause and the constraint have a common model.
\<close>

theorem lrat_constraint_too_weak:
  "(let r = replay False [AddOriginal 1 [-1] False, AddConstraint [1, 2], AddAssumptionClause 2 [-1] [1]]
      (LratChecker_new False)
    in accepted (bind_res r (handle False (ConcludeUnsat CONSTRAINT [2, 2]))) \<and>
       accepted (bind_res r (handle False (ConcludeUnsat ASSUMPTIONS [2])))) \<and>
   (\<exists>M. sat_clause M [-1] \<and> sat_clause M [1, 2])"
proof (intro conjI)
  show "\<exists>M. sat_clause M [-1] \<and> sat_clause M [1, 2]"
    by (intro exI [of _ "\<lambda>v. v \<noteq> 1"]) (simp add: sat_clause_def sat_lit_def)
qed code_simp

text \<open>
  The replay of the resolution steps takes every id of the chain, also those after the clause at
  which the propagation already found the conflict; an unknown id there is dereferenced as a null
  pointer instead of being reported as a failed check.
\<close>

theorem lrat_trailing_id:
  "replay False [AddOriginal 1 [1] False, AddDerived 2 [1] [1, 7]] (LratChecker_new False) = Inl NullPointer"
  by code_simp

end
