(* ===== verification/ProofTracers.thy ===== *)
theory ProofTracers
  imports Text
begin

unbundle bit_operations_syntax

text \<open>
  The writers of proof files: \<^verbatim>\<open>lib/cadical/src/drattracer.cpp\<close>, \<^verbatim>\<open>lrattracer.cpp\<close>, \<^verbatim>\<open>frattracer.cpp\<close> and the
  output part of \<^verbatim>\<open>file.hpp\<close>.  A file is the text written so far; writing does not fail.  Each format is
  given a reader, and what was written is shown to be read back.  Messages are left out.
\<close>

section \<open>Writing numbers\<close>

text \<open>\<^verbatim>\<open>File::put\<close> of the integer types: digits are put into a buffer from its end.\<close>

fun digit_buffer :: "nat \<Rightarrow> string \<Rightarrow> string" where
  "digit_buffer idx buffer =
     (if idx = 0 then buffer else digit_buffer (idx div 10) (digit_char (idx mod 10) # buffer))"

declare digit_buffer.simps [simp del]

definition put_int :: "int \<Rightarrow> string" where
  "put_int lit =
     (if lit = 0 then ''0''
      else if lit = - 2147483648 then ''-2147483648''
      else (if lit < 0 then ''-'' else []) @ digit_buffer (nat \<bar>lit\<bar>) [])"

definition put_uint64 :: "u64 \<Rightarrow> string" where
  "put_uint64 l = (if l = 0 then ''0'' else digit_buffer (unat l) [])"

text \<open>Seven bits per byte, the lowest first; the top bit of a byte says that more follow.\<close>

function varint :: "'a::len word \<Rightarrow> string" where
  "varint x =
     (if x AND NOT 0x7F \<noteq> 0
      then char_of (unat (ucast ((x AND 0x7F) OR 0x80) :: u8)) # varint (drop_bit 7 x)
      else [char_of (unat (ucast x :: u8))])"
  by pat_completeness auto
termination varint
proof (relation "measure unat")
  fix x :: "'a word"
  assume "x AND NOT 0x7F \<noteq> 0"
  then have "x \<noteq> 0" by auto
  then have "unat x > 0" by (simp add: unat_gt_0)
  moreover have "unat (drop_bit 7 x) = unat x div 2 ^ 7" by (subst unat_drop_bit_eq) (simp only: drop_bit_nat_def)
  ultimately have "unat (drop_bit 7 x) < unat x" by simp
  then show "(drop_bit 7 x, x) \<in> measure unat" by simp
qed simp

declare varint.simps [simp del]

text \<open>\<^verbatim>\<open>put_binary_lit\<close> of the DRAT and LRAT writers, which compute in \<^verbatim>\<open>unsigned\<close>, and of the FRAT writer,
  which computes \<^verbatim>\<open>2 * abs (lit)\<close> in \<^verbatim>\<open>int\<close>.\<close>

definition put_binary_zero :: string where
  "put_binary_zero = [char_of (0 :: nat)]"

definition put_binary_lit :: "bool \<Rightarrow> int \<Rightarrow> string res" where
  "put_binary_lit dbg lit =
     bind_res (cassert dbg (lit \<noteq> INT_MIN)) (\<lambda>_.
       if lit = INT_MIN then Inl SignedOverflow
       else let idx = word_of_int \<bar>lit\<bar> :: u32
            in bind_res (cassert dbg (idx < 2 ^ 31)) (\<lambda>_.
                 Inr (varint (2 * idx + (if lit < 0 then 1 else 0)))))"

definition frat_put_binary_lit :: "bool \<Rightarrow> int \<Rightarrow> string res" where
  "frat_put_binary_lit dbg lit =
     bind_res (cassert dbg (lit \<noteq> INT_MIN)) (\<lambda>_.
       if lit = INT_MIN \<or> 2 * \<bar>lit\<bar> + (if lit < 0 then 1 else 0) > INT_MAX then Inl SignedOverflow
       else Inr (varint (word_of_int (2 * \<bar>lit\<bar> + (if lit < 0 then 1 else 0)) :: u32)))"

text \<open>\<^verbatim>\<open>put_binary_id\<close> of the LRAT writer takes the 64 bit id as a signed number.\<close>

definition put_binary_id :: "bool \<Rightarrow> u64 \<Rightarrow> string res" where
  "put_binary_id dbg i =
     bind_res (cassert dbg (i \<noteq> drop_bit 1 (NOT 0))) (\<lambda>_.
       if i = push_bit 63 1 then Inl SignedOverflow
       else let u = (if sint i < 0 then - i else i)
            in bind_res (cassert dbg (u < push_bit 63 1)) (\<lambda>_.
                 Inr (varint (2 * u + (if sint i < 0 then 1 else 0)))))"

definition frat_put_binary_id :: "u64 \<Rightarrow> string" where
  "frat_put_binary_id i = varint i"

section \<open>Files and the DRAT writer\<close>

record tracer =
  file_closed :: bool
  content :: string
  binary :: bool
  added :: nat
  deleted :: nat

definition put :: "string \<Rightarrow> ('a) tracer_scheme \<Rightarrow> 'a tracer_scheme" where
  "put s t = t\<lparr>content := content t @ s\<rparr>"

text \<open>A loop that puts one piece for each element.\<close>

fun put_each :: "('x \<Rightarrow> string res) \<Rightarrow> 'x list \<Rightarrow> string res" where
  "put_each f [] = Inr []"
| "put_each f (x # xs) = bind_res (f x) (\<lambda>s. bind_res (put_each f xs) (\<lambda>r. Inr (s @ r)))"

definition put_lits :: "(int \<Rightarrow> string res) \<Rightarrow> bool \<Rightarrow> int list \<Rightarrow> string res" where
  "put_lits put_binary bin clause =
     put_each (\<lambda>lit. if bin then put_binary lit else Inr (put_int lit @ '' '')) clause"

definition put_end :: "bool \<Rightarrow> string" where
  "put_end bin = (if bin then put_binary_zero else ''0'' @ [newline])"

definition drat_add_clause :: "bool \<Rightarrow> int list \<Rightarrow> tracer \<Rightarrow> tracer res" where
  "drat_add_clause dbg clause t =
     bind_res (put_lits (put_binary_lit dbg) (binary t) clause) (\<lambda>lits.
       Inr (put ((if binary t then ''a'' else []) @ lits @ put_end (binary t)) t))"

definition drat_delete_clause :: "bool \<Rightarrow> int list \<Rightarrow> tracer \<Rightarrow> tracer res" where
  "drat_delete_clause dbg clause t =
     bind_res (put_lits (put_binary_lit dbg) (binary t) clause) (\<lambda>lits.
       Inr (put ((if binary t then ''d'' else ''d '') @ lits @ put_end (binary t)) t))"

definition DratTracer_new :: "bool \<Rightarrow> tracer" where
  "DratTracer_new bin = \<lparr>file_closed = False, content = [], binary = bin, added = 0, deleted = 0\<rparr>"

definition drat_add_derived :: "bool \<Rightarrow> int list \<Rightarrow> tracer \<Rightarrow> tracer res" where
  "drat_add_derived dbg clause t =
     (if file_closed t then Inr t
      else bind_res (drat_add_clause dbg clause t) (\<lambda>t. Inr (t\<lparr>added := added t + 1\<rparr>)))"

definition drat_delete :: "bool \<Rightarrow> int list \<Rightarrow> tracer \<Rightarrow> tracer res" where
  "drat_delete dbg clause t =
     (if file_closed t then Inr t
      else bind_res (drat_delete_clause dbg clause t) (\<lambda>t. Inr (t\<lparr>deleted := deleted t + 1\<rparr>)))"

text \<open>Closing and flushing are the same code in the three writers.\<close>

definition tracer_close :: "bool \<Rightarrow> 'a tracer_scheme \<Rightarrow> 'a tracer_scheme res" where
  "tracer_close dbg t = bind_res (cassert dbg (\<not> file_closed t)) (\<lambda>_. Inr (t\<lparr>file_closed := True\<rparr>))"

definition tracer_flush :: "bool \<Rightarrow> 'a tracer_scheme \<Rightarrow> 'a tracer_scheme res" where
  "tracer_flush dbg t = bind_res (cassert dbg (\<not> file_closed t)) (\<lambda>_. Inr t)"

section \<open>The LRAT writer\<close>

record lrat_tracer = tracer +
  latest_id :: u64
  delete_ids :: "u64 list"

definition LratTracer_new :: "bool \<Rightarrow> lrat_tracer" where
  "LratTracer_new bin = \<lparr>file_closed = False, content = [], binary = bin, added = 0, deleted = 0,
     latest_id = 0, delete_ids = []\<rparr>"

definition put_ids :: "(u64 \<Rightarrow> string res) \<Rightarrow> bool \<Rightarrow> u64 list \<Rightarrow> string res" where
  "put_ids put_binary bin ids =
     put_each (\<lambda>i. if bin then put_binary i else Inr (put_uint64 i @ '' '')) ids"

definition lrat_add_clause :: "bool \<Rightarrow> u64 \<Rightarrow> int list \<Rightarrow> u64 list \<Rightarrow> lrat_tracer \<Rightarrow> lrat_tracer res" where
  "lrat_add_clause dbg i clause chain t =
     bind_res (if delete_ids t \<noteq> []
       then bind_res (put_ids (put_binary_id dbg) (binary t) (delete_ids t)) (\<lambda>ids.
              Inr ((put ((if \<not> binary t then put_uint64 (latest_id t) @ '' '' else []) @
                         (if binary t then ''d'' else ''d '') @ ids @ put_end (binary t)) t)\<lparr>delete_ids := []\<rparr>))
       else Inr t) (\<lambda>t.
     let t = t\<lparr>latest_id := i\<rparr>
     in bind_res (if binary t then put_binary_id dbg i else Inr (put_uint64 i @ '' '')) (\<lambda>idtext.
        bind_res (put_lits (put_binary_lit dbg) (binary t) clause) (\<lambda>lits.
        bind_res (put_ids (put_binary_id dbg) (binary t) chain) (\<lambda>ids.
          Inr (put ((if binary t then ''a'' else []) @ idtext @ lits @
                    (if binary t then put_binary_zero else ''0 '') @ ids @ put_end (binary t)) t)))))"

definition lrat_delete_clause :: "u64 \<Rightarrow> lrat_tracer \<Rightarrow> lrat_tracer" where
  "lrat_delete_clause i t = t\<lparr>delete_ids := delete_ids t @ [i]\<rparr>"

definition lrat_add_derived :: "bool \<Rightarrow> u64 \<Rightarrow> int list \<Rightarrow> u64 list \<Rightarrow> lrat_tracer \<Rightarrow> lrat_tracer res" where
  "lrat_add_derived dbg i clause chain t =
     (if file_closed t then Inr t
      else bind_res (lrat_add_clause dbg i clause chain t) (\<lambda>t. Inr (t\<lparr>added := added t + 1\<rparr>)))"

definition lrat_delete :: "u64 \<Rightarrow> lrat_tracer \<Rightarrow> lrat_tracer" where
  "lrat_delete i t =
     (if file_closed t then t else (lrat_delete_clause i t)\<lparr>deleted := deleted t + 1\<rparr>)"

definition lrat_begin_proof :: "u64 \<Rightarrow> lrat_tracer \<Rightarrow> lrat_tracer" where
  "lrat_begin_proof i t = (if file_closed t then t else t\<lparr>latest_id := i\<rparr>)"

section \<open>The FRAT writer\<close>

record frat_tracer = tracer +
  with_antecedents :: bool
  finalized :: nat
  original :: nat

definition FratTracer_new :: "bool \<Rightarrow> bool \<Rightarrow> frat_tracer" where
  "FratTracer_new bin antecedents = \<lparr>file_closed = False, content = [], binary = bin, added = 0,
     deleted = 0, with_antecedents = antecedents, finalized = 0, original = 0\<rparr>"

text \<open>The lines for original, derived, deleted and finalized clauses differ in their letter.\<close>

definition frat_line :: "bool \<Rightarrow> char \<Rightarrow> u64 \<Rightarrow> int list \<Rightarrow> frat_tracer \<Rightarrow> string res" where
  "frat_line dbg letter i clause t =
     bind_res (put_lits (frat_put_binary_lit dbg) (binary t) clause) (\<lambda>lits.
       Inr ((if binary t then [letter] else [letter] @ '' '') @
            (if binary t then frat_put_binary_id i else put_uint64 i @ ''  '') @ lits))"

definition frat_add_original_clause :: "bool \<Rightarrow> u64 \<Rightarrow> int list \<Rightarrow> frat_tracer \<Rightarrow> frat_tracer res" where
  "frat_add_original_clause dbg i clause t =
     bind_res (frat_line dbg CHR ''o'' i clause t) (\<lambda>s. Inr (put (s @ put_end (binary t)) t))"

definition frat_add_derived_clause :: "bool \<Rightarrow> u64 \<Rightarrow> int list \<Rightarrow> frat_tracer \<Rightarrow> frat_tracer res" where
  "frat_add_derived_clause dbg i clause t =
     bind_res (frat_line dbg CHR ''a'' i clause t) (\<lambda>s. Inr (put (s @ put_end (binary t)) t))"

definition frat_add_derived_with_chain ::
    "bool \<Rightarrow> u64 \<Rightarrow> int list \<Rightarrow> u64 list \<Rightarrow> frat_tracer \<Rightarrow> frat_tracer res" where
  "frat_add_derived_with_chain dbg i clause chain t =
     bind_res (frat_line dbg CHR ''a'' i clause t) (\<lambda>s.
     bind_res (put_ids (\<lambda>c. Inr (frat_put_binary_id (2 * c))) (binary t) chain) (\<lambda>ids.
       Inr (put (s @ (if binary t then put_binary_zero @ ''l'' else ''0  l '') @ ids @ put_end (binary t)) t)))"

definition frat_delete_clause :: "bool \<Rightarrow> u64 \<Rightarrow> int list \<Rightarrow> frat_tracer \<Rightarrow> frat_tracer res" where
  "frat_delete_clause dbg i clause t =
     bind_res (frat_line dbg CHR ''d'' i clause t) (\<lambda>s. Inr (put (s @ put_end (binary t)) t))"

definition frat_finalize_clause :: "bool \<Rightarrow> u64 \<Rightarrow> int list \<Rightarrow> frat_tracer \<Rightarrow> frat_tracer res" where
  "frat_finalize_clause dbg i clause t =
     bind_res (frat_line dbg CHR ''f'' i clause t) (\<lambda>s. Inr (put (s @ put_end (binary t)) t))"

definition frat_add_original :: "bool \<Rightarrow> u64 \<Rightarrow> int list \<Rightarrow> frat_tracer \<Rightarrow> frat_tracer res" where
  "frat_add_original dbg i clause t = (if file_closed t then Inr t else frat_add_original_clause dbg i clause t)"

definition frat_add_derived :: "bool \<Rightarrow> u64 \<Rightarrow> int list \<Rightarrow> u64 list \<Rightarrow> frat_tracer \<Rightarrow> frat_tracer res" where
  "frat_add_derived dbg i clause chain t =
     (if file_closed t then Inr t
      else bind_res (if with_antecedents t then frat_add_derived_with_chain dbg i clause chain t
                     else frat_add_derived_clause dbg i clause t) (\<lambda>t.
             Inr (t\<lparr>added := added t + 1\<rparr>)))"

definition frat_delete :: "bool \<Rightarrow> u64 \<Rightarrow> int list \<Rightarrow> frat_tracer \<Rightarrow> frat_tracer res" where
  "frat_delete dbg i clause t =
     (if file_closed t then Inr t
      else bind_res (frat_delete_clause dbg i clause t) (\<lambda>t. Inr (t\<lparr>deleted := deleted t + 1\<rparr>)))"

definition frat_finalize :: "bool \<Rightarrow> u64 \<Rightarrow> int list \<Rightarrow> frat_tracer \<Rightarrow> frat_tracer res" where
  "frat_finalize dbg i clause t = (if file_closed t then Inr t else frat_finalize_clause dbg i clause t)"

section \<open>Reading variable length numbers\<close>

fun read_varint :: "string \<Rightarrow> (nat \<times> string) option" where
  "read_varint [] = None"
| "read_varint (c # cs) =
     (if char_code c < 128 then Some (char_code c, cs)
      else case read_varint cs of None \<Rightarrow> None | Some (v, rest) \<Rightarrow> Some (char_code c - 128 + 128 * v, rest))"

lemma read_varint_shorter: "read_varint cs = Some (v, rest) \<Longrightarrow> length rest < length cs"
  by (induction cs arbitrary: v rest) (fastforce split: if_splits option.splits)+

lemma low_seven: "(0x7F :: 'a::len word) = mask 7"
  by (simp add: mask_eq_exp_minus_1)

lemma unat_low_seven: "unat ((x :: 'a::len word) AND 0x7F) = unat x mod 128"
proof -
  have "unat (x AND 0x7F) = unat (take_bit 7 x)" by (simp only: low_seven take_bit_eq_mask)
  also have "\<dots> = take_bit 7 (unat x)" by (rule unsigned_take_bit_eq)
  finally show ?thesis by (simp add: take_bit_eq_mod)
qed

lemma high_bits: "x AND NOT 0x7F = 0 \<longleftrightarrow> unat (x :: 'a::len word) < 128"
proof
  assume "x AND NOT 0x7F = 0"
  then have "x = x AND 0x7F" by (metis and.right_idem bit.conj_disj_distrib bit.disj_cancel_right and.right_neutral or.left_neutral or.commute)
  then have "unat x = unat x mod 128" using unat_low_seven [of x] by simp
  then show "unat x < 128" by (metis mod_less_divisor zero_less_numeral)
next
  assume "unat x < 128"
  then have "unat (x AND 0x7F) = unat x" by (simp add: unat_low_seven)
  then have "x AND 0x7F = x" by (simp only: word_unat_eq_iff)
  then show "x AND NOT 0x7F = 0" by (metis and.assoc bit.conj_cancel_right bit.conj_zero_right)
qed

lemma more_byte:
  assumes "8 \<le> LENGTH('a)"
  shows "unat (ucast (((x :: 'a::len word) AND 0x7F) OR 0x80) :: u8) = unat x mod 128 + 128"
proof -
  have disj: "(x AND 0x7F) AND 0x80 = 0"
  proof -
    have "take_bit 7 x AND push_bit 7 (1 :: 'a word) = 0"
    proof (rule bit_word_eqI)
      fix n
      show "bit (take_bit 7 x AND push_bit 7 (1 :: 'a word)) n \<longleftrightarrow> bit (0 :: 'a word) n"
        by (simp only: bit_and_iff bit_take_bit_iff bit_push_bit_iff bit_0_eq) auto
    qed
    moreover have "push_bit 7 (1 :: 'a word) = 0x80" by simp
    ultimately show ?thesis by (simp only: low_seven take_bit_eq_mask)
  qed
  have small: "(128 :: nat) < 2 ^ LENGTH('a)"
    using power_increasing [OF assms, of "2 :: nat"] by simp
  have "(x AND 0x7F) OR 0x80 = (x AND 0x7F) + 0x80"
    using disj by (simp add: disjunctive_add_eq_or)
  moreover have "unat ((x AND 0x7F) + 0x80) = unat x mod 128 + 128"
  proof -
    have n: "unat (0x80 :: 'a word) = 128" using small by (simp add: unat_numeral take_bit_eq_mod)
    have "unat (x AND 0x7F) + unat (0x80 :: 'a word) < 2 ^ LENGTH('a)"
      using power_increasing [OF assms, of "2 :: nat"] n by (simp add: unat_low_seven)
    then show ?thesis using n by (simp add: unat_add_lem [THEN iffD1] unat_low_seven)
  qed
  ultimately show ?thesis by (simp add: unsigned_ucast_eq take_bit_eq_mod)
qed

lemma read_varint:
  "8 \<le> LENGTH('a) \<Longrightarrow> read_varint (varint (x :: 'a::len word) @ rest) = Some (unat x, rest)"
proof (induction x rule: varint.induct)
  case (1 x)
  show ?case
  proof (cases "unat x < 128")
    case True
    then have "varint x = [char_of (unat x)]"
      using high_bits [of x] by (simp add: varint.simps [of x] unsigned_ucast_eq take_bit_eq_mod)
    then show ?thesis using True by simp
  next
    case False
    then have nz: "x AND NOT 0x7F \<noteq> 0" by (simp only: high_bits not_False_eq_True)
    have "unat (drop_bit 7 x) = unat x div 128" by (subst unat_drop_bit_eq) (simp add: drop_bit_nat_def)
    moreover have "varint x = char_of (unat x mod 128 + 128) # varint (drop_bit 7 x)"
      using nz more_byte [OF "1.prems", of x] by (simp add: varint.simps [of x])
    moreover have "unat x mod 128 + 128 < 256" using mod_less_divisor [of 128 "unat x"] by simp
    ultimately show ?thesis using "1.IH" [OF nz "1.prems"] by simp
  qed
qed

function read_nums :: "string \<Rightarrow> (nat list \<times> string) option" where
  "read_nums cs =
     (case read_varint cs of
        None \<Rightarrow> None
      | Some (v, rest) \<Rightarrow>
          if v = 0 then Some ([], rest)
          else case read_nums rest of None \<Rightarrow> None | Some (vs, rest') \<Rightarrow> Some (v # vs, rest'))"
  by pat_completeness auto
termination by (relation "measure length") (auto dest: read_varint_shorter)

declare read_nums.simps [simp del]

lemma read_nums_shorter: "read_nums cs = Some (vs, rest) \<Longrightarrow> length rest < length cs"
proof (induction cs arbitrary: vs rest rule: read_nums.induct)
  case (1 cs)
  obtain v r where v: "read_varint cs = Some (v, r)"
    using "1.prems" by (auto simp: read_nums.simps [of cs] split: option.splits)
  show ?case
  proof (cases "v = 0")
    case True
    then show ?thesis using "1.prems" v read_varint_shorter [OF v] by (simp add: read_nums.simps [of cs])
  next
    case False
    then obtain ws where "read_nums r = Some (ws, rest)"
      using "1.prems" v by (auto simp: read_nums.simps [of cs] split: option.splits)
    then show ?thesis using "1.IH" [OF v refl False] read_varint_shorter [OF v] by fastforce
  qed
qed

text \<open>The number that stands for a literal, and back.\<close>

definition lit_code :: "int \<Rightarrow> nat" where
  "lit_code l = nat (2 * \<bar>l\<bar> + (if l < 0 then 1 else 0))"

definition code_lit :: "nat \<Rightarrow> int" where
  "code_lit v = (if even v then int (v div 2) else - int (v div 2))"

lemma code_lit_lit [simp]: "code_lit (lit_code l) = l"
proof (cases "l < 0")
  case True
  then have "lit_code l = Suc (2 * nat (- l))" by (simp add: lit_code_def nat_add_distrib nat_mult_distrib)
  then show ?thesis using True by (simp add: code_lit_def)
next
  case False
  then have "lit_code l = 2 * nat l" by (simp add: lit_code_def nat_mult_distrib)
  then show ?thesis using False by (simp add: code_lit_def)
qed

lemma lit_code_nonzero: "l \<noteq> 0 \<Longrightarrow> lit_code l \<noteq> 0"
  by (simp add: lit_code_def)

lemma put_binary_lit_ok:
  assumes "\<bar>l\<bar> < 2 ^ 31"
  shows "\<exists>s. put_binary_lit dbg l = Inr s \<and> (\<forall>rest. read_varint (s @ rest) = Some (lit_code l, rest))"
proof -
  define idx where "idx = (word_of_int \<bar>l\<bar> :: u32)"
  have u: "int (unat idx) = \<bar>l\<bar>" using assms by (simp add: idx_def unsigned_of_int take_bit_int_eq_self)
  then have "int (unat idx) < int (2 ^ 31)" using assms by simp
  then have small: "unat idx < 2 ^ 31" by (simp only: of_nat_less_iff)
  then have lt: "idx < 2 ^ 31" by (simp add: word_less_nat_alt)
  have "l \<noteq> INT_MIN" using assms by (auto simp: INT_MIN_def)
  then have p: "put_binary_lit dbg l = Inr (varint (2 * idx + (if l < 0 then 1 else 0)))"
    using lt by (simp add: put_binary_lit_def cassert_def idx_def Let_def)
  have "unat (2 * idx + (if l < 0 then 1 else 0)) = 2 * unat idx + (if l < 0 then 1 else 0)"
    using small by (simp add: unat_word_ariths)
  moreover have "unat idx = nat \<bar>l\<bar>" using u by (metis nat_int)
  ultimately have "unat (2 * idx + (if l < 0 then 1 else 0)) = lit_code l"
    by (simp add: lit_code_def nat_add_distrib nat_mult_distrib)
  then show ?thesis using p read_varint [of "2 * idx + (if l < 0 then 1 else 0)"] by simp
qed

lemma frat_put_binary_lit_ok:
  assumes "\<bar>l\<bar> < 2 ^ 30"
  shows "\<exists>s. frat_put_binary_lit dbg l = Inr s \<and> (\<forall>rest. read_varint (s @ rest) = Some (lit_code l, rest))"
proof -
  define v where "v = 2 * \<bar>l\<bar> + (if l < 0 then 1 else 0)"
  have v: "0 \<le> v" "v < 2 ^ 31" using assms by (auto simp: v_def)
  have "l \<noteq> INT_MIN" "\<not> v > INT_MAX" using assms v(2) by (auto simp: INT_MIN_def INT_MAX_def)
  then have p: "frat_put_binary_lit dbg l = Inr (varint (word_of_int v :: u32))"
    unfolding frat_put_binary_lit_def v_def [symmetric] by (simp add: cassert_def)
  have "unat (word_of_int v :: u32) = nat v"
    using v by (simp add: unsigned_of_int take_bit_int_eq_self)
  then show ?thesis using p read_varint [of "word_of_int v :: u32"] by (simp add: lit_code_def v_def)
qed

text \<open>A sequence of numbers with a zero at its end.\<close>

lemma read_nums_put_each:
  assumes "\<And>x. x \<in> set xs \<Longrightarrow> code x \<noteq> 0 \<and> (\<exists>s. f x = Inr s \<and> (\<forall>rest. read_varint (s @ rest) = Some (code x, rest)))"
  shows "\<exists>s. put_each f xs = Inr s \<and> (\<forall>rest. read_nums (s @ put_binary_zero @ rest) = Some (map code xs, rest))"
  using assms
proof (induction xs)
  case Nil
  then show ?case by (simp add: put_binary_zero_def read_nums.simps)
next
  case (Cons x xs)
  obtain s where s: "put_each f xs = Inr s" "\<And>rest. read_nums (s @ put_binary_zero @ rest) = Some (map code xs, rest)"
    using Cons by (metis list.set_intros(2))
  obtain h where h: "f x = Inr h" "\<And>rest. read_varint (h @ rest) = Some (code x, rest)" "code x \<noteq> 0"
    using Cons.prems by (metis list.set_intros(1))
  show ?case using s h by (auto simp: read_nums.simps [of "h @ _"])
qed

section \<open>Reading decimal numbers\<close>

lemma digit_buffer_decimal: "n \<noteq> 0 \<Longrightarrow> digit_buffer n buf = decimal n @ buf"
proof (induction n buf rule: digit_buffer.induct)
  case (1 n buf)
  show ?case
  proof (cases "n < 10")
    case True
    then show ?thesis using "1.prems" by (simp add: digit_buffer.simps [of n] digit_buffer.simps [of 0] decimal.simps [of n])
  next
    case False
    then have "digit_buffer (n div 10) (digit_char (n mod 10) # buf) = decimal (n div 10) @ digit_char (n mod 10) # buf"
      using "1.IH" "1.prems" by simp
    then show ?thesis using False "1.prems" by (simp add: digit_buffer.simps [of n] decimal.simps [of n])
  qed
qed

lemma decimal_zero: "decimal 0 = ''0''"
  by (simp add: decimal.simps digit_char_def char_of_def bit_0)

lemma put_int_decimal: "put_int l = (if l < 0 then ''-'' else []) @ decimal (nat \<bar>l\<bar>)"
proof -
  have "decimal 2147483648 = ''2147483648''" by (simp add: decimal.simps digit_char_def char_of_def bit_0)
  then show ?thesis by (simp add: put_int_def digit_buffer_decimal decimal_zero)
qed

lemma put_uint64_decimal: "put_uint64 i = decimal (unat i)"
  by (auto simp: put_uint64_def digit_buffer_decimal decimal_zero unat_eq_0)

lemma scan_put_int:
  assumes "rest = [] \<or> \<not> is_digit (hd rest)"
  shows "scan_int (put_int l @ rest) = (l < 0, decimal (nat \<bar>l\<bar>), rest)"
proof (cases "l < 0")
  case False
  then show ?thesis using scan_decimal [OF assms] by (simp add: put_int_decimal)
next
  case True
  have "takeWhile is_digit (decimal n @ rest) = decimal n" "dropWhile is_digit (decimal n @ rest) = rest" for n
    using decimal_digits [of n] assms by (cases rest; simp)+
  then show ?thesis using True by (simp add: put_int_decimal scan_int_def)
qed

lemma scan_int_shorter: "scan_int cs = (negative, ds, rest) \<Longrightarrow> ds \<noteq> [] \<Longrightarrow> length rest - Suc 0 < length cs"
proof -
  assume a: "scan_int cs = (negative, ds, rest)" "ds \<noteq> []"
  define p where "p = (case cs of [] \<Rightarrow> (False, [])
     | c # r \<Rightarrow> if c = CHR ''-'' then (True, r) else if c = CHR ''+'' then (False, r) else (False, cs))"
  have c: "length (snd p) \<le> length cs" by (auto simp: p_def split: list.splits)
  have "ds = takeWhile is_digit (snd p)" "rest = dropWhile is_digit (snd p)"
    using a(1) unfolding scan_int_def p_def [symmetric] by (auto simp: Let_def split: prod.splits)
  then have "length ds + length rest = length (snd p)" by (metis length_append takeWhile_dropWhile_id)
  moreover have "length ds > 0" using a(2) by simp
  ultimately show ?thesis using c by linarith
qed

function read_ints :: "string \<Rightarrow> (int list \<times> string) option" where
  "read_ints cs =
     (case scan_int cs of (negative, ds, rest) \<Rightarrow>
        if ds = [] then None
        else let v = (if negative then - int (digits_val ds) else int (digits_val ds))
             in if v = 0 then Some ([], tl rest)
                else case read_ints (tl rest) of None \<Rightarrow> None | Some (vs, rest') \<Rightarrow> Some (v # vs, rest'))"
  by pat_completeness auto

termination by (relation "measure length") (auto dest: scan_int_shorter [OF sym])

declare read_ints.simps [simp del]

lemma read_ints_put_each:
  assumes "0 \<notin> set xs"
  shows "\<exists>s. put_each (\<lambda>l. Inr (put_int l @ '' '')) xs = Inr s \<and>
    (\<forall>rest. read_ints (s @ (''0'' @ [newline]) @ rest) = Some (xs, rest))"
  using assms
proof (induction xs)
  case Nil
  have "scan_int (put_int 0 @ newline # rest) = (False, decimal 0, newline # rest)" for rest
    using scan_put_int [of "newline # rest" 0] by simp
  then have "read_ints (''0'' @ newline # rest) = Some ([], rest)" for rest
    by (simp add: read_ints.simps [of "_ # _"] put_int_def)
  then show ?case by simp
next
  case (Cons l xs)
  obtain s where s: "put_each (\<lambda>l. Inr (put_int l @ '' '')) xs = Inr s"
    "\<And>rest. read_ints (s @ (''0'' @ [newline]) @ rest) = Some (xs, rest)"
    using Cons by auto
  have "read_ints (put_int l @ '' '' @ r) = map_option (\<lambda>(vs, r). (l # vs, r)) (read_ints r)" for r
    using scan_put_int [of "'' '' @ r" l] Cons.prems
    by (auto simp: read_ints.simps [of "put_int l @ _"] split: option.splits)
  then show ?case using s by simp
qed

section \<open>Reading DRAT files\<close>

datatype drat_line = DratAdd "int list" | DratDelete "int list"

function read_drat :: "string \<Rightarrow> drat_line list option" where
  "read_drat cs =
     (case cs of
        [] \<Rightarrow> Some []
      | c # cs' \<Rightarrow>
          if c \<noteq> CHR ''a'' \<and> c \<noteq> CHR ''d'' then None
          else case read_nums cs' of
                 None \<Rightarrow> None
               | Some (vs, rest) \<Rightarrow>
                   map_option (Cons ((if c = CHR ''a'' then DratAdd else DratDelete) (map code_lit vs)))
                     (read_drat rest))"
  by pat_completeness auto
termination by (relation "measure length") (auto dest: read_nums_shorter)

lemma read_ints_shorter: "read_ints cs = Some (vs, rest) \<Longrightarrow> length rest < length cs"
proof (induction cs arbitrary: vs rest rule: read_ints.induct)
  case (1 cs)
  obtain negative ds r where v: "scan_int cs = (negative, ds, r)" "ds \<noteq> []"
    using "1.prems" by (cases "scan_int cs") (auto simp: read_ints.simps [of cs] split: if_splits)
  have sh: "length (tl r) < length cs" using scan_int_shorter [OF v] by simp
  let ?v = "if negative then - int (digits_val ds) else int (digits_val ds)"
  show ?case
  proof (cases "?v = 0")
    case True
    then show ?thesis using "1.prems" v sh by (auto simp: read_ints.simps [of cs] split: if_splits)
  next
    case False
    then obtain ws where "read_ints (tl r) = Some (ws, rest)"
      using "1.prems" v by (auto simp: read_ints.simps [of cs] Let_def split: option.splits if_splits)
    then show ?thesis using "1.IH" [OF v(1) [symmetric] refl v(2) refl False] sh by fastforce
  qed
qed

function read_drat_text :: "string \<Rightarrow> drat_line list option" where
  "read_drat_text cs =
     (if cs = [] then Some []
      else let del = (take 2 cs = ''d '')
           in case read_ints (if del then drop 2 cs else cs) of
                None \<Rightarrow> None
              | Some (vs, rest) \<Rightarrow>
                  map_option (Cons ((if del then DratDelete else DratAdd) vs)) (read_drat_text rest))"
  by pat_completeness auto
termination
  by (relation "measure length") (auto dest!: read_ints_shorter split: if_splits)

declare read_drat.simps [simp del] read_drat_text.simps [simp del]

fun drat_trace :: "bool \<Rightarrow> drat_line \<Rightarrow> tracer \<Rightarrow> tracer res" where
  "drat_trace dbg (DratAdd c) t = drat_add_derived dbg c t"
| "drat_trace dbg (DratDelete c) t = drat_delete dbg c t"

fun drat_lits :: "drat_line \<Rightarrow> int list" where
  "drat_lits (DratAdd c) = c"
| "drat_lits (DratDelete c) = c"

definition lits_ok :: "int list \<Rightarrow> bool" where
  "lits_ok c \<longleftrightarrow> (\<forall>l \<in> set c. l \<noteq> 0 \<and> \<bar>l\<bar> < 2 ^ 31)"

lemma put_lits_binary:
  assumes "lits_ok c"
  shows "\<exists>s. put_lits (put_binary_lit dbg) True c = Inr s \<and>
    (\<forall>rest. read_nums (s @ put_binary_zero @ rest) = Some (map lit_code c, rest))"
  unfolding put_lits_def if_True
  using assms by (intro read_nums_put_each) (auto simp: lits_ok_def lit_code_nonzero intro: put_binary_lit_ok)

lemma put_lits_text:
  assumes "lits_ok c"
  shows "\<exists>s. put_lits f False c = Inr s \<and> (\<forall>rest. read_ints (s @ put_end False @ rest) = Some (c, rest))"
  using read_ints_put_each [of c] assms by (auto simp: put_lits_def put_end_def lits_ok_def)

lemma map_code_lit [simp]: "map (code_lit \<circ> lit_code) c = c"
  by (induction c) auto

text \<open>One line is written so that the reader gets it back, whatever follows.\<close>

lemma put_int_head: "\<exists>c cs. put_int l = c # cs \<and> c \<noteq> CHR ''d''"
proof -
  obtain c cs where "decimal (nat \<bar>l\<bar>) = c # cs" "is_digit c" using decimal_head by blast
  then show ?thesis by (auto simp: put_int_decimal is_digit_def char_code_def)
qed

lemma text_line_head:
  assumes "put_lits f False c = Inr s"
  shows "take 2 (s @ put_end False @ rest) \<noteq> ''d ''"
proof (cases c)
  case Nil
  then show ?thesis using assms by (simp add: put_lits_def put_end_def)
next
  case (Cons l ls)
  then obtain r where "s = put_int l @ '' '' @ r" using assms by (auto simp: put_lits_def bind_res_eq_Inr)
  then show ?thesis using put_int_head [of l] by (auto simp: take_Cons')
qed

lemma drat_line_binary:
  assumes "lits_ok (drat_lits line)" "\<not> file_closed t" "binary t"
  shows "\<exists>s t'. drat_trace dbg line t = Inr t' \<and> content t' = content t @ s \<and> \<not> file_closed t' \<and> binary t' \<and>
    added t' + deleted t' = added t + deleted t + 1 \<and>
    (\<forall>rest. read_drat (s @ rest) = map_option (Cons line) (read_drat rest))"
proof (cases line)
  case (DratAdd c)
  then obtain s where "put_lits (put_binary_lit dbg) True c = Inr s"
    "\<And>rest. read_nums (s @ put_binary_zero @ rest) = Some (map lit_code c, rest)"
    using put_lits_binary assms(1) by fastforce
  then show ?thesis
    using assms(2,3) DratAdd
    by (simp add: drat_add_derived_def drat_add_clause_def put_def put_end_def read_drat.simps [of "_ # _"])
next
  case (DratDelete c)
  then obtain s where "put_lits (put_binary_lit dbg) True c = Inr s"
    "\<And>rest. read_nums (s @ put_binary_zero @ rest) = Some (map lit_code c, rest)"
    using put_lits_binary assms(1) by fastforce
  then show ?thesis
    using assms(2,3) DratDelete
    by (simp add: drat_delete_def drat_delete_clause_def put_def put_end_def read_drat.simps [of "_ # _"])
qed

lemma drat_line_text:
  assumes "lits_ok (drat_lits line)" "\<not> file_closed t" "\<not> binary t"
  shows "\<exists>s t'. drat_trace dbg line t = Inr t' \<and> content t' = content t @ s \<and> \<not> file_closed t' \<and> \<not> binary t' \<and>
    added t' + deleted t' = added t + deleted t + 1 \<and>
    (\<forall>rest. read_drat_text (s @ rest) = map_option (Cons line) (read_drat_text rest))"
proof (cases line)
  case (DratAdd c)
  then obtain s where s: "put_lits (put_binary_lit dbg) False c = Inr s"
    "\<And>rest. read_ints (s @ put_end False @ rest) = Some (c, rest)"
    using put_lits_text assms(1) by fastforce
  have "put_end False \<noteq> []" by (simp add: put_end_def)
  then have "read_drat_text (s @ put_end False @ rest) = map_option (Cons line) (read_drat_text rest)" for rest
    using s(2) text_line_head [OF s(1), of rest] DratAdd \<open>put_end False \<noteq> []\<close>
    by (subst read_drat_text.simps) (simp add: Let_def del: take_append)
  then show ?thesis
    using assms(2,3) DratAdd s(1)
    by (intro exI [of _ "s @ put_end False"]) (simp add: drat_add_derived_def drat_add_clause_def put_def)
next
  case (DratDelete c)
  then obtain s where s: "put_lits (put_binary_lit dbg) False c = Inr s"
    "\<And>rest. read_ints (s @ put_end False @ rest) = Some (c, rest)"
    using put_lits_text assms(1) by fastforce
  have "read_drat_text (''d '' @ s @ put_end False @ rest) = map_option (Cons line) (read_drat_text rest)" for rest
    using s(2) DratDelete by (subst read_drat_text.simps) (simp add: Let_def)
  then show ?thesis
    using assms(2,3) DratDelete s(1)
    by (intro exI [of _ "''d '' @ s @ put_end False"]) (simp add: drat_delete_def drat_delete_clause_def put_def)
qed

lemma drat_lines_written:
  assumes "\<forall>line \<in> set lines. lits_ok (drat_lits line)" "\<not> file_closed t"
  shows "\<exists>s t'. fold_res (drat_trace dbg) lines t = Inr t' \<and> content t' = content t @ s \<and>
    added t' + deleted t' = added t + deleted t + length lines \<and>
    (if binary t then read_drat s else read_drat_text s) = Some lines"
  using assms
proof (induction lines arbitrary: t)
  case Nil
  then show ?case by (simp add: read_drat.simps read_drat_text.simps)
next
  case (Cons line lines)
  obtain s t1 where s: "drat_trace dbg line t = Inr t1" "content t1 = content t @ s" "\<not> file_closed t1"
    "binary t1 = binary t" "added t1 + deleted t1 = added t + deleted t + 1"
    "\<And>rest. (if binary t then read_drat else read_drat_text) (s @ rest) =
       map_option (Cons line) ((if binary t then read_drat else read_drat_text) rest)"
    using drat_line_binary [of line t dbg] drat_line_text [of line t dbg] Cons.prems by (cases "binary t") fastforce+
  obtain s' t' where "fold_res (drat_trace dbg) lines t1 = Inr t'" "content t' = content t1 @ s'"
    "added t' + deleted t' = added t1 + deleted t1 + length lines"
    "(if binary t1 then read_drat s' else read_drat_text s') = Some lines"
    using Cons.IH [of t1] Cons.prems(1) s(3) by auto
  then show ?case using s(1,2,4,5) s(6) [of s'] by (intro exI [of _ "s @ s'"]) (auto split: if_splits)
qed

text \<open>
  C23: a DRAT proof file, binary or text, can be read back: the additions and deletions traced come out
  again, in order, with their literals.
\<close>

theorem drat_round_trip:
  assumes "\<forall>line \<in> set lines. lits_ok (drat_lits line)"
  shows "\<exists>t. fold_res (drat_trace dbg) lines (DratTracer_new bin) = Inr t \<and>
    (if bin then read_drat (content t) else read_drat_text (content t)) = Some lines \<and>
    added t + deleted t = length lines"
  using drat_lines_written [OF assms, of "DratTracer_new bin" dbg] by (auto simp: DratTracer_new_def)

theorem drat_round_trip_witness:
  "\<exists>t. fold_res (drat_trace True) [DratAdd [1, -300], DratDelete [], DratAdd [2147483647]] (DratTracer_new True) = Inr t \<and>
     read_drat (content t) = Some [DratAdd [1, -300], DratDelete [], DratAdd [2147483647]]"
  using drat_round_trip [of "[DratAdd [1, -300], DratDelete [], DratAdd [2147483647]]" True True]
  by (auto simp: lits_ok_def)

section \<open>Reading LRAT files\<close>

datatype lrat_event = LratAddEvent u64 "int list" "u64 list" | LratDeleteEvent u64

datatype lrat_line = LratAdd nat "int list" "nat list" | LratDelete "nat list"

fun lrat_trace :: "bool \<Rightarrow> lrat_event \<Rightarrow> lrat_tracer \<Rightarrow> lrat_tracer res" where
  "lrat_trace dbg (LratAddEvent i c chain) t = lrat_add_derived dbg i c chain t"
| "lrat_trace dbg (LratDeleteEvent i) t = Inr (lrat_delete i t)"

text \<open>Deletions wait for the next addition; those after the last one are never written.\<close>

fun lrat_lines :: "u64 list \<Rightarrow> lrat_event list \<Rightarrow> lrat_line list" where
  "lrat_lines waiting [] = []"
| "lrat_lines waiting (LratDeleteEvent i # evs) = lrat_lines (waiting @ [i]) evs"
| "lrat_lines waiting (LratAddEvent i c chain # evs) =
     (if waiting = [] then [] else [LratDelete (map unat waiting)]) @
     LratAdd (unat i) c (map unat chain) # lrat_lines [] evs"

function read_lrat :: "string \<Rightarrow> lrat_line list option" where
  "read_lrat cs =
     (case cs of
        [] \<Rightarrow> Some []
      | c # cs1 \<Rightarrow>
          if c = CHR ''d''
          then case read_nums cs1 of
                 None \<Rightarrow> None
               | Some (ids, rest) \<Rightarrow> map_option (Cons (LratDelete (map (\<lambda>v. v div 2) ids))) (read_lrat rest)
          else if c = CHR ''a''
          then case read_varint cs1 of
                 None \<Rightarrow> None
               | Some (i, cs2) \<Rightarrow>
                   (case read_nums cs2 of
                      None \<Rightarrow> None
                    | Some (vs, cs3) \<Rightarrow>
                        (case read_nums cs3 of
                           None \<Rightarrow> None
                         | Some (ids, rest) \<Rightarrow>
                             map_option (Cons (LratAdd (i div 2) (map code_lit vs) (map (\<lambda>v. v div 2) ids)))
                               (read_lrat rest)))
          else None)"
  by pat_completeness auto
termination by (relation "measure length") (auto dest!: read_nums_shorter read_varint_shorter)

declare read_lrat.simps [simp del]

definition id_ok :: "u64 \<Rightarrow> bool" where
  "id_ok i \<longleftrightarrow> 0 < i \<and> unat i < 2 ^ 63 - 1"

lemma put_binary_id_ok:
  assumes "id_ok i"
  shows "\<exists>s. put_binary_id dbg i = Inr s \<and> (\<forall>rest. read_varint (s @ rest) = Some (2 * unat i, rest))"
proof -
  have lt: "unat i < 2 ^ 63 - 1" using assms by (simp add: id_ok_def)
  have n1: "i \<noteq> drop_bit 1 (NOT 0)" "i \<noteq> push_bit 63 1" "i < push_bit 63 1"
    using lt by (auto simp: word_less_nat_alt mask_eq_exp_minus_1)
  have "\<not> bit (unat i) 63" using lt by (simp add: bit_iff_odd)
  then have "\<not> bit i 63" by (simp add: bit_unsigned_iff)
  then have "\<not> sint i < 0" using bit_last_iff [of i] by simp
  then have p: "put_binary_id dbg i = Inr (varint (2 * i))"
    using n1 by (simp add: put_binary_id_def cassert_def Let_def)
  have "unat (2 * i) = 2 * unat i" using lt by (simp add: unat_word_ariths)
  then show ?thesis using p read_varint [of "2 * i"] by simp
qed

lemma put_ids_binary:
  assumes "\<forall>i \<in> set ids. id_ok i"
  shows "\<exists>s. put_ids (put_binary_id dbg) True ids = Inr s \<and>
    (\<forall>rest. read_nums (s @ put_binary_zero @ rest) = Some (map (\<lambda>i. 2 * unat i) ids, rest))"
  unfolding put_ids_def if_True
proof (intro read_nums_put_each)
  fix i assume "i \<in> set ids"
  then have "id_ok i" using assms by blast
  then show "2 * unat i \<noteq> 0 \<and> (\<exists>s. put_binary_id dbg i = Inr s \<and> (\<forall>rest. read_varint (s @ rest) = Some (2 * unat i, rest)))"
    using put_binary_id_ok [of i dbg] by (simp add: id_ok_def unat_gt_0 word_gt_0)
qed

fun lrat_event_ok :: "lrat_event \<Rightarrow> bool" where
  "lrat_event_ok (LratAddEvent i c chain) \<longleftrightarrow> id_ok i \<and> lits_ok c \<and> (\<forall>j \<in> set chain. id_ok j)"
| "lrat_event_ok (LratDeleteEvent i) \<longleftrightarrow> id_ok i"

lemma append_single: "append [x] = Cons x"
  by (rule ext) simp

lemma append_double: "append [x, y] = (\<lambda>zs. x # y # zs)"
  by (rule ext) simp

text \<open>One addition with the deletions that wait for it.\<close>

lemma lrat_addition_written:
  assumes "lrat_event_ok (LratAddEvent i c chain)" "\<forall>j \<in> set (delete_ids t). id_ok j"
    "\<not> file_closed t" "binary t"
  shows "\<exists>s t'. lrat_add_derived dbg i c chain t = Inr t' \<and> content t' = content t @ s \<and> \<not> file_closed t' \<and>
    binary t' \<and> delete_ids t' = [] \<and>
    (\<forall>rest. read_lrat (s @ rest) = map_option (append (lrat_lines (delete_ids t) [LratAddEvent i c chain])) (read_lrat rest))"
proof -
  obtain d where d: "put_ids (put_binary_id dbg) True (delete_ids t) = Inr d"
    "\<And>rest. read_nums (d @ put_binary_zero @ rest) = Some (map (\<lambda>i. 2 * unat i) (delete_ids t), rest)"
    using put_ids_binary [OF assms(2)] by blast
  obtain a where a: "put_binary_id dbg i = Inr a" "\<And>rest. read_varint (a @ rest) = Some (2 * unat i, rest)"
    using put_binary_id_ok [of i dbg] assms(1) by auto
  obtain l where l: "put_lits (put_binary_lit dbg) True c = Inr l"
    "\<And>rest. read_nums (l @ put_binary_zero @ rest) = Some (map lit_code c, rest)"
    using put_lits_binary [of c dbg] assms(1) by auto
  obtain ch where ch: "put_ids (put_binary_id dbg) True chain = Inr ch"
    "\<And>rest. read_nums (ch @ put_binary_zero @ rest) = Some (map (\<lambda>i. 2 * unat i) chain, rest)"
    using put_ids_binary [of chain dbg] assms(1) by auto
  let ?del = "if delete_ids t \<noteq> [] then ''d'' @ d @ put_binary_zero else []"
  let ?add = "''a'' @ a @ l @ put_binary_zero @ ch @ put_binary_zero"
  have add: "read_lrat (?add @ rest) = map_option (Cons (LratAdd (unat i) c (map unat chain))) (read_lrat rest)" for rest
    by (simp add: read_lrat.simps [of "_ # _"] a(2) l(2) ch(2) comp_def)
  have del: "read_lrat (''d'' @ d @ put_binary_zero @ rest) =
      map_option (Cons (LratDelete (map unat (delete_ids t)))) (read_lrat rest)" for rest
    by (simp add: read_lrat.simps [of "_ # _"] d(2) comp_def)
  have read: "read_lrat ((?del @ ?add) @ rest) =
      map_option (append (lrat_lines (delete_ids t) [LratAddEvent i c chain])) (read_lrat rest)" for rest
  proof (cases "delete_ids t = []")
    case True
    then show ?thesis using add [of rest] by (simp add: append_single)
  next
    case False
    then show ?thesis using del [of "?add @ rest"] add [of rest]
      by (simp add: option.map_comp comp_def append_double)
  qed
  define t' where "t' = (put (?del @ ?add) t)\<lparr>delete_ids := [], latest_id := i, added := added t + 1\<rparr>"
  have "lrat_add_derived dbg i c chain t = Inr t'"
    using d(1) a(1) l(1) ch(1) assms(3,4)
    by (cases "delete_ids t = []")
      (simp_all add: lrat_add_derived_def lrat_add_clause_def put_def put_end_def Let_def t'_def)
  moreover have "content t' = content t @ (?del @ ?add)" "\<not> file_closed t'" "binary t'" "delete_ids t' = []"
    using assms(3,4) by (simp_all add: t'_def put_def)
  ultimately show ?thesis using read by blast
qed

lemma lrat_events_written:
  assumes "\<forall>ev \<in> set evs. lrat_event_ok ev" "\<forall>j \<in> set (delete_ids t). id_ok j" "\<not> file_closed t" "binary t"
  shows "\<exists>s t'. fold_res (lrat_trace dbg) evs t = Inr t' \<and> content t' = content t @ s \<and>
    read_lrat s = Some (lrat_lines (delete_ids t) evs)"
  using assms
proof (induction evs arbitrary: t)
  case Nil
  then show ?case by (simp add: read_lrat.simps)
next
  case (Cons ev evs)
  show ?case
  proof (cases ev)
    case (LratDeleteEvent i)
    let ?t = "lrat_delete i t"
    have t: "content ?t = content t" "delete_ids ?t = delete_ids t @ [i]" "\<not> file_closed ?t" "binary ?t"
      using Cons.prems by (simp_all add: lrat_delete_def lrat_delete_clause_def)
    then obtain s t' where "fold_res (lrat_trace dbg) evs ?t = Inr t'" "content t' = content t @ s"
      "read_lrat s = Some (lrat_lines (delete_ids t @ [i]) evs)"
      using Cons.IH [of ?t] Cons.prems LratDeleteEvent by auto
    then show ?thesis using LratDeleteEvent by simp
  next
    case (LratAddEvent i c chain)
    obtain s t1 where s: "lrat_add_derived dbg i c chain t = Inr t1" "content t1 = content t @ s" "\<not> file_closed t1"
      "binary t1" "delete_ids t1 = []"
      "\<And>rest. read_lrat (s @ rest) = map_option (append (lrat_lines (delete_ids t) [LratAddEvent i c chain])) (read_lrat rest)"
      using lrat_addition_written [of i c chain t dbg] Cons.prems LratAddEvent by auto
    obtain s' t' where "fold_res (lrat_trace dbg) evs t1 = Inr t'" "content t' = content t1 @ s'"
      "read_lrat s' = Some (lrat_lines [] evs)"
      using Cons.IH [of t1] Cons.prems s(3,4,5) by auto
    then show ?thesis using s(1,2) s(6) [of s'] LratAddEvent by (intro exI [of _ "s @ s'"]) auto
  qed
qed

text \<open>
  C24: a binary LRAT proof file read back gives the traced additions with their literals and antecedent
  ids, and before each of them one line with the deletions traced since the last; deletions after the
  last addition are not in the file.
\<close>

theorem lrat_round_trip:
  assumes "\<forall>ev \<in> set evs. lrat_event_ok ev"
  shows "\<exists>t. fold_res (lrat_trace dbg) evs (LratTracer_new True) = Inr t \<and>
    read_lrat (content t) = Some (lrat_lines [] evs)"
  using lrat_events_written [OF assms, of "LratTracer_new True" dbg] by (auto simp: LratTracer_new_def)

theorem lrat_round_trip_witness:
  "\<exists>t. fold_res (lrat_trace True) [LratAddEvent 3 [1, -2] [1, 2], LratDeleteEvent 1, LratDeleteEvent 2,
        LratAddEvent 4 [] [3], LratDeleteEvent 3] (LratTracer_new True) = Inr t \<and>
     read_lrat (content t) = Some [LratAdd 3 [1, -2] [1, 2], LratDelete [1, 2], LratAdd 4 [] [3]]"
  using lrat_round_trip [of "[LratAddEvent 3 [1, -2] [1, 2], LratDeleteEvent 1, LratDeleteEvent 2,
        LratAddEvent 4 [] [3], LratDeleteEvent 3]" True]
  by (auto simp: lits_ok_def id_ok_def)

section \<open>Reading FRAT files\<close>

datatype frat_event =
    FratOriginal u64 "int list"
  | FratDerived u64 "int list" "u64 list"
  | FratDeleted u64 "int list"
  | FratFinalized u64 "int list"

fun frat_trace :: "bool \<Rightarrow> frat_event \<Rightarrow> frat_tracer \<Rightarrow> frat_tracer res" where
  "frat_trace dbg (FratOriginal i c) t = frat_add_original dbg i c t"
| "frat_trace dbg (FratDerived i c chain) t = frat_add_derived dbg i c chain t"
| "frat_trace dbg (FratDeleted i c) t = frat_delete dbg i c t"
| "frat_trace dbg (FratFinalized i c) t = frat_finalize dbg i c t"

text \<open>A line: its letter, id and literals, and the antecedents where it has them.\<close>

datatype frat_line = FratLine char nat "int list" "nat list option"

fun frat_line_of :: "bool \<Rightarrow> frat_event \<Rightarrow> frat_line" where
  "frat_line_of antecedents (FratOriginal i c) = FratLine CHR ''o'' (unat i) c None"
| "frat_line_of antecedents (FratDerived i c chain) =
     FratLine CHR ''a'' (unat i) c (if antecedents then Some (map unat chain) else None)"
| "frat_line_of antecedents (FratDeleted i c) = FratLine CHR ''d'' (unat i) c None"
| "frat_line_of antecedents (FratFinalized i c) = FratLine CHR ''f'' (unat i) c None"

definition read_clause :: "string \<Rightarrow> (nat \<times> int list \<times> string) option" where
  "read_clause cs =
     (case read_varint cs of
        None \<Rightarrow> None
      | Some (i, cs1) \<Rightarrow> map_option (\<lambda>(vs, rest). (i, map code_lit vs, rest)) (read_nums cs1))"

lemma read_clause_shorter: "read_clause cs = Some (i, c, rest) \<Longrightarrow> length rest < length cs"
  by (auto simp: read_clause_def dest!: read_varint_shorter read_nums_shorter split: option.splits)

function read_frat :: "string \<Rightarrow> frat_line list option" where
  "read_frat cs =
     (case cs of
        [] \<Rightarrow> Some []
      | letter # cs1 \<Rightarrow>
          if letter \<notin> set ''oadf'' then None
          else case read_clause cs1 of
                 None \<Rightarrow> None
               | Some (i, c, cs2) \<Rightarrow>
                   if letter = CHR ''a'' \<and> cs2 \<noteq> [] \<and> hd cs2 = CHR ''l''
                   then (case read_nums (tl cs2) of
                           None \<Rightarrow> None
                         | Some (ids, rest) \<Rightarrow>
                             map_option (Cons (FratLine letter i c (Some (map (\<lambda>v. v div 2) ids)))) (read_frat rest))
                   else map_option (Cons (FratLine letter i c None)) (read_frat cs2))"
  by pat_completeness auto
termination by (relation "measure length") (auto dest!: read_clause_shorter read_nums_shorter)

declare read_frat.simps [simp del]

fun frat_event_ok :: "frat_event \<Rightarrow> bool" where
  "frat_event_ok (FratOriginal i c) \<longleftrightarrow> (\<forall>l \<in> set c. l \<noteq> 0 \<and> \<bar>l\<bar> < 2 ^ 30)"
| "frat_event_ok (FratDerived i c chain) \<longleftrightarrow>
     (\<forall>l \<in> set c. l \<noteq> 0 \<and> \<bar>l\<bar> < 2 ^ 30) \<and> (\<forall>j \<in> set chain. 0 < j \<and> unat j < 2 ^ 63)"
| "frat_event_ok (FratDeleted i c) \<longleftrightarrow> (\<forall>l \<in> set c. l \<noteq> 0 \<and> \<bar>l\<bar> < 2 ^ 30)"
| "frat_event_ok (FratFinalized i c) \<longleftrightarrow> (\<forall>l \<in> set c. l \<noteq> 0 \<and> \<bar>l\<bar> < 2 ^ 30)"

text \<open>Letter, id and literals of a line.\<close>

lemma frat_line_written:
  assumes "\<forall>l \<in> set c. l \<noteq> 0 \<and> \<bar>l\<bar> < 2 ^ 30" "binary t"
  shows "\<exists>s. frat_line dbg letter i c t = Inr (letter # s) \<and>
    (\<forall>rest. read_clause (s @ put_binary_zero @ rest) = Some (unat i, c, rest))"
proof -
  obtain l where l: "put_lits (frat_put_binary_lit dbg) True c = Inr l"
    "\<And>rest. read_nums (l @ put_binary_zero @ rest) = Some (map lit_code c, rest)"
    using read_nums_put_each [of c lit_code "frat_put_binary_lit dbg"] assms(1)
      frat_put_binary_lit_ok lit_code_nonzero unfolding put_lits_def if_True by blast
  show ?thesis
    using l assms(2) read_varint [of i]
    by (intro exI [of _ "varint i @ l"]) (simp add: frat_line_def frat_put_binary_id_def read_clause_def)
qed

lemma put_chain_ok:
  assumes "\<forall>j \<in> set chain. 0 < j \<and> unat j < 2 ^ 63"
  shows "\<exists>s. put_ids (\<lambda>c. Inr (frat_put_binary_id (2 * c))) True chain = Inr s \<and>
    (\<forall>rest. read_nums (s @ put_binary_zero @ rest) = Some (map (\<lambda>j. 2 * unat j) chain, rest))"
  unfolding put_ids_def if_True
proof (intro read_nums_put_each)
  fix j assume "j \<in> set chain"
  then have j: "0 < j" "unat j < 2 ^ 63" using assms by auto
  then have "unat (2 * j) = 2 * unat j" by (simp add: unat_word_ariths)
  then show "2 * unat j \<noteq> 0 \<and> (\<exists>s. Inr (frat_put_binary_id (2 * j)) = Inr s \<and>
      (\<forall>rest. read_varint (s @ rest) = Some (2 * unat j, rest)))"
    using j(1) read_varint [of "2 * j"] by (simp add: frat_put_binary_id_def unat_gt_0 word_gt_0)
qed

text \<open>A line without antecedents may not be followed by the letter of a chain; no line starts with it.\<close>

definition starts_line :: "string \<Rightarrow> bool" where
  "starts_line s \<longleftrightarrow> s = [] \<or> hd s \<in> set ''oadf''"

lemma starts_line_Cons [simp]: "starts_line (c # s) \<longleftrightarrow> c \<in> set ''oadf''"
  by (simp add: starts_line_def)

lemma starts_line_no_chain: "starts_line s \<Longrightarrow> \<not> (s \<noteq> [] \<and> hd s = CHR ''l'')"
  by (auto simp: starts_line_def)

lemma frat_event_written:
  assumes "frat_event_ok ev" "\<not> file_closed t" "binary t"
  shows "\<exists>s t'. frat_trace dbg ev t = Inr t' \<and> content t' = content t @ s \<and> \<not> file_closed t' \<and> binary t' \<and>
    with_antecedents t' = with_antecedents t \<and> starts_line s \<and> s \<noteq> [] \<and>
    (\<forall>rest. starts_line rest \<longrightarrow>
       read_frat (s @ rest) = map_option (Cons (frat_line_of (with_antecedents t) ev)) (read_frat rest))"
proof (cases ev)
  case (FratOriginal i c)
  then obtain s where "frat_line dbg CHR ''o'' i c t = Inr (CHR ''o'' # s)"
    "\<And>rest. read_clause (s @ put_binary_zero @ rest) = Some (unat i, c, rest)"
    using frat_line_written [of c t dbg "CHR ''o''" i] assms by auto
  then show ?thesis using assms(2,3) FratOriginal
    by (simp add: frat_add_original_def frat_add_original_clause_def put_def put_end_def
        read_frat.simps [of "_ # _"])
next
  case (FratDeleted i c)
  then obtain s where "frat_line dbg CHR ''d'' i c t = Inr (CHR ''d'' # s)"
    "\<And>rest. read_clause (s @ put_binary_zero @ rest) = Some (unat i, c, rest)"
    using frat_line_written [of c t dbg "CHR ''d''" i] assms by auto
  then show ?thesis using assms(2,3) FratDeleted
    by (simp add: frat_delete_def frat_delete_clause_def put_def put_end_def
        read_frat.simps [of "_ # _"])
next
  case (FratFinalized i c)
  then obtain s where "frat_line dbg CHR ''f'' i c t = Inr (CHR ''f'' # s)"
    "\<And>rest. read_clause (s @ put_binary_zero @ rest) = Some (unat i, c, rest)"
    using frat_line_written [of c t dbg "CHR ''f''" i] assms by auto
  then show ?thesis using assms(2,3) FratFinalized
    by (simp add: frat_finalize_def frat_finalize_clause_def put_def put_end_def
        read_frat.simps [of "_ # _"])
next
  case (FratDerived i c chain)
  then obtain s where s: "frat_line dbg CHR ''a'' i c t = Inr (CHR ''a'' # s)"
    "\<And>rest. read_clause (s @ put_binary_zero @ rest) = Some (unat i, c, rest)"
    using frat_line_written [of c t dbg "CHR ''a''" i] assms by auto
  show ?thesis
  proof (cases "with_antecedents t")
    case True
    obtain ch where "put_ids (\<lambda>c. Inr (frat_put_binary_id (2 * c))) True chain = Inr ch"
      "\<And>rest. read_nums (ch @ put_binary_zero @ rest) = Some (map (\<lambda>j. 2 * unat j) chain, rest)"
      using put_chain_ok [of chain] assms(1) FratDerived by auto
    then show ?thesis using assms(2,3) FratDerived True s
      by (simp add: frat_add_derived_def frat_add_derived_with_chain_def put_def put_end_def
          read_frat.simps [of "_ # _"] comp_def)
  next
    case False
    then show ?thesis using assms(2,3) FratDerived s
      by (simp add: frat_add_derived_def frat_add_derived_clause_def put_def put_end_def
          read_frat.simps [of "_ # _"]) (blast dest: starts_line_no_chain)
  qed
qed

lemma frat_events_written:
  assumes "\<forall>ev \<in> set evs. frat_event_ok ev" "\<not> file_closed t" "binary t"
  shows "\<exists>s t'. fold_res (frat_trace dbg) evs t = Inr t' \<and> content t' = content t @ s \<and> starts_line s \<and>
    read_frat s = Some (map (frat_line_of (with_antecedents t)) evs)"
  using assms
proof (induction evs arbitrary: t)
  case Nil
  then show ?case by (simp add: read_frat.simps starts_line_def)
next
  case (Cons ev evs)
  obtain s t1 where s: "frat_trace dbg ev t = Inr t1" "content t1 = content t @ s" "\<not> file_closed t1"
    "binary t1" "with_antecedents t1 = with_antecedents t" "starts_line s" "s \<noteq> []"
    "\<And>rest. starts_line rest \<Longrightarrow>
       read_frat (s @ rest) = map_option (Cons (frat_line_of (with_antecedents t) ev)) (read_frat rest)"
    using frat_event_written [of ev t dbg] Cons.prems by auto
  obtain s' t' where "fold_res (frat_trace dbg) evs t1 = Inr t'" "content t' = content t1 @ s'" "starts_line s'"
    "read_frat s' = Some (map (frat_line_of (with_antecedents t1)) evs)"
    using Cons.IH [of t1] Cons.prems(1) s(3,4) by auto
  then show ?case using s(1,2,5,6,7) s(8) [of s']
    by (intro exI [of _ "s @ s'"]) (auto simp: starts_line_def)
qed

text \<open>
  A binary FRAT proof file read back gives every original, derived, deleted and finalized clause
  with its id and literals, and the antecedents of the derived ones when they are to be written.
\<close>

theorem frat_round_trip:
  assumes "\<forall>ev \<in> set evs. frat_event_ok ev"
  shows "\<exists>t. fold_res (frat_trace dbg) evs (FratTracer_new True antecedents) = Inr t \<and>
    read_frat (content t) = Some (map (frat_line_of antecedents) evs)"
  using frat_events_written [OF assms, of "FratTracer_new True antecedents" dbg] by (auto simp: FratTracer_new_def)

theorem frat_round_trip_witness:
  "\<exists>t. fold_res (frat_trace True) [FratOriginal 1 [5], FratOriginal 2 [-5], FratDerived 3 [] [1, 2], FratDeleted 1 [5]]
      (FratTracer_new True True) = Inr t \<and>
     read_frat (content t) = Some [FratLine CHR ''o'' 1 [5] None, FratLine CHR ''o'' 2 [-5] None,
       FratLine CHR ''a'' 3 [] (Some [1, 2]), FratLine CHR ''d'' 1 [5] None]"
proof -
  let ?evs = "[FratOriginal 1 [5], FratOriginal 2 [-5], FratDerived 3 [] [1, 2], FratDeleted 1 [5]]"
  have "\<forall>ev \<in> set ?evs. frat_event_ok ev" by simp
  note rt = frat_round_trip [OF this, of True True]
  have "map (frat_line_of True) ?evs = [FratLine CHR ''o'' 1 [5] None, FratLine CHR ''o'' 2 [-5] None,
       FratLine CHR ''a'' 3 [] (Some [1, 2]), FratLine CHR ''d'' 1 [5] None]" by simp
  then show ?thesis using rt by (simp only:)
qed

text \<open>
  The FRAT writer doubles a literal in \<^verbatim>\<open>int\<close>, which overflows from \<open>2 ^ 30\<close> on, where the DRAT and
  LRAT writers, which double an \<^verbatim>\<open>unsigned\<close>, still write it.
\<close>

theorem frat_literal_overflow:
  "frat_put_binary_lit dbg 1073741824 = Inl SignedOverflow \<and> (\<exists>s. put_binary_lit dbg 1073741824 = Inr s)"
  using put_binary_lit_ok [of 1073741824 dbg]
  by (auto simp: frat_put_binary_lit_def cassert_def INT_MIN_def INT_MAX_def)

end
