(* ===== verification/VariableFlags.thy ===== *)
theory VariableFlags
  imports Prelude
begin

text \<open>
  The status of the variables inside the SAT solver: \<^verbatim>\<open>lib/cadical/src/flags.hpp\<close>, \<^verbatim>\<open>flags.cpp\<close>, \<^verbatim>\<open>var.cpp\<close>
  and the parts of \<^verbatim>\<open>internal.hpp\<close> and \<^verbatim>\<open>internal.cpp\<close> that create variables.  A variable starts unused, becomes
  active, and is then fixed, eliminated, substituted or pure; only a fixed variable stays so.  The solver keeps counters
  of the statuses instead of counting.  An external propagator, which is only notified, is left out, as are
  the other tables that grow with the variables.  The flag \<open>dbg\<close> says whether assertions are compiled in.
\<close>

section \<open>State\<close>

datatype status = UNUSED | ACTIVE | FIXED | ELIMINATED | SUBSTITUTED | PURE

text \<open>The bits \<^verbatim>\<open>ignorepos\<close> and \<^verbatim>\<open>ignoreneg\<close>, which are neither initialised nor used, are left out.\<close>

record flags =
  seen :: bool
  keep :: bool
  poison :: bool
  removable :: bool
  shrinkable :: bool
  added :: bool
  elim :: bool
  subsume :: bool
  ternary :: bool
  decompose :: "2 word"
  block :: "2 word"
  skip :: "2 word"
  assumed :: "2 word"
  failed :: "2 word"
  status :: status

definition Flags_new :: flags where
  "Flags_new =
     \<lparr>seen = False, keep = False, poison = False, removable = False, shrinkable = False, added = False,
      elim = True, subsume = True, ternary = True, decompose = 0, block = 3, skip = 0, assumed = 0,
      failed = 0, status = UNUSED\<rparr>"

definition Flags_copy :: "flags \<Rightarrow> flags \<Rightarrow> flags" where
  "Flags_copy f dst = dst\<lparr>elim := elim f, subsume := subsume f, ternary := ternary f, block := block f\<rparr>"

text \<open>The four counters that \<^verbatim>\<open>stats\<close> keeps twice, over all time and for now.\<close>

record var_counts =
  fixed :: int
  eliminated :: int
  substituted :: int
  pure :: int

record var_state =
  max_var :: int
  vsize :: nat
  ftab :: "flags list"
  all_counts :: var_counts
  now_counts :: var_counts
  unused_vars :: int
  active_vars :: int
  inactive_vars :: int
  reactivated :: int
  vars_total :: int

definition no_counts :: var_counts where
  "no_counts = \<lparr>fixed = 0, eliminated = 0, substituted = 0, pure = 0\<rparr>"

definition var_state_new :: var_state where
  "var_state_new =
     \<lparr>max_var = 0, vsize = 0, ftab = [], all_counts = no_counts, now_counts = no_counts, unused_vars = 0,
      active_vars = 0, inactive_vars = 0, reactivated = 0, vars_total = 0\<rparr>"

section \<open>Operations\<close>

definition vidx :: "bool \<Rightarrow> int \<Rightarrow> var_state \<Rightarrow> nat res" where
  "vidx dbg lit st =
     bind_res (cassert dbg (lit \<noteq> 0)) (\<lambda>_.
     bind_res (cassert dbg (lit \<noteq> INT_MIN)) (\<lambda>_.
       if lit = INT_MIN then Inl SignedOverflow
       else bind_res (cassert dbg (\<bar>lit\<bar> \<le> max_var st)) (\<lambda>_. Inr (nat \<bar>lit\<bar>))))"

definition get_flags :: "bool \<Rightarrow> int \<Rightarrow> var_state \<Rightarrow> flags res" where
  "get_flags dbg lit st = bind_res (vidx dbg lit st) (get_at (ftab st))"

definition set_status :: "bool \<Rightarrow> int \<Rightarrow> status \<Rightarrow> var_state \<Rightarrow> var_state res" where
  "set_status dbg lit s st =
     bind_res (vidx dbg lit st) (\<lambda>idx.
     bind_res (get_at (ftab st) idx) (\<lambda>f.
       Inr (st\<lparr>ftab := (ftab st)[idx := f\<lparr>status := s\<rparr>]\<rparr>)))"

definition is_active :: "bool \<Rightarrow> int \<Rightarrow> var_state \<Rightarrow> bool res" where
  "is_active dbg lit st = bind_res (get_flags dbg lit st) (\<lambda>f. Inr (status f = ACTIVE))"

text \<open>
  New variables: \<^verbatim>\<open>enlarge\<close> makes room in the tables, new entries being default constructed, and \<^verbatim>\<open>init_vars\<close>
  counts them.
\<close>

definition enlarge :: "int \<Rightarrow> var_state \<Rightarrow> var_state" where
  "enlarge new_max_var st =
     (let new_vsize = grow (nat new_max_var) (if vsize st \<noteq> 0 then 2 * vsize st else 1 + nat new_max_var)
      in st\<lparr>ftab := (if length (ftab st) < new_vsize then resize new_vsize Flags_new (ftab st) else ftab st),
            vsize := new_vsize\<rparr>)"

definition init_vars :: "int \<Rightarrow> var_state \<Rightarrow> var_state" where
  "init_vars new_max_var st =
     (if new_max_var \<le> max_var st then st
      else let st1 = (if nat new_max_var \<ge> vsize st then enlarge new_max_var st else st);
               initialized = new_max_var - max_var st
           in st1\<lparr>max_var := new_max_var, vars_total := vars_total st1 + initialized,
                  unused_vars := unused_vars st1 + initialized,
                  inactive_vars := inactive_vars st1 + initialized\<rparr>)"

text \<open>The four ways to leave the active status: the same steps, with another status and another counter.\<close>

definition mark_inactive :: "bool \<Rightarrow> status \<Rightarrow> (var_counts \<Rightarrow> var_counts) \<Rightarrow> int \<Rightarrow> var_state \<Rightarrow> var_state res" where
  "mark_inactive dbg s counted lit st =
     bind_res (get_flags dbg lit st) (\<lambda>f.
     bind_res (cassert dbg (status f = ACTIVE)) (\<lambda>_.
     bind_res (set_status dbg lit s st) (\<lambda>st.
     let st = st\<lparr>all_counts := counted (all_counts st), now_counts := counted (now_counts st),
                 inactive_vars := inactive_vars st + 1\<rparr>
     in bind_res (cassert dbg (active_vars st \<noteq> 0)) (\<lambda>_.
        let st = st\<lparr>active_vars := active_vars st - 1\<rparr>
        in bind_res (is_active dbg lit st) (\<lambda>a. bind_res (cassert dbg (\<not> a)) (\<lambda>_. Inr st))))))"

definition mark_fixed :: "bool \<Rightarrow> int \<Rightarrow> var_state \<Rightarrow> var_state res" where
  "mark_fixed dbg = mark_inactive dbg FIXED (\<lambda>c. c\<lparr>fixed := fixed c + 1\<rparr>)"

definition mark_eliminated :: "bool \<Rightarrow> int \<Rightarrow> var_state \<Rightarrow> var_state res" where
  "mark_eliminated dbg = mark_inactive dbg ELIMINATED (\<lambda>c. c\<lparr>eliminated := eliminated c + 1\<rparr>)"

definition mark_pure :: "bool \<Rightarrow> int \<Rightarrow> var_state \<Rightarrow> var_state res" where
  "mark_pure dbg = mark_inactive dbg PURE (\<lambda>c. c\<lparr>pure := pure c + 1\<rparr>)"

definition mark_substituted :: "bool \<Rightarrow> int \<Rightarrow> var_state \<Rightarrow> var_state res" where
  "mark_substituted dbg = mark_inactive dbg SUBSTITUTED (\<lambda>c. c\<lparr>substituted := substituted c + 1\<rparr>)"

definition mark_active :: "bool \<Rightarrow> int \<Rightarrow> var_state \<Rightarrow> var_state res" where
  "mark_active dbg lit st =
     bind_res (get_flags dbg lit st) (\<lambda>f.
     bind_res (cassert dbg (status f = UNUSED)) (\<lambda>_.
     bind_res (set_status dbg lit ACTIVE st) (\<lambda>st.
     bind_res (cassert dbg (inactive_vars st \<noteq> 0)) (\<lambda>_.
     let st = st\<lparr>inactive_vars := inactive_vars st - 1\<rparr>
     in bind_res (cassert dbg (unused_vars st \<noteq> 0)) (\<lambda>_.
        let st = st\<lparr>unused_vars := unused_vars st - 1, active_vars := active_vars st + 1\<rparr>
        in bind_res (is_active dbg lit st) (\<lambda>a. bind_res (cassert dbg a) (\<lambda>_. Inr st)))))))"

text \<open>The switch over the status; \<^verbatim>\<open>default\<close> stands with the case of eliminated variables.\<close>

definition count_reactivated :: "bool \<Rightarrow> status \<Rightarrow> var_counts \<Rightarrow> var_counts res" where
  "count_reactivated dbg s c =
     (case s of
        SUBSTITUTED \<Rightarrow>
          bind_res (cassert dbg (substituted c > 0)) (\<lambda>_. Inr (c\<lparr>substituted := substituted c - 1\<rparr>))
      | PURE \<Rightarrow> bind_res (cassert dbg (pure c > 0)) (\<lambda>_. Inr (c\<lparr>pure := pure c - 1\<rparr>))
      | _ \<Rightarrow>
          bind_res (cassert dbg (s = ELIMINATED)) (\<lambda>_.
          bind_res (cassert dbg (eliminated c > 0)) (\<lambda>_. Inr (c\<lparr>eliminated := eliminated c - 1\<rparr>))))"

definition reactivate :: "bool \<Rightarrow> int \<Rightarrow> var_state \<Rightarrow> var_state res" where
  "reactivate dbg lit st =
     bind_res (is_active dbg lit st) (\<lambda>a.
     bind_res (cassert dbg (\<not> a)) (\<lambda>_.
     bind_res (get_flags dbg lit st) (\<lambda>f.
     bind_res (cassert dbg (status f \<noteq> FIXED)) (\<lambda>_.
     bind_res (cassert dbg (status f \<noteq> UNUSED)) (\<lambda>_.
     bind_res (count_reactivated dbg (status f) (now_counts st)) (\<lambda>c.
     bind_res (set_status dbg lit ACTIVE (st\<lparr>now_counts := c\<rparr>)) (\<lambda>st.
     bind_res (is_active dbg lit st) (\<lambda>a.
     bind_res (cassert dbg a) (\<lambda>_.
     let st = st\<lparr>reactivated := reactivated st + 1\<rparr>
     in bind_res (cassert dbg (inactive_vars st > 0)) (\<lambda>_.
        Inr (st\<lparr>inactive_vars := inactive_vars st - 1, active_vars := active_vars st + 1\<rparr>)))))))))))"

section \<open>Checks of the counters\<close>

text \<open>The iteration over \<^verbatim>\<open>vars\<close>: the indices from 1 to \<^verbatim>\<open>max_var\<close>.\<close>

definition vars :: "var_state \<Rightarrow> int list" where
  "vars st = [1..max_var st]"

definition reset_subsume_bits :: "bool \<Rightarrow> var_state \<Rightarrow> var_state res" where
  "reset_subsume_bits dbg st =
     fold_res (\<lambda>idx st. bind_res (vidx dbg idx st) (\<lambda>i. bind_res (get_at (ftab st) i) (\<lambda>f.
       Inr (st\<lparr>ftab := (ftab st)[i := f\<lparr>subsume := False\<rparr>]\<rparr>)))) (vars st) st"

definition count_step :: "bool \<Rightarrow> var_state \<Rightarrow> int \<Rightarrow> var_counts \<times> int \<Rightarrow> (var_counts \<times> int) res" where
  "count_step dbg st idx p =
     bind_res (get_flags dbg idx st) (\<lambda>f.
       Inr (case (p, status f) of
              ((c, unused), ACTIVE) \<Rightarrow> (c, unused)
            | ((c, unused), FIXED) \<Rightarrow> (c\<lparr>fixed := fixed c + 1\<rparr>, unused)
            | ((c, unused), ELIMINATED) \<Rightarrow> (c\<lparr>eliminated := eliminated c + 1\<rparr>, unused)
            | ((c, unused), SUBSTITUTED) \<Rightarrow> (c\<lparr>substituted := substituted c + 1\<rparr>, unused)
            | ((c, unused), UNUSED) \<Rightarrow> (c, unused + 1)
            | ((c, unused), PURE) \<Rightarrow> (c\<lparr>pure := pure c + 1\<rparr>, unused)))"

definition check_var_stats :: "bool \<Rightarrow> var_state \<Rightarrow> unit res" where
  "check_var_stats dbg st =
     (if \<not> dbg then Inr ()
      else bind_res (fold_res (count_step dbg st) (vars st) (no_counts, 0)) (\<lambda>(c, unused).
        bind_res (cassert dbg (fixed (now_counts st) = fixed c)) (\<lambda>_.
        bind_res (cassert dbg (eliminated (now_counts st) = eliminated c)) (\<lambda>_.
        bind_res (cassert dbg (substituted (now_counts st) = substituted c)) (\<lambda>_.
        bind_res (cassert dbg (pure (now_counts st) = pure c)) (\<lambda>_.
        let inactive = unused + fixed c + eliminated c + substituted c + pure c
        in bind_res (cassert dbg (inactive_vars st = inactive)) (\<lambda>_.
           cassert dbg (max_var st = active_vars st + inactive_vars st))))))))"

text \<open>The number of active variables, with the check of the debug build.\<close>

definition active :: "bool \<Rightarrow> var_state \<Rightarrow> int res" where
  "active dbg st =
     (let c = now_counts st;
          tmp = max_var st - unused_vars st - fixed c - eliminated c - substituted c - pure c
      in bind_res (cassert dbg (tmp \<ge> 0)) (\<lambda>_.
         bind_res (cassert dbg (tmp = active_vars st)) (\<lambda>_. Inr (active_vars st))))"

section \<open>Well-formed states\<close>

definition statuses :: "var_state \<Rightarrow> status list" where
  "statuses st = map status (take (nat (max_var st)) (drop 1 (ftab st)))"

text \<open>The tables cover all variables, and the entries without a variable are as constructed.\<close>

definition tables_ok :: "var_state \<Rightarrow> bool" where
  "tables_ok st \<longleftrightarrow>
     0 \<le> max_var st \<and> max_var st \<le> INT_MAX \<and> vsize st \<le> length (ftab st) \<and>
     (max_var st = 0 \<or> nat (max_var st) < vsize st) \<and>
     (\<forall>f \<in> set (drop (Suc (nat (max_var st))) (ftab st)). status f = UNUSED)"

definition counters_exact :: "var_state \<Rightarrow> bool" where
  "counters_exact st \<longleftrightarrow>
     active_vars st = int (count_list (statuses st) ACTIVE) \<and>
     unused_vars st = int (count_list (statuses st) UNUSED) \<and>
     inactive_vars st = max_var st - active_vars st \<and>
     fixed (now_counts st) = int (count_list (statuses st) FIXED) \<and>
     eliminated (now_counts st) = int (count_list (statuses st) ELIMINATED) \<and>
     substituted (now_counts st) = int (count_list (statuses st) SUBSTITUTED) \<and>
     pure (now_counts st) = int (count_list (statuses st) PURE)"

definition vars_ok :: "var_state \<Rightarrow> bool" where
  "vars_ok st \<longleftrightarrow> tables_ok st \<and> counters_exact st"

definition in_range :: "int \<Rightarrow> var_state \<Rightarrow> bool" where
  "in_range lit st \<longleftrightarrow> lit \<noteq> 0 \<and> \<bar>lit\<bar> \<le> max_var st"

definition status_of :: "int \<Rightarrow> var_state \<Rightarrow> status" where
  "status_of lit st = status (ftab st ! nat \<bar>lit\<bar>)"

lemma length_statuses: "tables_ok st \<Longrightarrow> length (statuses st) = nat (max_var st)"
  by (auto simp: tables_ok_def statuses_def)

lemma statuses_nth: "tables_ok st \<Longrightarrow> in_range lit st \<Longrightarrow> statuses st ! (nat \<bar>lit\<bar> - 1) = status_of lit st"
  by (auto simp: tables_ok_def statuses_def in_range_def status_of_def)

lemma in_range_length: "tables_ok st \<Longrightarrow> in_range lit st \<Longrightarrow> nat \<bar>lit\<bar> < length (ftab st)"
  by (auto simp: tables_ok_def in_range_def)

lemma count_list_update:
  "i < length xs \<Longrightarrow>
     count_list (xs[i := y]) x + of_bool (xs ! i = x) = count_list xs x + of_bool (y = x)"
proof (induction xs arbitrary: i)
  case (Cons a xs)
  then show ?case using Cons.IH [of "i - 1"] by (cases i) auto
qed simp

lemma status_counts:
  "count_list xs UNUSED + count_list xs ACTIVE + count_list xs FIXED + count_list xs ELIMINATED +
     count_list xs SUBSTITUTED + count_list xs PURE = length xs"
proof (induction xs)
  case (Cons s xs)
  then show ?case by (cases s) auto
qed simp

lemma vidx_in_range: "tables_ok st \<Longrightarrow> in_range lit st \<Longrightarrow> vidx dbg lit st = Inr (nat \<bar>lit\<bar>)"
  by (auto simp: vidx_def in_range_def tables_ok_def cassert_def INT_MIN_def INT_MAX_def)

lemma get_flags_in_range: "tables_ok st \<Longrightarrow> in_range lit st \<Longrightarrow> get_flags dbg lit st = Inr (ftab st ! nat \<bar>lit\<bar>)"
  by (simp add: get_flags_def vidx_in_range in_range_length)

lemma is_active_in_range: "tables_ok st \<Longrightarrow> in_range lit st \<Longrightarrow> is_active dbg lit st = Inr (status_of lit st = ACTIVE)"
  by (simp add: is_active_def get_flags_in_range status_of_def)

definition with_status :: "int \<Rightarrow> status \<Rightarrow> var_state \<Rightarrow> var_state" where
  "with_status lit s st = st\<lparr>ftab := (ftab st)[nat \<bar>lit\<bar> := (ftab st ! nat \<bar>lit\<bar>)\<lparr>status := s\<rparr>]\<rparr>"

lemma set_status_in_range:
  "tables_ok st \<Longrightarrow> in_range lit st \<Longrightarrow> set_status dbg lit s st = Inr (with_status lit s st)"
  by (simp add: set_status_def vidx_in_range in_range_length with_status_def)

lemma with_status_simps [simp]:
  "max_var (with_status lit s st) = max_var st" "vsize (with_status lit s st) = vsize st"
  "all_counts (with_status lit s st) = all_counts st" "now_counts (with_status lit s st) = now_counts st"
  "unused_vars (with_status lit s st) = unused_vars st" "active_vars (with_status lit s st) = active_vars st"
  "inactive_vars (with_status lit s st) = inactive_vars st"
  "in_range lit' (with_status lit s st) = in_range lit' st"
  "length (ftab (with_status lit s st)) = length (ftab st)"
  by (simp_all add: with_status_def in_range_def)

lemma status_of_with_status:
  "tables_ok st \<Longrightarrow> in_range lit st \<Longrightarrow>
     status_of lit' (with_status lit s st) = (if \<bar>lit'\<bar> = \<bar>lit\<bar> then s else status_of lit' st)"
  using in_range_length [of st lit]
  by (auto simp: status_of_def with_status_def list_update_fill)

lemma tables_with_status: "tables_ok st \<Longrightarrow> in_range lit st \<Longrightarrow> tables_ok (with_status lit s st)"
  by (auto simp: tables_ok_def with_status_def in_range_def drop_update_cancel)

lemma statuses_with_status:
  "tables_ok st \<Longrightarrow> in_range lit st \<Longrightarrow> statuses (with_status lit s st) = (statuses st)[nat \<bar>lit\<bar> - 1 := s]"
  using in_range_length [of st lit]
  by (cases "nat \<bar>lit\<bar>") (auto simp: statuses_def with_status_def map_update take_update_swap drop_update_swap in_range_def)

lemma count_with_status:
  assumes "tables_ok st" "in_range lit st"
  shows "int (count_list (statuses (with_status lit s st)) x) =
    int (count_list (statuses st) x) + of_bool (s = x) - of_bool (status_of lit st = x)"
proof -
  have "nat \<bar>lit\<bar> - 1 < length (statuses st)"
    using assms by (auto simp: length_statuses in_range_def)
  from count_list_update [OF this, of s x] statuses_nth [OF assms]
  show ?thesis by (auto simp: statuses_with_status [OF assms] split: if_splits)
qed

section \<open>The operations keep the counters exact\<close>

lemma count_pos: "tables_ok st \<Longrightarrow> in_range lit st \<Longrightarrow> status_of lit st = s \<Longrightarrow> 0 < count_list (statuses st) s"
  using statuses_nth [of st lit] nth_mem [of "nat \<bar>lit\<bar> - 1" "statuses st"] length_statuses [of st]
  by (auto simp: in_range_def count_list_0_iff intro!: gr0I)

lemma counters_with_status:
  assumes "vars_ok st" "in_range lit st"
  shows "int (count_list (statuses (with_status lit s st)) ACTIVE) = active_vars st + of_bool (s = ACTIVE) - of_bool (status_of lit st = ACTIVE)"
    "int (count_list (statuses (with_status lit s st)) UNUSED) = unused_vars st + of_bool (s = UNUSED) - of_bool (status_of lit st = UNUSED)"
    "int (count_list (statuses (with_status lit s st)) FIXED) = fixed (now_counts st) + of_bool (s = FIXED) - of_bool (status_of lit st = FIXED)"
    "int (count_list (statuses (with_status lit s st)) ELIMINATED) = eliminated (now_counts st) + of_bool (s = ELIMINATED) - of_bool (status_of lit st = ELIMINATED)"
    "int (count_list (statuses (with_status lit s st)) SUBSTITUTED) = substituted (now_counts st) + of_bool (s = SUBSTITUTED) - of_bool (status_of lit st = SUBSTITUTED)"
    "int (count_list (statuses (with_status lit s st)) PURE) = pure (now_counts st) + of_bool (s = PURE) - of_bool (status_of lit st = PURE)"
  using assms by (simp_all add: vars_ok_def counters_exact_def count_with_status)

lemma vars_ok_cong:
  assumes "vars_ok st" "in_range lit st" "ftab st' = ftab (with_status lit s st)" "max_var st' = max_var st"
    "vsize st' = vsize st"
    and "active_vars st' = active_vars st + of_bool (s = ACTIVE) - of_bool (status_of lit st = ACTIVE)"
    "unused_vars st' = unused_vars st + of_bool (s = UNUSED) - of_bool (status_of lit st = UNUSED)"
    "inactive_vars st' = max_var st' - active_vars st'"
    "fixed (now_counts st') = fixed (now_counts st) + of_bool (s = FIXED) - of_bool (status_of lit st = FIXED)"
    "eliminated (now_counts st') = eliminated (now_counts st) + of_bool (s = ELIMINATED) - of_bool (status_of lit st = ELIMINATED)"
    "substituted (now_counts st') = substituted (now_counts st) + of_bool (s = SUBSTITUTED) - of_bool (status_of lit st = SUBSTITUTED)"
    "pure (now_counts st') = pure (now_counts st) + of_bool (s = PURE) - of_bool (status_of lit st = PURE)"
  shows "vars_ok st'"
proof -
  have t: "tables_ok (with_status lit s st)" using assms(1,2) by (simp add: vars_ok_def tables_with_status)
  have "statuses st' = statuses (with_status lit s st)" using assms(3,4) by (simp add: statuses_def)
  moreover have "tables_ok st'" using t assms(3-5) by (simp add: tables_ok_def)
  ultimately show ?thesis
    using assms(6-) counters_with_status [OF assms(1,2), of s]
    by (simp only: vars_ok_def counters_exact_def)
qed

lemma mark_inactive_ok:
  assumes st: "vars_ok st" "in_range lit st" "status_of lit st = ACTIVE"
    and s: "s \<in> {FIXED, ELIMINATED, SUBSTITUTED, PURE}"
    and counted: "\<And>c. fixed (counted c) = fixed c + of_bool (s = FIXED)" "\<And>c. eliminated (counted c) = eliminated c + of_bool (s = ELIMINATED)"
      "\<And>c. substituted (counted c) = substituted c + of_bool (s = SUBSTITUTED)" "\<And>c. pure (counted c) = pure c + of_bool (s = PURE)"
  shows "\<exists>st'. mark_inactive dbg s counted lit st = Inr st' \<and> vars_ok st' \<and> ftab st' = ftab (with_status lit s st)
    \<and> max_var st' = max_var st"
proof -
  have t: "tables_ok st" using st by (simp add: vars_ok_def)
  let ?w = "with_status lit s st"
  let ?st = "?w\<lparr>all_counts := counted (all_counts st), now_counts := counted (now_counts st),
    inactive_vars := inactive_vars st + 1, active_vars := active_vars st - 1\<rparr>"
  have a: "active_vars st \<noteq> 0"
    using st count_pos [OF t st(2,3)] by (simp add: vars_ok_def counters_exact_def)
  have ok: "vars_ok ?st"
    by (rule vars_ok_cong [OF st(1,2), of _ s])
      (use st s counted in \<open>auto simp: vars_ok_def counters_exact_def\<close>)
  have r: "in_range lit ?st" "status_of lit ?st = s"
    using st(2) status_of_with_status [OF t st(2), of lit s] by (auto simp: in_range_def status_of_def)
  have "is_active dbg lit ?st = Inr False"
    using is_active_in_range [of ?st lit] ok r s by (auto simp: vars_ok_def)
  moreover have "status (ftab st ! nat \<bar>lit\<bar>) = ACTIVE" using st(3) by (simp add: status_of_def)
  ultimately have "mark_inactive dbg s counted lit st = Inr ?st"
    using a by (simp add: mark_inactive_def get_flags_in_range [OF t st(2)] set_status_in_range [OF t st(2)] cassert_def)
  then show ?thesis using ok by auto
qed

lemma mark_active_ok:
  assumes st: "vars_ok st" "in_range lit st" "status_of lit st = UNUSED"
  shows "\<exists>st'. mark_active dbg lit st = Inr st' \<and> vars_ok st' \<and> ftab st' = ftab (with_status lit ACTIVE st)
    \<and> max_var st' = max_var st"
proof -
  have t: "tables_ok st" using st by (simp add: vars_ok_def)
  let ?w = "with_status lit ACTIVE st"
  let ?st = "?w\<lparr>inactive_vars := inactive_vars st - 1, unused_vars := unused_vars st - 1, active_vars := active_vars st + 1\<rparr>"
  have l: "length (statuses st) = nat (max_var st)" using t by (rule length_statuses)
  have a: "unused_vars st \<noteq> 0" "inactive_vars st \<noteq> 0"
    using st t count_pos [OF t st(2,3)] status_counts [of "statuses st"] l
    by (auto simp: vars_ok_def counters_exact_def tables_ok_def)
  have ok: "vars_ok ?st"
    by (rule vars_ok_cong [OF st(1,2), of _ ACTIVE]) (use st in \<open>auto simp: vars_ok_def counters_exact_def\<close>)
  have r: "in_range lit ?st" "status_of lit ?st = ACTIVE"
    using st(2) status_of_with_status [OF t st(2), of lit ACTIVE] by (auto simp: in_range_def status_of_def)
  have "is_active dbg lit ?st = Inr True"
    using is_active_in_range [of ?st lit] ok r by (auto simp: vars_ok_def)
  moreover have "status (ftab st ! nat \<bar>lit\<bar>) = UNUSED" using st(3) by (simp add: status_of_def)
  ultimately have "mark_active dbg lit st = Inr ?st"
    using a by (simp add: mark_active_def get_flags_in_range [OF t st(2)] set_status_in_range [OF t st(2)] cassert_def)
  then show ?thesis using ok by auto
qed

lemma reactivate_ok:
  assumes st: "vars_ok st" "in_range lit st" "status_of lit st \<in> {ELIMINATED, SUBSTITUTED, PURE}"
  shows "\<exists>st'. reactivate dbg lit st = Inr st' \<and> vars_ok st' \<and> ftab st' = ftab (with_status lit ACTIVE st)
    \<and> max_var st' = max_var st"
proof -
  have t: "tables_ok st" using st by (simp add: vars_ok_def)
  define s where "s = status_of lit st"
  have s: "s \<in> {ELIMINATED, SUBSTITUTED, PURE}" "status (ftab st ! nat \<bar>lit\<bar>) = s"
    using st(3) by (simp_all add: s_def status_of_def)
  define c where "c = (now_counts st)\<lparr>eliminated := eliminated (now_counts st) - of_bool (s = ELIMINATED),
    substituted := substituted (now_counts st) - of_bool (s = SUBSTITUTED), pure := pure (now_counts st) - of_bool (s = PURE)\<rparr>"
  have pos: "0 < count_list (statuses st) s" using count_pos [OF t st(2)] by (simp add: s_def)
  have c: "count_reactivated dbg s (now_counts st) = Inr c"
    using s pos st(1) by (auto simp: count_reactivated_def c_def vars_ok_def counters_exact_def cassert_def)
  let ?w = "with_status lit ACTIVE (st\<lparr>now_counts := c\<rparr>)"
  let ?st = "?w\<lparr>reactivated := reactivated st + 1, inactive_vars := inactive_vars st - 1, active_vars := active_vars st + 1\<rparr>"
  have t': "tables_ok (st\<lparr>now_counts := c\<rparr>)" and r': "in_range lit (st\<lparr>now_counts := c\<rparr>)"
    using t st(2) by (simp_all add: tables_ok_def in_range_def)
  have f: "ftab ?w = ftab (with_status lit ACTIVE st)" by (simp add: with_status_def)
  have "int (length (statuses st)) = max_var st" using length_statuses [OF t] t by (simp add: tables_ok_def)
  then have a: "inactive_vars st > 0"
    using st(1) s(1) pos status_counts [of "statuses st"]
    unfolding vars_ok_def counters_exact_def by auto
  have ok: "vars_ok ?st"
    by (rule vars_ok_cong [OF st(1,2), of _ ACTIVE])
      (use st(1) s f in \<open>auto simp: vars_ok_def counters_exact_def c_def s_def [symmetric] with_status_def\<close>)
  have r: "in_range lit ?w" "status_of lit ?w = ACTIVE"
    using r' status_of_with_status [OF t' r', of lit ACTIVE] by auto
  have "is_active dbg lit ?w = Inr True"
    using is_active_in_range [OF tables_with_status [OF t' r'] r(1)] r(2) by simp
  moreover have "reactivated ?w = reactivated st" by (simp add: with_status_def)
  ultimately have "reactivate dbg lit st = Inr ?st"
    using a s by (auto simp: reactivate_def is_active_in_range [OF t st(2)] get_flags_in_range [OF t st(2)]
        set_status_in_range [OF t' r'] c cassert_def s_def [symmetric])
  then show ?thesis using ok f by auto
qed

lemma init_vars_ok:
  assumes st: "vars_ok st" and n: "n \<le> INT_MAX"
  shows "vars_ok (init_vars n st) \<and> max_var (init_vars n st) = max (max_var st) n
    \<and> (\<forall>lit. in_range lit st \<longrightarrow> status_of lit (init_vars n st) = status_of lit st)"
proof (cases "n \<le> max_var st")
  case True
  then show ?thesis using st by (simp add: init_vars_def)
next
  case False
  define st1 where "st1 = (if nat n \<ge> vsize st then enlarge n st else st)"
  have t: "tables_ok st" using st by (simp add: vars_ok_def)
  obtain k where k: "ftab st1 = ftab st @ replicate k Flags_new" "vsize st1 \<le> length (ftab st1)" "nat n < vsize st1"
  proof (cases "nat n \<ge> vsize st")
    case True
    define v where "v = grow (nat n) (if vsize st \<noteq> 0 then 2 * vsize st else 1 + nat n)"
    have v: "nat n < v" by (auto simp: v_def intro!: grow_above)
    have "ftab st1 = ftab st @ replicate (v - length (ftab st)) Flags_new" "vsize st1 = v"
      using True by (auto simp: st1_def enlarge_def Let_def v_def resize_def)
    then show ?thesis using v by (intro that) auto
  next
    case F: False
    then have "st1 = st" by (simp add: st1_def)
    then show ?thesis using F t by (intro that [of 0]) (auto simp: tables_ok_def)
  qed
  have same: "max_var st1 = max_var st" "now_counts st1 = now_counts st" "active_vars st1 = active_vars st"
    "unused_vars st1 = unused_vars st" "inactive_vars st1 = inactive_vars st"
    by (simp_all add: st1_def enlarge_def Let_def)
  let ?st = "init_vars n st"
  have e: "?st = st1\<lparr>max_var := n, vars_total := vars_total st1 + (n - max_var st),
      unused_vars := unused_vars st + (n - max_var st), inactive_vars := inactive_vars st + (n - max_var st)\<rparr>"
    using False same by (simp add: init_vars_def Let_def st1_def)
  have ge: "0 \<le> max_var st" "max_var st < n" using t False by (simp_all add: tables_ok_def)
  have fresh: "status f = UNUSED" if "f \<in> set (drop (Suc (nat (max_var st))) (ftab st1))" for f
    using that t set_drop_subset [of _ "replicate k Flags_new"] unfolding k(1)
    by (auto simp: tables_ok_def Flags_new_def dest!: in_set_dropD [of _ _ "replicate k _"])
  have tk: "tables_ok ?st"
  proof -
    have "set (drop (Suc (nat n)) (ftab st1)) \<subseteq> set (drop (Suc (nat (max_var st))) (ftab st1))"
      using ge by (intro set_drop_subset_set_drop) simp
    then show ?thesis using fresh k(2,3) n ge by (auto simp: tables_ok_def e)
  qed
  define m where "m = nat (max_var st)"
  have m: "m = 0 \<or> m < length (ftab st)" using t by (auto simp: tables_ok_def m_def)
  have "statuses ?st = map status (take (nat n) (drop 1 (ftab st1)))" by (simp add: statuses_def e)
  also have "nat n = m + (nat n - m)" using ge by (simp add: m_def)
  then have "take (nat n) (drop 1 (ftab st1)) = take m (drop 1 (ftab st1)) @ take (nat n - m) (drop (Suc m) (ftab st1))"
    by (metis take_add drop_drop Suc_eq_plus1)
  also have "map status \<dots> = statuses st @ replicate (nat n - m) UNUSED"
  proof -
    have "take m (drop 1 (ftab st1)) = take m (drop 1 (ftab st))"
      using m by (auto simp: k(1))
    moreover have "map status (take (nat n - m) (drop (Suc m) (ftab st1))) = replicate (nat n - m) UNUSED"
      using fresh k(2,3) m by (intro replicate_eqI) (auto simp: m_def dest: in_set_takeD)
    ultimately show ?thesis by (simp add: statuses_def m_def)
  qed
  finally have ss: "statuses ?st = statuses st @ replicate (nat n - m) UNUSED" .
  have rep: "count_list (replicate j x) y = (if x = y then j else 0)" for j and x y :: status
    by (induction j) auto
  have "counters_exact ?st"
    using st ge unfolding vars_ok_def counters_exact_def ss
    by (auto simp: e same m_def rep)
  moreover have "status_of lit ?st = status_of lit st" if "in_range lit st" for lit
    using in_range_length [OF t that] by (simp add: status_of_def e k(1) nth_append)
  ultimately show ?thesis using tk ge by (simp add: vars_ok_def e)
qed

section \<open>The counts of the checks\<close>

lemma vars_in_range: "idx \<in> set (vars st) \<Longrightarrow> in_range idx st"
  by (auto simp: vars_def in_range_def)

lemma statuses_vars: "tables_ok st \<Longrightarrow> statuses st = map (\<lambda>idx. status_of idx st) (vars st)"
proof (rule nth_equalityI)
  assume t: "tables_ok st"
  then show "length (statuses st) = length (map (\<lambda>idx. status_of idx st) (vars st))"
    by (simp add: length_statuses vars_def)
  fix i assume i: "i < length (statuses st)"
  then have i: "i < nat (max_var st)" by (simp add: length_statuses t)
  then have n: "vars st ! i = 1 + int i" by (simp add: vars_def nth_upto)
  have "in_range (1 + int i) st" using i by (simp add: in_range_def)
  moreover have "nat (1 + int i) - 1 = i" by simp
  ultimately have "statuses st ! i = status_of (1 + int i) st"
    using statuses_nth [OF t, of "1 + int i"] by simp
  then show "statuses st ! i = map (\<lambda>idx. status_of idx st) (vars st) ! i"
    using i n by (simp add: vars_def)
qed

lemma count_fold:
  assumes t: "tables_ok st" and r: "\<forall>idx \<in> set is. in_range idx st"
  defines "cnt s \<equiv> int (count_list (map (\<lambda>idx. status_of idx st) is) s)"
  shows "fold_res (count_step dbg st) is (c, u) =
    Inr (c\<lparr>fixed := fixed c + cnt FIXED, eliminated := eliminated c + cnt ELIMINATED,
           substituted := substituted c + cnt SUBSTITUTED, pure := pure c + cnt PURE\<rparr>, u + cnt UNUSED)"
  using r unfolding cnt_def
proof (induction "is" arbitrary: c u)
  case (Cons i "is")
  have "in_range i st" using Cons.prems by simp
  then have g: "get_flags dbg i st = Inr (ftab st ! nat \<bar>i\<bar>)" by (rule get_flags_in_range [OF t])
  obtain c' u' where step: "count_step dbg st i (c, u) = Inr (c', u')"
    by (cases "status (ftab st ! nat \<bar>i\<bar>)") (simp_all add: count_step_def g)
  have "\<forall>idx \<in> set is. in_range idx st" using Cons.prems by simp
  note IH = Cons.IH [OF this, of c' u']
  show ?case
    using step IH
    by (cases "status_of i st"; cases c) (auto simp: count_step_def g status_of_def)
qed simp

lemma check_var_stats_ok:
  assumes "vars_ok st"
  shows "check_var_stats dbg st = Inr ()"
proof -
  have t: "tables_ok st" using assms by (simp add: vars_ok_def)
  have "int (length (statuses st)) = max_var st" using length_statuses [OF t] t by (simp add: tables_ok_def)
  then show ?thesis
    using assms status_counts [of "statuses st"] statuses_vars [OF t]
    by (auto simp: check_var_stats_def count_fold [OF t] vars_in_range vars_ok_def counters_exact_def
        no_counts_def cassert_def)
qed

lemma active_ok:
  assumes "vars_ok st"
  shows "active dbg st = Inr (int (count_list (statuses st) ACTIVE))"
proof -
  have t: "tables_ok st" using assms by (simp add: vars_ok_def)
  have "int (length (statuses st)) = max_var st" using length_statuses [OF t] t by (simp add: tables_ok_def)
  then show ?thesis
    using assms status_counts [of "statuses st"]
    by (auto simp: active_def vars_ok_def counters_exact_def cassert_def)
qed

section \<open>The state machine\<close>

datatype var_op =
    InitVars int
  | MarkActive int
  | MarkFixed int
  | MarkEliminated int
  | MarkPure int
  | MarkSubstituted int
  | Reactivate int

fun apply_op :: "bool \<Rightarrow> var_op \<Rightarrow> var_state \<Rightarrow> var_state res" where
  "apply_op dbg (InitVars n) st = Inr (init_vars n st)"
| "apply_op dbg (MarkActive lit) st = mark_active dbg lit st"
| "apply_op dbg (MarkFixed lit) st = mark_fixed dbg lit st"
| "apply_op dbg (MarkEliminated lit) st = mark_eliminated dbg lit st"
| "apply_op dbg (MarkPure lit) st = mark_pure dbg lit st"
| "apply_op dbg (MarkSubstituted lit) st = mark_substituted dbg lit st"
| "apply_op dbg (Reactivate lit) st = reactivate dbg lit st"

text \<open>What the callers see to: the literal exists, and its variable has the status the operation is for.\<close>

fun permitted :: "var_op \<Rightarrow> var_state \<Rightarrow> bool" where
  "permitted (InitVars n) st \<longleftrightarrow> n \<le> INT_MAX"
| "permitted (MarkActive lit) st \<longleftrightarrow> in_range lit st \<and> status_of lit st = UNUSED"
| "permitted (Reactivate lit) st \<longleftrightarrow> in_range lit st \<and> status_of lit st \<in> {ELIMINATED, SUBSTITUTED, PURE}"
| "permitted (MarkFixed lit) st \<longleftrightarrow> in_range lit st \<and> status_of lit st = ACTIVE"
| "permitted (MarkEliminated lit) st \<longleftrightarrow> in_range lit st \<and> status_of lit st = ACTIVE"
| "permitted (MarkPure lit) st \<longleftrightarrow> in_range lit st \<and> status_of lit st = ACTIVE"
| "permitted (MarkSubstituted lit) st \<longleftrightarrow> in_range lit st \<and> status_of lit st = ACTIVE"

inductive var_step :: "var_state \<Rightarrow> var_state \<Rightarrow> bool" where
  step: "permitted op st \<Longrightarrow> apply_op True op st = Inr st' \<Longrightarrow> var_step st st'"

inductive_cases var_stepE: "var_step st st'"

lemma new_vars_ok: "vars_ok var_state_new"
  by (simp add: vars_ok_def tables_ok_def counters_exact_def var_state_new_def statuses_def no_counts_def INT_MAX_def)

text \<open>A permitted operation returns; it changes the status of one variable, or of none when variables are added.\<close>

definition changes_one :: "var_state res \<Rightarrow> int \<Rightarrow> var_state \<Rightarrow> bool" where
  "changes_one r lit st \<longleftrightarrow> (\<exists>st' s. r = Inr st' \<and> vars_ok st' \<and> ftab st' = ftab (with_status lit s st) \<and> max_var st' = max_var st)"

lemma mark_inactive_changes:
  assumes "vars_ok st" "in_range lit st" "status_of lit st = ACTIVE"
  shows "changes_one (mark_fixed dbg lit st) lit st" "changes_one (mark_eliminated dbg lit st) lit st"
    "changes_one (mark_pure dbg lit st) lit st" "changes_one (mark_substituted dbg lit st) lit st"
proof -
  have "changes_one (mark_inactive dbg s counted lit st) lit st"
    if "s \<in> {FIXED, ELIMINATED, SUBSTITUTED, PURE}"
      "\<And>c. fixed (counted c) = fixed c + of_bool (s = FIXED)" "\<And>c. eliminated (counted c) = eliminated c + of_bool (s = ELIMINATED)"
      "\<And>c. substituted (counted c) = substituted c + of_bool (s = SUBSTITUTED)" "\<And>c. pure (counted c) = pure c + of_bool (s = PURE)"
    for s counted
    using mark_inactive_ok [OF assms that, of dbg] unfolding changes_one_def by blast
  then show "changes_one (mark_fixed dbg lit st) lit st" "changes_one (mark_eliminated dbg lit st) lit st"
    "changes_one (mark_pure dbg lit st) lit st" "changes_one (mark_substituted dbg lit st) lit st"
    unfolding mark_fixed_def mark_eliminated_def mark_pure_def mark_substituted_def by simp_all
qed

lemma mark_active_changes:
  "vars_ok st \<Longrightarrow> in_range lit st \<Longrightarrow> status_of lit st = UNUSED \<Longrightarrow> changes_one (mark_active dbg lit st) lit st"
  using mark_active_ok [of st lit dbg] unfolding changes_one_def by blast

lemma reactivate_changes:
  "vars_ok st \<Longrightarrow> in_range lit st \<Longrightarrow> status_of lit st \<in> {ELIMINATED, SUBSTITUTED, PURE} \<Longrightarrow>
     changes_one (reactivate dbg lit st) lit st"
  using reactivate_ok [of st lit dbg] unfolding changes_one_def by blast

lemma changes_one_ok: "changes_one r lit st \<Longrightarrow> \<exists>st'. r = Inr st' \<and> vars_ok st'"
  unfolding changes_one_def by blast

lemma permitted_ok:
  assumes "vars_ok st" "permitted op st"
  shows "\<exists>st'. apply_op dbg op st = Inr st' \<and> vars_ok st'"
  using assms init_vars_ok [OF assms(1)] changes_one_ok [OF mark_active_changes [OF assms(1)]]
    changes_one_ok [OF reactivate_changes [OF assms(1)]] changes_one_ok [OF mark_inactive_changes(1) [OF assms(1)]]
    changes_one_ok [OF mark_inactive_changes(2) [OF assms(1)]] changes_one_ok [OF mark_inactive_changes(3) [OF assms(1)]]
    changes_one_ok [OF mark_inactive_changes(4) [OF assms(1)]]
  by (cases op) auto

lemma var_step_ok:
  assumes "var_step st st'" "vars_ok st"
  shows "vars_ok st'"
proof -
  obtain op where "permitted op st" "apply_op True op st = Inr st'" using assms(1) by (rule var_stepE)
  with permitted_ok [OF assms(2), of op True] show ?thesis by auto
qed

lemma var_steps_ok: "var_step\<^sup>*\<^sup>* st st' \<Longrightarrow> vars_ok st \<Longrightarrow> vars_ok st'"
  by (induction rule: rtranclp_induct) (auto intro: var_step_ok)

section \<open>Properties\<close>

definition example_vars :: var_state where
  "example_vars = init_vars 2 var_state_new"

lemma example_vars_ok: "vars_ok example_vars" "in_range 2 example_vars" "status_of 2 example_vars = UNUSED"
  using init_vars_ok [OF new_vars_ok, of 2]
  by (auto simp: example_vars_def INT_MAX_def var_state_new_def in_range_def status_of_def
      init_vars_def enlarge_def Let_def grow.simps Flags_new_def numeral_3_eq_3)

text \<open>
  C28: In every state reached from the initial one by permitted operations, every permitted operation returns (no
  assertion fails, no index is out of range), \<^verbatim>\<open>check_var_stats\<close> succeeds, and the counters of active, unused and
  inactive variables are the numbers of variables with that status.
\<close>

theorem var_counters_exact:
  assumes "var_step\<^sup>*\<^sup>* var_state_new st"
  shows "(\<forall>op. permitted op st \<longrightarrow> (\<exists>st'. apply_op dbg op st = Inr st')) \<and>
    check_var_stats dbg st = Inr () \<and>
    active dbg st = Inr (int (count_list (map (\<lambda>idx. status_of idx st) (vars st)) ACTIVE)) \<and>
    unused_vars st = int (count_list (map (\<lambda>idx. status_of idx st) (vars st)) UNUSED) \<and>
    inactive_vars st + active_vars st = max_var st"
proof -
  have ok: "vars_ok st" using var_steps_ok [OF assms new_vars_ok] .
  then have t: "tables_ok st" by (simp add: vars_ok_def)
  have "\<forall>op. permitted op st \<longrightarrow> (\<exists>st'. apply_op dbg op st = Inr st')"
    using permitted_ok [OF ok, of _ dbg] by blast
  moreover have "unused_vars st = int (count_list (statuses st) UNUSED)" "inactive_vars st + active_vars st = max_var st"
    using ok by (simp_all add: vars_ok_def counters_exact_def)
  ultimately show ?thesis
    using check_var_stats_ok [OF ok, of dbg] active_ok [OF ok, of dbg] by (simp add: statuses_vars [OF t])
qed

theorem var_counters_exact_witness: "\<exists>st. mark_active True 2 example_vars = Inr st"
proof -
  have "var_step\<^sup>*\<^sup>* var_state_new example_vars"
    by (rule r_into_rtranclp) (auto intro!: var_step.step [of "InitVars 2"] simp: example_vars_def INT_MAX_def)
  from var_counters_exact [OF this, of True] example_vars_ok
  have "\<exists>st. apply_op True (MarkActive 2) example_vars = Inr st" by (auto simp del: apply_op.simps)
  then show ?thesis by simp
qed

lemmas var_evals = fold_res.simps init_vars_def enlarge_def grow.simps resize_def Flags_new_def var_state_new_def
  mark_active_def mark_fixed_def mark_inactive_def get_flags_def set_status_def vidx_def is_active_def cassert_def
  INT_MIN_def INT_MAX_def no_counts_def Let_def in_range_def status_of_def

section \<open>The graph of the statuses\<close>

text \<open>
  The ways of a status that the assertions of the operations leave open.  Nothing leaves \<open>FIXED\<close> and nothing enters \<open>UNUSED\<close>.
\<close>

definition status_edges :: "(status \<times> status) set" where
  "status_edges =
     {(UNUSED, ACTIVE), (ACTIVE, FIXED), (ACTIVE, ELIMINATED), (ACTIVE, SUBSTITUTED), (ACTIVE, PURE),
      (ELIMINATED, ACTIVE), (SUBSTITUTED, ACTIVE), (PURE, ACTIVE)}"

definition entry_at :: "int \<Rightarrow> var_state \<Rightarrow> bool" where
  "entry_at lit st \<longleftrightarrow> in_range lit st \<and> nat \<bar>lit\<bar> < length (ftab st)"

definition moves :: "var_state \<Rightarrow> var_state \<Rightarrow> int \<Rightarrow> bool" where
  "moves st st' lit \<longleftrightarrow> entry_at lit st' \<and> (status_of lit st, status_of lit st') \<in> status_edges\<^sup>="

lemma get_at_Inr: "get_at xs i = Inr x \<longleftrightarrow> i < length xs \<and> x = xs ! i"
  by (auto simp: get_at_def)

text \<open>One status changes.\<close>

lemma moves_update:
  assumes e: "entry_at lit st" and i: "i < length (ftab st)" "(status (ftab st ! i), s) \<in> status_edges"
    and st': "max_var st' = max_var st" "ftab st' = (ftab st)[i := (ftab st ! i)\<lparr>status := s\<rparr>]"
  shows "moves st st' lit"
  using assms by (cases "nat \<bar>lit\<bar> = i") (auto simp: moves_def entry_at_def in_range_def status_of_def)

lemma vidx_True: "vidx True l st = Inr i \<Longrightarrow> i = nat \<bar>l\<bar>"
  by (auto simp: vidx_def bind_res_eq_Inr cassert_def split: if_splits)

lemma mark_inactive_moves:
  assumes "mark_inactive True s counted l st = Inr st'" "(ACTIVE, s) \<in> status_edges" "entry_at lit st"
  shows "moves st st' lit"
proof -
  obtain i where i: "vidx True l st = Inr i" "i < length (ftab st)" "status (ftab st ! i) = ACTIVE"
    and st': "max_var st' = max_var st" "ftab st' = (ftab st)[i := (ftab st ! i)\<lparr>status := s\<rparr>]"
    using assms(1) by (auto simp: mark_inactive_def get_flags_def set_status_def bind_res_eq_Inr get_at_Inr Let_def)
  show ?thesis by (rule moves_update [OF assms(3) i(2) _ st']) (use i assms(2) in simp)
qed

lemma mark_active_moves:
  assumes "mark_active True l st = Inr st'" "entry_at lit st"
  shows "moves st st' lit"
proof -
  obtain i where i: "i < length (ftab st)" "status (ftab st ! i) = UNUSED"
    and st': "max_var st' = max_var st" "ftab st' = (ftab st)[i := (ftab st ! i)\<lparr>status := ACTIVE\<rparr>]"
    using assms(1) by (auto simp: mark_active_def get_flags_def set_status_def bind_res_eq_Inr get_at_Inr Let_def)
  show ?thesis by (rule moves_update [OF assms(2) i(1) _ st']) (use i in \<open>simp add: status_edges_def\<close>)
qed

lemma vidx_counts [simp]: "vidx dbg l (st\<lparr>now_counts := c\<rparr>) = vidx dbg l st"
  by (simp add: vidx_def)

lemma reactivate_moves:
  assumes "reactivate True l st = Inr st'" "entry_at lit st"
  shows "moves st st' lit"
proof -
  obtain i where i: "i < length (ftab st)" "status (ftab st ! i) \<noteq> FIXED" "status (ftab st ! i) \<noteq> UNUSED"
    "status (ftab st ! i) \<noteq> ACTIVE"
    and st': "max_var st' = max_var st" "ftab st' = (ftab st)[i := (ftab st ! i)\<lparr>status := ACTIVE\<rparr>]"
    using assms(1) by (auto simp: reactivate_def is_active_def get_flags_def set_status_def bind_res_eq_Inr get_at_Inr Let_def)
  show ?thesis by (rule moves_update [OF assms(2) i(1) _ st']) (use i in \<open>cases "status (ftab st ! i)"; simp add: status_edges_def\<close>)
qed

lemma init_vars_moves:
  assumes "entry_at lit st"
  shows "moves st (init_vars n st) lit"
proof -
  have "\<exists>new. ftab (init_vars n st) = ftab st @ new" "max_var st \<le> max_var (init_vars n st)"
    by (auto simp: init_vars_def enlarge_def Let_def resize_def)
  then show ?thesis using assms by (auto simp: moves_def entry_at_def in_range_def status_of_def nth_append)
qed

lemma apply_op_moves:
  assumes "apply_op True op st = Inr st'" "entry_at lit st"
  shows "moves st st' lit"
  using assms init_vars_moves mark_active_moves reactivate_moves mark_inactive_moves
  by (cases op)
    (auto simp: mark_fixed_def mark_eliminated_def mark_pure_def mark_substituted_def status_edges_def)

text \<open>
  C29: the assertions of the code alone keep the statuses on the graph.  Whatever operations are called, on whatever variables, if no
  assertion fails then each variable has moved along edges: a fixed variable is fixed at the end, and a used one is not unused again.
\<close>

theorem status_graph:
  assumes "fold_res (apply_op True) ops st = Inr st'" "in_range lit st" "nat \<bar>lit\<bar> < length (ftab st)"
  shows "in_range lit st' \<and> (status_of lit st, status_of lit st') \<in> status_edges\<^sup>* \<and>
    (status_of lit st = FIXED \<longrightarrow> status_of lit st' = FIXED) \<and> (status_of lit st \<noteq> UNUSED \<longrightarrow> status_of lit st' \<noteq> UNUSED)"
proof -
  have "entry_at lit st' \<and> (status_of lit st, status_of lit st') \<in> status_edges\<^sup>*"
    using assms(1) entry_at_def [of lit st] assms(2,3)
  proof (induction ops arbitrary: st)
    case (Cons op ops)
    then obtain st1 where st1: "apply_op True op st = Inr st1" "fold_res (apply_op True) ops st1 = Inr st'"
      by (auto simp: bind_res_eq_Inr)
    have m: "moves st st1 lit" using apply_op_moves [OF st1(1)] Cons.prems by (simp add: entry_at_def)
    then have "entry_at lit st' \<and> (status_of lit st1, status_of lit st') \<in> status_edges\<^sup>*"
      using Cons.IH [OF st1(2)] by (simp add: moves_def entry_at_def)
    then show ?case using m by (auto simp: moves_def intro: converse_rtrancl_into_rtrancl)
  qed auto
  moreover have "b = FIXED" if "(FIXED, b) \<in> status_edges\<^sup>*" for b
    using that by (induction rule: rtrancl_induct) (auto simp: status_edges_def)
  moreover have "b \<noteq> UNUSED" if "(a, b) \<in> status_edges\<^sup>*" "a \<noteq> UNUSED" for a b
    using that by (induction rule: rtrancl_induct) (auto simp: status_edges_def)
  ultimately show ?thesis by (auto simp: entry_at_def)
qed

lemma status_graph_witness:
  "\<exists>st st'. fold_res (apply_op True) [InitVars 2, MarkActive 1, MarkFixed 1] var_state_new = Inr st \<and>
     fold_res (apply_op True) [InitVars 3, MarkActive (-2), MarkEliminated 2, Reactivate 2] st = Inr st' \<and>
     status_of 1 st = FIXED \<and> status_of 1 st' = FIXED \<and> status_of 2 st' = ACTIVE"
proof -
  obtain st where st: "fold_res (apply_op True) [InitVars 2, MarkActive 1, MarkFixed 1] var_state_new = Inr st"
      "in_range 1 st" "1 < length (ftab st)" "status_of 1 st = FIXED"
      "\<exists>st'. fold_res (apply_op True) [InitVars 3, MarkActive (-2), MarkEliminated 2, Reactivate 2] st = Inr st' \<and> status_of 2 st' = ACTIVE"
    by (simp add: var_evals count_reactivated_def reactivate_def mark_eliminated_def)
  then obtain st' where st': "fold_res (apply_op True) [InitVars 3, MarkActive (-2), MarkEliminated 2, Reactivate 2] st = Inr st'"
    "status_of 2 st' = ACTIVE" by blast
  have "status_of 1 st' = FIXED" using status_graph [OF st'(1) st(2)] st(3,4) by simp
  then show ?thesis using st st' by blast
qed

end
