(* ===== verification/ExtensionStack.thy ===== *)
theory ExtensionStack
  imports VariableFlags Clauses
begin

unbundle bit_operations_syntax

text \<open>
  Incremental solving of simplified formulas: \<^verbatim>\<open>lib/cadical/src/extend.cpp\<close>, \<^verbatim>\<open>restore.cpp\<close> and the parts of
  \<^verbatim>\<open>external.hpp\<close> and \<^verbatim>\<open>external.cpp\<close> that they rest on.  When the solver removes a clause without keeping its
  meaning, it pushes the clause with a set of witness literals on the extension stack.  A model of what
  is left is extended to the removed clauses by making witness literals true, from the last clause to the first;
  and before new clauses are used, the removed clauses they interfere with are restored.

  The internal solver is present with its variables (\<open>VariableFlags\<close>) and with the clauses handed to it; its
  values and the literals it has fixed are parameters.  Statistics, messages, the unit ids collected for LRAT
  proofs and the tables of an external propagator are left out.  The flag \<open>dbg\<close> says whether assertions are compiled in.
\<close>

section \<open>State\<close>

text \<open>The options used, and whether a proof is traced.\<close>

record ext_opts =
  checkfrozen :: bool
  restoreall :: int
  restoreflush :: bool
  has_proof :: bool

text \<open>
  \<open>original\<close> and \<open>clauses_added\<close> belong to the internal solver: the clause being added, and all clauses
  added, each with its id, its internal literals and the external literals that a proof shows for it.  \<open>i2e\<close> maps
  internal variables back to external ones.
\<close>

record external =
  ext_max_var :: int
  ext_vsize :: nat
  vals :: "bool list"
  e2i :: "int list"
  i2e :: "int list"
  moltentab :: "bool list"
  eclause :: "int list"
  extended :: bool
  extension :: "int list"
  witness :: "bool list"
  tainted :: "bool list"
  internal :: var_state
  original :: "int list"
  clauses_added :: "(u64 \<times> int list \<times> int list) list"

section \<open>Marks and values\<close>

text \<open>\<^verbatim>\<open>abs (elit) - 1\<close> is computed in \<^verbatim>\<open>int\<close>, the rest in \<^verbatim>\<open>unsigned\<close>.\<close>

definition elit2ulit :: "bool \<Rightarrow> int \<Rightarrow> external \<Rightarrow> nat res" where
  "elit2ulit dbg elit st =
     bind_res (cassert dbg (elit \<noteq> 0)) (\<lambda>_.
     bind_res (cassert dbg (elit \<noteq> INT_MIN)) (\<lambda>_.
       if elit = INT_MIN then Inl SignedOverflow
       else bind_res (cassert dbg (\<bar>elit\<bar> - 1 \<le> ext_max_var st)) (\<lambda>_.
            Inr (nat ((2 * (\<bar>elit\<bar> - 1) + (if elit < 0 then 1 else 0)) mod (UINT_MAX + 1))))))"

definition marked :: "bool \<Rightarrow> bool list \<Rightarrow> int \<Rightarrow> external \<Rightarrow> bool res" where
  "marked dbg bits elit st =
     bind_res (elit2ulit dbg elit st) (\<lambda>u. Inr (if u < length bits then bits ! u else False))"

definition mark :: "bool \<Rightarrow> bool list \<Rightarrow> int \<Rightarrow> external \<Rightarrow> bool list res" where
  "mark dbg bits elit st =
     bind_res (elit2ulit dbg elit st) (\<lambda>u.
       Inr ((if u \<ge> length bits then resize (u + 1) False bits else bits)[u := True]))"

definition unmark :: "bool \<Rightarrow> bool list \<Rightarrow> int \<Rightarrow> external \<Rightarrow> bool list res" where
  "unmark dbg bits elit st =
     bind_res (elit2ulit dbg elit st) (\<lambda>u. Inr (if u < length bits then bits[u := False] else bits))"

definition ival :: "bool \<Rightarrow> int \<Rightarrow> external \<Rightarrow> int res" where
  "ival dbg elit st =
     bind_res (cassert dbg (elit \<noteq> INT_MIN)) (\<lambda>_.
       if elit = INT_MIN then Inl SignedOverflow
       else let eidx = \<bar>elit\<bar>;
                res = (if eidx > ext_max_var st then - eidx
                       else if nat eidx \<ge> length (vals st) then - eidx
                       else if vals st ! nat eidx then eidx else - eidx)
            in Inr (if elit < 0 then - res else res))"

section \<open>External variables\<close>

definition reset_extended :: "external \<Rightarrow> external" where
  "reset_extended st = (if extended st then st\<lparr>extended := False\<rparr> else st)"

definition ext_enlarge :: "bool \<Rightarrow> int \<Rightarrow> external \<Rightarrow> external res" where
  "ext_enlarge dbg new_max_var st =
     bind_res (cassert dbg (\<not> extended st)) (\<lambda>_.
       Inr (st\<lparr>ext_vsize := grow (nat new_max_var)
         (if ext_vsize st \<noteq> 0 then 2 * ext_vsize st else 1 + nat new_max_var)\<rparr>))"

text \<open>
  \<^verbatim>\<open>init\<close>: new external variables, mapped to as many new internal ones.  The sum of the internal variables is
  an \<^verbatim>\<open>int\<close>.
\<close>

definition init :: "ext_opts \<Rightarrow> bool \<Rightarrow> int \<Rightarrow> external \<Rightarrow> external res" where
  "init opts dbg new_max_var st =
     bind_res (cassert dbg (\<not> extended st)) (\<lambda>_.
       if new_max_var \<le> ext_max_var st then Inr st
       else let new_vars = new_max_var - ext_max_var st;
                old_internal_max_var = max_var (internal st);
                new_internal_max_var = old_internal_max_var + new_vars
       in if new_internal_max_var > INT_MAX then Inl SignedOverflow
       else let st = st\<lparr>internal := init_vars new_internal_max_var (internal st)\<rparr>
       in bind_res (if nat new_max_var \<ge> ext_vsize st then ext_enlarge dbg new_max_var st else Inr st) (\<lambda>st.
          bind_res (if ext_max_var st = 0
                    then bind_res (cassert dbg (e2i st = [] \<and> i2e st = [])) (\<lambda>_.
                           Inr (st\<lparr>e2i := e2i st @ [0], i2e := i2e st @ [0]\<rparr>))
                    else bind_res (cassert dbg (length (e2i st) = nat (ext_max_var st + 1) \<and>
                           length (i2e st) = nat (old_internal_max_var + 1))) (\<lambda>_. Inr st)) (\<lambda>st.
          bind_res (fold_res (\<lambda>eidx st.
              let iidx = old_internal_max_var + (eidx - ext_max_var st)
              in bind_res (cassert dbg (int (length (e2i st)) = eidx)) (\<lambda>_.
                 let st = st\<lparr>e2i := e2i st @ [iidx], i2e := i2e st @ [eidx]\<rparr>
                 in bind_res (cassert dbg (nat iidx < length (i2e st) \<and> i2e st ! nat iidx = eidx)) (\<lambda>_.
                    bind_res (cassert dbg (e2i st ! nat eidx = iidx)) (\<lambda>_. Inr st))))
            [ext_max_var st + 1 .. new_max_var] st) (\<lambda>st.
          let st = (if checkfrozen opts \<and> nat new_max_var \<ge> length (moltentab st)
                    then st\<lparr>moltentab := resize (1 + nat new_max_var) False (moltentab st)\<rparr> else st)
          in Inr (st\<lparr>ext_max_var := new_max_var\<rparr>)))))"

text \<open>The external variable gets an internal one if it has none (its old one may have been eliminated for good).\<close>

definition map_variable :: "bool \<Rightarrow> int \<Rightarrow> external \<Rightarrow> (int \<times> external) res" where
  "map_variable dbg elit st =
     bind_res (get_at (e2i st) (nat \<bar>elit\<bar>)) (\<lambda>i.
       let ilit = (if elit < 0 then - i else i)
       in if ilit \<noteq> 0 then Inr (ilit, st)
          else bind_res (cassert dbg (max_var (internal st) < INT_MAX)) (\<lambda>_.
               let ilit = sint (word_of_int (max_var (internal st) + 1) :: u32);
                   st = st\<lparr>internal := init_vars ilit (internal st),
                           e2i := (e2i st)[nat \<bar>elit\<bar> := ilit], i2e := i2e st @ [\<bar>elit\<bar>]\<rparr>
               in bind_res (cassert dbg (nat ilit < length (i2e st) \<and> i2e st ! nat ilit = \<bar>elit\<bar>)) (\<lambda>_.
                  Inr (if elit < 0 then - ilit else ilit, st))))"

text \<open>
  \<^verbatim>\<open>internalize\<close>: the internal literal of an external one, made active; the literal is tainted if its negation is
  a witness.
\<close>

definition activate :: "bool \<Rightarrow> int \<Rightarrow> var_state \<Rightarrow> var_state res" where
  "activate dbg ilit ivars =
     bind_res (get_flags dbg ilit ivars) (\<lambda>f.
       if status f = UNUSED then mark_active dbg ilit ivars
       else if status f \<noteq> ACTIVE \<and> status f \<noteq> FIXED then reactivate dbg ilit ivars
       else Inr ivars)"

definition taint :: "ext_opts \<Rightarrow> bool \<Rightarrow> int \<Rightarrow> external \<Rightarrow> external res" where
  "taint opts dbg elit st =
     bind_res (marked dbg (tainted st) elit st) (\<lambda>t.
       if t then Inr st
       else bind_res (marked dbg (witness st) (- elit) st) (\<lambda>w.
         if \<not> w then Inr st
         else bind_res (cassert dbg (\<not> checkfrozen opts)) (\<lambda>_.
              bind_res (mark dbg (tainted st) elit st) (\<lambda>bits. Inr (st\<lparr>tainted := bits\<rparr>)))))"

definition internalize :: "ext_opts \<Rightarrow> bool \<Rightarrow> int \<Rightarrow> external \<Rightarrow> (int \<times> external) res" where
  "internalize opts dbg elit st =
     (if elit = 0 then Inr (0, st)
      else bind_res (cassert dbg (elit \<noteq> INT_MIN)) (\<lambda>_.
        if elit = INT_MIN then Inl SignedOverflow
        else bind_res (if \<bar>elit\<bar> > ext_max_var st then init opts dbg \<bar>elit\<bar> st else Inr st) (\<lambda>st.
             bind_res (map_variable dbg elit st) (\<lambda>(ilit, st).
             bind_res (if checkfrozen opts
                       then bind_res (cassert dbg (nat \<bar>elit\<bar> < length (moltentab st))) (\<lambda>_.
                            bind_res (get_at (moltentab st) (nat \<bar>elit\<bar>)) (\<lambda>molten.
                              if molten then Inl Aborted else Inr st))
                       else Inr st) (\<lambda>st.
             bind_res (activate dbg ilit (internal st)) (\<lambda>ivars.
             bind_res (taint opts dbg elit (st\<lparr>internal := ivars\<rparr>)) (\<lambda>st. Inr (ilit, st))))))))"

text \<open>Clauses handed to the internal solver.\<close>

definition add_original_lit :: "bool \<Rightarrow> int \<Rightarrow> external \<Rightarrow> external res" where
  "add_original_lit dbg lit st =
     bind_res (cassert dbg (\<bar>lit\<bar> \<le> max_var (internal st))) (\<lambda>_. Inr (st\<lparr>original := original st @ [lit]\<rparr>))"

definition finish_added_clause_with_id :: "ext_opts \<Rightarrow> bool \<Rightarrow> u64 \<Rightarrow> external \<Rightarrow> external res" where
  "finish_added_clause_with_id opts dbg i st =
     bind_res (cassert dbg (has_proof opts \<longrightarrow> original st = [] \<or> eclause st \<noteq> [])) (\<lambda>_.
       Inr (st\<lparr>clauses_added := clauses_added st @ [(i, original st, eclause st)], original := []\<rparr>))"

section \<open>Pushing on the extension stack\<close>

text \<open>
  An id takes two stack entries.  The higher bits are \<^verbatim>\<open>static_cast<int> (id << 32)\<close>; both values go through
  \<^verbatim>\<open>uint32_t\<close> into a vector of \<^verbatim>\<open>int\<close>.
\<close>

definition push_zero :: "external \<Rightarrow> external" where
  "push_zero st = st\<lparr>extension := extension st @ [0]\<rparr>"

definition id_entries :: "u64 \<Rightarrow> int list" where
  "id_entries i =
     (let higher_bits = (ucast (push_bit 32 i) :: u32); lower_bits = (ucast (i AND (2 ^ 32 - 1)) :: u32)
      in [sint higher_bits, sint lower_bits])"

definition push_id :: "u64 \<Rightarrow> external \<Rightarrow> external" where
  "push_id i st = st\<lparr>extension := extension st @ id_entries i\<rparr>"

definition externalize :: "bool \<Rightarrow> int \<Rightarrow> external \<Rightarrow> int res" where
  "externalize dbg lit st =
     bind_res (cassert dbg (lit \<noteq> INT_MIN)) (\<lambda>_.
       if lit = INT_MIN then Inl SignedOverflow
       else bind_res (cassert dbg (lit \<noteq> 0 \<and> \<bar>lit\<bar> \<le> max_var (internal st))) (\<lambda>_.
            bind_res (get_at (i2e st) (nat \<bar>lit\<bar>)) (\<lambda>r. Inr (if lit < 0 then - r else r))))"

definition push_clause_literal :: "bool \<Rightarrow> int \<Rightarrow> external \<Rightarrow> external res" where
  "push_clause_literal dbg ilit st =
     bind_res (cassert dbg (ilit \<noteq> 0)) (\<lambda>_.
     bind_res (externalize dbg ilit st) (\<lambda>elit.
     bind_res (cassert dbg (elit \<noteq> 0)) (\<lambda>_. Inr (st\<lparr>extension := extension st @ [elit]\<rparr>))))"

definition push_witness_literal :: "bool \<Rightarrow> int \<Rightarrow> external \<Rightarrow> external res" where
  "push_witness_literal dbg ilit st =
     bind_res (cassert dbg (ilit \<noteq> 0)) (\<lambda>_.
     bind_res (externalize dbg ilit st) (\<lambda>elit.
     bind_res (cassert dbg (elit \<noteq> 0)) (\<lambda>_.
     let st = st\<lparr>extension := extension st @ [elit]\<rparr>
     in bind_res (marked dbg (witness st) elit st) (\<lambda>b.
        if b then Inr st
        else bind_res (mark dbg (witness st) elit st) (\<lambda>bits. Inr (st\<lparr>witness := bits\<rparr>))))))"

text \<open>A clause of the solver is its id and its literals.\<close>

definition push_clause :: "bool \<Rightarrow> u64 \<times> int list \<Rightarrow> external \<Rightarrow> external res" where
  "push_clause dbg c st = fold_res (push_clause_literal dbg) (snd c) (push_zero (push_id (fst c) (push_zero st)))"

definition push_clause_with_pivot :: "bool \<Rightarrow> u64 \<times> int list \<Rightarrow> int \<Rightarrow> external \<Rightarrow> external res" where
  "push_clause_with_pivot dbg c pivot st =
     bind_res (push_witness_literal dbg pivot (push_zero st)) (push_clause dbg c)"

definition push_binary_clause :: "bool \<Rightarrow> u64 \<Rightarrow> int \<Rightarrow> int \<Rightarrow> external \<Rightarrow> external res" where
  "push_binary_clause dbg i pivot other st =
     bind_res (push_witness_literal dbg pivot (push_zero st)) (\<lambda>st.
     bind_res (push_clause_literal dbg pivot (push_zero (push_id i (push_zero st)))) (\<lambda>st.
       push_clause_literal dbg other st))"

definition push_external :: "ext_opts \<Rightarrow> bool \<Rightarrow> int list \<Rightarrow> int list \<Rightarrow> u64 \<Rightarrow> external \<Rightarrow> external res" where
  "push_external opts dbg c w i st =
     bind_res (cassert dbg (i \<noteq> 0)) (\<lambda>_.
     bind_res (fold_res (\<lambda>elit st.
         bind_res (cassert dbg (elit \<noteq> INT_MIN)) (\<lambda>_.
           if elit = INT_MIN then Inl SignedOverflow
           else bind_res (init opts dbg \<bar>elit\<bar> st) (\<lambda>st.
                let st = st\<lparr>extension := extension st @ [elit]\<rparr>
                in bind_res (mark dbg (witness st) elit st) (\<lambda>bits. Inr (st\<lparr>witness := bits\<rparr>)))))
       w (push_zero st)) (\<lambda>st.
     fold_res (\<lambda>elit st.
         bind_res (cassert dbg (elit \<noteq> INT_MIN)) (\<lambda>_.
           if elit = INT_MIN then Inl SignedOverflow
           else bind_res (init opts dbg \<bar>elit\<bar> st) (\<lambda>st. Inr (st\<lparr>extension := extension st @ [elit]\<rparr>))))
       c (push_zero (push_id i (push_zero st)))))"

section \<open>Extending a model\<close>

text \<open>
  A backward iterator is the list of the stack entries before it, the nearest first.  \<open>prev\<close> is
  \<^verbatim>\<open>assert (i != begin); --i\<close> with the entry then pointed to.
\<close>

definition prev :: "bool \<Rightarrow> int list \<Rightarrow> (int \<times> int list) res" where
  "prev dbg r =
     bind_res (cassert dbg (r \<noteq> [])) (\<lambda>_. case r of [] \<Rightarrow> Inl OutOfRange | x # r' \<Rightarrow> Inr (x, r'))"

fun clause_part :: "bool \<Rightarrow> external \<Rightarrow> bool \<Rightarrow> int list \<Rightarrow> (bool \<times> int list) res" where
  "clause_part dbg st satisfied [] = Inl OutOfRange"
| "clause_part dbg st satisfied (lit # r) =
     (if lit = 0 then Inr (satisfied, r)
      else if satisfied then clause_part dbg st satisfied r
      else bind_res (ival dbg lit st) (\<lambda>v.
           bind_res (cassert dbg (r \<noteq> [])) (\<lambda>_. clause_part dbg st (v > 0) r)))"

text \<open>
  From the zero before a clause to the zero after its witness.  The second assertion, meant for the id, looks at
  the zero and the lower bits; the fifth looks at the higher bits.
\<close>

definition skip_id :: "bool \<Rightarrow> int list \<Rightarrow> int list res" where
  "skip_id dbg r =
     bind_res (prev dbg r) (\<lambda>(lo, r).
     bind_res (cassert dbg (lo \<noteq> 0)) (\<lambda>_.
     bind_res (prev dbg r) (\<lambda>(hi, r).
     bind_res (cassert dbg (r \<noteq> [])) (\<lambda>_.
     bind_res (cassert dbg (hi = 0)) (\<lambda>_.
     bind_res (prev dbg r) (\<lambda>(sep, r).
     bind_res (cassert dbg (r \<noteq> [])) (\<lambda>_. Inr r)))))))"

fun skip_witness :: "bool \<Rightarrow> int list \<Rightarrow> int list res" where
  "skip_witness dbg [] = Inl OutOfRange"
| "skip_witness dbg (lit # r) =
     (if lit = 0 then Inr r else bind_res (cassert dbg (r \<noteq> [])) (\<lambda>_. skip_witness dbg r))"

definition flip :: "bool \<Rightarrow> int \<Rightarrow> external \<Rightarrow> external res" where
  "flip dbg lit st =
     bind_res (cassert dbg (lit \<noteq> 0)) (\<lambda>_.
     bind_res (cassert dbg (lit \<noteq> INT_MIN)) (\<lambda>_.
       if lit = INT_MIN then Inl SignedOverflow
       else let idx = nat \<bar>lit\<bar>;
                vs = (if idx \<ge> length (vals st) then resize (idx + 1) False (vals st) else vals st)
            in Inr (st\<lparr>vals := vs[idx := \<not> vs ! idx]\<rparr>)))"

fun flip_witness :: "bool \<Rightarrow> int list \<Rightarrow> external \<Rightarrow> (int list \<times> external) res" where
  "flip_witness dbg [] st = Inl OutOfRange"
| "flip_witness dbg (lit # r) st =
     (if lit = 0 then Inr (r, st)
      else bind_res (ival dbg lit st) (\<lambda>tmp.
           bind_res (if tmp < 0 then flip dbg lit st else Inr st) (\<lambda>st.
           bind_res (cassert dbg (r \<noteq> [])) (\<lambda>_. flip_witness dbg r st))))"

lemma bind_res_Inl_Inr: "bind_res m k = Inr y \<Longrightarrow> (\<And>x. m = Inr x \<Longrightarrow> k x = Inr y \<Longrightarrow> P) \<Longrightarrow> P"
  by (auto simp: bind_res_eq_Inr)

lemma clause_part_shorter: "clause_part dbg st b r = Inr (b', r') \<Longrightarrow> length r' < length r"
  by (induction dbg st b r rule: clause_part.induct)
    (auto simp: bind_res_eq_Inr split: if_splits)

lemma prev_Inr: "prev dbg r = Inr (x, r') \<longleftrightarrow> r = x # r'"
  by (auto simp: prev_def bind_res_eq_Inr split: list.splits)

lemma skip_id_shorter: "skip_id dbg r = Inr r' \<Longrightarrow> length r' < length r"
  by (auto simp: skip_id_def bind_res_eq_Inr prev_Inr)

lemma skip_witness_shorter: "skip_witness dbg r = Inr r' \<Longrightarrow> length r' < length r"
  by (induction dbg r rule: skip_witness.induct) (auto simp: bind_res_eq_Inr split: if_splits)

lemma flip_witness_shorter: "flip_witness dbg r st = Inr (r', st') \<Longrightarrow> length r' < length r"
  by (induction r arbitrary: st) (auto simp: bind_res_eq_Inr intro: less_SucI split: if_splits)

function extend_loop :: "bool \<Rightarrow> int list \<Rightarrow> external \<Rightarrow> external res" where
  "extend_loop dbg r st =
     (if r = [] then Inr st
      else bind_res (clause_part dbg st False r) (\<lambda>(satisfied, r1).
           bind_res (skip_id dbg r1) (\<lambda>r2.
             if satisfied then bind_res (skip_witness dbg r2) (\<lambda>r3. extend_loop dbg r3 st)
             else bind_res (flip_witness dbg r2 st) (\<lambda>(r3, st'). extend_loop dbg r3 st'))))"
  by pat_completeness auto
termination
  by (relation "measure (\<lambda>(dbg, r, st). length r)")
    (auto dest!: clause_part_shorter skip_id_shorter skip_witness_shorter flip_witness_shorter)

declare extend_loop.simps [simp del]

definition update_vals :: "(int \<Rightarrow> int) \<Rightarrow> external \<Rightarrow> external res" where
  "update_vals val st =
     fold_res (\<lambda>i st. bind_res (get_at (e2i st) (nat i)) (\<lambda>ilit.
       if ilit = 0 then Inr st
       else let vs = (if nat i \<ge> length (vals st) then resize (nat i + 1) False (vals st) else vals st)
            in Inr (st\<lparr>vals := vs[nat i := val ilit > 0]\<rparr>))) [1..ext_max_var st] st"

definition extend :: "(int \<Rightarrow> int) \<Rightarrow> bool \<Rightarrow> external \<Rightarrow> external res" where
  "extend val dbg st =
     bind_res (cassert dbg (\<not> extended st)) (\<lambda>_.
     bind_res (update_vals val st) (\<lambda>st.
     bind_res (extend_loop dbg (rev (extension st)) st) (\<lambda>st. Inr (st\<lparr>extended := True\<rparr>))))"

section \<open>Traversing the witnesses\<close>

text \<open>The client is called with clause, witness and id, and tells whether to go on; \<open>is_unsat\<close> is a flag of the solver.\<close>

type_synonym 's visitor = "int list \<Rightarrow> int list \<Rightarrow> u64 \<Rightarrow> 's \<Rightarrow> bool \<times> 's"

fun read_zero :: "int list \<Rightarrow> (int list \<times> int list) res" where
  "read_zero [] = Inl OutOfRange"
| "read_zero (lit # r) = (if lit = 0 then Inr ([], r) else bind_res (read_zero r) (\<lambda>(lits, r'). Inr (lit # lits, r')))"

text \<open>The next three entries.\<close>

fun three :: "int list \<Rightarrow> (int \<times> int \<times> int \<times> int list) res" where
  "three (a # b # c # r) = Inr (a, b, c, r)"
| "three r = Inl OutOfRange"

text \<open>The id is put together from two \<^verbatim>\<open>int\<close> values converted to \<^verbatim>\<open>uint64_t\<close>.\<close>

definition read_id :: "int \<Rightarrow> int \<Rightarrow> u64" where
  "read_id hi lo = push_bit 32 (word_of_int hi) + word_of_int lo"

definition read_entry_backward :: "bool \<Rightarrow> int list \<Rightarrow> (int list \<times> int list \<times> u64 \<times> int list) res" where
  "read_entry_backward dbg r =
     bind_res (read_zero r) (\<lambda>(clause, r).
     bind_res (three r) (\<lambda>(lo, hi, sep, r).
     let i = read_id hi lo
     in bind_res (cassert dbg (i \<noteq> 0)) (\<lambda>_.
        bind_res (cassert dbg (sep = 0)) (\<lambda>_.
        bind_res (cassert dbg (r \<noteq> [])) (\<lambda>_.
        bind_res (read_zero r) (\<lambda>(witness, r). Inr (rev clause, rev witness, i, r)))))))"

lemma three_Inr: "three xs = Inr (a, b, c, r) \<longleftrightarrow> xs = a # b # c # r"
  by (cases xs rule: three.cases) auto

lemma read_zero_shorter: "read_zero r = Inr (lits, r') \<Longrightarrow> length r' < length r"
  by (induction r arbitrary: lits) (auto simp: bind_res_eq_Inr split: if_splits)

lemma read_entry_backward_shorter: "read_entry_backward dbg r = Inr (c, w, i, r') \<Longrightarrow> length r' < length r"
  by (auto simp: read_entry_backward_def bind_res_eq_Inr Let_def three_Inr dest!: read_zero_shorter)

function backward_loop :: "'s visitor \<Rightarrow> bool \<Rightarrow> int list \<Rightarrow> 's \<Rightarrow> (bool \<times> 's) res" where
  "backward_loop it dbg r s =
     (if r = [] then Inr (True, s)
      else bind_res (read_entry_backward dbg r) (\<lambda>(clause, witness, i, r').
           case it clause witness i s of (go, s') \<Rightarrow>
             if \<not> go then Inr (False, s') else backward_loop it dbg r' s'))"
  by pat_completeness auto
termination
  by (relation "measure (\<lambda>(it, dbg, r, s). length r)") (auto dest!: read_entry_backward_shorter)

declare backward_loop.simps [simp del]

definition traverse_witnesses_backward :: "'s visitor \<Rightarrow> bool \<Rightarrow> bool \<Rightarrow> external \<Rightarrow> 's \<Rightarrow> (bool \<times> 's) res" where
  "traverse_witnesses_backward it is_unsat dbg st s =
     (if is_unsat then Inr (True, s) else backward_loop it dbg (rev (extension st)) s)"

text \<open>Forward; \<open>i\<close> is the rest of the stack from the iterator, \<open>lit\<close> the last entry read.\<close>

fun read_clause :: "int \<Rightarrow> int list \<Rightarrow> int \<times> int list \<times> int list" where
  "read_clause lit [] = (lit, [], [])"
| "read_clause lit (x # i) =
     (if x = 0 then (0, [], i) else case read_clause x i of (l, lits, i') \<Rightarrow> (l, x # lits, i'))"

definition read_entry_forward :: "bool \<Rightarrow> int \<Rightarrow> int list \<Rightarrow> (int \<times> int list \<times> int list \<times> u64 \<times> int list) res" where
  "read_entry_forward dbg lit i =
     bind_res (cassert dbg (lit = 0)) (\<lambda>_.
     bind_res (read_zero i) (\<lambda>(witness, i).
     bind_res (cassert dbg (i \<noteq> [])) (\<lambda>_.
     bind_res (cassert dbg (hd i = 0)) (\<lambda>_.
     bind_res (three i) (\<lambda>(hi, lo, sep, i).
     let cid = read_id hi lo
     in bind_res (cassert dbg (cid > 0)) (\<lambda>_.
        bind_res (cassert dbg (i \<noteq> [] \<and> hd i \<noteq> 0)) (\<lambda>_.
        case read_clause 0 i of (l, clause, i) \<Rightarrow> Inr (l, clause, witness, cid, i))))))))"

lemma forward_clause_shorter: "length (snd (snd (read_clause lit i))) \<le> length i"
  by (induction lit i rule: read_clause.induct) (auto simp: case_prod_beta intro: le_SucI)

lemma read_entry_forward_shorter: "read_entry_forward dbg lit i = Inr (l, c, w, cid, i') \<Longrightarrow> length i' < length i"
  by (auto simp: read_entry_forward_def bind_res_eq_Inr Let_def three_Inr case_prod_beta
      dest!: read_zero_shorter intro!: le_less_trans [OF forward_clause_shorter])

function forward_loop :: "'s visitor \<Rightarrow> bool \<Rightarrow> int \<Rightarrow> int list \<Rightarrow> 's \<Rightarrow> (bool \<times> 's) res" where
  "forward_loop it dbg lit i s =
     bind_res (read_entry_forward dbg lit i) (\<lambda>(lit', clause, witness, cid, i').
       case it clause witness cid s of (go, s') \<Rightarrow>
         if \<not> go then Inr (False, s')
         else if i' = [] then Inr (True, s')
         else forward_loop it dbg lit' i' s')"
  by pat_completeness auto
termination
  by (relation "measure (\<lambda>(it, dbg, lit, i, s). length i)") (auto dest!: read_entry_forward_shorter)

declare forward_loop.simps [simp del]

definition traverse_witnesses_forward :: "'s visitor \<Rightarrow> bool \<Rightarrow> bool \<Rightarrow> external \<Rightarrow> 's \<Rightarrow> (bool \<times> 's) res" where
  "traverse_witnesses_forward it is_unsat dbg st s =
     (if is_unsat then Inr (True, s)
      else case extension st of [] \<Rightarrow> Inr (True, s) | lit # i \<Rightarrow> forward_loop it dbg lit i s)"

section \<open>Restoring clauses\<close>

text \<open>The value of an external literal at the root level; \<open>ifixed\<close> is the one of an internal literal.\<close>

definition fixed_ext :: "(external \<Rightarrow> int \<Rightarrow> int) \<Rightarrow> bool \<Rightarrow> int \<Rightarrow> external \<Rightarrow> int res" where
  "fixed_ext ifixed dbg elit st =
     bind_res (cassert dbg (elit \<noteq> 0)) (\<lambda>_.
     bind_res (cassert dbg (elit \<noteq> INT_MIN)) (\<lambda>_.
       if elit = INT_MIN then Inl SignedOverflow
       else if \<bar>elit\<bar> > ext_max_var st then Inr 0
       else bind_res (get_at (e2i st) (nat \<bar>elit\<bar>)) (\<lambda>ilit.
            if ilit = 0 then Inr 0 else Inr (ifixed st (if elit < 0 then - ilit else ilit)))))"

definition restore_clause :: "ext_opts \<Rightarrow> bool \<Rightarrow> int list \<Rightarrow> u64 \<Rightarrow> external \<Rightarrow> external res" where
  "restore_clause opts dbg c i st =
     bind_res (cassert dbg (eclause st = [])) (\<lambda>_.
     bind_res (cassert dbg (i \<noteq> 0)) (\<lambda>_.
     bind_res (fold_res (\<lambda>elit st.
         bind_res (internalize opts dbg elit (st\<lparr>eclause := eclause st @ [elit]\<rparr>)) (\<lambda>(ilit, st).
           add_original_lit dbg ilit st)) c st) (\<lambda>st.
     bind_res (finish_added_clause_with_id opts dbg i st) (\<lambda>st. Inr (st\<lparr>eclause := []\<rparr>)))))"

text \<open>
  The compaction reads at \<open>p\<close> and writes at \<open>q \<le> p\<close>, so it never overwrites what is still to be read:
  \<open>p\<close> is the list of entries from the read position on, \<open>q\<close> the list of those written.  First the witness is
  copied and searched for a literal whose negation is tainted (the last one is kept).
\<close>

fun copy_witness :: "bool \<Rightarrow> external \<Rightarrow> int \<Rightarrow> int list \<Rightarrow> (int list \<times> int \<times> int list) res" where
  "copy_witness dbg st tlit [] = Inl OutOfRange"
| "copy_witness dbg st tlit (elit # p) =
     (if elit = 0 then Inr ([0], tlit, p)
      else if elit = INT_MIN then Inl SignedOverflow
      else bind_res (marked dbg (tainted st) (- elit) st) (\<lambda>t.
           bind_res (cassert dbg (p \<noteq> [])) (\<lambda>_.
           bind_res (copy_witness dbg st (if t then elit else tlit) p) (\<lambda>(q, tlit, p).
             Inr (elit # q, tlit, p)))))"

fun find_satisfied :: "(external \<Rightarrow> int \<Rightarrow> int) \<Rightarrow> bool \<Rightarrow> external \<Rightarrow> int list \<Rightarrow> int \<Rightarrow> int res" where
  "find_satisfied ifixed dbg st [] satisfied = Inr satisfied"
| "find_satisfied ifixed dbg st (elit # c) satisfied =
     (if satisfied \<noteq> 0 then find_satisfied ifixed dbg st c satisfied
      else bind_res (fixed_ext ifixed dbg elit st) (\<lambda>v.
           find_satisfied ifixed dbg st c (if v > 0 then elit else 0)))"

definition restore_entry :: "(external \<Rightarrow> int \<Rightarrow> int) \<Rightarrow> ext_opts \<Rightarrow> bool \<Rightarrow> int list \<Rightarrow> int list \<Rightarrow> external \<Rightarrow>
    (int list \<times> int list \<times> external) res" where
  "restore_entry ifixed opts dbg p q st =
     (case p of
        [] \<Rightarrow> Inl OutOfRange
      | z # p \<Rightarrow>
          bind_res (cassert dbg (z = 0)) (\<lambda>_.
          bind_res (cassert dbg (p \<noteq> [])) (\<lambda>_.
          bind_res (copy_witness dbg st 0 p) (\<lambda>(w, tlit, p).
          bind_res (three p) (\<lambda>(hi, lo, sep, p).
          let i = read_id hi lo
          in bind_res (cassert dbg (i \<noteq> 0)) (\<lambda>_.
             bind_res (cassert dbg (sep = 0)) (\<lambda>_.
             let clause = takeWhile (\<lambda>elit. elit \<noteq> 0) p; p = dropWhile (\<lambda>elit. elit \<noteq> 0) p
             in bind_res (find_satisfied ifixed dbg st clause 0) (\<lambda>satisfied.
                let satisfied = (if satisfied \<noteq> 0 \<and> \<not> restoreflush opts then 0 else satisfied)
                in if satisfied \<noteq> 0 \<or> tlit \<noteq> 0 \<or> restoreall opts \<noteq> 0
                   then bind_res (if satisfied \<noteq> 0 then Inr st else restore_clause opts dbg clause i st) (\<lambda>st.
                        Inr (p, q, st))
                   else Inr (p, q @ [z] @ w @ [hi, lo, sep] @ clause, st)))))))))"

lemma copy_witness_shorter: "copy_witness dbg st tlit p = Inr (w, t, p') \<Longrightarrow> length p' < length p"
  by (induction p arbitrary: tlit w) (auto simp: bind_res_eq_Inr intro: less_SucI split: if_splits)

lemma restore_entry_shorter: "restore_entry ifixed opts dbg p q st = Inr (p', q', st') \<Longrightarrow> length p' < length p"
  by (auto simp: restore_entry_def bind_res_eq_Inr Let_def three_Inr split: list.splits if_splits
      dest!: copy_witness_shorter intro!: le_less_trans [OF length_dropWhile_le])

function restore_loop :: "(external \<Rightarrow> int \<Rightarrow> int) \<Rightarrow> ext_opts \<Rightarrow> bool \<Rightarrow> int list \<Rightarrow> int list \<Rightarrow> external \<Rightarrow>
    (int list \<times> external) res" where
  "restore_loop ifixed opts dbg p q st =
     (if p = [] then Inr (q, st)
      else bind_res (restore_entry ifixed opts dbg p q st) (\<lambda>(p', q', st'). restore_loop ifixed opts dbg p' q' st'))"
  by pat_completeness auto
termination
  by (relation "measure (\<lambda>(ifixed, opts, dbg, p, q, st). length p)") (auto dest!: restore_entry_shorter)

declare restore_loop.simps [simp del]

text \<open>The witness marks are computed anew from what is left, from the last clause to the first.\<close>

fun skip_clause :: "bool \<Rightarrow> int list \<Rightarrow> int list res" where
  "skip_clause dbg [] = Inl OutOfRange"
| "skip_clause dbg (lit # r) =
     (if lit = 0 then Inr r else bind_res (cassert dbg (r \<noteq> [])) (\<lambda>_. skip_clause dbg r))"

fun mark_witness :: "bool \<Rightarrow> int list \<Rightarrow> external \<Rightarrow> (int list \<times> external) res" where
  "mark_witness dbg [] st = Inl OutOfRange"
| "mark_witness dbg (elit # r) st =
     (if elit = 0 then Inr (r, st)
      else bind_res (mark dbg (witness st) elit st) (\<lambda>bits.
           bind_res (cassert dbg (r \<noteq> [])) (\<lambda>_. mark_witness dbg r (st\<lparr>witness := bits\<rparr>))))"

definition skip_id_restore :: "bool \<Rightarrow> int list \<Rightarrow> int list res" where
  "skip_id_restore dbg r =
     bind_res (prev dbg r) (\<lambda>(lo, r).
     bind_res (cassert dbg (r \<noteq> [])) (\<lambda>_.
     bind_res (cassert dbg (lo \<noteq> 0 \<or> hd r \<noteq> 0)) (\<lambda>_.
     bind_res (prev dbg r) (\<lambda>(hi, r).
     bind_res (cassert dbg (r \<noteq> [])) (\<lambda>_.
     bind_res (cassert dbg (hi = 0)) (\<lambda>_.
     bind_res (prev dbg r) (\<lambda>(sep, r).
     bind_res (cassert dbg (r \<noteq> [])) (\<lambda>_. Inr r))))))))"

lemma skip_clause_shorter: "skip_clause dbg r = Inr r' \<Longrightarrow> length r' < length r"
  by (induction dbg r rule: skip_clause.induct) (auto simp: bind_res_eq_Inr split: if_splits)

lemma mark_witness_shorter: "mark_witness dbg r st = Inr (r', st') \<Longrightarrow> length r' < length r"
  by (induction r arbitrary: st) (auto simp: bind_res_eq_Inr intro: less_SucI split: if_splits)

lemma skip_id_restore_shorter: "skip_id_restore dbg r = Inr r' \<Longrightarrow> length r' < length r"
  by (auto simp: skip_id_restore_def bind_res_eq_Inr prev_Inr)

function recompute_witness :: "bool \<Rightarrow> int list \<Rightarrow> external \<Rightarrow> external res" where
  "recompute_witness dbg r st =
     (if r = [] then Inr st
      else bind_res (skip_clause dbg r) (\<lambda>r1.
           bind_res (skip_id_restore dbg r1) (\<lambda>r2.
           bind_res (mark_witness dbg r2 st) (\<lambda>(r3, st'). recompute_witness dbg r3 st'))))"
  by pat_completeness auto
termination
  by (relation "measure (\<lambda>(dbg, r, st). length r)")
    (auto dest!: skip_clause_shorter skip_id_restore_shorter mark_witness_shorter)

declare recompute_witness.simps [simp del]

definition restore_clauses :: "(external \<Rightarrow> int \<Rightarrow> int) \<Rightarrow> ext_opts \<Rightarrow> bool \<Rightarrow> external \<Rightarrow> external res" where
  "restore_clauses ifixed opts dbg st =
     bind_res (cassert dbg (restoreall opts = 2 \<or> tainted st \<noteq> [])) (\<lambda>_.
     bind_res (restore_loop ifixed opts dbg (extension st) [] st) (\<lambda>(q, st).
       recompute_witness dbg (rev q) (st\<lparr>extension := q, tainted := [], witness := []\<rparr>)))"

section \<open>The stack as a list of entries\<close>

definition low_int :: "u64 \<Rightarrow> int" where
  "low_int i = sint (ucast i :: u32)"

lemma id_entries_eq: "id_entries i = [0, low_int i]"
proof -
  have "(ucast (push_bit 32 i) :: u32) = 0"
    by (rule bit_word_eqI) (simp add: bit_ucast_iff bit_push_bit_iff)
  moreover have "(ucast (i AND mask 32) :: u32) = ucast i"
    by (rule bit_word_eqI) (simp add: bit_ucast_iff bit_and_iff bit_mask_iff)
  then have "(ucast (i AND (2 ^ 32 - 1)) :: u32) = ucast i"
    by (simp only: mask_eq_exp_minus_1)
  ultimately show ?thesis by (simp add: id_entries_def low_int_def)
qed

definition entry_list :: "entry \<Rightarrow> int list" where
  "entry_list e = 0 # entry_witness e @ 0 # id_entries (entry_id e) @ 0 # entry_clause e"

definition flatten :: "entry list \<Rightarrow> int list" where
  "flatten es = concat (map entry_list es)"

lemma flatten_simps [simp]:
  "flatten [] = []" "flatten (e # es) = entry_list e @ flatten es" "flatten (es @ es') = flatten es @ flatten es'"
  by (simp_all add: flatten_def)

lemma rev_entry_list:
  "rev (entry_list e) = rev (entry_clause e) @ 0 # low_int (entry_id e) # 0 # 0 # rev (entry_witness e) @ [0]"
  by (simp add: entry_list_def id_entries_eq)

text \<open>Literals of existing variables, and ids whose lower bits, as an \<^verbatim>\<open>int\<close>, are not 0.\<close>

definition ext_lit :: "external \<Rightarrow> int \<Rightarrow> bool" where
  "ext_lit st l \<longleftrightarrow> l \<noteq> 0 \<and> \<bar>l\<bar> \<le> ext_max_var st \<and> ext_max_var st \<le> INT_MAX"

definition entry_ok :: "external \<Rightarrow> entry \<Rightarrow> bool" where
  "entry_ok st e \<longleftrightarrow> (\<forall>l \<in> set (entry_witness e) \<union> set (entry_clause e). ext_lit st l) \<and> low_int (entry_id e) \<noteq> 0"

lemma ext_lit_nonzero: "\<forall>l \<in> set ls. ext_lit st l \<Longrightarrow> 0 \<notin> set ls"
  by (auto simp: ext_lit_def)

section \<open>Extension is reconstruction\<close>

text \<open>The assignment that the values stand for.\<close>

definition asg :: "external \<Rightarrow> nat \<Rightarrow> bool" where
  "asg st v \<longleftrightarrow> int v \<le> ext_max_var st \<and> v < length (vals st) \<and> vals st ! v"

lemma ival_asg:
  assumes "ext_lit st l"
  shows "\<exists>v. ival dbg l st = Inr v \<and> (v > 0 \<longleftrightarrow> sat_lit (asg st) l) \<and> (v < 0 \<longleftrightarrow> \<not> sat_lit (asg st) l)"
  using assms
  by (auto simp: ext_lit_def ival_def cassert_def INT_MIN_def INT_MAX_def sat_lit_def asg_def Let_def)

lemma flip_asg:
  assumes "ext_lit st l"
  shows "\<exists>vs. flip dbg l st = Inr (st\<lparr>vals := vs\<rparr>) \<and>
    asg (st\<lparr>vals := vs\<rparr>) = (asg st)(nat \<bar>l\<bar> := \<not> asg st (nat \<bar>l\<bar>))"
proof -
  define vs where "vs = (if nat \<bar>l\<bar> \<ge> length (vals st) then resize (nat \<bar>l\<bar> + 1) False (vals st) else vals st)"
  have l: "nat \<bar>l\<bar> < length vs" by (simp add: vs_def)
  have old: "vs ! v = (v < length (vals st) \<and> vals st ! v)" if "v < length vs" for v
    using that by (auto simp: vs_def resize_def nth_append)
  have "length (vals st) \<le> length vs" by (simp add: vs_def)
  moreover have "int (nat \<bar>l\<bar>) \<le> ext_max_var st" using assms by (simp add: ext_lit_def)
  ultimately have "asg (st\<lparr>vals := vs[nat \<bar>l\<bar> := \<not> vs ! nat \<bar>l\<bar>]\<rparr>) = (asg st)(nat \<bar>l\<bar> := \<not> asg st (nat \<bar>l\<bar>))"
    using l old by (auto simp: fun_eq_iff asg_def nth_list_update)
  moreover have "flip dbg l st = Inr (st\<lparr>vals := vs[nat \<bar>l\<bar> := \<not> vs ! nat \<bar>l\<bar>]\<rparr>)"
    using assms unfolding flip_def Let_def vs_def by (auto simp: ext_lit_def cassert_def INT_MIN_def INT_MAX_def)
  ultimately show ?thesis by blast
qed

lemma clause_part_entry:
  assumes "\<forall>l \<in> set ls. ext_lit st l"
  shows "clause_part dbg st b (ls @ 0 # r) = Inr (b \<or> (\<exists>l \<in> set ls. sat_lit (asg st) l), r)"
  using assms
proof (induction ls arbitrary: b)
  case (Cons l ls)
  have l: "ext_lit st l" "l \<noteq> 0" using Cons.prems by (auto simp: ext_lit_def)
  show ?case using Cons ival_asg [OF l(1), of dbg] l(2) by (auto simp: cassert_def)
qed simp

lemma skip_id_entry: "lo \<noteq> 0 \<Longrightarrow> r \<noteq> [] \<Longrightarrow> skip_id dbg (lo # 0 # 0 # r) = Inr r"
  by (simp add: skip_id_def prev_def cassert_def)

lemma skip_witness_entry: "0 \<notin> set ls \<Longrightarrow> skip_witness dbg (ls @ 0 # r) = Inr r"
  by (induction ls) (auto simp: cassert_def)

lemma make_true_idle: "l \<noteq> 0 \<Longrightarrow> sat_lit M l \<Longrightarrow> make_true l M = M"
  by (cases "l > 0") (auto simp: make_true_def sat_lit_def fun_eq_iff)

lemma make_true_flip: "l \<noteq> 0 \<Longrightarrow> \<not> sat_lit M l \<Longrightarrow> make_true l M = M(nat \<bar>l\<bar> := \<not> M (nat \<bar>l\<bar>))"
  by (cases "l > 0") (auto simp: make_true_def sat_lit_def fun_eq_iff)

text \<open>Only the values change.\<close>

definition same_but_vals :: "external \<Rightarrow> external \<Rightarrow> bool" where
  "same_but_vals st st' \<longleftrightarrow> (\<exists>vs. st' = st\<lparr>vals := vs\<rparr>)"

lemma same_but_vals_refl [simp, intro]: "same_but_vals st st"
  by (auto simp: same_but_vals_def intro!: exI [of _ "vals st"])

lemma same_but_vals_trans [trans]: "same_but_vals s t \<Longrightarrow> same_but_vals t u \<Longrightarrow> same_but_vals s u"
  by (auto simp: same_but_vals_def)

lemma same_but_vals_lit: "same_but_vals st st' \<Longrightarrow> ext_lit st' l \<longleftrightarrow> ext_lit st l"
  by (auto simp: same_but_vals_def ext_lit_def)

lemma flip_witness_entry:
  assumes "\<forall>l \<in> set ls. ext_lit st l"
  shows "\<exists>st'. flip_witness dbg (ls @ 0 # r) st = Inr (r, st') \<and> same_but_vals st st' \<and>
    asg st' = fold make_true ls (asg st)"
  using assms
proof (induction ls arbitrary: st)
  case (Cons l ls)
  have l: "ext_lit st l" "l \<noteq> 0" using Cons.prems by (auto simp: ext_lit_def)
  obtain v where v: "ival dbg l st = Inr v" "v < 0 \<longleftrightarrow> \<not> sat_lit (asg st) l" using ival_asg [OF l(1)] by blast
  obtain st1 where st1: "(if v < 0 then flip dbg l st else Inr st) = Inr st1" "same_but_vals st st1"
    "asg st1 = make_true l (asg st)"
  proof (cases "v < 0")
    case True
    then show ?thesis using flip_asg [OF l(1), of dbg] v(2) l(2) that
      by (auto simp: make_true_flip same_but_vals_def)
  next
    case False
    then show ?thesis using v(2) l(2) that [of st] by (simp add: make_true_idle)
  qed
  have "\<forall>l \<in> set ls. ext_lit st1 l" using Cons.prems same_but_vals_lit [OF st1(2)] by simp
  from Cons.IH [OF this] st1 show ?case
    using l(2) v(1) by (auto simp: cassert_def intro: same_but_vals_trans)
qed auto

lemma extend_loop_entries:
  assumes "\<forall>e \<in> set es. entry_ok st e"
  shows "\<exists>st'. extend_loop dbg (rev (flatten es)) st = Inr st' \<and> same_but_vals st st' \<and>
    asg st' = reconstruct es (asg st)"
  using assms
proof (induction es arbitrary: st rule: rev_induct)
  case Nil
  then show ?case by (auto simp: extend_loop.simps reconstruct_def)
next
  case (snoc e es)
  let ?r = "rev (flatten es)" and ?lo = "low_int (entry_id e)"
  have ok: "\<forall>l \<in> set (rev (entry_clause e)). ext_lit st l" "\<forall>l \<in> set (rev (entry_witness e)). ext_lit st l" "?lo \<noteq> 0"
    using snoc.prems by (auto simp: entry_ok_def)
  have rest: "\<exists>st'. extend_loop dbg ?r st1 = Inr st' \<and> same_but_vals st st' \<and> asg st' = reconstruct es (asg st1)"
    if "same_but_vals st st1" for st1
  proof -
    have "\<forall>e \<in> set es. entry_ok st1 e" using snoc.prems same_but_vals_lit [OF that] by (simp add: entry_ok_def)
    from snoc.IH [OF this] show ?thesis using that by (auto intro: same_but_vals_trans)
  qed
  define R where "R = rev (flatten (es @ [e]))"
  have r: "R = rev (entry_clause e) @ 0 # ?lo # 0 # 0 # rev (entry_witness e) @ 0 # ?r"
    by (simp add: R_def rev_entry_list)
  have c: "clause_part dbg st False R =
      Inr (sat_clause (asg st) (entry_clause e), ?lo # 0 # 0 # rev (entry_witness e) @ 0 # ?r)"
    unfolding r by (simp add: clause_part_entry [OF ok(1)] sat_clause_def)
  have s: "skip_id dbg (?lo # 0 # 0 # rev (entry_witness e) @ 0 # ?r) = Inr (rev (entry_witness e) @ 0 # ?r)"
    using ok(3) by (simp add: skip_id_entry)
  have ne: "R \<noteq> []" unfolding r by simp
  show ?case unfolding R_def [symmetric]
  proof (cases "sat_clause (asg st) (entry_clause e)")
    case True
    then have "extend_loop dbg R st = extend_loop dbg ?r st"
      using ne skip_witness_entry [OF ext_lit_nonzero [OF ok(2)], of dbg ?r]
      by (subst extend_loop.simps) (simp add: c s)
    then show "\<exists>st'. extend_loop dbg R st = Inr st' \<and> same_but_vals st st' \<and> asg st' = reconstruct (es @ [e]) (asg st)"
      using rest [of st] True by (auto simp: reconstruct_def repair_def)
  next
    case False
    obtain st1 where st1: "flip_witness dbg (rev (entry_witness e) @ 0 # ?r) st = Inr (?r, st1)" "same_but_vals st st1"
      "asg st1 = foldr make_true (entry_witness e) (asg st)"
      using flip_witness_entry [OF ok(2), of dbg ?r] by (auto simp: foldr_conv_fold)
    have "extend_loop dbg R st = extend_loop dbg ?r st1"
      using ne False by (subst extend_loop.simps) (simp add: c s st1(1))
    then show "\<exists>st'. extend_loop dbg R st = Inr st' \<and> same_but_vals st st' \<and> asg st' = reconstruct (es @ [e]) (asg st)"
      using rest [OF st1(2)] st1(3) False by (auto simp: reconstruct_def repair_def)
  qed
qed

section \<open>The extension of an internal model\<close>

definition int_lit :: "external \<Rightarrow> int \<Rightarrow> int" where
  "int_lit st l = (if l < 0 then - (e2i st ! nat \<bar>l\<bar>) else e2i st ! nat \<bar>l\<bar>)"

lemma update_vals_ok:
  assumes len: "nat (ext_max_var st) < length (e2i st)"
  shows "\<exists>st'. update_vals val st = Inr st' \<and> same_but_vals st st' \<and>
    (\<forall>v \<in> set [1..ext_max_var st]. e2i st ! nat v \<noteq> 0 \<longrightarrow> asg st' (nat v) = (val (e2i st ! nat v) > 0))"
  unfolding update_vals_def
proof (rule fold_res_invariant [where I = "\<lambda>pre s. same_but_vals st s \<and>
    (\<forall>v \<in> set pre. e2i st ! nat v \<noteq> 0 \<longrightarrow> asg s (nat v) = (val (e2i st ! nat v) > 0))"])
  fix pre i post s
  assume sp: "[1..ext_max_var st] = pre @ i # post"
    and I: "same_but_vals st s \<and> (\<forall>v \<in> set pre. e2i st ! nat v \<noteq> 0 \<longrightarrow> asg s (nat v) = (val (e2i st ! nat v) > 0))"
  have i: "1 \<le> i" "i \<le> ext_max_var st" using arg_cong [OF sp, of set] by auto
  have e: "e2i s = e2i st" "ext_max_var s = ext_max_var st" using I by (auto simp: same_but_vals_def)
  have "{1..ext_max_var st} = set (pre @ i # post)" using arg_cong [OF sp, of set] by simp
  then have "\<forall>v \<in> set pre. 1 \<le> v" by auto
  moreover have "distinct (pre @ i # post)" unfolding sp [symmetric] by simp
  ultimately have pre: "\<forall>v \<in> set pre. 1 \<le> v \<and> v \<noteq> i" by auto
  let ?body = "\<lambda>i s. bind_res (get_at (e2i s) (nat i)) (\<lambda>ilit.
       if ilit = 0 then Inr s
       else let vs = (if nat i \<ge> length (vals s) then resize (nat i + 1) False (vals s) else vals s)
            in Inr (s\<lparr>vals := vs[nat i := val ilit > 0]\<rparr>))"
  show "\<exists>s'. ?body i s = Inr s' \<and> same_but_vals st s' \<and>
    (\<forall>v \<in> set (pre @ [i]). e2i st ! nat v \<noteq> 0 \<longrightarrow> asg s' (nat v) = (val (e2i st ! nat v) > 0))"
  proof (cases "e2i st ! nat i = 0")
    case True
    then show ?thesis using I i e len by auto
  next
    case False
    define vs where "vs = (if nat i \<ge> length (vals s) then resize (nat i + 1) False (vals s) else vals s)"
    have l: "nat i < length vs" "length (vals s) \<le> length vs" by (simp_all add: vs_def)
    have old: "vs ! v = (v < length (vals s) \<and> vals s ! v)" if "v < length vs" for v
      using that by (auto simp: vs_def resize_def nth_append)
    let ?s = "s\<lparr>vals := vs[nat i := val (e2i st ! nat i) > 0]\<rparr>"
    have a: "asg ?s = (asg s)(nat i := val (e2i st ! nat i) > 0)"
      using l old i e by (auto simp: fun_eq_iff asg_def nth_list_update)
    have "?body i s = Inr ?s" using False i e len by (simp add: vs_def Let_def)
    moreover have "same_but_vals st ?s" using I by (auto simp: same_but_vals_def)
    moreover have "asg ?s (nat v) = (val (e2i st ! nat v) > 0)" if "v \<in> set (pre @ [i])" "e2i st ! nat v \<noteq> 0" for v
      using that I pre i by (auto simp: a)
    ultimately show ?thesis by blast
  qed
qed auto

text \<open>An internal assignment in which negation is as for literals satisfies a clause if a literal has a positive value.\<close>

definition val_sat :: "(int \<Rightarrow> int) \<Rightarrow> external \<Rightarrow> int list \<Rightarrow> bool" where
  "val_sat val st c \<longleftrightarrow> (\<exists>l \<in> set c. int_lit st l \<noteq> 0 \<and> val (int_lit st l) > 0)"

lemma extend_ok:
  assumes len: "nat (ext_max_var st) < length (e2i st)" and ext: "\<not> extended st"
    and stack: "extension st = flatten es" "\<forall>e \<in> set es. entry_ok st e"
    and neg: "\<And>i. val (- i) = - val i"
    and red: "redundant_stack F es"
    and sat: "\<forall>c \<in> F. (\<forall>l \<in> set c. ext_lit st l) \<and> val_sat val st c"
  shows "\<exists>st'. extend val dbg st = Inr st' \<and> extended st' \<and> (\<exists>vs. st' = st\<lparr>vals := vs, extended := True\<rparr>) \<and>
    models (asg st') (F \<union> clauses_of es)"
proof -
  obtain st1 where st1: "update_vals val st = Inr st1" "same_but_vals st st1"
    "\<forall>v \<in> set [1..ext_max_var st]. e2i st ! nat v \<noteq> 0 \<longrightarrow> asg st1 (nat v) = (val (e2i st ! nat v) > 0)"
    using update_vals_ok [OF len] by blast
  have "\<forall>e \<in> set es. entry_ok st1 e" using stack(2) same_but_vals_lit [OF st1(2)] by (simp add: entry_ok_def)
  then obtain st2 where st2: "extend_loop dbg (rev (flatten es)) st1 = Inr st2" "same_but_vals st1 st2"
    "asg st2 = reconstruct es (asg st1)"
    using extend_loop_entries by blast
  have "models (asg st1) F"
    unfolding models_def
  proof
    fix c assume c: "c \<in> F"
    then obtain l where l: "l \<in> set c" "int_lit st l \<noteq> 0" "val (int_lit st l) > 0" using sat by (auto simp: val_sat_def)
    have "ext_lit st l" using sat c l(1) by blast
    then have "sat_lit (asg st1) l"
      using st1(3) [rule_format, of "\<bar>l\<bar>"] l(2,3) neg by (auto simp: ext_lit_def int_lit_def sat_lit_def split: if_splits)
    then show "sat_clause (asg st1) c" using l(1) by (auto simp: sat_clause_def)
  qed
  then have "models (asg st2) (F \<union> clauses_of es)" unfolding st2(3) by (rule reconstruct_sound [OF red])
  moreover have "asg (st2\<lparr>extended := True\<rparr>) = asg st2" by (simp add: asg_def fun_eq_iff)
  moreover have "extension st1 = flatten es" using st1(2) stack(1) by (auto simp: same_but_vals_def)
  ultimately show ?thesis
    using ext st1(1) st2(1) same_but_vals_trans [OF st1(2) st2(2)]
    by (auto simp: extend_def cassert_def same_but_vals_def)
qed

section \<open>Traversals visit the entries\<close>

fun visit_all :: "'s visitor \<Rightarrow> entry list \<Rightarrow> 's \<Rightarrow> bool \<times> 's" where
  "visit_all it [] s = (True, s)"
| "visit_all it (e # es) s =
     (case it (entry_clause e) (entry_witness e) (entry_id e) s of
        (go, s') \<Rightarrow> if go then visit_all it es s' else (False, s'))"

lemma sint_ucast_small: "i < 2 ^ 31 \<Longrightarrow> sint (ucast (i :: u64) :: u32) = uint i"
proof -
  assume "i < 2 ^ 31"
  then have i: "uint i < 2 ^ 31" by (simp add: word_less_def)
  have "uint (ucast i :: u32) = uint i mod 2 ^ 32" by (simp add: unsigned_ucast_eq take_bit_eq_mod)
  then have u: "uint (ucast i :: u32) = uint i" using i by simp
  have "0 \<le> uint i" by simp
  then have "signed_take_bit 31 (uint i) = uint i" using i by (intro signed_take_bit_int_eq_self) linarith+
  then show ?thesis by (simp add: sint_uint u)
qed

lemma read_id_small: "i < 2 ^ 31 \<Longrightarrow> read_id 0 (low_int i) = i"
  by (simp add: read_id_def low_int_def sint_ucast_small)

lemma read_id_large:
  assumes "2 ^ 31 \<le> i" "i < 2 ^ 32"
  shows "read_id 0 (low_int i) = i + 0xFFFFFFFF00000000"
proof -
  have i: "2 ^ 31 \<le> uint i" "uint i < 2 ^ 32" using assms by (simp_all add: word_less_def word_le_def)
  have "uint (ucast i :: u32) = uint i mod 2 ^ 32" by (simp add: unsigned_ucast_eq take_bit_eq_mod)
  then have u: "uint (ucast i :: u32) = uint i" using i by simp
  have "signed_take_bit 31 (uint i) = uint i - 2 ^ 32"
    using i signed_take_bit_int_eq_self [of 31 "uint i - 2 ^ 32"] signed_take_bit_diff [of 31 "uint i" "2 ^ 32 :: int"]
    by simp
  then have "low_int i = uint i - 2 ^ 32" by (simp add: low_int_def sint_uint u)
  then show ?thesis by (simp add: read_id_def)
qed

lemma read_zero_entry: "0 \<notin> set ls \<Longrightarrow> read_zero (ls @ 0 # r) = Inr (ls, r)"
  by (induction ls) auto

lemma backward_entry:
  assumes "entry_ok st e" "entry_id e < 2 ^ 31"
  shows "read_entry_backward dbg (rev (entry_list e) @ r) = Inr (entry_clause e, entry_witness e, entry_id e, r)"
proof -
  have z: "0 \<notin> set (rev (entry_clause e))" "0 \<notin> set (rev (entry_witness e))" "low_int (entry_id e) \<noteq> 0"
    using assms(1) by (auto simp: entry_ok_def ext_lit_def)
  have "entry_id e \<noteq> 0" using z(3) by (auto simp: low_int_def)
  then show ?thesis
    using read_id_small [OF assms(2)]
    by (simp add: rev_entry_list read_entry_backward_def read_zero_entry [OF z(1)] read_zero_entry [OF z(2)] cassert_def Let_def)
qed

lemma backward_loop_entries:
  assumes "\<forall>e \<in> set es. entry_ok st e \<and> entry_id e < 2 ^ 31"
  shows "backward_loop it dbg (rev (flatten es)) s = Inr (visit_all it (rev es) s)"
  using assms
proof (induction es arbitrary: s rule: rev_induct)
  case Nil
  then show ?case by (simp add: backward_loop.simps)
next
  case (snoc e es)
  define R where "R = rev (flatten (es @ [e]))"
  have R: "R = rev (entry_list e) @ rev (flatten es)" "R \<noteq> []" by (simp_all add: R_def entry_list_def)
  have "read_entry_backward dbg R = Inr (entry_clause e, entry_witness e, entry_id e, rev (flatten es))"
    unfolding R(1) using snoc.prems by (intro backward_entry) auto
  then have "backward_loop it dbg R s = Inr (visit_all it (rev (es @ [e])) s)"
    using snoc R(2) by (subst backward_loop.simps) (simp split: prod.split)
  then show ?case by (simp only: R_def)
qed

lemma read_clause_entry:
  shows "0 \<notin> set c \<Longrightarrow> read_clause l (c @ 0 # r) = (0, c, r)"
    and "0 \<notin> set c \<Longrightarrow> \<exists>l'. read_clause l c = (l', c, [])"
proof (induction c arbitrary: l)
  case (Cons a c)
  { case 1 then show ?case using Cons.IH(1) [of a] by simp }
  { case 2 then show ?case using Cons.IH(2) [of a] by auto }
qed simp_all

lemma forward_entry:
  assumes "entry_ok st e" "entry_id e < 2 ^ 31" "entry_clause e \<noteq> []"
  shows "read_entry_forward dbg 0 (tl (entry_list e) @ 0 # r) = Inr (0, entry_clause e, entry_witness e, entry_id e, r)"
    "\<exists>l. read_entry_forward dbg 0 (tl (entry_list e)) = Inr (l, entry_clause e, entry_witness e, entry_id e, [])"
proof -
  have z: "0 \<notin> set (entry_clause e)" "0 \<notin> set (entry_witness e)" "low_int (entry_id e) \<noteq> 0"
    using assms(1) by (auto simp: entry_ok_def ext_lit_def)
  have i: "0 < entry_id e" using z(3) by (auto simp: low_int_def word_neq_0_conv [symmetric])
  have h: "hd (entry_clause e) \<noteq> 0" "hd (entry_clause e @ 0 # r) \<noteq> 0" using assms(3) z(1) by (cases "entry_clause e"; simp)+
  have t: "tl (entry_list e) = entry_witness e @ 0 # 0 # low_int (entry_id e) # 0 # entry_clause e"
    by (simp add: entry_list_def id_entries_eq)
  show "read_entry_forward dbg 0 (tl (entry_list e) @ 0 # r) = Inr (0, entry_clause e, entry_witness e, entry_id e, r)"
    using i h read_id_small [OF assms(2)] assms(3)
    by (simp add: t read_entry_forward_def read_zero_entry [OF z(2)] cassert_def read_clause_entry(1) [OF z(1)])
  show "\<exists>l. read_entry_forward dbg 0 (tl (entry_list e)) = Inr (l, entry_clause e, entry_witness e, entry_id e, [])"
    using i h read_id_small [OF assms(2)] assms(3) read_clause_entry(2) [OF z(1), of 0]
    by (auto simp: t read_entry_forward_def read_zero_entry [OF z(2)] cassert_def)
qed

lemma forward_loop_entries:
  assumes "\<forall>e \<in> set es. entry_ok st e \<and> entry_id e < 2 ^ 31 \<and> entry_clause e \<noteq> []" "es \<noteq> []"
  shows "forward_loop it dbg 0 (tl (flatten es)) s = Inr (visit_all it es s)"
  using assms
proof (induction es arbitrary: s)
  case (Cons e es)
  have e: "entry_ok st e" "entry_id e < 2 ^ 31" "entry_clause e \<noteq> []" using Cons.prems by auto
  have hd: "entry_list e = 0 # tl (entry_list e)" for e by (simp add: entry_list_def)
  show ?case
  proof (cases es)
    case Nil
    obtain l where "read_entry_forward dbg 0 (tl (entry_list e)) = Inr (l, entry_clause e, entry_witness e, entry_id e, [])"
      using forward_entry(2) [OF e] by blast
    then show ?thesis using Nil by (subst forward_loop.simps) (simp split: prod.split)
  next
    case (Cons e' es')
    then have t: "tl (flatten (e # es)) = tl (entry_list e) @ 0 # tl (flatten es)" "tl (flatten es) \<noteq> []"
      by (simp_all add: entry_list_def id_entries_eq)
    show ?thesis
      unfolding t(1) using Cons.IH Cons.prems Cons t(2)
      by (subst forward_loop.simps) (simp add: forward_entry(1) [OF e] split: prod.split)
  qed
qed simp

section \<open>Marks as sets of literals\<close>

definition ulit :: "int \<Rightarrow> nat" where
  "ulit l = nat (2 * (\<bar>l\<bar> - 1) + (if l < 0 then 1 else 0))"

definition has_mark :: "bool list \<Rightarrow> int \<Rightarrow> bool" where
  "has_mark bits l \<longleftrightarrow> ulit l < length bits \<and> bits ! ulit l"

lemma ulit_inj: "l \<noteq> 0 \<Longrightarrow> k \<noteq> 0 \<Longrightarrow> ulit l = ulit k \<longleftrightarrow> l = k"
  unfolding ulit_def by (cases "l < 0"; cases "k < 0") (auto simp: nat_eq_iff, presburger+)

lemma elit2ulit_ok: "ext_lit st l \<Longrightarrow> elit2ulit dbg l st = Inr (ulit l)"
  by (auto simp: ext_lit_def elit2ulit_def ulit_def cassert_def INT_MIN_def INT_MAX_def UINT_MAX_def mod_pos_pos_trivial)

lemma ext_lit_neg [simp]: "ext_lit st (- l) \<longleftrightarrow> ext_lit st l"
  by (simp add: ext_lit_def)

lemma marked_ok: "ext_lit st l \<Longrightarrow> marked dbg bits l st = Inr (has_mark bits l)"
  by (simp add: marked_def elit2ulit_ok has_mark_def)

lemma mark_ok:
  assumes "ext_lit st l"
  shows "\<exists>bits'. mark dbg bits l st = Inr bits' \<and> (\<forall>k. k \<noteq> 0 \<longrightarrow> has_mark bits' k \<longleftrightarrow> k = l \<or> has_mark bits k)"
proof -
  define bs where "bs = (if ulit l \<ge> length bits then resize (ulit l + 1) False bits else bits)"
  have l: "ulit l < length bs" "length bits \<le> length bs" by (simp_all add: bs_def)
  have old: "bs ! v = (v < length bits \<and> bits ! v)" if "v < length bs" for v
    using that by (auto simp: bs_def resize_def nth_append)
  have "l \<noteq> 0" using assms by (simp add: ext_lit_def)
  then have "\<forall>k. k \<noteq> 0 \<longrightarrow> has_mark (bs[ulit l := True]) k \<longleftrightarrow> k = l \<or> has_mark bits k"
    using l old ulit_inj [of l] by (auto simp: has_mark_def nth_list_update)
  moreover have "mark dbg bits l st = Inr (bs[ulit l := True])"
    by (simp add: mark_def elit2ulit_ok [OF assms] bs_def)
  ultimately show ?thesis by blast
qed

section \<open>Internalizing\<close>

text \<open>
  The mapping between external and internal variables; an external variable may be without an internal one.
  \<open>room\<close> is the number of internal variables when all of them get one.
\<close>

definition mapping_ok :: "external \<Rightarrow> bool" where
  "mapping_ok st \<longleftrightarrow>
     0 < ext_max_var st \<and> ext_max_var st \<le> INT_MAX \<and> vars_ok (internal st) \<and>
     length (e2i st) = nat (ext_max_var st) + 1 \<and> length (i2e st) = nat (max_var (internal st)) + 1 \<and>
     (\<forall>v \<in> set (tl (e2i st)). v = 0 \<or> in_range v (internal st))"

definition room :: "external \<Rightarrow> int" where
  "room st = max_var (internal st) + int (count_list (tl (e2i st)) 0)"

definition status_kept :: "external \<Rightarrow> external \<Rightarrow> bool" where
  "status_kept st st' \<longleftrightarrow> (\<exists>e i ivars taint ecl orig added.
     st' = st\<lparr>e2i := e, i2e := i, internal := ivars, tainted := taint, eclause := ecl, original := orig, clauses_added := added\<rparr>)"

definition maps_kept :: "external \<Rightarrow> external \<Rightarrow> bool" where
  "maps_kept st st' \<longleftrightarrow> (\<forall>l. ext_lit st l \<and> int_lit st l \<noteq> 0 \<longrightarrow> int_lit st' l = int_lit st l)"

lemma status_kept_refl [simp, intro]: "status_kept st st"
proof -
  have "st = st\<lparr>e2i := e2i st, i2e := i2e st, internal := internal st, tainted := tainted st, eclause := eclause st,
    original := original st, clauses_added := clauses_added st\<rparr>" by simp
  then show ?thesis unfolding status_kept_def by blast
qed

lemma status_kept_trans [trans]: "status_kept s t \<Longrightarrow> status_kept t u \<Longrightarrow> status_kept s u"
  unfolding status_kept_def by (elim exE) (simp, blast)

lemma status_keptD:
  "status_kept st st' \<Longrightarrow> ext_max_var st' = ext_max_var st" "status_kept st st' \<Longrightarrow> witness st' = witness st"
  "status_kept st st' \<Longrightarrow> extension st' = extension st" "status_kept st st' \<Longrightarrow> extended st' = extended st"
  "status_kept st st' \<Longrightarrow> ext_lit st' l = ext_lit st l"
  by (auto simp: status_kept_def ext_lit_def)

lemma maps_kept_refl [simp, intro]: "maps_kept st st"
  by (simp add: maps_kept_def)

lemma maps_kept_trans:
  "maps_kept s t \<Longrightarrow> maps_kept t u \<Longrightarrow> status_kept s t \<Longrightarrow> maps_kept s u"
  by (auto simp: maps_kept_def status_keptD(5))

lemma activate_ok:
  assumes "vars_ok iv" "in_range i iv"
  shows "\<exists>iv'. activate dbg i iv = Inr iv' \<and> vars_ok iv' \<and> max_var iv' = max_var iv"
proof -
  have g: "get_flags dbg i iv = Inr (ftab iv ! nat \<bar>i\<bar>)" using assms by (simp add: vars_ok_def get_flags_in_range)
  consider "status_of i iv = UNUSED" | "status_of i iv \<in> {ACTIVE, FIXED}" | "status_of i iv \<in> {ELIMINATED, SUBSTITUTED, PURE}"
    by (cases "status_of i iv") auto
  then show ?thesis
  proof cases
    case 1
    then show ?thesis using mark_active_ok [OF assms 1, of dbg] by (auto simp: activate_def g status_of_def)
  next
    case 2
    then show ?thesis using assms by (auto simp: activate_def g status_of_def)
  next
    case 3
    then show ?thesis using reactivate_ok [OF assms 3, of dbg] by (auto simp: activate_def g status_of_def)
  qed
qed

lemma int_lit_range:
  assumes "mapping_ok st" "ext_lit st l" "int_lit st l \<noteq> 0"
  shows "in_range (int_lit st l) (internal st)"
proof -
  have "nat \<bar>l\<bar> - 1 < length (tl (e2i st))" "tl (e2i st) ! (nat \<bar>l\<bar> - 1) = e2i st ! nat \<bar>l\<bar>"
    using assms(1,2) by (auto simp: mapping_ok_def ext_lit_def nth_tl)
  then have "e2i st ! nat \<bar>l\<bar> \<in> set (tl (e2i st))" by (metis nth_mem)
  then show ?thesis using assms(1,3) by (auto simp: mapping_ok_def int_lit_def in_range_def)
qed

lemma map_variable_ok:
  assumes st: "mapping_ok st" "ext_lit st l" "room st \<le> INT_MAX"
  shows "\<exists>st'. map_variable dbg l st = Inr (int_lit st' l, st') \<and> mapping_ok st' \<and> room st' \<le> INT_MAX \<and>
    int_lit st' l \<noteq> 0 \<and> maps_kept st st' \<and> status_kept st st' \<and> tainted st' = tainted st \<and> eclause st' = eclause st \<and>
    original st' = original st \<and> clauses_added st' = clauses_added st"
proof -
  have idx: "nat \<bar>l\<bar> < length (e2i st)" "l \<noteq> 0" "1 \<le> nat \<bar>l\<bar>" using st(1,2) by (auto simp: mapping_ok_def ext_lit_def)
  have g: "get_at (e2i st) (nat \<bar>l\<bar>) = Inr (e2i st ! nat \<bar>l\<bar>)" using idx by simp
  show ?thesis
  proof (cases "int_lit st l = 0")
    case False
    then show ?thesis using st by (auto simp: map_variable_def g int_lit_def Let_def)
  next
    case True
    then have z: "e2i st ! nat \<bar>l\<bar> = 0" by (simp add: int_lit_def split: if_splits)
    let ?k = "nat \<bar>l\<bar> - 1"
    define n where "n = max_var (internal st) + 1"
    have k: "?k < length (tl (e2i st))" "tl (e2i st) ! ?k = 0"
      using idx z by (cases "e2i st"; cases "nat \<bar>l\<bar>"; simp)+
    have cnt: "count_list (tl (e2i st)) 0 \<noteq> 0" using k by (metis count_list_0_iff nth_mem)
    have n: "0 < n" "n \<le> INT_MAX"
      using st(1,3) cnt by (auto simp: n_def room_def mapping_ok_def vars_ok_def tables_ok_def)
    have small: "sint (word_of_int m :: u32) = m" if "0 < m" "m \<le> INT_MAX" for m
    proof -
      have "uint (word_of_int m :: u32) = m" using that by (simp add: INT_MAX_def uint_word_of_int)
      then show ?thesis using that signed_take_bit_int_eq_self [of 31 m] by (simp add: INT_MAX_def sint_uint)
    qed
    have s: "sint (word_of_int n :: u32) = n"
      using small [OF n] .
    define st' where "st' = st\<lparr>internal := init_vars n (internal st), e2i := (e2i st)[nat \<bar>l\<bar> := n], i2e := i2e st @ [\<bar>l\<bar>]\<rparr>"
    have iv: "vars_ok (internal st')" "max_var (internal st') = n"
      using init_vars_ok [of "internal st" n] st(1) n by (auto simp: n_def st'_def mapping_ok_def)
    have tl: "tl (e2i st') = (tl (e2i st))[?k := n]"
      using idx by (cases "e2i st"; cases "nat \<bar>l\<bar>") (auto simp: st'_def)
    have e: "\<forall>v \<in> set (tl (e2i st')). v = 0 \<or> in_range v (internal st')"
    proof
      fix v assume "v \<in> set (tl (e2i st'))"
      then have "v = n \<or> v \<in> set (tl (e2i st))" unfolding tl using set_update_subset_insert by fastforce
      moreover have "v = 0 \<or> in_range v (internal st)" if "v \<in> set (tl (e2i st))"
        using st(1) that by (simp add: mapping_ok_def)
      ultimately show "v = 0 \<or> in_range v (internal st')"
        using n(1) iv(2) by (auto simp: in_range_def n_def)
    qed
    have i2e: "nat n < length (i2e st')" "i2e st' ! nat n = \<bar>l\<bar>"
      using st(1) n by (auto simp: n_def st'_def mapping_ok_def nth_append vars_ok_def tables_ok_def nat_add_distrib)
    have m: "mapping_ok st'"
    proof -
      have "length (e2i st') = length (e2i st)" "length (i2e st') = length (i2e st) + 1" "ext_max_var st' = ext_max_var st"
        by (simp_all add: st'_def)
      moreover have "nat n = nat (max_var (internal st)) + 1" using n by (simp add: n_def nat_eq_iff)
      ultimately show ?thesis using st(1) iv e by (simp add: mapping_ok_def)
    qed
    have "room st' = room st"
      using count_list_update [OF k(1), of n 0] k(2) iv(2) n by (simp add: room_def tl n_def)
    moreover have il: "int_lit st' l = (if l < 0 then - n else n)"
      using idx by (simp add: int_lit_def st'_def)
    moreover have "maps_kept st st'"
      using z by (auto simp: maps_kept_def int_lit_def st'_def list_update_fill split: if_splits)
    moreover have "status_kept st st'"
    proof -
      have "st' = st\<lparr>e2i := (e2i st)[nat \<bar>l\<bar> := n], i2e := i2e st @ [\<bar>l\<bar>], internal := init_vars n (internal st),
        tainted := tainted st, eclause := eclause st, original := original st, clauses_added := clauses_added st\<rparr>"
        by (simp add: st'_def)
      then show ?thesis unfolding status_kept_def by blast
    qed
    moreover have "map_variable dbg l st = Inr (int_lit st' l, st')"
    proof -
      have i: "i2e st' = i2e st @ [\<bar>l\<bar>]" by (simp add: st'_def)
      have "map_variable dbg l st =
        bind_res (cassert dbg (max_var (internal st) < INT_MAX)) (\<lambda>_.
          bind_res (cassert dbg (nat n < length (i2e st') \<and> i2e st' ! nat n = \<bar>l\<bar>)) (\<lambda>_.
            Inr (if l < 0 then - n else n, st')))"
        by (simp add: map_variable_def g z n_def [symmetric] s Let_def st'_def [symmetric] i)
      moreover have "max_var (internal st) < INT_MAX" using n by (simp add: n_def)
      ultimately show ?thesis using i2e il by (simp add: cassert_def)
    qed
    ultimately show ?thesis using m st(3) n by (auto simp: st'_def)
  qed
qed

lemma taint_ok:
  assumes "ext_lit st l" "\<not> checkfrozen opts"
  shows "\<exists>bits. taint opts dbg l st = Inr (st\<lparr>tainted := bits\<rparr>) \<and>
    (\<forall>k. k \<noteq> 0 \<longrightarrow> has_mark bits k \<longleftrightarrow> has_mark (tainted st) k \<or> (k = l \<and> has_mark (witness st) (- l)))"
proof (cases "has_mark (tainted st) l \<or> \<not> has_mark (witness st) (- l)")
  case True
  then show ?thesis using assms by (intro exI [of _ "tainted st"]) (auto simp: taint_def marked_ok)
next
  case False
  then show ?thesis using mark_ok [OF assms(1), of dbg "tainted st"] assms
    by (auto simp: taint_def marked_ok cassert_def)
qed

lemma internalize_ok:
  assumes st: "mapping_ok st" "ext_lit st l" "room st \<le> INT_MAX" "\<not> checkfrozen opts"
  shows "\<exists>st'. internalize opts dbg l st = Inr (int_lit st' l, st') \<and> mapping_ok st' \<and> room st' \<le> INT_MAX \<and>
    int_lit st' l \<noteq> 0 \<and> maps_kept st st' \<and> status_kept st st' \<and> eclause st' = eclause st \<and>
    original st' = original st \<and> clauses_added st' = clauses_added st \<and>
    (\<forall>k. k \<noteq> 0 \<longrightarrow> has_mark (tainted st') k \<longleftrightarrow> has_mark (tainted st) k \<or> (k = l \<and> has_mark (witness st) (- l)))"
proof -
  obtain st1 where st1: "map_variable dbg l st = Inr (int_lit st1 l, st1)" "mapping_ok st1" "room st1 \<le> INT_MAX"
    "int_lit st1 l \<noteq> 0" "maps_kept st st1" "status_kept st st1" "tainted st1 = tainted st" "eclause st1 = eclause st"
    "original st1 = original st" "clauses_added st1 = clauses_added st"
    using map_variable_ok [OF st(1-3)] by blast
  have l: "ext_lit st1 l" using st(2) st1(6) by (simp add: status_keptD)
  obtain iv where iv: "activate dbg (int_lit st1 l) (internal st1) = Inr iv" "vars_ok iv" "max_var iv = max_var (internal st1)"
    using activate_ok [of "internal st1" "int_lit st1 l" dbg] int_lit_range [OF st1(2) l st1(4)] st1(2)
    by (auto simp: mapping_ok_def)
  let ?st2 = "st1\<lparr>internal := iv\<rparr>"
  have l2: "ext_lit ?st2 l" using l by (simp add: ext_lit_def)
  obtain bits where bits: "taint opts dbg l ?st2 = Inr (?st2\<lparr>tainted := bits\<rparr>)"
    "\<forall>k. k \<noteq> 0 \<longrightarrow> has_mark bits k \<longleftrightarrow> has_mark (tainted st) k \<or> (k = l \<and> has_mark (witness st) (- l))"
    using taint_ok [OF l2 st(4), of dbg] st1(6,7) by (auto simp: status_keptD(2))
  let ?st' = "?st2\<lparr>tainted := bits\<rparr>"
  have i: "int_lit ?st' k = int_lit st1 k" for k by (simp add: int_lit_def)
  have run: "internalize opts dbg l st = Inr (int_lit ?st' l, ?st')"
    using st(2,4) st1(1) iv(1) bits(1)
    by (auto simp: internalize_def cassert_def ext_lit_def INT_MIN_def INT_MAX_def i)
  have kept: "status_kept st1 ?st'"
  proof -
    have "?st' = st1\<lparr>e2i := e2i st1, i2e := i2e st1, internal := iv, tainted := bits, eclause := eclause st1,
        original := original st1, clauses_added := clauses_added st1\<rparr>" by simp
    then show ?thesis unfolding status_kept_def by blast
  qed
  have "maps_kept st ?st'" using st1(5) by (simp add: maps_kept_def i)
  moreover have "mapping_ok ?st'" "room ?st' \<le> INT_MAX"
    using st1(2,3) iv by (auto simp: mapping_ok_def room_def in_range_def)
  ultimately show ?thesis
    using run bits(2) st1 kept by (auto simp: i intro!: exI [of _ ?st'] intro: status_kept_trans)
qed

section \<open>One restored clause\<close>

definition restored_step :: "entry \<Rightarrow> external \<Rightarrow> external \<Rightarrow> bool" where
  "restored_step e st st' \<longleftrightarrow>
     maps_kept st st' \<and> status_kept st st' \<and> (\<forall>l \<in> set (entry_clause e). int_lit st' l \<noteq> 0) \<and>
     clauses_added st' = clauses_added st @ [(entry_id e, map (int_lit st') (entry_clause e), entry_clause e)] \<and>
     (\<forall>k. k \<noteq> 0 \<longrightarrow> has_mark (tainted st') k \<longleftrightarrow>
        has_mark (tainted st) k \<or> (k \<in> set (entry_clause e) \<and> has_mark (witness st) (- k)))"

text \<open>What holds between two clauses of the loop.\<close>

definition restorable :: "external \<Rightarrow> bool" where
  "restorable st \<longleftrightarrow> mapping_ok st \<and> room st \<le> INT_MAX \<and> eclause st = [] \<and> original st = []"

lemma restore_clause_ok:
  assumes st: "restorable st" "\<forall>l \<in> set (entry_clause e). ext_lit st l" "\<not> checkfrozen opts" "entry_id e \<noteq> 0"
  shows "\<exists>st'. restore_clause opts dbg (entry_clause e) (entry_id e) st = Inr st' \<and> restorable st' \<and> restored_step e st st'"
proof -
  let ?c = "entry_clause e"
  let ?body = "\<lambda>elit s. bind_res (internalize opts dbg elit (s\<lparr>eclause := eclause s @ [elit]\<rparr>)) (\<lambda>(ilit, s). add_original_lit dbg ilit s)"
  let ?I = "\<lambda>pre s. mapping_ok s \<and> room s \<le> INT_MAX \<and> eclause s = pre \<and> original s = map (int_lit s) pre \<and>
    (\<forall>l \<in> set pre. int_lit s l \<noteq> 0) \<and> maps_kept st s \<and> status_kept st s \<and> clauses_added s = clauses_added st \<and>
    (\<forall>k. k \<noteq> 0 \<longrightarrow> has_mark (tainted s) k \<longleftrightarrow> has_mark (tainted st) k \<or> (k \<in> set pre \<and> has_mark (witness st) (- k)))"
  have "\<exists>s. fold_res ?body ?c st = Inr s \<and> ?I ?c s"
  proof (rule fold_res_invariant [where I = ?I])
    show "?I [] st" using st(1) by (simp add: restorable_def)
    fix pre l post s
    assume sp: "?c = pre @ l # post" and I: "?I pre s"
    let ?s = "s\<lparr>eclause := eclause s @ [l]\<rparr>"
    have il: "int_lit ?s k = int_lit s k" for k by (simp add: int_lit_def)
    have kept: "status_kept s ?s"
    proof -
      have "?s = s\<lparr>e2i := e2i s, i2e := i2e s, internal := internal s, tainted := tainted s, eclause := eclause s @ [l],
        original := original s, clauses_added := clauses_added s\<rparr>" by simp
      then show ?thesis unfolding status_kept_def by blast
    qed
    have sk: "status_kept st s" using I by blast
    have lits: "ext_lit s k" if "k \<in> set ?c" for k using st(2) that status_keptD(5) [OF sk] by blast
    have s: "mapping_ok ?s" "ext_lit ?s l" "room ?s \<le> INT_MAX"
      using I lits [of l] sp by (auto simp: mapping_ok_def room_def ext_lit_def)
    from internalize_ok [OF s st(3), of dbg]
    obtain s' where s': "internalize opts dbg l ?s = Inr (int_lit s' l, s')" "mapping_ok s'" "room s' \<le> INT_MAX"
      "int_lit s' l \<noteq> 0" "maps_kept ?s s'" "status_kept ?s s'" "eclause s' = eclause ?s" "original s' = original ?s"
      "clauses_added s' = clauses_added ?s"
      "\<forall>k. k \<noteq> 0 \<longrightarrow> has_mark (tainted s') k \<longleftrightarrow> has_mark (tainted s) k \<or> (k = l \<and> has_mark (witness s) (- l))"
      by auto
    have mk: "maps_kept s s'" using s'(5) by (simp add: maps_kept_def il ext_lit_def)
    have same: "int_lit s' k = int_lit s k" if "k \<in> set pre" for k
      using mk I that lits [of k] sp by (auto simp: maps_kept_def)
    have "ext_lit s' l" using s(2) s'(6) by (simp add: status_keptD(5))
    then have "\<bar>int_lit s' l\<bar> \<le> max_var (internal s')"
      using int_lit_range [OF s'(2) _ s'(4)] by (auto simp: in_range_def)
    then have add: "?body l s = Inr (s'\<lparr>original := original s' @ [int_lit s' l]\<rparr>)"
      using s'(1) by (simp add: add_original_lit_def cassert_def)
    let ?t = "s'\<lparr>original := original s' @ [int_lit s' l]\<rparr>"
    have it: "int_lit ?t k = int_lit s' k" for k by (simp add: int_lit_def)
    have kt: "status_kept s' ?t"
    proof -
      have "?t = s'\<lparr>e2i := e2i s', i2e := i2e s', internal := internal s', tainted := tainted s', eclause := eclause s',
        original := original s' @ [int_lit s' l], clauses_added := clauses_added s'\<rparr>" by simp
      then show ?thesis unfolding status_kept_def by blast
    qed
    have "maps_kept st ?t"
      using maps_kept_trans [of st s s'] mk I by (simp add: maps_kept_def it)
    moreover have "status_kept st ?t" using I kept s'(6) kt by (meson status_kept_trans)
    moreover have "mapping_ok ?t" "room ?t \<le> INT_MAX" using s'(2,3) by (simp_all add: mapping_ok_def room_def)
    moreover have "witness s = witness st" using I by (simp add: status_keptD(2))
    ultimately show "\<exists>s'. ?body l s = Inr s' \<and> ?I (pre @ [l]) s'"
      using add s' I same it by (intro exI [of _ ?t]) auto
  qed
  then obtain s where s: "fold_res ?body ?c st = Inr s" "?I ?c s" by blast
  let ?st' = "s\<lparr>clauses_added := clauses_added s @ [(entry_id e, original s, eclause s)], original := [], eclause := []\<rparr>"
  have i: "int_lit (s\<lparr>clauses_added := a, original := b, eclause := c\<rparr>) = int_lit s" for a b c
    by (simp add: int_lit_def fun_eq_iff)
  have "status_kept s ?st'"
  proof -
    have "?st' = s\<lparr>e2i := e2i s, i2e := i2e s, internal := internal s, tainted := tainted s, eclause := [],
      original := [], clauses_added := clauses_added s @ [(entry_id e, original s, eclause s)]\<rparr>" by simp
    then show ?thesis unfolding status_kept_def by blast
  qed
  then have "status_kept st ?st'" using s(2) by (blast intro: status_kept_trans)
  then have "restored_step e st ?st'" using s(2) by (simp add: restored_step_def i maps_kept_def)
  moreover have "restorable ?st'" using s(2) by (simp add: restorable_def mapping_ok_def room_def)
  moreover have "restore_clause opts dbg ?c (entry_id e) st = Inr ?st'"
    using st(1,4) s by (auto simp: restore_clause_def restorable_def cassert_def finish_added_clause_with_id_def)
  ultimately show ?thesis by blast
qed

section \<open>The loop over the stack\<close>

lemma copy_witness_entry:
  assumes "\<forall>l \<in> set ls. ext_lit st l"
  shows "\<exists>t'. copy_witness dbg st t (ls @ 0 # r) = Inr (ls @ [0], t', r) \<and>
    (t' \<noteq> 0 \<longleftrightarrow> t \<noteq> 0 \<or> (\<exists>l \<in> set ls. has_mark (tainted st) (- l)))"
  using assms
proof (induction ls arbitrary: t)
  case (Cons l ls)
  have l: "ext_lit st l" "l \<noteq> 0" "l \<noteq> INT_MIN" using Cons.prems by (auto simp: ext_lit_def INT_MIN_def INT_MAX_def)
  have "marked dbg (tainted st) (- l) st = Inr (has_mark (tainted st) (- l))" using l(1) by (simp add: marked_ok)
  then show ?case
    using Cons.IH [of "if has_mark (tainted st) (- l) then l else t"] Cons.prems l by (auto simp: cassert_def)
qed simp

lemma fixed_ext_ok:
  assumes "mapping_ok st" "ext_lit st l"
  shows "fixed_ext ifixed dbg l st = Inr (if int_lit st l = 0 then 0 else ifixed st (int_lit st l))"
  using assms by (auto simp: fixed_ext_def ext_lit_def cassert_def mapping_ok_def INT_MIN_def INT_MAX_def int_lit_def)

definition fixed_true :: "(external \<Rightarrow> int \<Rightarrow> int) \<Rightarrow> external \<Rightarrow> int \<Rightarrow> bool" where
  "fixed_true ifixed st l \<longleftrightarrow> int_lit st l \<noteq> 0 \<and> ifixed st (int_lit st l) > 0"

lemma find_satisfied_ok:
  assumes "mapping_ok st" "\<forall>l \<in> set c. ext_lit st l"
  shows "\<exists>s. find_satisfied ifixed dbg st c s0 = Inr s \<and> (s \<noteq> 0 \<longrightarrow> s = s0 \<or> (s \<in> set c \<and> fixed_true ifixed st s))"
  using assms(2)
proof (induction c arbitrary: s0)
  case (Cons l c)
  show ?case
  proof (cases "s0 = 0")
    case True
    have f: "fixed_ext ifixed dbg l st = Inr (if int_lit st l = 0 then 0 else ifixed st (int_lit st l))"
      using fixed_ext_ok [OF assms(1)] Cons.prems by simp
    have "\<forall>l \<in> set c. ext_lit st l" using Cons.prems by simp
    note IH = Cons.IH [OF this]
    show ?thesis
    proof (cases "fixed_true ifixed st l")
      case T: True
      then show ?thesis using IH [of l] True f by (auto simp: fixed_true_def)
    next
      case F: False
      then show ?thesis using IH [of 0] True f by (auto simp: fixed_true_def)
    qed
  next
    case False
    then show ?thesis using Cons.IH [of s0] Cons.prems by auto
  qed
qed simp

lemma flatten_shape: "flatten es = [] \<or> (\<exists>r. flatten es = 0 # r)"
  by (cases es) (auto simp: entry_list_def)

lemma clause_flatten:
  assumes "0 \<notin> set c"
  shows "takeWhile (\<lambda>l. l \<noteq> 0) (c @ flatten es) = c" "dropWhile (\<lambda>l. l \<noteq> 0) (c @ flatten es) = flatten es"
proof -
  have "\<forall>l \<in> set c. l \<noteq> 0" using assms by metis
  then show "takeWhile (\<lambda>l. l \<noteq> 0) (c @ flatten es) = c" "dropWhile (\<lambda>l. l \<noteq> 0) (c @ flatten es) = flatten es"
    using flatten_shape [of es] by (auto simp: takeWhile_append dropWhile_append)
qed

text \<open>The three things that can happen to a clause on the stack, from the first to the last.\<close>

inductive restored_run :: "(external \<Rightarrow> int \<Rightarrow> int) \<Rightarrow> entry list \<Rightarrow> external \<Rightarrow> entry list \<Rightarrow> entry list \<Rightarrow> external \<Rightarrow> bool"
  for ifixed where
  empty: "restored_run ifixed [] st [] [] st"
| keep: "restored_run ifixed es st kept rs st' \<Longrightarrow> \<forall>l \<in> set (entry_witness e). \<not> has_mark (tainted st) (- l) \<Longrightarrow>
    restored_run ifixed (e # es) st (e # kept) rs st'"
| flush: "restored_run ifixed es st kept rs st' \<Longrightarrow> l \<in> set (entry_clause e) \<Longrightarrow> fixed_true ifixed st l \<Longrightarrow>
    restored_run ifixed (e # es) st kept rs st'"
| restore: "restored_run ifixed es st1 kept rs st' \<Longrightarrow> restored_step e st st1 \<Longrightarrow>
    restored_run ifixed (e # es) st kept (e # rs) st'"

lemma restore_entry_ok:
  assumes st: "restorable st" "entry_ok st e" "entry_id e < 2 ^ 31" "\<not> checkfrozen opts"
  shows "\<exists>k st'. restore_entry ifixed opts dbg (entry_list e @ flatten es) q st = Inr (flatten es, q @ flatten k, st') \<and> restorable st' \<and>
    (k = [e] \<and> st' = st \<and> (\<forall>l \<in> set (entry_witness e). \<not> has_mark (tainted st) (- l)) \<or>
     k = [] \<and> st' = st \<and> (\<exists>l \<in> set (entry_clause e). fixed_true ifixed st l) \<or>
     k = [] \<and> restored_step e st st')"
proof -
  have w: "\<forall>l \<in> set (entry_witness e). ext_lit st l" and c: "\<forall>l \<in> set (entry_clause e). ext_lit st l"
    and lo: "low_int (entry_id e) \<noteq> 0" using st(2) by (auto simp: entry_ok_def)
  have i: "read_id 0 (low_int (entry_id e)) = entry_id e" "entry_id e \<noteq> 0"
    using read_id_small [OF st(3)] lo by (auto simp: low_int_def)
  obtain t where t: "copy_witness dbg st 0 (entry_witness e @ 0 # r) = Inr (entry_witness e @ [0], t r, r)"
    "t r \<noteq> 0 \<longleftrightarrow> (\<exists>l \<in> set (entry_witness e). has_mark (tainted st) (- l))" for r
    using copy_witness_entry [OF w, of dbg 0] by metis
  obtain s where s: "find_satisfied ifixed dbg st (entry_clause e) 0 = Inr s"
    "s \<noteq> 0 \<longrightarrow> s \<in> set (entry_clause e) \<and> fixed_true ifixed st s"
    using find_satisfied_ok [of st "entry_clause e" ifixed dbg 0] st(1) c by (auto simp: restorable_def)
  obtain st1 where st1: "restore_clause opts dbg (entry_clause e) (entry_id e) st = Inr st1" "restorable st1" "restored_step e st st1"
    using restore_clause_ok [OF st(1) c st(4) i(2)] by blast
  note cl = clause_flatten [OF ext_lit_nonzero [OF c], of es]
  define sat where "sat = (if s \<noteq> 0 \<and> \<not> restoreflush opts then 0 else s)"
  define tl where "tl = t (0 # low_int (entry_id e) # 0 # entry_clause e @ flatten es)"
  have run: "restore_entry ifixed opts dbg (entry_list e @ flatten es) q st =
    (if sat \<noteq> 0 \<or> tl \<noteq> 0 \<or> restoreall opts \<noteq> 0
     then bind_res (if sat \<noteq> 0 then Inr st else restore_clause opts dbg (entry_clause e) (entry_id e) st) (\<lambda>st.
            Inr (flatten es, q, st))
     else Inr (flatten es, q @ flatten [e], st))"
    using i by (simp add: restore_entry_def entry_list_def id_entries_eq t(1) cassert_def cl s(1) sat_def [symmetric] tl_def [symmetric])
  consider (flush) "sat \<noteq> 0" | (restore) "sat = 0" "tl \<noteq> 0 \<or> restoreall opts \<noteq> 0"
    | (keep) "sat = 0" "tl = 0" "restoreall opts = 0" by blast
  then show ?thesis
  proof cases
    case flush
    then have "s \<noteq> 0" by (auto simp: sat_def split: if_splits)
    then show ?thesis using flush run s(2) st(1) by (intro exI [of _ "[]"] exI [of _ st]) auto
  next
    case restore
    then show ?thesis using run st1 by (intro exI [of _ "[]"] exI [of _ st1]) auto
  next
    case keep
    then show ?thesis using run t(2) st(1) unfolding tl_def by (intro exI [of _ "[e]"] exI [of _ st]) auto
  qed
qed

lemma restored_step_lit: "restored_step e st st' \<Longrightarrow> ext_lit st' l = ext_lit st l"
  by (auto simp: restored_step_def status_keptD(5))

lemma restore_loop_ok:
  assumes "restorable st" "\<forall>e \<in> set es. entry_ok st e \<and> entry_id e < 2 ^ 31" "\<not> checkfrozen opts"
  shows "\<exists>kept rs st'. restore_loop ifixed opts dbg (flatten es) q st = Inr (q @ flatten kept, st') \<and> restorable st' \<and>
    restored_run ifixed es st kept rs st'"
  using assms
proof (induction es arbitrary: st q)
  case Nil
  then show ?case by (intro exI [of _ "[]"] exI [of _ st]) (auto simp: restore_loop.simps intro: restored_run.empty)
next
  case (Cons e es)
  have e: "entry_ok st e" "entry_id e < 2 ^ 31" using Cons.prems by auto
  obtain k st1 where step: "restore_entry ifixed opts dbg (entry_list e @ flatten es) q st = Inr (flatten es, q @ flatten k, st1)"
    "restorable st1"
    "k = [e] \<and> st1 = st \<and> (\<forall>l \<in> set (entry_witness e). \<not> has_mark (tainted st) (- l)) \<or>
     k = [] \<and> st1 = st \<and> (\<exists>l \<in> set (entry_clause e). fixed_true ifixed st l) \<or>
     k = [] \<and> restored_step e st st1"
    using restore_entry_ok [OF Cons.prems(1) e Cons.prems(3), of ifixed dbg es q] by blast
  have "\<forall>e \<in> set es. entry_ok st1 e \<and> entry_id e < 2 ^ 31"
    using Cons.prems(2) step(3) restored_step_lit [of e st st1] by (auto simp: entry_ok_def)
  from Cons.IH [OF step(2) this Cons.prems(3), of "q @ flatten k"]
  obtain kept rs st' where IH: "restore_loop ifixed opts dbg (flatten es) (q @ flatten k) st1 = Inr (q @ flatten (k @ kept), st')"
    "restorable st'" "restored_run ifixed es st1 kept rs st'" by auto
  have "entry_list e \<noteq> []" by (simp add: entry_list_def)
  then have run: "restore_loop ifixed opts dbg (flatten (e # es)) q st = Inr (q @ flatten (k @ kept), st')"
    using step(1) IH(1) by (subst restore_loop.simps) (simp del: flatten_simps(3))
  have "\<exists>rs. restored_run ifixed (e # es) st (k @ kept) rs st'"
    using step(3)
  proof (elim disjE conjE)
    assume "k = [e]" "st1 = st" "\<forall>l \<in> set (entry_witness e). \<not> has_mark (tainted st) (- l)"
    then show ?thesis using restored_run.keep [of ifixed es st kept rs st' e] IH(3) by auto
  next
    assume k: "k = []" "st1 = st" and "\<exists>l \<in> set (entry_clause e). fixed_true ifixed st l"
    then obtain l where "l \<in> set (entry_clause e)" "fixed_true ifixed st l" by blast
    then have "restored_run ifixed (e # es) st kept rs st'" using restored_run.flush IH(3) k(2) by blast
    then show ?thesis using k(1) by auto
  next
    assume "k = []" "restored_step e st st1"
    then show ?thesis using restored_run.restore [of ifixed es st1 kept rs st' e st] IH(3) by auto
  qed
  then show ?case using run IH(2) by blast
qed

section \<open>Restoring keeps the redundancy of what stays\<close>

text \<open>The clauses added after the first \<open>k\<close>, in external literals.\<close>

definition added_since :: "nat \<Rightarrow> external \<Rightarrow> int list set" where
  "added_since k st = (\<lambda>(i, ilits, elits). elits) ` set (drop k (clauses_added st))"

text \<open>
  Every literal of a new clause whose negation is a witness is tainted; every witness literal of the stack is marked.
\<close>

definition taints :: "external \<Rightarrow> int list set \<Rightarrow> bool" where
  "taints st N \<longleftrightarrow> (\<forall>c \<in> N. \<forall>l \<in> set c. has_mark (witness st) (- l) \<longrightarrow> has_mark (tainted st) l)"

definition witnesses_marked :: "external \<Rightarrow> entry list \<Rightarrow> bool" where
  "witnesses_marked st es \<longleftrightarrow> (\<forall>e \<in> set es. \<forall>l \<in> set (entry_witness e). has_mark (witness st) l)"

text \<open>
  The contract of the internal solver: a literal that it has fixed follows from the current formula \<open>G\<close> together
  with the clauses added after the first \<open>k\<close>.
\<close>

definition fixed_sound :: "(external \<Rightarrow> int \<Rightarrow> int) \<Rightarrow> nat \<Rightarrow> int list set \<Rightarrow> bool" where
  "fixed_sound ifixed k G \<longleftrightarrow> (\<forall>st l. fixed_true ifixed st l \<longrightarrow> entails (G \<union> added_since k st) [l])"

lemma added_since_step:
  "restored_step e st st' \<Longrightarrow> k \<le> length (clauses_added st) \<Longrightarrow>
     added_since k st' = insert (entry_clause e) (added_since k st) \<and> k \<le> length (clauses_added st')"
  by (auto simp: restored_step_def added_since_def)

lemma taints_step:
  assumes "restored_step e st st'" "taints st N" "\<forall>c \<in> insert (entry_clause e) N. 0 \<notin> set c"
  shows "taints st' (insert (entry_clause e) N)"
  unfolding taints_def
proof (intro ballI impI)
  fix c l assume c: "c \<in> insert (entry_clause e) N" "l \<in> set c" "has_mark (witness st') (- l)"
  have w: "witness st' = witness st" using assms(1) by (auto simp: restored_step_def status_keptD(2))
  have "l \<noteq> 0" using assms(3) c(1,2) by metis
  then show "has_mark (tainted st') l"
    using assms(1,2) c w by (auto simp: restored_step_def taints_def)
qed

lemma restored_run_sound:
  assumes "restored_run ifixed es st kept rs st'"
    and "redundant_stack F es" "fixed_sound ifixed k (F \<union> N)" "k \<le> length (clauses_added st)"
    and "taints st (N \<union> added_since k st)" "witnesses_marked st es"
    and "\<forall>c \<in> N \<union> added_since k st. 0 \<notin> set c" "\<forall>e \<in> set es. 0 \<notin> set (entry_witness e) \<and> 0 \<notin> set (entry_clause e)"
  shows "redundant_stack (F \<union> N \<union> added_since k st') kept \<and>
    (\<forall>M. models M (F \<union> N \<union> added_since k st' \<union> clauses_of kept) \<longrightarrow> models M (clauses_of es)) \<and>
    added_since k st' = added_since k st \<union> clauses_of rs \<and> set kept \<subseteq> set es"
  using assms
proof (induction rule: restored_run.induct)
  case (empty st)
  then show ?case by simp
next
  case (keep es st kept rs st' e)
  note IH = keep.IH [OF _ keep.prems(2-4)]
  have es: "redundant_stack F es" "witnesses_marked st es"
    "\<forall>e \<in> set es. 0 \<notin> set (entry_witness e) \<and> 0 \<notin> set (entry_clause e)"
    using keep.prems by (auto simp: witnesses_marked_def)
  from IH [OF es(1,2) keep.prems(6) es(3)]
  have I: "redundant_stack (F \<union> N \<union> added_since k st') kept"
    "\<And>M. models M (F \<union> N \<union> added_since k st' \<union> clauses_of kept) \<Longrightarrow> models M (clauses_of es)"
    "added_since k st' = added_since k st \<union> clauses_of rs" "set kept \<subseteq> set es" by auto
  have rs: "clauses_of rs \<subseteq> clauses_of es" using keep.hyps(1) by (induction rule: restored_run.induct) auto
  have new: "- l \<notin> set (entry_witness e)" if "c \<in> N \<union> added_since k st" "l \<in> set c" for c l
  proof
    assume w: "- l \<in> set (entry_witness e)"
    then have "has_mark (witness st) (- l)" using keep.prems(5) by (auto simp: witnesses_marked_def)
    then have "has_mark (tainted st) l" using keep.prems(4) that by (auto simp: taints_def)
    then show False using keep.hyps(2) w by fastforce
  qed
  have "models (repair e M) (F \<union> N \<union> added_since k st' \<union> clauses_of (e # kept))"
    if M: "models M (F \<union> N \<union> added_since k st' \<union> clauses_of kept)" for M
  proof -
    have "models M (F \<union> clauses_of es)" using I(2) [OF M] M by simp
    then have R: "models (repair e M) (F \<union> clauses_of (e # es))" using keep.prems(1) by simp
    have "sat_clause (repair e M) c" if c: "c \<in> N \<union> added_since k st" for c
    proof (rule sat_clause_repair)
      show "0 \<notin> set (entry_witness e)" using keep.prems(7) by simp
      show "0 \<notin> set c" using keep.prems(6) c by blast
      show "\<forall>l \<in> set c. - l \<notin> set (entry_witness e)" using new [OF c] by blast
      have "models M (N \<union> added_since k st)" using M by (simp add: I(3))
      then show "sat_clause M c" using c by (auto simp: models_def)
    qed
    then have "models (repair e M) (N \<union> added_since k st)" by (auto simp: models_def)
    moreover have "models (repair e M) (clauses_of rs \<union> clauses_of (e # kept))"
      by (rule models_mono [OF R]) (use rs I(4) in auto)
    ultimately show ?thesis using R by (simp add: I(3))
  qed
  then show ?case using I(1,3,4) I(2) by auto
next
  case (flush es st kept rs st' l e)
  have es: "redundant_stack F es" "witnesses_marked st es"
    "\<forall>e \<in> set es. 0 \<notin> set (entry_witness e) \<and> 0 \<notin> set (entry_clause e)"
    using flush.prems by (auto simp: witnesses_marked_def)
  note I = flush.IH [OF es(1) flush.prems(2-4) es(2) flush.prems(6) es(3)]
  have "entails (F \<union> N \<union> added_since k st) [l]" using flush.prems(2) flush.hyps(3) by (auto simp: fixed_sound_def)
  then have e: "entails (F \<union> N \<union> added_since k st) (entry_clause e)" using flush.hyps(2) by (rule_tac entails_weaker) auto
  have "sat_clause M (entry_clause e)" if "models M (F \<union> N \<union> added_since k st' \<union> clauses_of kept)" for M
    using e that I by (simp add: entails_models)
  then show ?case using I by auto
next
  case (restore es st1 kept rs st' e st)
  have es: "redundant_stack F es" "\<forall>e \<in> set es. 0 \<notin> set (entry_witness e) \<and> 0 \<notin> set (entry_clause e)"
    using restore.prems by auto
  note a = added_since_step [OF restore.hyps(2) restore.prems(3)]
  have "witness st1 = witness st" using restore.hyps(2) by (auto simp: restored_step_def status_keptD(2))
  then have w: "witnesses_marked st1 es" using restore.prems(5) by (simp add: witnesses_marked_def)
  have nz: "\<forall>c \<in> N \<union> added_since k st1. 0 \<notin> set c" using restore.prems(6,7) a by auto
  have "taints st1 (N \<union> added_since k st1)"
    using taints_step [OF restore.hyps(2) restore.prems(4)] nz a by simp
  note I = restore.IH [OF es(1) restore.prems(2) conjunct2 [OF a] this w nz es(2)]
  have "models M (clauses_of (e # es))" if "models M (F \<union> N \<union> added_since k st' \<union> clauses_of kept)" for M
    using that I a by (auto simp: models_def)
  then show ?case using I a by auto
qed

section \<open>The witness marks after restoring\<close>

lemma skip_clause_entry: "0 \<notin> set ls \<Longrightarrow> skip_clause dbg (ls @ 0 # r) = Inr r"
  by (induction ls) (auto simp: cassert_def)

lemma mark_witness_entry:
  assumes "\<forall>l \<in> set ls. ext_lit st l"
  shows "\<exists>bits. mark_witness dbg (ls @ 0 # r) st = Inr (r, st\<lparr>witness := bits\<rparr>) \<and>
    (\<forall>k. k \<noteq> 0 \<longrightarrow> has_mark bits k \<longleftrightarrow> has_mark (witness st) k \<or> k \<in> set ls)"
  using assms
proof (induction ls arbitrary: st)
  case Nil
  then show ?case by (intro exI [of _ "witness st"]) simp
next
  case (Cons l ls)
  have l: "ext_lit st l" "l \<noteq> 0" using Cons.prems by (auto simp: ext_lit_def)
  obtain b where b: "mark dbg (witness st) l st = Inr b" "\<forall>k. k \<noteq> 0 \<longrightarrow> has_mark b k \<longleftrightarrow> k = l \<or> has_mark (witness st) k"
    using mark_ok [OF l(1), of dbg "witness st"] by blast
  have "\<forall>l \<in> set ls. ext_lit (st\<lparr>witness := b\<rparr>) l" using Cons.prems by (simp add: ext_lit_def)
  from Cons.IH [OF this] show ?case using l b by (auto simp: cassert_def)
qed

lemma recompute_witness_ok:
  assumes "\<forall>e \<in> set es. entry_ok st e"
  shows "\<exists>bits. recompute_witness dbg (rev (flatten es)) st = Inr (st\<lparr>witness := bits\<rparr>) \<and>
    (\<forall>k. k \<noteq> 0 \<longrightarrow> has_mark bits k \<longleftrightarrow> has_mark (witness st) k \<or> (\<exists>e \<in> set es. k \<in> set (entry_witness e)))"
  using assms
proof (induction es arbitrary: st rule: rev_induct)
  case Nil
  then show ?case by (intro exI [of _ "witness st"]) (simp add: recompute_witness.simps)
next
  case (snoc e es)
  let ?r = "rev (flatten es)" and ?lo = "low_int (entry_id e)"
  have ok: "\<forall>l \<in> set (rev (entry_clause e)). ext_lit st l" "\<forall>l \<in> set (rev (entry_witness e)). ext_lit st l" "?lo \<noteq> 0"
    using snoc.prems by (auto simp: entry_ok_def)
  obtain b where b: "mark_witness dbg (rev (entry_witness e) @ 0 # ?r) st = Inr (?r, st\<lparr>witness := b\<rparr>)"
    "\<forall>k. k \<noteq> 0 \<longrightarrow> has_mark b k \<longleftrightarrow> has_mark (witness st) k \<or> k \<in> set (entry_witness e)"
    using mark_witness_entry [OF ok(2), of dbg ?r] by auto
  define R where "R = rev (flatten (es @ [e]))"
  have r: "R = rev (entry_clause e) @ 0 # ?lo # 0 # 0 # rev (entry_witness e) @ 0 # ?r"
    by (simp add: R_def rev_entry_list)
  have c: "skip_clause dbg R = Inr (?lo # 0 # 0 # rev (entry_witness e) @ 0 # ?r)"
    unfolding r by (rule skip_clause_entry [OF ext_lit_nonzero [OF ok(1)]])
  have s: "skip_id_restore dbg (?lo # 0 # 0 # rev (entry_witness e) @ 0 # ?r) = Inr (rev (entry_witness e) @ 0 # ?r)"
    using ok(3) by (simp add: skip_id_restore_def prev_def cassert_def)
  have ne: "R \<noteq> []" unfolding r by simp
  have run: "recompute_witness dbg R st = recompute_witness dbg ?r (st\<lparr>witness := b\<rparr>)"
    using ne by (subst recompute_witness.simps) (simp add: c s b(1))
  have "\<forall>e \<in> set es. entry_ok (st\<lparr>witness := b\<rparr>) e" using snoc.prems by (simp add: entry_ok_def ext_lit_def)
  from snoc.IH [OF this] show ?case
    unfolding R_def [symmetric] run using b(2) by auto
qed

section \<open>Restoring as a whole\<close>

text \<open>The state before clauses are restored: the stack \<open>es\<close>, redundant in the formula \<open>F\<close>, and new clauses \<open>N\<close>.\<close>

definition incremental :: "external \<Rightarrow> int list set \<Rightarrow> int list set \<Rightarrow> entry list \<Rightarrow> bool" where
  "incremental st F N es \<longleftrightarrow>
     restorable st \<and> extension st = flatten es \<and> (\<forall>e \<in> set es. entry_ok st e \<and> entry_id e < 2 ^ 31) \<and>
     redundant_stack F es \<and> witnesses_marked st es \<and> taints st N \<and> (\<forall>c \<in> N. 0 \<notin> set c)"

definition handed :: "external \<Rightarrow> entry \<Rightarrow> u64 \<times> int list \<times> int list" where
  "handed st e = (entry_id e, map (int_lit st) (entry_clause e), entry_clause e)"

lemma restored_run_handed:
  assumes "restored_run ifixed es st kept rs st'" "\<forall>e \<in> set es. entry_ok st e"
  shows "maps_kept st st' \<and> status_kept st st' \<and> clauses_added st' = clauses_added st @ map (handed st') rs \<and>
    (\<forall>e \<in> set rs. e \<in> set es \<and> (\<forall>l \<in> set (entry_clause e). int_lit st' l \<noteq> 0))"
  using assms
proof (induction rule: restored_run.induct)
  case (restore es st1 kept rs st' e st)
  have "\<forall>e \<in> set es. entry_ok st1 e"
    using restore.prems restored_step_lit [OF restore.hyps(2)] by (simp add: entry_ok_def)
  note I = restore.IH [OF this]
  have s: "maps_kept st st1" "status_kept st st1" "\<forall>l \<in> set (entry_clause e). int_lit st1 l \<noteq> 0"
    "clauses_added st1 = clauses_added st @ [handed st1 e]"
    using restore.hyps(2) by (auto simp: restored_step_def handed_def)
  have "int_lit st' l = int_lit st1 l" if "l \<in> set (entry_clause e)" for l
    using that I s(3) restore.prems restored_step_lit [OF restore.hyps(2)] by (auto simp: maps_kept_def entry_ok_def)
  then have "handed st' e = handed st1 e" "\<forall>l \<in> set (entry_clause e). int_lit st' l \<noteq> 0"
    using s(3) by (auto simp: handed_def)
  then show ?case using I s maps_kept_trans [of st st1 st'] status_kept_trans [of st st1 st'] by auto
qed (auto simp: entry_ok_def)

lemma lit_updates [simp]:
  "int_lit (st\<lparr>extension := a\<rparr>) = int_lit st" "int_lit (st\<lparr>tainted := b\<rparr>) = int_lit st" "int_lit (st\<lparr>witness := b\<rparr>) = int_lit st"
  "handed (st\<lparr>extension := a\<rparr>) = handed st" "handed (st\<lparr>tainted := b\<rparr>) = handed st" "handed (st\<lparr>witness := b\<rparr>) = handed st"
  "ext_lit (st\<lparr>extension := a\<rparr>) = ext_lit st" "ext_lit (st\<lparr>tainted := b\<rparr>) = ext_lit st" "ext_lit (st\<lparr>witness := b\<rparr>) = ext_lit st"
  by (simp_all add: int_lit_def handed_def ext_lit_def fun_eq_iff)

lemma restore_clauses_ok:
  assumes st: "incremental st F N es" and opts: "\<not> checkfrozen opts" "restoreall opts = 2 \<or> tainted st \<noteq> []"
    and fx: "fixed_sound ifixed (length (clauses_added st)) (F \<union> N)"
  shows "\<exists>st' kept rs. restore_clauses ifixed opts dbg st = Inr st' \<and> restorable st' \<and>
    extension st' = flatten kept \<and> set kept \<subseteq> set es \<and> set rs \<subseteq> set es \<and>
    clauses_added st' = clauses_added st @ map (handed st') rs \<and>
    redundant_stack (F \<union> N \<union> clauses_of rs) kept \<and>
    (\<forall>M. models M (F \<union> N \<union> clauses_of rs \<union> clauses_of kept) \<longrightarrow> models M (clauses_of es)) \<and>
    tainted st' = [] \<and> (\<forall>k. k \<noteq> 0 \<longrightarrow> has_mark (witness st') k \<longleftrightarrow> (\<exists>e \<in> set kept. k \<in> set (entry_witness e))) \<and>
    maps_kept st st' \<and> ext_max_var st' = ext_max_var st \<and> extended st' = extended st"
proof -
  let ?k = "length (clauses_added st)"
  have ok: "restorable st" "\<forall>e \<in> set es. entry_ok st e \<and> entry_id e < 2 ^ 31" "\<forall>e \<in> set es. entry_ok st e"
    and ext: "extension st = flatten es" and red: "redundant_stack F es" and w: "witnesses_marked st es"
    and t: "taints st N" "\<forall>c \<in> N. 0 \<notin> set c"
    using st by (auto simp: incremental_def)
  obtain kept rs st1 where run: "restore_loop ifixed opts dbg (flatten es) [] st = Inr (flatten kept, st1)" "restorable st1"
    "restored_run ifixed es st kept rs st1"
    using restore_loop_ok [OF ok(1,2) opts(1), of ifixed dbg "[]"] by auto
  have a0: "added_since ?k st = {}" by (simp add: added_since_def)
  have nz: "\<forall>e \<in> set es. 0 \<notin> set (entry_witness e) \<and> 0 \<notin> set (entry_clause e)"
    using ok(3) by (auto simp: entry_ok_def ext_lit_def)
  have pre: "taints st (N \<union> added_since ?k st)" "\<forall>c \<in> N \<union> added_since ?k st. 0 \<notin> set c"
    using t by (simp_all add: a0)
  note S0 = restored_run_sound [OF run(3) red fx order_refl pre(1) w pre(2) nz]
  have e: "added_since ?k st1 = clauses_of rs" using S0 a0 by simp
  have S: "redundant_stack (F \<union> N \<union> clauses_of rs) kept"
    "\<forall>M. models M (F \<union> N \<union> clauses_of rs \<union> clauses_of kept) \<longrightarrow> models M (clauses_of es)" "set kept \<subseteq> set es"
    using S0 unfolding e by blast+
  note H = restored_run_handed [OF run(3) ok(3)]
  let ?st2 = "st1\<lparr>extension := flatten kept, tainted := [], witness := []\<rparr>"
  have "\<forall>e \<in> set kept. entry_ok ?st2 e"
    using S(3) ok(3) H status_keptD(1) [of st st1] by (auto simp: entry_ok_def ext_lit_def)
  from recompute_witness_ok [OF this, of dbg]
  obtain bits where bits: "recompute_witness dbg (rev (flatten kept)) ?st2 = Inr (?st2\<lparr>witness := bits\<rparr>)"
    "\<forall>k. k \<noteq> 0 \<longrightarrow> has_mark bits k \<longleftrightarrow> (\<exists>e \<in> set kept. k \<in> set (entry_witness e))"
    by (auto simp: has_mark_def)
  let ?st' = "?st2\<lparr>witness := bits\<rparr>"
  have "restore_clauses ifixed opts dbg st = Inr ?st'"
    using opts(2) run(1) bits(1) by (simp add: restore_clauses_def cassert_def ext)
  moreover have "restorable ?st'" using run(2) by (simp add: restorable_def mapping_ok_def room_def)
  moreover have "maps_kept st ?st'" using H by (simp add: maps_kept_def)
  ultimately show ?thesis
    using S H bits(2) status_keptD(1,4) [of st st1]
    by (intro exI [of _ ?st'] exI [of _ kept] exI [of _ rs]) auto
qed

section \<open>Pushing\<close>

definition ext_of :: "external \<Rightarrow> int \<Rightarrow> int" where
  "ext_of st l = (if l < 0 then - (i2e st ! nat \<bar>l\<bar>) else i2e st ! nat \<bar>l\<bar>)"

definition int_ok :: "external \<Rightarrow> int \<Rightarrow> bool" where
  "int_ok st l \<longleftrightarrow> in_range l (internal st) \<and> max_var (internal st) \<le> INT_MAX \<and> nat \<bar>l\<bar> < length (i2e st) \<and>
     ext_lit st (ext_of st l)"

lemma externalize_ok: "int_ok st l \<Longrightarrow> externalize dbg l st = Inr (ext_of st l)"
  by (auto simp: int_ok_def externalize_def in_range_def ext_of_def cassert_def INT_MIN_def INT_MAX_def)

lemma ext_of_updates [simp]:
  "ext_of (st\<lparr>extension := a\<rparr>) = ext_of st" "ext_of (st\<lparr>witness := b\<rparr>) = ext_of st"
  "int_ok (st\<lparr>extension := a\<rparr>) = int_ok st" "int_ok (st\<lparr>witness := b\<rparr>) = int_ok st"
  by (simp_all add: ext_of_def int_ok_def fun_eq_iff)

lemma externalize_update [simp]:
  "externalize dbg l (st\<lparr>extension := e\<rparr>) = externalize dbg l st" "externalize dbg l (st\<lparr>witness := w\<rparr>) = externalize dbg l st"
  by (simp_all add: externalize_def)

lemma push_literals:
  assumes "\<forall>l \<in> set ls. int_ok st l"
  shows "fold_res (push_clause_literal dbg) ls (st\<lparr>extension := ext\<rparr>) = Inr (st\<lparr>extension := ext @ map (ext_of st) ls\<rparr>)"
  using assms
proof (induction ls arbitrary: ext)
  case (Cons l ls)
  have l: "int_ok st l" "l \<noteq> 0" "ext_of st l \<noteq> 0" using Cons.prems by (auto simp: int_ok_def in_range_def ext_lit_def)
  have "externalize dbg l (st\<lparr>extension := ext\<rparr>) = Inr (ext_of st l)"
    using externalize_ok [OF l(1), of dbg] by simp
  then show ?case using Cons.IH [of "ext @ [ext_of st l]"] Cons.prems l by (simp add: push_clause_literal_def cassert_def)
qed simp

definition entry_of :: "external \<Rightarrow> u64 \<times> int list \<Rightarrow> int \<Rightarrow> entry" where
  "entry_of st c pivot = ([ext_of st pivot], fst c, map (ext_of st) (snd c))"

lemma push_pivot:
  assumes "int_ok st pivot"
  shows "\<exists>bits. push_witness_literal dbg pivot (st\<lparr>extension := ext\<rparr>) =
      Inr (st\<lparr>extension := ext @ [ext_of st pivot], witness := bits\<rparr>) \<and>
    (\<forall>k. k \<noteq> 0 \<longrightarrow> has_mark bits k \<longleftrightarrow> has_mark (witness st) k \<or> k = ext_of st pivot)"
proof -
  have l: "pivot \<noteq> 0" "ext_of st pivot \<noteq> 0" "ext_lit st (ext_of st pivot)"
    using assms by (auto simp: int_ok_def in_range_def ext_lit_def)
  have e: "externalize dbg pivot (st\<lparr>extension := ext\<rparr>) = Inr (ext_of st pivot)"
    using externalize_ok [OF assms, of dbg] by simp
  let ?st = "st\<lparr>extension := ext @ [ext_of st pivot]\<rparr>"
  have l2: "ext_lit ?st (ext_of st pivot)" using l(3) by (simp add: ext_lit_def)
  obtain b where b: "mark dbg (witness st) (ext_of st pivot) ?st = Inr b"
    "\<forall>k. k \<noteq> 0 \<longrightarrow> has_mark b k \<longleftrightarrow> k = ext_of st pivot \<or> has_mark (witness st) k"
    using mark_ok [OF l2] by blast
  show ?thesis
  proof (cases "has_mark (witness st) (ext_of st pivot)")
    case True
    then show ?thesis using l e marked_ok [OF l2, of dbg "witness st"]
      by (intro exI [of _ "witness st"]) (auto simp: push_witness_literal_def cassert_def)
  next
    case False
    then show ?thesis using l e b marked_ok [OF l2, of dbg "witness st"]
      by (intro exI [of _ b]) (auto simp: push_witness_literal_def cassert_def)
  qed
qed

lemma push_clause_with_pivot_ok:
  assumes "int_ok st pivot" "\<forall>l \<in> set (snd c). int_ok st l"
  shows "\<exists>bits. push_clause_with_pivot dbg c pivot st =
      Inr (st\<lparr>extension := extension st @ entry_list (entry_of st c pivot), witness := bits\<rparr>) \<and>
    (\<forall>k. k \<noteq> 0 \<longrightarrow> has_mark bits k \<longleftrightarrow> has_mark (witness st) k \<or> k = ext_of st pivot)"
proof -
  obtain bits where bits: "push_witness_literal dbg pivot (push_zero st) =
      Inr (st\<lparr>extension := extension st @ [0] @ [ext_of st pivot], witness := bits\<rparr>)"
    "\<forall>k. k \<noteq> 0 \<longrightarrow> has_mark bits k \<longleftrightarrow> has_mark (witness st) k \<or> k = ext_of st pivot"
    using push_pivot [OF assms(1), of dbg "extension st @ [0]"] by (auto simp: push_zero_def)
  let ?st = "st\<lparr>witness := bits\<rparr>"
  have lits: "\<forall>l \<in> set (snd c). int_ok ?st l" "ext_of ?st = ext_of st"
    using assms(2) by (auto simp: int_ok_def ext_lit_def ext_of_def fun_eq_iff)
  have "fold_res (push_clause_literal dbg) (snd c) (?st\<lparr>extension := ext\<rparr>) = Inr (?st\<lparr>extension := ext @ map (ext_of st) (snd c)\<rparr>)"
    for ext using push_literals [OF lits(1)] lits(2) by simp
  from this [of "extension st @ 0 # ext_of st pivot # 0 # id_entries (fst c) @ [0]"]
  have "push_clause_with_pivot dbg c pivot st =
      Inr (st\<lparr>extension := extension st @ entry_list (entry_of st c pivot), witness := bits\<rparr>)"
    using bits(1) by (simp add: push_clause_with_pivot_def push_clause_def push_zero_def push_id_def entry_list_def entry_of_def)
  then show ?thesis using bits(2) by blast
qed

lemma push_binary_clause_eq: "push_binary_clause dbg i pivot other = push_clause_with_pivot dbg (i, [pivot, other]) pivot"
  by (auto simp: fun_eq_iff push_binary_clause_def push_clause_with_pivot_def push_clause_def push_zero_def push_id_def
      bind_res_def split: sum.splits)

lemma push_all_ok:
  assumes "\<forall>(c, pivot) \<in> set ps. int_ok st pivot \<and> (\<forall>l \<in> set (snd c). int_ok st l)"
  shows "\<exists>bits. fold_res (\<lambda>(c, pivot). push_clause_with_pivot dbg c pivot) ps (st\<lparr>extension := flatten es, witness := w\<rparr>) =
    Inr (st\<lparr>extension := flatten (es @ map (\<lambda>(c, pivot). entry_of st c pivot) ps), witness := bits\<rparr>)"
  using assms
proof (induction ps arbitrary: es w)
  case (Cons p ps)
  obtain c pivot where p: "p = (c, pivot)" by (cases p)
  let ?st = "st\<lparr>extension := flatten es, witness := w\<rparr>"
  have ok: "int_ok ?st pivot" "\<forall>l \<in> set (snd c). int_ok ?st l"
    using Cons.prems p by simp_all
  have e: "entry_of ?st c pivot = entry_of st c pivot" by (simp add: entry_of_def)
  obtain bits where bits: "push_clause_with_pivot dbg c pivot ?st =
      Inr (st\<lparr>extension := flatten (es @ [entry_of st c pivot]), witness := bits\<rparr>)"
    using push_clause_with_pivot_ok [OF ok, of dbg] e by auto
  have "\<forall>(c, pivot) \<in> set ps. int_ok st pivot \<and> (\<forall>l \<in> set (snd c). int_ok st l)"
    using Cons.prems by simp
  from Cons.IH [OF this, where es = "es @ [entry_of st c pivot]" and w = bits] show ?case
    unfolding p fold_res.simps case_prod_conv bits bind_res_Inr by simp
qed auto

section \<open>The model shown to a proof\<close>

text \<open>\<open>concluded\<close> is a flag of the external solver; the model is what the proof tracers are given.\<close>

definition conclude_sat :: "(int \<Rightarrow> int) \<Rightarrow> ext_opts \<Rightarrow> bool \<Rightarrow> bool \<Rightarrow> external \<Rightarrow> (int list option \<times> external) res" where
  "conclude_sat val opts dbg concluded st =
     (if \<not> has_proof opts \<or> concluded then Inr (None, st)
      else bind_res (if \<not> extended st then extend val dbg st else Inr st) (\<lambda>st.
           bind_res (fold_res (\<lambda>lit model.
               bind_res (ival dbg lit st) (\<lambda>value.
               bind_res (cassert dbg (value \<noteq> 0)) (\<lambda>_.
                 Inr (model @ [if value < 0 then - lit else lit])))) [1..ext_max_var st] []) (\<lambda>model.
             Inr (Some model, st))))"

lemma conclude_sat_model:
  assumes "ext_max_var st \<le> INT_MAX" "has_proof opts" "extended st"
  shows "conclude_sat val opts dbg False st =
    Inr (Some (map (\<lambda>v. if asg st (nat v) then v else - v) [1..ext_max_var st]), st)"
proof -
  have "fold_res (\<lambda>lit model. bind_res (ival dbg lit st) (\<lambda>value. bind_res (cassert dbg (value \<noteq> 0)) (\<lambda>_.
          Inr (model @ [if value < 0 then - lit else lit])))) ls acc =
        Inr (acc @ map (\<lambda>v. if asg st (nat v) then v else - v) ls)"
    if "\<forall>v \<in> set ls. 1 \<le> v \<and> v \<le> ext_max_var st" for ls acc
    using that
  proof (induction ls arbitrary: acc)
    case (Cons v ls)
    have l: "ext_lit st v" using Cons.prems assms(1) by (auto simp: ext_lit_def)
    obtain r where r: "ival dbg v st = Inr r" "r > 0 \<longleftrightarrow> asg st (nat v)" "r < 0 \<longleftrightarrow> \<not> asg st (nat v)"
      using ival_asg [OF l, of dbg] Cons.prems by (auto simp: sat_lit_def)
    then have "r \<noteq> 0" by auto
    then show ?case using Cons r by (auto simp: cassert_def)
  qed simp
  from this [of "[1..ext_max_var st]" "[]"] show ?thesis using assms(2,3) by (simp add: conclude_sat_def)
qed

section \<open>Properties\<close>

text \<open>
  C30: If every removed clause is redundant by its witness in what remained, \<^verbatim>\<open>extend\<close> returns, whatever the old
  values, and afterwards \<^verbatim>\<open>ival\<close> gives every clause of the formula and every removed clause a literal with a
  positive value.
\<close>

theorem extend_sound:
  assumes "mapping_ok st" "\<not> extended st" "extension st = flatten es" "\<forall>e \<in> set es. entry_ok st e"
    and "\<And>i. val (- i) = - val i" "redundant_stack F es"
    and "\<forall>c \<in> F. (\<forall>l \<in> set c. ext_lit st l) \<and> val_sat val st c"
  shows "\<exists>st'. extend val dbg st = Inr st' \<and> extended st' \<and>
    (\<forall>c \<in> F \<union> clauses_of es. \<exists>l \<in> set c. \<exists>v. ival dbg l st' = Inr v \<and> v > 0)"
proof -
  have len: "nat (ext_max_var st) < length (e2i st)" using assms(1) by (simp add: mapping_ok_def)
  obtain st' vs where st': "extend val dbg st = Inr st'" "extended st'" "st' = st\<lparr>vals := vs, extended := True\<rparr>"
    "models (asg st') (F \<union> clauses_of es)"
    using extend_ok [OF len assms(2-7), of dbg] by blast
  have "\<exists>l \<in> set c. \<exists>v. ival dbg l st' = Inr v \<and> v > 0" if c: "c \<in> F \<union> clauses_of es" for c
  proof -
    obtain l where l: "l \<in> set c" "sat_lit (asg st') l" using st'(4) c by (auto simp: models_def sat_clause_def)
    have "ext_lit st l" using assms(4,7) c l(1) by (auto simp: entry_ok_def)
    then have "ext_lit st' l" by (simp add: st'(3) ext_lit_def)
    from ival_asg [OF this, of dbg] l show ?thesis by blast
  qed
  then show ?thesis using st'(1,2) by blast
qed

definition example_external :: external where
  "example_external =
     \<lparr>ext_max_var = 2, ext_vsize = 3, vals = [], e2i = [0, 1, 2], i2e = [0, 1, 2], moltentab = [], eclause = [],
      extended = False, extension = [0, 1, 0, 0, 7, 0, 1, 2], witness = [True], tainted = [False, True],
      internal = init_vars 2 var_state_new, original = [], clauses_added = []\<rparr>"

definition example_stack :: "entry list" where
  "example_stack = [([1], 7, [1, 2])]"

lemma low_int_7: "low_int 7 = 7"
  using sint_ucast_small [of 7] by (simp add: low_int_def)

lemma example_mapping:
  "mapping_ok example_external" "restorable example_external" "extension example_external = flatten example_stack"
  "\<forall>e \<in> set example_stack. entry_ok example_external e \<and> entry_id e < 2 ^ 31"
proof -
  have v: "vars_ok (init_vars 2 var_state_new)" "max_var (init_vars 2 var_state_new) = 2"
    using init_vars_ok [OF new_vars_ok, of 2] by (auto simp: INT_MAX_def var_state_new_def)
  then show m: "mapping_ok example_external"
    by (auto simp: mapping_ok_def example_external_def INT_MAX_def in_range_def)
  then show "restorable example_external"
    using v by (auto simp: restorable_def room_def example_external_def INT_MAX_def)
  show "extension example_external = flatten example_stack"
    by (simp add: example_external_def example_stack_def entry_list_def id_entries_eq low_int_7)
  show "\<forall>e \<in> set example_stack. entry_ok example_external e \<and> entry_id e < 2 ^ 31"
    by (simp add: example_stack_def example_external_def entry_ok_def ext_lit_def INT_MAX_def low_int_7)
qed

lemma example_redundant: "redundant_stack {} example_stack" "redundant_stack {[-2]} example_stack"
  unfolding example_stack_def by (rule blocked_clause_redundant; simp)+

theorem extend_sound_witness:
  "\<exists>st'. extend (\<lambda>i. - i) True example_external = Inr st' \<and>
    (\<exists>l \<in> {1, 2}. \<exists>v. ival True l st' = Inr v \<and> v > 0) \<and> (\<exists>v. ival True (-2) st' = Inr v \<and> v > 0)"
proof -
  have "\<not> extended example_external" by (simp add: example_external_def)
  moreover have "\<forall>c \<in> {[-2]}. (\<forall>l \<in> set c. ext_lit example_external l) \<and> val_sat (\<lambda>i. - i) example_external c"
    by (simp add: example_external_def ext_lit_def INT_MAX_def val_sat_def int_lit_def)
  moreover have "\<forall>e \<in> set example_stack. entry_ok example_external e" using example_mapping(4) by blast
  ultimately show ?thesis
    using extend_sound [OF example_mapping(1) _ example_mapping(3), of "\<lambda>i. - i" "{[-2]}" True] example_redundant(2)
    by (auto simp: example_stack_def)
qed

text \<open>
  C31: Incremental solving is sound: \<^verbatim>\<open>restore_clauses\<close> returns, hands clauses of the stack to the internal solver (with
  their ids, in internal literals) and keeps others; and if the internal solver then satisfies the formula, the
  new clauses and the restored ones, \<^verbatim>\<open>extend\<close> gives an assignment that also satisfies every clause that was on the
  stack: the kept ones, and those dropped because a literal was fixed.
\<close>

theorem incremental_sound:
  assumes st: "incremental st F N es" "\<not> extended st"
    and opts: "\<not> checkfrozen opts" "restoreall opts = 2 \<or> tainted st \<noteq> []"
    and fx: "fixed_sound ifixed (length (clauses_added st)) (F \<union> N)"
    and neg: "\<And>i. val (- i) = - val i"
    and sat: "\<And>st' rs. restore_clauses ifixed opts dbg st = Inr st' \<Longrightarrow> clauses_added st' = clauses_added st @ map (handed st') rs \<Longrightarrow>
      set rs \<subseteq> set es \<Longrightarrow> maps_kept st st' \<Longrightarrow>
      \<forall>c \<in> F \<union> N \<union> clauses_of rs. (\<forall>l \<in> set c. ext_lit st l) \<and> val_sat val st' c"
  shows "\<exists>st' kept rs st''. restore_clauses ifixed opts dbg st = Inr st' \<and> extension st' = flatten kept \<and>
    clauses_added st' = clauses_added st @ map (handed st') rs \<and>
    extend val dbg st' = Inr st'' \<and> models (asg st'') (F \<union> N \<union> clauses_of es)"
proof -
  obtain st' kept rs where R: "restore_clauses ifixed opts dbg st = Inr st'" "restorable st'"
    "extension st' = flatten kept" "set kept \<subseteq> set es" "set rs \<subseteq> set es"
    "clauses_added st' = clauses_added st @ map (handed st') rs" "redundant_stack (F \<union> N \<union> clauses_of rs) kept"
    "\<forall>M. models M (F \<union> N \<union> clauses_of rs \<union> clauses_of kept) \<longrightarrow> models M (clauses_of es)"
    "maps_kept st st'" "ext_max_var st' = ext_max_var st" "extended st' = extended st"
    using restore_clauses_ok [OF st(1) opts fx, of dbg] by blast
  have lit: "ext_lit st' l = ext_lit st l" for l by (simp add: ext_lit_def R(10))
  have "mapping_ok st'" using R(2) by (simp add: restorable_def)
  then have len: "nat (ext_max_var st') < length (e2i st')" by (simp add: mapping_ok_def)
  have ok: "\<forall>e \<in> set kept. entry_ok st' e" using st(1) R(4) by (auto simp: incremental_def entry_ok_def lit)
  have nx: "\<not> extended st'" using st(2) R(11) by simp
  have F: "\<forall>c \<in> F \<union> N \<union> clauses_of rs. (\<forall>l \<in> set c. ext_lit st' l) \<and> val_sat val st' c"
    using sat [OF R(1,6,5,9)] lit by simp
  obtain st'' where E: "extend val dbg st' = Inr st''" "models (asg st'') (F \<union> N \<union> clauses_of rs \<union> clauses_of kept)"
    using extend_ok [OF len nx R(3) ok neg R(7) F, of dbg] by blast
  then have "models (asg st'') (F \<union> N \<union> clauses_of es)" using R(8) by auto
  then show ?thesis using R(1,3,6) E(1) by blast
qed

definition example_opts :: ext_opts where
  "example_opts = \<lparr>checkfrozen = False, restoreall = 0, restoreflush = False, has_proof = False\<rparr>"

definition example_val :: "int \<Rightarrow> int" where
  "example_val i = (if \<bar>i\<bar> = 1 then - i else i)"

theorem incremental_sound_witness:
  "\<exists>st' kept rs st''. restore_clauses (\<lambda>_ _. 0) example_opts True example_external = Inr st' \<and>
    extension st' = flatten kept \<and> clauses_added st' = map (handed st') rs \<and>
    extend example_val True st' = Inr st'' \<and> models (asg st'') {[-1], [1, 2]}"
proof -
  have "incremental example_external {} {[-1]} example_stack"
    unfolding incremental_def
    using example_mapping example_redundant
    by (auto simp: witnesses_marked_def taints_def example_stack_def example_external_def has_mark_def ulit_def)
  moreover have "\<not> extended example_external" "\<not> checkfrozen example_opts" "tainted example_external \<noteq> []"
    by (simp_all add: example_external_def example_opts_def)
  moreover have "fixed_sound (\<lambda>_ _. 0) (length (clauses_added example_external)) ({} \<union> {[-1]})"
    by (simp add: fixed_sound_def fixed_true_def)
  moreover have "example_val (- i) = - example_val i" for i by (simp add: example_val_def)
  moreover have "\<forall>c \<in> {} \<union> {[-1]} \<union> clauses_of rs. (\<forall>l \<in> set c. ext_lit example_external l) \<and> val_sat example_val st' c"
    if "set rs \<subseteq> set example_stack" "maps_kept example_external st'" for st' rs
  proof -
    have l: "ext_lit example_external l \<and> int_lit example_external l = l" if "l \<in> {1, -1, 2}" for l
      using that by (auto simp: example_external_def ext_lit_def INT_MAX_def int_lit_def)
    have i: "int_lit st' l = l" if "l \<in> {1, -1, 2}" for l
      using l [OF that] \<open>maps_kept example_external st'\<close> that by (auto simp: maps_kept_def)
    have "{} \<union> {[-1]} \<union> clauses_of rs \<subseteq> {[-1], [1, 2]}" using that(1) by (auto simp: example_stack_def)
    moreover have "\<forall>c \<in> {[-1], [1, 2]}. (\<forall>l \<in> set c. ext_lit example_external l) \<and> val_sat example_val st' c"
      using l i by (simp add: val_sat_def example_val_def)
    ultimately show ?thesis by blast
  qed
  ultimately obtain st' kept rs st'' where
    "restore_clauses (\<lambda>_ _. 0) example_opts True example_external = Inr st'" "extension st' = flatten kept"
    "clauses_added st' = clauses_added example_external @ map (handed st') rs"
    "extend example_val True st' = Inr st''" "models (asg st'') ({} \<union> {[-1]} \<union> clauses_of example_stack)"
    using incremental_sound [of example_external "{}" "{[-1]}" example_stack example_opts "\<lambda>_ _. 0" example_val True] by blast
  moreover have "clauses_added example_external = []" by (simp add: example_external_def)
  ultimately show ?thesis by (auto simp: example_stack_def)
qed

text \<open>
  C32: Clauses pushed with their pivot are visited by both traversals, with witness, id and literals mapped to
  external ones, the last one first by the backward traversal; for ids below \<open>2 ^ 31\<close>.
\<close>

theorem extension_round_trip:
  assumes "extension st = []"
    and "\<forall>(c, pivot) \<in> set ps. int_ok st pivot \<and> (\<forall>l \<in> set (snd c). int_ok st l) \<and> snd c \<noteq> [] \<and> 0 < fst c \<and> fst c < 2 ^ 31"
  shows "\<exists>st'. fold_res (\<lambda>(c, pivot). push_clause_with_pivot dbg c pivot) ps st = Inr st' \<and>
    traverse_witnesses_backward it False dbg st' s = Inr (visit_all it (rev (map (\<lambda>(c, pivot). entry_of st c pivot) ps)) s) \<and>
    traverse_witnesses_forward it False dbg st' s = Inr (visit_all it (map (\<lambda>(c, pivot). entry_of st c pivot) ps) s)"
proof -
  let ?es = "map (\<lambda>(c, pivot). entry_of st c pivot) ps"
  have "st = st\<lparr>extension := flatten [], witness := witness st\<rparr>" using assms(1) by simp
  moreover have "\<forall>(c, pivot) \<in> set ps. int_ok st pivot \<and> (\<forall>l \<in> set (snd c). int_ok st l)" using assms(2) by fastforce
  ultimately obtain bits where run: "fold_res (\<lambda>(c, pivot). push_clause_with_pivot dbg c pivot) ps st =
      Inr (st\<lparr>extension := flatten ?es, witness := bits\<rparr>)"
    using push_all_ok [of ps st dbg "witness st" "[]"] by auto
  let ?st' = "st\<lparr>extension := flatten ?es, witness := bits\<rparr>"
  have ok: "entry_ok st e \<and> entry_id e < 2 ^ 31 \<and> entry_clause e \<noteq> []" if "e \<in> set ?es" for e
  proof -
    obtain c pivot where c: "(c, pivot) \<in> set ps" "e = entry_of st c pivot" using \<open>e \<in> set ?es\<close> by auto
    then have c': "int_ok st pivot" "\<forall>l \<in> set (snd c). int_ok st l" "snd c \<noteq> []" "0 < fst c" "fst c < 2 ^ 31"
      using assms(2) by auto
    have "low_int (fst c) \<noteq> 0" using read_id_small [OF c'(5)] c'(4) by (auto simp: read_id_def)
    then show ?thesis using c c' by (auto simp: entry_ok_def entry_of_def int_ok_def)
  qed
  have b: "traverse_witnesses_backward it False dbg ?st' s = Inr (visit_all it (rev ?es) s)"
    using backward_loop_entries [of ?es st it dbg s] ok by (simp add: traverse_witnesses_backward_def)
  have "traverse_witnesses_forward it False dbg ?st' s = Inr (visit_all it ?es s)"
  proof (cases "?es = []")
    case True
    then show ?thesis by (simp add: traverse_witnesses_forward_def)
  next
    case False
    then have "flatten ?es = 0 # tl (flatten ?es)" by (cases ?es) (simp_all add: entry_list_def)
    then obtain r where r: "flatten ?es = 0 # r" "tl (flatten ?es) = r" by blast
    then show ?thesis
      using forward_loop_entries [of ?es st it dbg s] ok False by (simp add: traverse_witnesses_forward_def)
  qed
  then show ?thesis using run b by blast
qed

definition collect :: "entry list visitor" where
  "collect c w i s = (True, s @ [(w, i, c)])"

lemma example_int_ok: "l \<in> {1, -1, 2, -2} \<Longrightarrow> int_ok (example_external\<lparr>extension := []\<rparr>) l"
  using init_vars_ok [OF new_vars_ok, of 2]
  by (auto simp: int_ok_def example_external_def in_range_def ext_of_def ext_lit_def INT_MAX_def var_state_new_def)

theorem extension_round_trip_witness:
  "\<exists>st'. fold_res (\<lambda>(c, pivot). push_clause_with_pivot True c pivot) [((7 :: u64, [1, 2]), 1), ((8, [-1, 2]), -1)]
      (example_external\<lparr>extension := []\<rparr>) = Inr st' \<and>
    traverse_witnesses_forward collect False True st' [] = Inr (True, [([1], 7, [1, 2]), ([-1], 8, [-1, 2])])"
proof -
  have "extension (example_external\<lparr>extension := []\<rparr>) = []" by simp
  moreover have "\<forall>(c, pivot) \<in> set [((7 :: u64, [1, 2]), 1), ((8, [-1, 2]), -1)]. int_ok (example_external\<lparr>extension := []\<rparr>) pivot \<and>
      (\<forall>l \<in> set (snd c). int_ok (example_external\<lparr>extension := []\<rparr>) l) \<and> snd c \<noteq> [] \<and> 0 < fst c \<and> fst c < 2 ^ 31"
    using example_int_ok by simp
  moreover have "visit_all collect (map (\<lambda>(c, pivot). entry_of (example_external\<lparr>extension := []\<rparr>) c pivot)
      [((7 :: u64, [1, 2]), 1), ((8, [-1, 2]), -1)]) [] = (True, [([1], 7, [1, 2]), ([-1], 8, [-1, 2])])"
    by (simp add: collect_def entry_of_def ext_of_def example_external_def)
  ultimately show ?thesis
    using extension_round_trip [of "example_external\<lparr>extension := []\<rparr>" "[((7 :: u64, [1, 2]), 1), ((8, [-1, 2]), -1)]" True collect "[]"]
    by auto
qed

text \<open>
  Larger ids are not preserved: the lower half is read back as a signed number and the upper half was never
  stored, so for an id from \<open>2 ^ 31\<close> to \<open>2 ^ 32 - 1\<close> the backward traversal reports an id that is larger by
  \<open>0xFFFFFFFF00000000\<close>.
\<close>

theorem large_id_misread:
  assumes "extension st = []" "int_ok st pivot" "\<forall>l \<in> set c. int_ok st l" "2 ^ 31 \<le> i" "i < 2 ^ 32"
  shows "\<exists>st'. push_clause_with_pivot dbg (i, c) pivot st = Inr st' \<and>
    traverse_witnesses_backward collect False dbg st' [] =
      Inr (True, [([ext_of st pivot], i + 0xFFFFFFFF00000000, map (ext_of st) c)])"
proof -
  let ?e = "entry_of st (i, c) pivot"
  obtain bits where run: "push_clause_with_pivot dbg (i, c) pivot st = Inr (st\<lparr>extension := entry_list ?e, witness := bits\<rparr>)"
    using push_clause_with_pivot_ok [of st pivot "(i, c)" dbg] assms by auto
  have w: "0 \<notin> set (rev (map (ext_of st) c))" "ext_of st pivot \<noteq> 0" using assms(2,3) by (auto simp: int_ok_def ext_lit_def)
  have "i + 0xFFFFFFFF00000000 \<noteq> 0"
  proof
    assume "i + 0xFFFFFFFF00000000 = 0"
    then have "i = - 0xFFFFFFFF00000000" by (metis add_eq_0_iff2)
    then show False using assms(5) by simp
  qed
  then have "read_entry_backward dbg (rev (entry_list ?e)) =
      Inr (map (ext_of st) c, [ext_of st pivot], i + 0xFFFFFFFF00000000, [])"
    using read_zero_entry [OF w(1)] w(2) read_id_large [OF assms(4,5)]
    by (simp add: rev_entry_list entry_of_def read_entry_backward_def cassert_def Let_def)
  moreover have "rev (entry_list ?e) \<noteq> []" by (simp add: entry_list_def)
  ultimately have "backward_loop collect dbg (rev (entry_list ?e)) [] =
      Inr (True, [([ext_of st pivot], i + 0xFFFFFFFF00000000, map (ext_of st) c)])"
    by (subst backward_loop.simps) (simp add: collect_def backward_loop.simps [of _ _ "[]"])
  then show ?thesis using run by (simp add: traverse_witnesses_backward_def)
qed

theorem large_id_misread_witness:
  "\<exists>st'. push_clause_with_pivot True (0x80000000, [1, 2]) 1 (example_external\<lparr>extension := []\<rparr>) = Inr st' \<and>
    traverse_witnesses_backward collect False True st' [] = Inr (True, [([1], 0xFFFFFFFF80000000, [1, 2])])"
  using large_id_misread [of "example_external\<lparr>extension := []\<rparr>" 1 "[1, 2]" "0x80000000" True] example_int_ok
  by (simp add: ext_of_def example_external_def)

end
