(* ===== verification/BinaryHeap.thy ===== *)
theory BinaryHeap
  imports Prelude
begin

unbundle bit_operations_syntax

text \<open>
  The priority queue of the SAT solver: \<^verbatim>\<open>lib/cadical/src/heap.hpp\<close>, a binary heap over unsigned numbers with a
  table of positions, and its users \<^verbatim>\<open>score.cpp\<close>, \<^verbatim>\<open>decide.cpp\<close> and the orders of \<^verbatim>\<open>internal.hpp\<close> and \<^verbatim>\<open>block.cpp\<close>.
  The order is a template parameter of the code and an argument here; the locale \<open>heap_order\<close> states what the
  heap needs of it.  The flag \<open>dbg\<close> says whether assertions are compiled in; those of the orders themselves, that the
  elements are variables, are left out.
\<close>

section \<open>The heap\<close>

record heap =
  array :: "u32 list"
  pos :: "u32 list"

definition invalid_heap_position :: u32 where
  "invalid_heap_position = 0xFFFFFFFF"

definition heap_new :: heap where
  "heap_new = \<lparr>array = [], pos = []\<rparr>"

text \<open>The position entry of an element, which is made when it is missing: its value, and the heap.\<close>

definition index :: "bool \<Rightarrow> u32 \<Rightarrow> heap \<Rightarrow> (u32 \<times> heap) res" where
  "index dbg e h =
     (let h = (if unat e \<ge> length (pos h) then h\<lparr>pos := resize (1 + unat e) invalid_heap_position (pos h)\<rparr> else h);
          r = pos h ! unat e
      in bind_res (cassert dbg (r = invalid_heap_position \<or> unat r < length (array h))) (\<lambda>_. Inr (r, h)))"

definition has_parent :: "bool \<Rightarrow> u32 \<Rightarrow> heap \<Rightarrow> (bool \<times> heap) res" where
  "has_parent dbg e h = bind_res (index dbg e h) (\<lambda>(i, h). Inr (i > 0, h))"

text \<open>\<open>has_left\<close> and \<open>has_right\<close> compute in \<^verbatim>\<open>size_t\<close>, the access to the children in \<^verbatim>\<open>unsigned\<close>.\<close>

definition has_left :: "bool \<Rightarrow> u32 \<Rightarrow> heap \<Rightarrow> (bool \<times> heap) res" where
  "has_left dbg e h = bind_res (index dbg e h) (\<lambda>(i, h). Inr (2 * unat i + 1 < length (array h), h))"

definition has_right :: "bool \<Rightarrow> u32 \<Rightarrow> heap \<Rightarrow> (bool \<times> heap) res" where
  "has_right dbg e h = bind_res (index dbg e h) (\<lambda>(i, h). Inr (2 * unat i + 2 < length (array h), h))"

definition assert_that :: "bool \<Rightarrow> (heap \<Rightarrow> (bool \<times> heap) res) \<Rightarrow> heap \<Rightarrow> heap res" where
  "assert_that dbg f h =
     (if dbg then bind_res (f h) (\<lambda>(b, h). if b then Inr h else Inl Aborted) else Inr h)"

definition parent :: "bool \<Rightarrow> u32 \<Rightarrow> heap \<Rightarrow> (u32 \<times> heap) res" where
  "parent dbg e h =
     bind_res (assert_that dbg (has_parent dbg e) h) (\<lambda>h.
     bind_res (index dbg e h) (\<lambda>(i, h).
     bind_res (get_at (array h) (unat ((i - 1) div 2))) (\<lambda>p. Inr (p, h))))"

definition left :: "bool \<Rightarrow> u32 \<Rightarrow> heap \<Rightarrow> (u32 \<times> heap) res" where
  "left dbg e h =
     bind_res (assert_that dbg (has_left dbg e) h) (\<lambda>h.
     bind_res (index dbg e h) (\<lambda>(i, h).
     bind_res (get_at (array h) (unat (2 * i + 1))) (\<lambda>c. Inr (c, h))))"

definition right :: "bool \<Rightarrow> u32 \<Rightarrow> heap \<Rightarrow> (u32 \<times> heap) res" where
  "right dbg e h =
     bind_res (assert_that dbg (has_right dbg e) h) (\<lambda>h.
     bind_res (index dbg e h) (\<lambda>(i, h).
     bind_res (get_at (array h) (unat (2 * i + 2))) (\<lambda>c. Inr (c, h))))"

text \<open>
  The code takes references to both positions; when the second access enlarges the table, the first reference
  dangles, which counts as out of range.
\<close>

definition exchange :: "bool \<Rightarrow> u32 \<Rightarrow> u32 \<Rightarrow> heap \<Rightarrow> heap res" where
  "exchange dbg a b h =
     bind_res (index dbg a h) (\<lambda>(i, h1).
     bind_res (index dbg b h1) (\<lambda>(j, h2).
       if length (pos h2) \<noteq> length (pos h1) then Inl OutOfRange
       else bind_res (get_at (array h2) (unat i)) (\<lambda>x.
            bind_res (get_at (array h2) (unat j)) (\<lambda>y.
              Inr (h2\<lparr>array := (array h2)[unat i := y, unat j := x],
                      pos := (pos h2)[unat a := j, unat b := i]\<rparr>)))))"

text \<open>Bubbling up and down; one turn of the loop returns whether to go on.\<close>

definition up_step :: "(u32 \<Rightarrow> u32 \<Rightarrow> bool) \<Rightarrow> bool \<Rightarrow> u32 \<Rightarrow> heap \<Rightarrow> (bool \<times> heap) res" where
  "up_step lesser dbg e h =
     bind_res (has_parent dbg e h) (\<lambda>(b, h).
       if \<not> b then Inr (False, h)
       else bind_res (parent dbg e h) (\<lambda>(p, h).
            if \<not> lesser p e then Inr (False, h)
            else bind_res (exchange dbg p e h) (\<lambda>h. Inr (True, h))))"

definition up :: "(u32 \<Rightarrow> u32 \<Rightarrow> bool) \<Rightarrow> bool \<Rightarrow> u32 \<Rightarrow> heap \<Rightarrow> heap res" where
  "up lesser dbg e = loop (up_step lesser dbg e)"

definition greater_child :: "(u32 \<Rightarrow> u32 \<Rightarrow> bool) \<Rightarrow> bool \<Rightarrow> u32 \<Rightarrow> heap \<Rightarrow> (u32 \<times> heap) res" where
  "greater_child lesser dbg e h =
     bind_res (left dbg e h) (\<lambda>(c, h).
     bind_res (has_right dbg e h) (\<lambda>(b, h).
       if b then bind_res (right dbg e h) (\<lambda>(r, h). Inr (if lesser c r then r else c, h))
       else Inr (c, h)))"

definition down_step :: "(u32 \<Rightarrow> u32 \<Rightarrow> bool) \<Rightarrow> bool \<Rightarrow> u32 \<Rightarrow> heap \<Rightarrow> (bool \<times> heap) res" where
  "down_step lesser dbg e h =
     bind_res (has_left dbg e h) (\<lambda>(b, h).
       if \<not> b then Inr (False, h)
       else bind_res (greater_child lesser dbg e h) (\<lambda>(c, h).
            if \<not> lesser e c then Inr (False, h)
            else bind_res (exchange dbg e c h) (\<lambda>h. Inr (True, h))))"

definition down :: "(u32 \<Rightarrow> u32 \<Rightarrow> bool) \<Rightarrow> bool \<Rightarrow> u32 \<Rightarrow> heap \<Rightarrow> heap res" where
  "down lesser dbg e = loop (down_step lesser dbg e)"

definition heap_empty :: "heap \<Rightarrow> bool" where
  "heap_empty h \<longleftrightarrow> array h = []"

definition contains :: "u32 \<Rightarrow> heap \<Rightarrow> bool" where
  "contains e h \<longleftrightarrow> unat e < length (pos h) \<and> pos h ! unat e \<noteq> invalid_heap_position"

definition set_index :: "bool \<Rightarrow> u32 \<Rightarrow> u32 \<Rightarrow> heap \<Rightarrow> heap res" where
  "set_index dbg e i h = bind_res (index dbg e h) (\<lambda>(_, h). Inr (h\<lparr>pos := (pos h)[unat e := i]\<rparr>))"

definition push_back :: "(u32 \<Rightarrow> u32 \<Rightarrow> bool) \<Rightarrow> bool \<Rightarrow> u32 \<Rightarrow> heap \<Rightarrow> heap res" where
  "push_back lesser dbg e h =
     bind_res (cassert dbg (\<not> contains e h)) (\<lambda>_.
     let i = length (array h)
     in bind_res (cassert dbg (i < unat invalid_heap_position)) (\<lambda>_.
        bind_res (set_index dbg e (word_of_nat i) (h\<lparr>array := array h @ [e]\<rparr>)) (\<lambda>h.
        bind_res (up lesser dbg e h) (down lesser dbg e))))"

definition front :: "bool \<Rightarrow> heap \<Rightarrow> u32 res" where
  "front dbg h = bind_res (cassert dbg (\<not> heap_empty h)) (\<lambda>_. get_at (array h) 0)"

definition pop_front :: "(u32 \<Rightarrow> u32 \<Rightarrow> bool) \<Rightarrow> bool \<Rightarrow> heap \<Rightarrow> (u32 \<times> heap) res" where
  "pop_front lesser dbg h =
     bind_res (cassert dbg (\<not> heap_empty h)) (\<lambda>_.
       if array h = [] then Inl OutOfRange
       else let r = array h ! 0; l = last (array h)
            in bind_res (if length (array h) > 1 then exchange dbg r l h else Inr h) (\<lambda>h.
               bind_res (set_index dbg r invalid_heap_position h) (\<lambda>h.
               let h = h\<lparr>array := butlast (array h)\<rparr>
               in bind_res (if length (array h) > 1 then down lesser dbg l h else Inr h) (\<lambda>h. Inr (r, h)))))"

definition update :: "(u32 \<Rightarrow> u32 \<Rightarrow> bool) \<Rightarrow> bool \<Rightarrow> u32 \<Rightarrow> heap \<Rightarrow> heap res" where
  "update lesser dbg e h =
     bind_res (cassert dbg (contains e h)) (\<lambda>_. bind_res (up lesser dbg e h) (down lesser dbg e))"

text \<open>\<^verbatim>\<open>clear\<close> and \<^verbatim>\<open>erase\<close> empty both vectors; \<^verbatim>\<open>erase\<close> and \<^verbatim>\<open>shrink\<close> also free memory.\<close>

definition clear :: "heap \<Rightarrow> heap" where
  "clear h = h\<lparr>array := [], pos := []\<rparr>"

section \<open>Users\<close>

text \<open>The order of the decision heap: by score, smaller variables first; \<open>stab\<close> is the table of scores.\<close>

definition score_smaller :: "(u32 \<Rightarrow> 'a :: linorder) \<Rightarrow> u32 \<Rightarrow> u32 \<Rightarrow> bool" where
  "score_smaller stab a b =
     (let s = stab a; t = stab b
      in if s < t then True else if s > t then False else a > b)"

text \<open>
  The order of literals for blocked clauses: by the occurrences \<open>noccs\<close> of the negation, then of the literal.  Literals
  are in the heap in their unsigned form, with the sign in the lowest bit.
\<close>

definition u2i :: "u32 \<Rightarrow> int" where
  "u2i u = (let r = uint (u div 2) in if u AND 1 \<noteq> 0 then - r else r)"

definition block_more_occs_size :: "(int \<Rightarrow> nat) \<Rightarrow> u32 \<Rightarrow> u32 \<Rightarrow> bool" where
  "block_more_occs_size noccs a b =
     (let s = noccs (- u2i a); t = noccs (- u2i b)
      in if s > t then True else if s < t then False
         else let s = noccs (u2i a); t = noccs (u2i b)
              in if s > t then True else if s < t then False else a > b)"

definition init_scores :: "(u32 \<Rightarrow> 'a :: linorder) \<Rightarrow> bool \<Rightarrow> int \<Rightarrow> int \<Rightarrow> heap \<Rightarrow> heap res" where
  "init_scores stab dbg old_max_var new_max_var =
     fold_res (\<lambda>i. push_back (score_smaller stab) dbg (word_of_int (i + 1))) [old_max_var..new_max_var - 1]"

text \<open>The decision: elements are dropped from the front until one is unassigned; \<open>val\<close> is the value of a variable.\<close>

definition decision_step :: "(u32 \<Rightarrow> 'a :: linorder) \<Rightarrow> (u32 \<Rightarrow> int) \<Rightarrow> bool \<Rightarrow> u32 \<times> heap \<Rightarrow> (bool \<times> u32 \<times> heap) res" where
  "decision_step stab val dbg s =
     bind_res (front dbg (snd s)) (\<lambda>r.
       if val r = 0 then Inr (False, r, snd s)
       else bind_res (pop_front (score_smaller stab) dbg (snd s)) (\<lambda>(_, h). Inr (True, r, h)))"

definition next_decision_variable_with_best_score ::
    "(u32 \<Rightarrow> 'a :: linorder) \<Rightarrow> (u32 \<Rightarrow> int) \<Rightarrow> bool \<Rightarrow> heap \<Rightarrow> (u32 \<times> heap) res" where
  "next_decision_variable_with_best_score stab val dbg h = loop (decision_step stab val dbg) (0, h)"

section \<open>Positions\<close>

definition position :: "u32 list \<Rightarrow> u32 \<Rightarrow> nat option" where
  "position ps e =
     (if unat e < length ps \<and> ps ! unat e \<noteq> invalid_heap_position then Some (unat (ps ! unat e)) else None)"

text \<open>The table holds exactly the positions of the elements; hence no element is in the heap twice.\<close>

definition heap_ok :: "heap \<Rightarrow> bool" where
  "heap_ok h \<longleftrightarrow>
     length (array h) \<le> 4294967295 \<and>
     (\<forall>e i. position (pos h) e = Some i \<longleftrightarrow> i < length (array h) \<and> array h ! i = e)"

lemma unat_invalid: "unat invalid_heap_position = 4294967295"
  by (simp add: invalid_heap_position_def)

lemma unat_slot_word: "i < 4294967296 \<Longrightarrow> unat (word_of_nat i :: u32) = i"
  by (simp add: unat_of_nat)

lemma position_update:
  assumes "unat a < length ps" "i < 4294967295"
  shows "position (ps[unat a := word_of_nat i]) e = (if e = a then Some i else position ps e)"
proof -
  have "unat (word_of_nat i :: u32) = i" using assms(2) by (simp add: unat_slot_word)
  moreover from this have "(word_of_nat i :: u32) \<noteq> invalid_heap_position" using assms(2) unat_invalid by auto
  ultimately show ?thesis using assms(1) by (auto simp: position_def nth_list_update word_unat_eq_iff [symmetric])
qed

lemma position_invalid:
  "position (ps[unat a := invalid_heap_position]) e = (if e = a then None else position ps e)"
  by (cases "unat a < length ps") (auto simp: position_def nth_list_update word_unat_eq_iff [symmetric])

lemma position_resize: "position (resize n invalid_heap_position ps) e = (if unat e < n then position ps e else None)"
  by (auto simp: position_def resize_def nth_append)

lemma contains_position: "contains e h \<longleftrightarrow> position (pos h) e \<noteq> None"
  by (simp add: contains_def position_def)

text \<open>\<open>at h e i\<close>: a well-formed heap with the element \<open>e\<close> in slot \<open>i\<close>.\<close>

definition at :: "heap \<Rightarrow> u32 \<Rightarrow> nat \<Rightarrow> bool" where
  "at h e i \<longleftrightarrow> heap_ok h \<and> i < length (array h) \<and> array h ! i = e"

lemma at_position: "at h e i \<Longrightarrow> position (pos h) e = Some i"
  by (simp add: at_def heap_ok_def)

lemma at_inj: "at h e i \<Longrightarrow> at h e j \<Longrightarrow> i = j"
  using at_position [of h e i] at_position [of h e j] by simp

lemma contains_at: "heap_ok h \<Longrightarrow> contains e h \<longleftrightarrow> (\<exists>i. at h e i)"
  by (auto simp: contains_position at_def heap_ok_def)

lemma contains_array: "heap_ok h \<Longrightarrow> contains e h \<longleftrightarrow> e \<in> set (array h)"
  by (auto simp: contains_at at_def in_set_conv_nth)

lemma at_bound: "at h e i \<Longrightarrow> i < 4294967295"
  by (auto simp: at_def heap_ok_def)

lemma index_at:
  assumes "at h e i"
  shows "index dbg e h = Inr (word_of_nat i, h)"
proof -
  have p: "unat e < length (pos h)" "unat (pos h ! unat e) = i"
    using at_position [OF assms] by (auto simp: position_def split: if_splits)
  from p(2) have "pos h ! unat e = word_of_nat i" by (metis of_nat_unat ucast_id)
  then show ?thesis using p assms by (auto simp: index_def cassert_def at_def)
qed

lemma unat_slot: "at h e i \<Longrightarrow> unat (word_of_nat i :: u32) = i"
  using at_bound [of h e i] by (simp add: unat_slot_word)

lemma has_parent_at: "at h e i \<Longrightarrow> has_parent dbg e h = Inr (0 < i, h)"
  using unat_slot [of h e i] by (auto simp: has_parent_def index_at word_less_nat_alt)

lemma has_left_at: "at h e i \<Longrightarrow> has_left dbg e h = Inr (2 * i + 1 < length (array h), h)"
  using unat_slot [of h e i] by (simp add: has_left_def index_at)

lemma has_right_at: "at h e i \<Longrightarrow> has_right dbg e h = Inr (2 * i + 2 < length (array h), h)"
  using unat_slot [of h e i] by (simp add: has_right_def index_at)

text \<open>The slot arithmetic in \<^verbatim>\<open>unsigned\<close> does not wrap for slots of the heap.\<close>

lemma slot_arith:
  assumes "i < 4294967295"
  shows "0 < i \<Longrightarrow> unat (((word_of_nat i :: u32) - 1) div 2) = (i - 1) div 2"
    and "2 * i + 1 < 4294967296 \<Longrightarrow> unat (2 * (word_of_nat i :: u32) + 1) = 2 * i + 1"
    and "2 * i + 2 < 4294967296 \<Longrightarrow> unat (2 * (word_of_nat i :: u32) + 2) = 2 * i + 2"
proof -
  have u: "unat (word_of_nat i :: u32) = i" using assms by (simp add: unat_slot_word)
  show "0 < i \<Longrightarrow> unat (((word_of_nat i :: u32) - 1) div 2) = (i - 1) div 2"
    using u unat_minus_u32 [of 1 "word_of_nat i"] by (simp add: unat_div)
  have "word_of_nat (2 * i + 1) = 2 * (word_of_nat i :: u32) + 1" "word_of_nat (2 * i + 2) = 2 * (word_of_nat i :: u32) + 2"
    by simp_all
  then show "2 * i + 1 < 4294967296 \<Longrightarrow> unat (2 * (word_of_nat i :: u32) + 1) = 2 * i + 1"
    "2 * i + 2 < 4294967296 \<Longrightarrow> unat (2 * (word_of_nat i :: u32) + 2) = 2 * i + 2"
    by (metis unat_slot_word)+
qed

lemma parent_at:
  assumes "at h e i" "0 < i"
  shows "parent dbg e h = Inr (array h ! ((i - 1) div 2), h)"
  using assms slot_arith(1) [OF at_bound [OF assms(1)]]
  by (auto simp: parent_def assert_that_def has_parent_at index_at at_def)

lemma child_at:
  assumes "at h e i"
  shows "2 * i + 1 < length (array h) \<Longrightarrow> left dbg e h = Inr (array h ! (2 * i + 1), h)"
    and "2 * i + 2 < length (array h) \<Longrightarrow> right dbg e h = Inr (array h ! (2 * i + 2), h)"
proof -
  have n: "length (array h) \<le> 4294967295" using assms by (simp add: at_def heap_ok_def)
  show "2 * i + 1 < length (array h) \<Longrightarrow> left dbg e h = Inr (array h ! (2 * i + 1), h)"
    using slot_arith(2) [OF at_bound [OF assms]] n by (auto simp: left_def assert_that_def has_left_at [OF assms] index_at [OF assms])
  show "2 * i + 2 < length (array h) \<Longrightarrow> right dbg e h = Inr (array h ! (2 * i + 2), h)"
    using slot_arith(3) [OF at_bound [OF assms]] n by (auto simp: right_def assert_that_def has_right_at [OF assms] index_at [OF assms])
qed

definition swapped :: "nat \<Rightarrow> nat \<Rightarrow> 'a list \<Rightarrow> 'a list" where
  "swapped i j xs = xs[i := xs ! j, j := xs ! i]"

lemma swapped_nth:
  "i < length xs \<Longrightarrow> j < length xs \<Longrightarrow> k < length xs \<Longrightarrow>
     swapped i j xs ! k = (if k = i then xs ! j else if k = j then xs ! i else xs ! k)"
  by (auto simp: swapped_def nth_list_update)

lemma length_swapped [simp]: "length (swapped i j xs) = length xs"
  by (simp add: swapped_def)

lemma mset_swapped: "i < length xs \<Longrightarrow> j < length xs \<Longrightarrow> mset (swapped i j xs) = mset xs"
  by (simp add: swapped_def mset_swap)

lemma exchange_at:
  assumes "at h a i" "at h b j" "i \<noteq> j"
  shows "\<exists>h'. exchange dbg a b h = Inr h' \<and> array h' = swapped i j (array h) \<and> at h' a j \<and> at h' b i"
proof -
  let ?h' = "h\<lparr>array := swapped i j (array h), pos := (pos h)[unat a := word_of_nat j, unat b := word_of_nat i]\<rparr>"
  have ij: "i < length (array h)" "j < length (array h)" "array h ! i = a" "array h ! j = b"
    using assms by (auto simp: at_def)
  have ab: "a \<noteq> b" using at_inj assms by blast
  have inj: "array h ! k = a \<longleftrightarrow> k = i" "array h ! k = b \<longleftrightarrow> k = j" if "k < length (array h)" for k
    using at_inj [OF assms(1), of k] at_inj [OF assms(2), of k] that assms ij by (auto simp: at_def)
  have l: "unat a < length (pos h)" "unat b < length (pos h)"
    using at_position [OF assms(1)] at_position [OF assms(2)] by (auto simp: position_def split: if_splits)
  have p: "position ((pos h)[unat a := word_of_nat j, unat b := word_of_nat i]) e = (if e = b then Some i else if e = a then Some j else position (pos h) e)" for e
    using l at_bound [OF assms(1)] at_bound [OF assms(2)] by (simp add: position_update)
  have "position (pos ?h') e = Some k \<longleftrightarrow> k < length (array ?h') \<and> array ?h' ! k = e" for e k
  proof (cases "k < length (array h)")
    case True
    have "position (pos h) e = Some k \<longleftrightarrow> array h ! k = e" using assms(1) True by (simp add: at_def heap_ok_def)
    then show ?thesis using True inj [OF True] ij assms(3) ab by (simp add: p swapped_nth) blast
  next
    case False
    have "position (pos h) e \<noteq> Some k" using assms(1) False by (simp add: at_def heap_ok_def)
    then show ?thesis using False ij(1,2) by (auto simp: p)
  qed
  then have "heap_ok ?h'" using assms(1) by (simp add: heap_ok_def at_def)
  moreover have "exchange dbg a b h = Inr ?h'"
    using ij unat_slot [OF assms(1)] unat_slot [OF assms(2)]
    by (simp add: exchange_def index_at [OF assms(1)] index_at [OF assms(2)] swapped_def)
  ultimately show ?thesis using ij assms(3) by (auto simp: at_def swapped_nth)
qed

section \<open>Order\<close>

text \<open>The slot above a slot, and the edge from it.\<close>

definition above :: "nat \<Rightarrow> nat" where
  "above j \<equiv> (j - 1) div 2"

definition edge :: "(u32 \<Rightarrow> u32 \<Rightarrow> bool) \<Rightarrow> u32 list \<Rightarrow> nat \<Rightarrow> bool" where
  "edge lesser xs j \<longleftrightarrow> j = 0 \<or> \<not> lesser (xs ! above j) (xs ! j)"

definition ordered :: "(u32 \<Rightarrow> u32 \<Rightarrow> bool) \<Rightarrow> u32 list \<Rightarrow> bool" where
  "ordered lesser xs \<longleftrightarrow> (\<forall>j < length xs. edge lesser xs j)"

text \<open>Ordered but for the element in slot \<open>i\<close>: the slot above bounds the children.\<close>

definition almost :: "(u32 \<Rightarrow> u32 \<Rightarrow> bool) \<Rightarrow> u32 list \<Rightarrow> nat \<Rightarrow> bool" where
  "almost lesser xs i \<longleftrightarrow>
     (\<forall>j < length xs. j \<noteq> i \<longrightarrow> above j \<noteq> i \<longrightarrow> edge lesser xs j) \<and>
     (\<forall>j < length xs. 0 < i \<longrightarrow> 0 < j \<longrightarrow> above j = i \<longrightarrow> \<not> lesser (xs ! above i) (xs ! j))"

lemma above_less: "0 < j \<Longrightarrow> above j < j"
  unfolding above_def by linarith

lemma above_child: "0 < j \<Longrightarrow> above j = i \<longleftrightarrow> j = 2 * i + 1 \<or> j = 2 * i + 2"
  unfolding above_def by arith

lemma almost_edge: "almost lesser xs i \<Longrightarrow> j < length xs \<Longrightarrow> j \<noteq> i \<Longrightarrow> above j \<noteq> i \<Longrightarrow> edge lesser xs j"
  by (simp add: almost_def)

lemma almost_grand:
  "almost lesser xs i \<Longrightarrow> j < length xs \<Longrightarrow> 0 < i \<Longrightarrow> 0 < j \<Longrightarrow> above j = i \<Longrightarrow> \<not> lesser (xs ! above i) (xs ! j)"
  by (simp add: almost_def)

lemma edge_pos: "edge lesser xs j \<Longrightarrow> 0 < j \<Longrightarrow> \<not> lesser (xs ! above j) (xs ! j)"
  by (simp add: edge_def)

text \<open>What the heap needs of its order: it is a strict weak order.\<close>

locale heap_order =
  fixes lesser :: "u32 \<Rightarrow> u32 \<Rightarrow> bool"
  assumes asym: "lesser a b \<Longrightarrow> \<not> lesser b a"
    and neg_trans: "\<not> lesser a b \<Longrightarrow> \<not> lesser b c \<Longrightarrow> \<not> lesser a c"
begin

lemma irrefl: "\<not> lesser a a"
  using asym by blast

lemma root_max:
  assumes "ordered lesser xs" "j < length xs"
  shows "\<not> lesser (xs ! 0) (xs ! j)"
  using assms(2)
proof (induction j rule: less_induct)
  case (less j)
  show ?case
  proof (cases "j = 0")
    case False
    then have "\<not> lesser (xs ! 0) (xs ! above j)" using less.IH [of "above j"] less.prems above_less [of j] by simp
    moreover have "\<not> lesser (xs ! above j) (xs ! j)"
      using assms(1) less.prems False edge_pos [of lesser xs j] by (simp add: ordered_def)
    ultimately show ?thesis by (rule neg_trans)
  qed (simp add: irrefl)
qed

lemma almost_up:
  assumes al: "almost lesser xs i" and i: "0 < i" "i < length xs" and l: "lesser (xs ! above i) (xs ! i)"
  shows "almost lesser (swapped (above i) i xs) (above i)"
proof -
  let ?p = "above i" and ?ys = "swapped (above i) i xs"
  have p: "?p < i" using i(1) by (rule above_less)
  have ys: "?ys ! k = (if k = ?p then xs ! i else if k = i then xs ! ?p else xs ! k)" if "k < length xs" for k
    using that i p by (simp add: swapped_nth)
  have ne: "above k \<noteq> k" if "0 < k" for k using above_less [OF that] by simp
  have "edge lesser ?ys j" if j: "j < length xs" "j \<noteq> ?p" "above j \<noteq> ?p" for j
  proof (cases "0 < j \<and> above j = i")
    case True
    then have "\<not> lesser (xs ! ?p) (xs ! j)" using almost_grand [OF al j(1) i(1)] by blast
    then show ?thesis using True j i p ne [of j] by (auto simp: edge_def ys)
  next
    case False
    then show ?thesis using j i p almost_edge [OF al j(1)] above_less [of j]
      by (cases "j = 0") (auto simp: edge_def ys)
  qed
  moreover have "\<not> lesser (?ys ! above ?p) (?ys ! j)" if j: "j < length xs" "0 < ?p" "0 < j" "above j = ?p" for j
  proof -
    have "edge lesser xs ?p" using almost_edge [OF al, of ?p] p i(2) above_less [OF j(2)] by simp
    then have up: "\<not> lesser (xs ! above ?p) (xs ! ?p)" using j(2) by (rule edge_pos)
    have jp: "j \<noteq> ?p" using ne [of j] j(3,4) by auto
    have ap: "above ?p < ?p" using j(2) by (rule above_less)
    show ?thesis
    proof (cases "j = i")
      case True
      then show ?thesis using up ap p i(2) by (simp add: ys)
    next
      case False
      have "above j \<noteq> i" using j(4) p by simp
      then have "edge lesser xs j" using almost_edge [OF al j(1) False] by blast
      then have "\<not> lesser (xs ! ?p) (xs ! j)" using edge_pos [OF _ j(3)] j(4) by metis
      with up have "\<not> lesser (xs ! above ?p) (xs ! j)" by (rule neg_trans)
      then show ?thesis using False ap p i(2) jp j(1) by (simp add: ys)
    qed
  qed
  ultimately show ?thesis by (simp add: almost_def)
qed

lemma almost_down:
  assumes al: "almost lesser xs i" "edge lesser xs i" and c: "c < length xs" "0 < c" "above c = i"
    and l: "lesser (xs ! i) (xs ! c)"
    and greatest: "\<forall>j < length xs. 0 < j \<longrightarrow> above j = i \<longrightarrow> \<not> lesser (xs ! c) (xs ! j)"
  shows "almost lesser (swapped i c xs) c" "edge lesser (swapped i c xs) c"
proof -
  let ?ys = "swapped i c xs"
  have p: "i < c" using above_less [OF c(2)] c(3) by simp
  have ys: "?ys ! k = (if k = i then xs ! c else if k = c then xs ! i else xs ! k)" if "k < length xs" for k
    using that c p by (simp add: swapped_nth)
  have ne: "above k \<noteq> k" if "0 < k" for k using above_less [OF that] by simp
  show "edge lesser ?ys c" using asym [OF l] c p by (auto simp: edge_def ys)
  have "edge lesser ?ys j" if j: "j < length xs" "j \<noteq> c" "above j \<noteq> c" for j
  proof (cases "j = 0")
    case False
    then have j0: "0 < j" by simp
    have aj: "above j < length xs" using above_less [OF j0] j(1) by simp
    show ?thesis
    proof (cases "above j = i")
      case True
      then show ?thesis using greatest [rule_format, OF j(1) j0 True] j p ne [OF j0] c by (auto simp: edge_def ys)
    next
      case False
      show ?thesis
      proof (cases "j = i")
        case True
        then have "\<not> lesser (xs ! above i) (xs ! c)" using almost_grand [OF al(1) c(1) _ c(2,3)] j0 by blast
        then show ?thesis using True False j aj by (simp add: edge_def ys)
      next
        case ji: False
        then have "edge lesser xs j" using almost_edge [OF al(1) j(1) ji False] by blast
        then show ?thesis using False ji j aj by (simp add: edge_def ys)
      qed
    qed
  qed (simp add: edge_def)
  moreover have "\<not> lesser (?ys ! above c) (?ys ! j)" if j: "j < length xs" "0 < j" "above j = c" for j
  proof -
    have "j \<noteq> i" "j \<noteq> c" using above_less [OF j(2)] j(3) p by auto
    then have "edge lesser xs j" using almost_edge [OF al(1) j(1)] j(3) p by simp
    then have "\<not> lesser (xs ! c) (xs ! j)" using edge_pos [OF _ j(2)] j(3) by metis
    then show ?thesis using \<open>j \<noteq> i\<close> \<open>j \<noteq> c\<close> c p j(1) by (simp add: ys)
  qed
  ultimately show "almost lesser ?ys c" by (simp add: almost_def)
qed

lemma almost_ordered:
  assumes "almost lesser xs i" "edge lesser xs i"
    "\<And>j. j < length xs \<Longrightarrow> 0 < j \<Longrightarrow> above j = i \<Longrightarrow> \<not> lesser (xs ! i) (xs ! j)"
  shows "ordered lesser xs"
  unfolding ordered_def
proof (intro allI impI)
  fix j assume j: "j < length xs"
  show "edge lesser xs j"
  proof (cases "j = i \<or> j = 0")
    case False
    then show ?thesis using almost_edge [OF assms(1) j] assms(3) [OF j] by (auto simp: edge_def)
  qed (use assms(2) in \<open>auto simp: edge_def\<close>)
qed

lemma ordered_almost: "ordered lesser xs \<Longrightarrow> i < length xs \<Longrightarrow> almost lesser xs i"
  unfolding almost_def ordered_def
proof (intro conjI allI impI)
  fix j assume o: "\<forall>j < length xs. edge lesser xs j" "i < length xs" and j: "j < length xs" "0 < i" "0 < j" "above j = i"
  then have "\<not> lesser (xs ! above i) (xs ! i)" "\<not> lesser (xs ! i) (xs ! j)" using edge_pos [of lesser xs] by blast+
  then show "\<not> lesser (xs ! above i) (xs ! j)" by (rule neg_trans)
qed simp

end

section \<open>Operations\<close>

definition heap_inv :: "(u32 \<Rightarrow> u32 \<Rightarrow> bool) \<Rightarrow> heap \<Rightarrow> bool" where
  "heap_inv lesser h \<longleftrightarrow> heap_ok h \<and> ordered lesser (array h)"

text \<open>The slot of an element, as a measure for the loops.\<close>

definition slot :: "u32 \<Rightarrow> heap \<Rightarrow> nat" where
  "slot e h = the (position (pos h) e)"

lemma slot_at: "at h e i \<Longrightarrow> slot e h = i"
  by (simp add: slot_def at_position)

lemma parent_above: "at h e i \<Longrightarrow> 0 < i \<Longrightarrow> parent dbg e h = Inr (array h ! above i, h)"
  by (simp add: parent_at above_def)

lemma at_slot: "at h e i \<Longrightarrow> j < length (array h) \<Longrightarrow> at h (array h ! j) j"
  by (simp add: at_def)

context heap_order
begin

lemma up_ok:
  assumes "at h e i" "almost lesser (array h) i"
  shows "\<exists>h' k. up lesser dbg e h = Inr h' \<and> at h' e k \<and> almost lesser (array h') k \<and>
    edge lesser (array h') k \<and> mset (array h') = mset (array h)"
proof -
  define I where "I h' \<longleftrightarrow> (\<exists>k. at h' e k \<and> almost lesser (array h') k \<and> mset (array h') = mset (array h))" for h'
  define Q where "Q h' \<longleftrightarrow> (\<exists>k. at h' e k \<and> almost lesser (array h') k \<and> edge lesser (array h') k \<and> mset (array h') = mset (array h))" for h'
  have "\<exists>go h2. up_step lesser dbg e h1 = Inr (go, h2) \<and> (if go then I h2 \<and> slot e h2 < slot e h1 else Q h2)" if "I h1" for h1
  proof -
    obtain k where k: "at h1 e k" "almost lesser (array h1) k" "mset (array h1) = mset (array h)" using \<open>I h1\<close> by (auto simp: I_def)
    have kl: "k < length (array h1)" "array h1 ! k = e" using k(1) by (auto simp: at_def)
    show ?thesis
    proof (cases "0 < k \<and> lesser (array h1 ! above k) e")
      case True
      then have p: "above k < k" using above_less by blast
      let ?a = "array h1 ! above k"
      have "at h1 ?a (above k)" using k(1) p kl by (simp add: at_slot)
      then obtain h2 where h2: "exchange dbg ?a e h1 = Inr h2" "array h2 = swapped (above k) k (array h1)" "at h2 e (above k)"
        using exchange_at [OF _ k(1) less_imp_neq [OF p]] by blast
      have "almost lesser (array h2) (above k)" using almost_up [OF k(2) _ kl(1)] True kl(2) h2(2) by simp
      moreover have "mset (array h2) = mset (array h)" using h2(2) p kl(1) k(3) by (simp add: mset_swapped)
      ultimately have "I h2" using h2(3) by (auto simp: I_def)
      then show ?thesis using True h2 p k(1)
        by (auto simp: up_step_def has_parent_at parent_above slot_at)
    next
      case False
      then have "Q h1" using k kl by (auto simp: Q_def edge_def)
      then show ?thesis using False k(1) by (cases "k = 0") (auto simp: up_step_def has_parent_at parent_above)
    qed
  qed
  moreover have "I h" using assms by (auto simp: I_def)
  ultimately have "\<exists>h'. loop (up_step lesser dbg e) h = Inr h' \<and> Q h'"
    by (intro loop_returns [where I = I and m = "slot e"]) auto
  then show ?thesis by (auto simp: up_def Q_def)
qed

text \<open>The child chosen bounds both children.\<close>

lemma greater_child_at:
  assumes "at h e i" "2 * i + 1 < length (array h)"
  shows "\<exists>c. greater_child lesser dbg e h = Inr (array h ! c, h) \<and> c < length (array h) \<and> 0 < c \<and> above c = i \<and>
    (\<forall>j < length (array h). 0 < j \<longrightarrow> above j = i \<longrightarrow> \<not> lesser (array h ! c) (array h ! j))"
proof -
  let ?c = "if 2 * i + 2 < length (array h) \<and> lesser (array h ! (2 * i + 1)) (array h ! (2 * i + 2)) then 2 * i + 2 else 2 * i + 1"
  have "greater_child lesser dbg e h = Inr (array h ! ?c, h)"
    using assms by (simp add: greater_child_def child_at has_right_at)
  moreover have "\<not> lesser (array h ! ?c) (array h ! j)" if "j < length (array h)" "0 < j" "above j = i" for j
    using that above_child [of j i] irrefl asym by auto
  moreover have "above ?c = i" "0 < ?c" using above_child [of ?c i] by auto
  ultimately show ?thesis using assms(2) by (intro exI [of _ ?c]) auto
qed

lemma down_ok:
  assumes "at h e i" "almost lesser (array h) i" "edge lesser (array h) i"
  shows "\<exists>h' k. down lesser dbg e h = Inr h' \<and> at h' e k \<and> ordered lesser (array h') \<and> mset (array h') = mset (array h)"
proof -
  define I where "I h' \<longleftrightarrow> (\<exists>k. at h' e k \<and> almost lesser (array h') k \<and> edge lesser (array h') k \<and> mset (array h') = mset (array h))" for h'
  define Q where "Q h' \<longleftrightarrow> (\<exists>k. at h' e k \<and> ordered lesser (array h') \<and> mset (array h') = mset (array h))" for h'
  define m where "m h' = length (array h') - slot e h'" for h'
  have "\<exists>go h2. down_step lesser dbg e h1 = Inr (go, h2) \<and> (if go then I h2 \<and> m h2 < m h1 else Q h2)" if "I h1" for h1
  proof -
    obtain k where k: "at h1 e k" "almost lesser (array h1) k" "edge lesser (array h1) k" "mset (array h1) = mset (array h)"
      using \<open>I h1\<close> by (auto simp: I_def)
    have kl: "k < length (array h1)" "array h1 ! k = e" using k(1) by (auto simp: at_def)
    show ?thesis
    proof (cases "2 * k + 1 < length (array h1)")
      case True
      obtain c where c: "greater_child lesser dbg e h1 = Inr (array h1 ! c, h1)" "c < length (array h1)" "0 < c" "above c = k"
        "\<forall>j < length (array h1). 0 < j \<longrightarrow> above j = k \<longrightarrow> \<not> lesser (array h1 ! c) (array h1 ! j)"
        using greater_child_at [OF k(1) True] by blast
      have kc: "k < c" using above_less [OF c(3)] c(4) by simp
      show ?thesis
      proof (cases "lesser e (array h1 ! c)")
        case less: True
        obtain h2 where h2: "exchange dbg e (array h1 ! c) h1 = Inr h2" "array h2 = swapped k c (array h1)" "at h2 e c"
          using exchange_at [OF k(1) at_slot [OF k(1) c(2)] less_imp_neq [OF kc], of dbg] by metis
        have "lesser (array h1 ! k) (array h1 ! c)" using less kl(2) by simp
        from almost_down [OF k(2,3) c(2-4) this c(5)]
        have "almost lesser (array h2) c" "edge lesser (array h2) c" unfolding h2(2) .
        moreover have "mset (array h2) = mset (array h)" using h2(2) kl(1) c(2) k(4) by (simp add: mset_swapped)
        ultimately have "I h2" using h2(3) by (auto simp: I_def)
        moreover have "m h2 < m h1" using h2(2,3) k(1) kc c(2) by (simp add: m_def slot_at)
        ultimately show ?thesis using True less c(1) h2(1) k(1) by (auto simp: down_step_def has_left_at)
      next
        case False
        have "ordered lesser (array h1)"
          using k(2,3) by (rule almost_ordered) (use False kl(2) c(5) neg_trans in blast)
        then have "Q h1" using k by (auto simp: Q_def)
        then show ?thesis using True False c(1) k(1) by (auto simp: down_step_def has_left_at)
      qed
    next
      case False
      have "ordered lesser (array h1)"
        using k(2,3) by (rule almost_ordered) (use False above_child in auto)
      then have "Q h1" using k by (auto simp: Q_def)
      then show ?thesis using False k(1) by (auto simp: down_step_def has_left_at)
    qed
  qed
  moreover have "I h" using assms by (auto simp: I_def)
  ultimately have "\<exists>h'. loop (down_step lesser dbg e) h = Inr h' \<and> Q h'"
    by (intro loop_returns [where I = I and m = m]) auto
  then show ?thesis by (auto simp: down_def Q_def)
qed

lemma up_down_ok:
  assumes "at h e i" "almost lesser (array h) i"
  shows "\<exists>h'. bind_res (up lesser dbg e h) (down lesser dbg e) = Inr h' \<and> heap_inv lesser h' \<and> mset (array h') = mset (array h)"
proof -
  obtain h1 k where h1: "up lesser dbg e h = Inr h1" "at h1 e k" "almost lesser (array h1) k" "edge lesser (array h1) k"
      "mset (array h1) = mset (array h)"
    using up_ok [OF assms] by blast
  obtain h2 where "down lesser dbg e h1 = Inr h2" "\<exists>l. at h2 e l" "ordered lesser (array h2)" "mset (array h2) = mset (array h1)"
    using down_ok [OF h1(2-4)] by blast
  then show ?thesis using h1 by (auto simp: heap_inv_def at_def)
qed

end

lemma resize_same: "n \<le> length xs \<Longrightarrow> resize n d xs = take n xs"
  by (simp add: resize_def)

lemma position_grown:
  assumes "length ps \<le> unat e"
  shows "position (resize (Suc (unat e)) invalid_heap_position ps) x = position ps x"
  unfolding position_resize using assms by (simp add: position_def)

lemma set_index_position:
  assumes "\<And>i. position (pos h) e = Some i \<Longrightarrow> i < length (array h)"
  obtains ps where "set_index dbg e w h = Inr (h\<lparr>pos := ps\<rparr>)"
    "\<And>x. position ps x = (if x = e then if w = invalid_heap_position then None else Some (unat w) else position (pos h) x)"
proof -
  define qs where "qs = (if unat e \<ge> length (pos h) then resize (1 + unat e) invalid_heap_position (pos h) else pos h)"
  have qs: "unat e < length qs" "position qs x = position (pos h) x" for x
    by (auto simp: qs_def position_grown)
  have "qs ! unat e = invalid_heap_position \<or> unat (qs ! unat e) < length (array h)"
    using assms [of "unat (qs ! unat e)"] qs(1) qs(2) [of e]
    by (cases "qs ! unat e = invalid_heap_position") (simp_all add: position_def [of qs])
  moreover have "(if unat e \<ge> length (pos h) then h\<lparr>pos := resize (1 + unat e) invalid_heap_position (pos h)\<rparr> else h) = h\<lparr>pos := qs\<rparr>"
    by (simp add: qs_def)
  ultimately have "set_index dbg e w h = Inr (h\<lparr>pos := qs[unat e := w]\<rparr>)"
    by (auto simp: set_index_def index_def cassert_def Let_def)
  moreover have "position (qs[unat e := w]) x = (if x = e then if w = invalid_heap_position then None else Some (unat w) else position (pos h) x)" for x
    using qs(1) qs(2) [of x] by (auto simp: position_def nth_list_update word_unat_eq_iff [symmetric])
  ultimately show thesis by (rule that)
qed

lemma position_of: "heap_ok h \<Longrightarrow> i < length (array h) \<Longrightarrow> position (pos h) (array h ! i) = Some i"
  by (simp add: heap_ok_def)

lemma position_bound: "heap_ok h \<Longrightarrow> position (pos h) e = Some i \<Longrightarrow> i < length (array h)"
  by (simp add: heap_ok_def)

context heap_order
begin

lemma push_back_ok:
  assumes "heap_inv lesser h" "\<not> contains e h" "length (array h) < 4294967295"
  shows "\<exists>h'. push_back lesser dbg e h = Inr h' \<and> heap_inv lesser h' \<and> mset (array h') = add_mset e (mset (array h))"
proof -
  let ?n = "length (array h)" and ?g = "h\<lparr>array := array h @ [e]\<rparr>"
  have h: "heap_ok h" "ordered lesser (array h)" using assms(1) by (auto simp: heap_inv_def)
  have none: "position (pos h) e = None" using assms(2) by (simp add: contains_position)
  have n: "unat (word_of_nat ?n :: u32) = ?n" "(word_of_nat ?n :: u32) \<noteq> invalid_heap_position"
    using assms(3) unat_slot_word [of ?n] unat_invalid by auto
  obtain ps where ps: "set_index dbg e (word_of_nat ?n) ?g = Inr (?g\<lparr>pos := ps\<rparr>)"
    "\<And>x. position ps x = (if x = e then Some ?n else position (pos h) x)"
    by (rule set_index_position [of ?g e dbg "word_of_nat ?n"]) (auto simp: none n)
  let ?h = "?g\<lparr>pos := ps\<rparr>"
  have new: "array h ! i \<noteq> e" if "i < ?n" for i using position_of [OF h(1) that] none by auto
  have "position ps x = Some i \<longleftrightarrow> i < ?n + 1 \<and> (array h @ [e]) ! i = x" for x i
    using h(1) none new by (cases "i = ?n") (auto simp: ps(2) heap_ok_def nth_append)
  then have ok: "heap_ok ?h" using assms(3) by (simp add: heap_ok_def)
  then have "at ?h e ?n" by (simp add: at_def)
  moreover have "edge lesser (array ?h) j" if "j < length (array ?h)" "j \<noteq> ?n" for j
  proof -
    have "j < ?n" using that by simp
    then show ?thesis using h(2) above_less [of j] by (auto simp: ordered_def edge_def nth_append)
  qed
  moreover have "above j \<noteq> ?n" if "0 < j" "j < length (array ?h)" for j using above_less [OF that(1)] that(2) by simp
  ultimately obtain h' where "bind_res (up lesser dbg e ?h) (down lesser dbg e) = Inr h'" "heap_inv lesser h'" "mset (array h') = mset (array ?h)"
    using up_down_ok [of ?h e ?n dbg] unfolding almost_def by blast
  then show ?thesis using assms(2,3) ps(1) by (simp add: push_back_def cassert_def unat_invalid)
qed

lemma front_ok:
  assumes "heap_inv lesser h" "array h \<noteq> []"
  shows "\<exists>e. front dbg h = Inr e \<and> e \<in> set (array h) \<and> (\<forall>x \<in> set (array h). \<not> lesser e x)"
proof -
  have "\<not> lesser (array h ! 0) x" if "x \<in> set (array h)" for x
    using root_max assms(1) that by (auto simp: heap_inv_def in_set_conv_nth)
  moreover have "array h ! 0 \<in> set (array h)" using assms(2) by simp
  ultimately show ?thesis using assms(2) by (auto simp: front_def heap_empty_def cassert_def)
qed

lemma update_ok:
  assumes "at h e i" "almost lesser (array h) i"
  shows "\<exists>h'. update lesser dbg e h = Inr h' \<and> heap_inv lesser h' \<and> mset (array h') = mset (array h)"
  using up_down_ok [OF assms, of dbg] contains_at [of h e] assms(1)
  by (auto simp: update_def cassert_def at_def)

end

text \<open>Removing the element in the last slot.\<close>

lemma drop_last:
  assumes "at h e (length (array h) - 1)"
  obtains ps where "set_index dbg e invalid_heap_position h = Inr (h\<lparr>pos := ps\<rparr>)"
    "heap_ok (h\<lparr>pos := ps, array := butlast (array h)\<rparr>)"
proof -
  let ?n = "length (array h) - 1"
  have h: "heap_ok h" "?n < length (array h)" "array h ! ?n = e" using assms by (auto simp: at_def)
  obtain ps where ps: "set_index dbg e invalid_heap_position h = Inr (h\<lparr>pos := ps\<rparr>)"
    "\<And>x. position ps x = (if x = e then None else position (pos h) x)"
    using position_bound [OF h(1)] by (rule set_index_position [of h e dbg invalid_heap_position]) simp_all
  have other: "array h ! i \<noteq> e" if "i < ?n" for i
    using at_inj [OF assms, of i] h that by (auto simp: at_def)
  have "position ps x = Some i \<longleftrightarrow> i < ?n \<and> butlast (array h) ! i = x" for x i
  proof (cases "x = e")
    case True
    then show ?thesis using other by (auto simp: ps(2) nth_butlast)
  next
    case False
    have "position (pos h) x = Some i \<longleftrightarrow> i < length (array h) \<and> array h ! i = x" using h(1) by (simp add: heap_ok_def)
    moreover have "i < length (array h) \<and> array h ! i = x \<longleftrightarrow> i < ?n \<and> array h ! i = x" using False h by (cases "i = ?n") auto
    ultimately show ?thesis using False by (auto simp: ps(2) nth_butlast)
  qed
  then have "heap_ok (h\<lparr>pos := ps, array := butlast (array h)\<rparr>)" using h(1) by (auto simp: heap_ok_def)
  with ps(1) show thesis by (rule that)
qed

lemma mset_butlast_nth: "xs \<noteq> [] \<Longrightarrow> mset xs = add_mset (xs ! (length xs - 1)) (mset (butlast xs))"
  by (metis append_butlast_last_id last_conv_nth mset_append mset.simps union_mset_add_mset_right add.right_neutral)

context heap_order
begin

lemma pop_front_ok:
  assumes "heap_inv lesser h" "array h \<noteq> []"
  shows "\<exists>h'. pop_front lesser dbg h = Inr (array h ! 0, h') \<and> heap_inv lesser h' \<and>
    mset (array h) = add_mset (array h ! 0) (mset (array h'))"
proof (cases "length (array h) = 1")
  case True
  then obtain e where e: "array h = [e]" by (cases "array h") auto
  have "at h e (length (array h) - 1)" using assms(1) e by (auto simp: heap_inv_def at_def)
  then obtain ps where "set_index dbg e invalid_heap_position h = Inr (h\<lparr>pos := ps\<rparr>)" "heap_ok (h\<lparr>pos := ps, array := butlast (array h)\<rparr>)"
    by (rule drop_last)
  then show ?thesis using e by (simp add: pop_front_def cassert_def heap_empty_def heap_inv_def ordered_def)
next
  case False
  let ?n = "length (array h) - 1" and ?r = "array h ! 0" and ?l = "last (array h)"
  have n: "0 < ?n" using False assms(2) by (cases "array h") auto
  have l: "array h ! ?n = ?l" using assms(2) by (simp add: last_conv_nth)
  have ok: "heap_ok h" "ordered lesser (array h)" using assms(1) by (auto simp: heap_inv_def)
  have r: "at h ?r 0" "at h ?l ?n" using ok(1) assms(2) l by (auto simp: at_def)
  obtain h1 where h1: "exchange dbg ?r ?l h = Inr h1" "array h1 = swapped 0 ?n (array h)" "at h1 ?r ?n" "at h1 ?l 0"
    using exchange_at [OF r, of dbg] n by auto
  have len: "length (array h1) = length (array h)" unfolding h1(2) by simp
  then have ne: "array h1 \<noteq> []" using assms(2) by auto
  obtain ps where ps: "set_index dbg ?r invalid_heap_position h1 = Inr (h1\<lparr>pos := ps\<rparr>)"
    "heap_ok (h1\<lparr>pos := ps, array := butlast (array h1)\<rparr>)"
    using drop_last [of h1 ?r dbg] h1(3) len by metis
  let ?h = "h1\<lparr>pos := ps, array := butlast (array h1)\<rparr>"
  have hn: "length (array ?h) = ?n" by (simp add: len)
  have val: "array ?h ! j = (if j = 0 then ?l else array h ! j)" if "j < ?n" for j
    using that l n assms(2) swapped_nth [of 0 "array h" ?n j] by (auto simp: len nth_butlast h1(2))
  have at: "at ?h ?l 0" using ps(2) n hn val [OF n] by (simp add: at_def)
  have "edge lesser (array ?h) j" if j: "j < ?n" "j \<noteq> 0" "above j \<noteq> 0" for j
  proof -
    have "edge lesser (array h) j" using ok(2) j(1) by (simp add: ordered_def)
    moreover have "above j < ?n" using above_less [of j] j by simp
    ultimately show ?thesis using j val [of j] val [of "above j"] by (simp add: edge_def)
  qed
  then have al: "almost lesser (array ?h) 0" by (simp add: almost_def len)
  have ms: "mset (array h) = add_mset ?r (mset (array ?h))"
  proof -
    have "mset (array h) = mset (array h1)" using assms(2) n by (simp add: h1(2) mset_swapped)
    also have "\<dots> = add_mset (array h1 ! ?n) (mset (butlast (array h1)))" using mset_butlast_nth [OF ne] len by simp
    also have "array h1 ! ?n = ?r" using h1(3) by (simp add: at_def)
    finally show ?thesis by simp
  qed
  have "\<exists>h'. (if length (array ?h) > 1 then down lesser dbg ?l ?h else Inr ?h) = Inr h' \<and> heap_inv lesser h' \<and> mset (array h') = mset (array ?h)"
  proof (cases "length (array ?h) > 1")
    case True
    then show ?thesis using down_ok [OF at al, of dbg] by (auto simp: edge_def heap_inv_def at_def)
  next
    case False
    then have "ordered lesser (array ?h)" by (auto simp: ordered_def edge_def)
    then show ?thesis using False ps(2) by (simp add: heap_inv_def)
  qed
  then show ?thesis using h1(1) ps(1) n assms(2) ms by (auto simp: pop_front_def cassert_def heap_empty_def Let_def)
qed

end

section \<open>The orders of the code\<close>

interpretation score_order: heap_order "score_smaller stab" for stab :: "u32 \<Rightarrow> 'a :: linorder"
  by unfold_locales (auto simp: score_smaller_def Let_def split: if_splits)

interpretation block_order: heap_order "block_more_occs_size noccs" for noccs :: "int \<Rightarrow> nat"
  by unfold_locales (auto simp: block_more_occs_size_def Let_def split: if_splits)

text \<open>When the score of one element changes, the heap is ordered but for this element.\<close>

lemma score_changed:
  assumes "heap_inv (score_smaller stab) h" "at h e i"
  shows "almost (score_smaller (stab(e := s))) (array h) i"
proof -
  have i: "i < length (array h)" "array h ! i = e" using assms(2) by (auto simp: at_def)
  have al: "almost (score_smaller stab) (array h) i"
    using score_order.ordered_almost [of stab, OF _ i(1)] assms(1) by (simp add: heap_inv_def)
  have other: "array h ! j = e \<longleftrightarrow> j = i" if "j < length (array h)" for j
    using at_inj [OF assms(2), of j] that assms(2) i by (auto simp: at_def)
  have same: "score_smaller (stab(e := s)) a b \<longleftrightarrow> score_smaller stab a b" if "a \<noteq> e" "b \<noteq> e" for a b
    using that by (simp add: score_smaller_def)
  show ?thesis
    unfolding almost_def
  proof (intro conjI allI impI)
    fix j assume j: "j < length (array h)" "j \<noteq> i" "above j \<noteq> i"
    have "edge (score_smaller stab) (array h) j" using al j by (rule almost_edge)
    then show "edge (score_smaller (stab(e := s))) (array h) j"
      using j above_less [of j] other [of j] other [of "above j"] by (auto simp: edge_def same)
  next
    fix j assume j: "j < length (array h)" "0 < i" "0 < j" "above j = i"
    have "\<not> score_smaller stab (array h ! above i) (array h ! j)" using al j by (rule almost_grand)
    moreover have "above i < i" "i < j" using above_less [OF j(2)] above_less [OF j(3)] j(4) by simp_all
    ultimately show "\<not> score_smaller (stab(e := s)) (array h ! above i) (array h ! j)"
      using j(1) other [of j] other [of "above i"] by (simp add: same)
  qed
qed

text \<open>
  C33: the decision heap is a priority queue.  On a well-formed heap \<^verbatim>\<open>push_back\<close> adds a new element, \<^verbatim>\<open>front\<close> and
  \<^verbatim>\<open>pop_front\<close> return an element with no element above it and the latter removes just this one, and \<^verbatim>\<open>update\<close> restores
  the order after the score of an element has changed in either direction; all end without a failed assertion, with
  every access in range, and leave a well-formed heap.
\<close>

theorem heap_correct:
  fixes stab :: "u32 \<Rightarrow> 'a :: linorder"
  assumes "heap_inv (score_smaller stab) h"
  shows "(\<not> contains e h \<and> length (array h) < 4294967295 \<longrightarrow>
       (\<exists>h'. push_back (score_smaller stab) dbg e h = Inr h' \<and> heap_inv (score_smaller stab) h' \<and>
          mset (array h') = add_mset e (mset (array h)))) \<and>
     (\<not> heap_empty h \<longrightarrow>
       (\<exists>r h'. front dbg h = Inr r \<and> pop_front (score_smaller stab) dbg h = Inr (r, h') \<and> heap_inv (score_smaller stab) h' \<and>
          mset (array h) = add_mset r (mset (array h')) \<and> (\<forall>x \<in> set (array h). \<not> score_smaller stab r x))) \<and>
     (contains e h \<longrightarrow>
       (\<exists>h'. update (score_smaller (stab(e := s))) dbg e h = Inr h' \<and> heap_inv (score_smaller (stab(e := s))) h' \<and>
          mset (array h') = mset (array h)))"
proof (intro conjI impI)
  show "\<exists>h'. push_back (score_smaller stab) dbg e h = Inr h' \<and> heap_inv (score_smaller stab) h' \<and>
      mset (array h') = add_mset e (mset (array h))" if "\<not> contains e h \<and> length (array h) < 4294967295"
    using score_order.push_back_ok [OF assms] that by blast
  show "\<exists>r h'. front dbg h = Inr r \<and> pop_front (score_smaller stab) dbg h = Inr (r, h') \<and> heap_inv (score_smaller stab) h' \<and>
      mset (array h) = add_mset r (mset (array h')) \<and> (\<forall>x \<in> set (array h). \<not> score_smaller stab r x)" if "\<not> heap_empty h"
    using score_order.pop_front_ok [OF assms, of dbg] score_order.front_ok [OF assms, of dbg] that
    by (auto simp: heap_empty_def front_def cassert_def)
  assume "contains e h"
  then obtain i where i: "at h e i" using assms by (auto simp: heap_inv_def contains_at)
  show "\<exists>h'. update (score_smaller (stab(e := s))) dbg e h = Inr h' \<and> heap_inv (score_smaller (stab(e := s))) h' \<and>
      mset (array h') = mset (array h)"
    using score_order.update_ok [OF i score_changed [OF assms i]] .
qed

text \<open>
  C34: the decision by scores returns, and it returns an unassigned variable of the heap with no unassigned variable
  above it.  Only assigned variables are removed from the heap.
\<close>

theorem decision_best:
  fixes stab :: "u32 \<Rightarrow> 'a :: linorder"
  assumes "heap_inv (score_smaller stab) h" "x \<in> set (array h)" "val x = 0"
  shows "\<exists>r h'. next_decision_variable_with_best_score stab val dbg h = Inr (r, h') \<and> val r = 0 \<and> r \<in> set (array h') \<and>
    (\<forall>y \<in> set (array h). val y = 0 \<longrightarrow> \<not> score_smaller stab r y) \<and> heap_inv (score_smaller stab) h' \<and>
    filter_mset (\<lambda>y. val y = 0) (mset (array h')) = filter_mset (\<lambda>y. val y = 0) (mset (array h))"
proof -
  let ?free = "\<lambda>h. filter_mset (\<lambda>y. val y = 0) (mset (array h))"
  define I where "I s \<longleftrightarrow> heap_inv (score_smaller stab) (snd s) \<and> ?free (snd s) = ?free h" for s :: "u32 \<times> heap"
  define Q where "Q s \<longleftrightarrow> I s \<and> val (fst s) = 0 \<and> fst s \<in> set (array (snd s)) \<and>
    (\<forall>y \<in> set (array (snd s)). \<not> score_smaller stab (fst s) y)" for s :: "u32 \<times> heap"
  have free: "y \<in> set (array g) \<and> val y = 0 \<longleftrightarrow> y \<in># ?free g" for y g by simp
  have "\<exists>go s'. decision_step stab val dbg s = Inr (go, s') \<and>
      (if go then I s' \<and> length (array (snd s')) < length (array (snd s)) else Q s')" if "I s" for s
  proof -
    have s: "heap_inv (score_smaller stab) (snd s)" "?free (snd s) = ?free h" using that by (auto simp: I_def)
    have "x \<in> set (array (snd s))" using assms(2,3) free [of x "snd s"] free [of x h] s(2) by metis
    then have ne: "array (snd s) \<noteq> []" by auto
    obtain r where r: "front dbg (snd s) = Inr r" "r \<in> set (array (snd s))" "\<forall>y \<in> set (array (snd s)). \<not> score_smaller stab r y"
      using score_order.front_ok [OF s(1) ne] by blast
    obtain h' where h': "pop_front (score_smaller stab) dbg (snd s) = Inr (array (snd s) ! 0, h')" "heap_inv (score_smaller stab) h'"
      "mset (array (snd s)) = add_mset (array (snd s) ! 0) (mset (array h'))"
      using score_order.pop_front_ok [OF s(1) ne] by blast
    have r0: "r = array (snd s) ! 0" using r(1) ne by (simp add: front_def cassert_def heap_empty_def)
    show ?thesis
    proof (cases "val r = 0")
      case True
      then show ?thesis using r that by (auto simp: decision_step_def I_def Q_def)
    next
      case False
      have "length (array (snd s)) = Suc (length (array h'))" using arg_cong [OF h'(3), of size] by simp
      moreover have "?free h' = ?free h" using s(2) h'(3) False r0 by simp
      ultimately show ?thesis using r(1) h'(1,2) False by (auto simp: decision_step_def I_def)
    qed
  qed
  moreover have "I (0, h)" using assms(1) by (simp add: I_def)
  ultimately obtain s where "next_decision_variable_with_best_score stab val dbg h = Inr s" "Q s"
    unfolding next_decision_variable_with_best_score_def
    using loop_returns [where I = I and m = "\<lambda>s. length (array (snd s))" and step = "decision_step stab val dbg" and Q = Q] by blast
  moreover have "\<not> score_smaller stab (fst s) y" if "y \<in> set (array h)" "val y = 0" for y
    using that \<open>Q s\<close> free [of y h] free [of y "snd s"] by (metis I_def Q_def)
  ultimately show ?thesis by (cases s) (auto simp: Q_def I_def)
qed

lemma heap_new_inv: "heap_inv lesser heap_new"
  by (simp add: heap_inv_def heap_ok_def heap_new_def ordered_def position_def)

text \<open>The variables are put on the heap in their order.\<close>

lemma init_scores_ok:
  fixes stab :: "u32 \<Rightarrow> 'a :: linorder"
  assumes "0 \<le> m" "m \<le> n" "n < 2147483647"
  shows "\<exists>h. init_scores stab dbg 0 m heap_new = Inr h \<and> heap_inv (score_smaller stab) h \<and>
    mset (array h) = mset (map word_of_int [1..m])"
  using assms(1,2)
proof (induction m rule: int_ge_induct)
  case base
  then show ?case by (simp add: init_scores_def heap_new_inv) (simp add: heap_new_def)
next
  case (step m)
  then obtain h where h: "init_scores stab dbg 0 m heap_new = Inr h" "heap_inv (score_smaller stab) h"
    "mset (array h) = mset (map word_of_int [1..m])" by auto
  have len: "length (array h) = nat m" using arg_cong [OF h(3), of size] by simp
  have "word_of_int (m + 1) \<notin> set (array h)"
  proof
    assume "word_of_int (m + 1) \<in> set (array h)"
    then have "word_of_int (m + 1) \<in> set (map word_of_int [1..m] :: u32 list)" using h(3) by (metis set_mset_mset)
    then obtain k where "k \<in> {1..m}" "word_of_int (m + 1) = (word_of_int k :: u32)" by auto
    moreover have word: "uint (word_of_int z :: u32) = z" if "0 \<le> z" "z \<le> n" for z
      using that assms(3) by (simp add: uint_word_of_int take_bit_int_eq_self)
    moreover have "0 \<le> m" "m + 1 \<le> n" using step by simp_all
    ultimately have "m + 1 = k" using word [of "m + 1"] word [of k] by simp
    with \<open>k \<in> {1..m}\<close> show False by simp
  qed
  then have "\<not> contains (word_of_int (m + 1)) h" using h(2) by (simp add: contains_array heap_inv_def)
  then obtain h' where h': "push_back (score_smaller stab) dbg (word_of_int (m + 1)) h = Inr h'" "heap_inv (score_smaller stab) h'"
    "mset (array h') = add_mset (word_of_int (m + 1)) (mset (array h))"
    using score_order.push_back_ok [OF h(2)] len step assms(3) by fastforce
  have "[0..m] = [0..m - 1] @ [m]" using upto_rec2 [of 0 m] step by simp
  then have "init_scores stab dbg 0 (m + 1) heap_new = Inr h'" using h(1) h'(1) by (simp add: init_scores_def fold_res_append)
  moreover have "[1..m + 1] = [1..m] @ [m + 1]" using upto_rec2 [of 1 "m + 1"] step by simp
  ultimately show ?case using h' h(3) by simp
qed

text \<open>The checker of the code, with its assertions as one condition; it accepts exactly the well-formed heaps.\<close>

definition heap_check :: "(u32 \<Rightarrow> u32 \<Rightarrow> bool) \<Rightarrow> heap \<Rightarrow> bool" where
  "heap_check lesser h \<longleftrightarrow>
     (let a = array h; ps = pos h
      in length a \<le> unat invalid_heap_position \<and>
         list_all (\<lambda>i. (2 * i + 1 < length a \<longrightarrow> \<not> lesser (a ! i) (a ! (2 * i + 1))) \<and>
            (2 * i + 2 < length a \<longrightarrow> \<not> lesser (a ! i) (a ! (2 * i + 2))) \<and>
            unat (a ! i) < length ps \<and> i = unat (ps ! unat (a ! i))) [0..<length a] \<and>
         list_all (\<lambda>i. ps ! i = invalid_heap_position \<or>
            unat (ps ! i) < length a \<and> unat (a ! unat (ps ! i)) = i) [0..<length ps])"

lemma heap_check_heap_ok:
  assumes "heap_check lesser h"
  shows "heap_ok h"
proof -
  let ?a = "array h" and ?ps = "pos h"
  have n: "length ?a \<le> 4294967295" using assms by (simp add: heap_check_def Let_def unat_invalid)
  have a: "unat (?a ! i) < length ?ps" "unat (?ps ! unat (?a ! i)) = i" if "i < length ?a" for i
    using assms that by (auto simp: heap_check_def Let_def list_all_iff)
  have p: "unat (?ps ! i) < length ?a" "unat (?a ! unat (?ps ! i)) = i" if "i < length ?ps" "?ps ! i \<noteq> invalid_heap_position" for i
    using assms that by (auto simp: heap_check_def Let_def list_all_iff)
  have "position ?ps e = Some i \<longleftrightarrow> i < length ?a \<and> ?a ! i = e" for e i
  proof
    assume "position ?ps e = Some i"
    then have "unat e < length ?ps" "?ps ! unat e \<noteq> invalid_heap_position" "unat (?ps ! unat e) = i"
      by (auto simp: position_def split: if_splits)
    then show "i < length ?a \<and> ?a ! i = e" using p [of "unat e"] by (simp add: word_unat_eq_iff)
  next
    assume i: "i < length ?a \<and> ?a ! i = e"
    then have "unat e < length ?ps" "unat (?ps ! unat e) = i" using a by auto
    moreover from this have "?ps ! unat e \<noteq> invalid_heap_position" using i n unat_invalid by auto
    ultimately show "position ?ps e = Some i" by (simp add: position_def)
  qed
  with n show ?thesis by (simp add: heap_ok_def)
qed

lemma heap_check_ordered:
  assumes "heap_check lesser h"
  shows "ordered lesser (array h)"
  unfolding ordered_def
proof (intro allI impI)
  fix j assume j: "j < length (array h)"
  show "edge lesser (array h) j"
  proof (cases "j = 0")
    case False
    then have "above j < j" "j = 2 * above j + 1 \<or> j = 2 * above j + 2"
      using above_less [of j] above_child [of j "above j"] by auto
    moreover have "(2 * above j + 1 < length (array h) \<longrightarrow> \<not> lesser (array h ! above j) (array h ! (2 * above j + 1))) \<and>
        (2 * above j + 2 < length (array h) \<longrightarrow> \<not> lesser (array h ! above j) (array h ! (2 * above j + 2)))"
      using assms calculation(1) j by (auto simp: heap_check_def Let_def list_all_iff)
    ultimately show ?thesis using j by (metis edge_def)
  qed (simp add: edge_def)
qed

lemma heap_check_inv: "heap_check lesser h \<Longrightarrow> heap_inv lesser h"
  by (simp add: heap_inv_def heap_check_heap_ok heap_check_ordered)

lemma heap_inv_check:
  assumes "heap_inv lesser h" "length (pos h) \<le> 4294967296"
  shows "heap_check lesser h"
proof -
  let ?a = "array h" and ?ps = "pos h"
  have h: "heap_ok h" "ordered lesser ?a" using assms by (auto simp: heap_inv_def)
  have "\<not> lesser (?a ! i) (?a ! j)" if "j < length ?a" "j = 2 * i + 1 \<or> j = 2 * i + 2" for i j
    using h(2) that above_child [of j i] edge_pos [of lesser ?a j] by (auto simp: ordered_def)
  moreover have "unat (?a ! i) < length ?ps \<and> i = unat (?ps ! unat (?a ! i))" if "i < length ?a" for i
    using position_of [OF h(1) that] by (auto simp: position_def split: if_splits)
  moreover have "?ps ! i = invalid_heap_position \<or> unat (?ps ! i) < length ?a \<and> unat (?a ! unat (?ps ! i)) = i"
    if "i < length ?ps" for i
  proof -
    have i: "unat (word_of_nat i :: u32) = i" using that assms(2) by (simp add: unat_slot_word)
    show ?thesis
    proof (cases "?ps ! i = invalid_heap_position")
      case False
      then have "position ?ps (word_of_nat i) = Some (unat (?ps ! i))" using that i by (simp add: position_def)
      then have "unat (?ps ! i) < length ?a \<and> ?a ! unat (?ps ! i) = word_of_nat i" using h(1) by (simp add: heap_ok_def)
      then show ?thesis using i by simp
    qed simp
  qed
  ultimately show ?thesis using h(1) by (simp add: heap_check_def Let_def list_all_iff heap_ok_def unat_invalid)
qed

definition two_scores :: "u32 \<Rightarrow> nat" where
  "two_scores v = (if v = 2 then 5 else 1)"

definition two_heap :: heap where
  "two_heap = \<lparr>array = [2, 1], pos = [invalid_heap_position, 1, 0]\<rparr>"

lemma two_heap_inv: "heap_inv (score_smaller two_scores) two_heap"
  by (rule heap_check_inv) (simp add: heap_check_def two_heap_def two_scores_def score_smaller_def unat_invalid Let_def)

lemma two_mset: "mset (array two_heap) = {#1, 2#}"
  by (simp add: two_heap_def)

lemma heap_correct_witness:
  "(\<exists>h'. push_back (score_smaller two_scores) True 7 two_heap = Inr h' \<and> mset (array h') = {#7, 1, 2#}) \<and>
   (\<exists>h'. pop_front (score_smaller two_scores) True two_heap = Inr (2, h') \<and> mset (array h') = {#1#})"
proof
  have "\<not> contains 7 two_heap \<and> length (array two_heap) < 4294967295" by (simp add: two_heap_def contains_def)
  then show "\<exists>h'. push_back (score_smaller two_scores) True 7 two_heap = Inr h' \<and> mset (array h') = {#7, 1, 2#}"
    using heap_correct [OF two_heap_inv, of 7 True] by (auto simp: two_mset)
  have "\<not> heap_empty two_heap" by (simp add: heap_empty_def two_heap_def)
  then obtain r h' where r: "front True two_heap = Inr r" "pop_front (score_smaller two_scores) True two_heap = Inr (r, h')"
    "mset (array two_heap) = add_mset r (mset (array h'))"
    using heap_correct [OF two_heap_inv, of 7 True] by blast
  have "r = 2" using r(1) by (simp add: front_def two_heap_def cassert_def heap_empty_def)
  then show "\<exists>h'. pop_front (score_smaller two_scores) True two_heap = Inr (2, h') \<and> mset (array h') = {#1#}"
    using r by (auto simp: two_mset)
qed

lemma decision_best_witness:
  "\<exists>h'. next_decision_variable_with_best_score two_scores (\<lambda>v. if v = 2 then 1 else 0) True two_heap = Inr (1, h')"
proof -
  let ?val = "\<lambda>v :: u32. if v = 2 then 1 else (0 :: int)"
  obtain r h' where r: "next_decision_variable_with_best_score two_scores ?val True two_heap = Inr (r, h')" "?val r = 0"
      "r \<in> set (array h')" "filter_mset (\<lambda>y. ?val y = 0) (mset (array h')) = filter_mset (\<lambda>y. ?val y = 0) (mset (array two_heap))"
    using decision_best [OF two_heap_inv, of 1 ?val True] by (auto simp: two_heap_def)
  have "r \<in># filter_mset (\<lambda>y. ?val y = 0) (mset (array two_heap))" using r(2,3) unfolding r(4) [symmetric] by simp
  then have "r = 1" by (simp add: two_heap_def)
  with r(1) show ?thesis by blast
qed

end
