(* ===== verification/RupChecker.thy ===== *)
theory RupChecker
  imports LratChecker
begin

unbundle bit_operations_syntax

text \<open>
  The online proof checker of the SAT solver: \<^verbatim>\<open>lib/cadical/src/checker.cpp\<close> and \<^verbatim>\<open>checker.hpp\<close>.  It is a small
  solver of its own that propagates units over two watched literals per clause: a learned clause is accepted when the
  propagation of its negation ends in a conflict.  Hashing and the bits of literals are the same code as in
  \<open>LratChecker\<close>.  Clauses are objects that the hash table, the watches and the garbage list share, and propagation
  permutes their literals; so there is a store of objects, and addresses are not used twice.  Profiling, statistics and
  messages are left out.  The flag \<open>dbg\<close> says whether assertions are compiled in.
\<close>

section \<open>Clauses, watches and the state\<close>

text \<open>The size is 0 in a garbage clause.  The link to the next clause is the order of the list it is in.\<close>

record cclause =
  hash :: u64
  csize :: nat
  literals :: "int list"

record cwatch =
  blit :: int
  wsize :: nat
  wclause :: nat

record rup_checker =
  size_vars :: nat
  vals :: "int list"
  watchers :: "cwatch list list"
  marks :: "bool list"
  inconsistent :: bool
  num_clauses :: nat
  num_garbage :: nat
  clauses :: "nat list list"
  garbage :: "nat list"
  unsimplified :: "int list"
  simplified :: "int list"
  trail :: "int list"
  next_to_propagate :: nat
  nonces :: "u64 list"
  last_hash :: u64
  last_id :: u64
  objects :: "nat \<rightharpoonup> cclause"
  fresh :: nat

definition Checker_new :: rup_checker where
  "Checker_new =
     \<lparr>size_vars = 0, vals = [], watchers = [], marks = [], inconsistent = False, num_clauses = 0, num_garbage = 0,
      clauses = [], garbage = [], unsimplified = [], simplified = [], trail = [], next_to_propagate = 0,
      nonces = init_nonces 4 42, last_hash = 0, last_id = 0, objects = Map.empty, fresh = 0\<rparr>"

text \<open>Access to an object through a pointer.\<close>

definition deref :: "nat \<Rightarrow> rup_checker \<Rightarrow> cclause res" where
  "deref a st = (case objects st a of None \<Rightarrow> Inl NullPointer | Some c \<Rightarrow> Inr c)"

text \<open>The array of values is indexed by literals; it starts at \<open>- size_vars\<close>.\<close>

definition value_at :: "int \<Rightarrow> rup_checker \<Rightarrow> int res" where
  "value_at lit st = (let i = lit + int (size_vars st) in if i < 0 then Inl OutOfRange else get_at (vals st) (nat i))"

definition val :: "bool \<Rightarrow> int \<Rightarrow> rup_checker \<Rightarrow> int res" where
  "val dbg lit st =
     bind_res (cassert dbg (lit \<noteq> 0 \<and> lit \<noteq> INT_MIN \<and> \<bar>lit\<bar> < int (size_vars st))) (\<lambda>_.
     bind_res (if dbg then bind_res (value_at lit st) (\<lambda>v. bind_res (value_at (- lit) st) (\<lambda>n. cassert dbg (v = - n)))
               else Inr ()) (\<lambda>_. value_at lit st))"

definition set_value :: "int \<Rightarrow> int \<Rightarrow> rup_checker \<Rightarrow> rup_checker res" where
  "set_value lit v st =
     (let i = lit + int (size_vars st)
      in if i < 0 then Inl OutOfRange else bind_res (set_at (vals st) (nat i) v) (\<lambda>vs. Inr (st\<lparr>vals := vs\<rparr>)))"

text \<open>\<^verbatim>\<open>watcher\<close> returns a reference: reading and writing through it.\<close>

definition watcher_index :: "bool \<Rightarrow> int \<Rightarrow> rup_checker \<Rightarrow> nat res" where
  "watcher_index dbg lit st =
     bind_res (l2u dbg lit) (\<lambda>u. bind_res (cassert dbg (u < length (watchers st))) (\<lambda>_.
       if u < length (watchers st) then Inr u else Inl OutOfRange))"

definition push_watch :: "bool \<Rightarrow> int \<Rightarrow> cwatch \<Rightarrow> rup_checker \<Rightarrow> rup_checker res" where
  "push_watch dbg lit w st =
     bind_res (watcher_index dbg lit st) (\<lambda>u. Inr (st\<lparr>watchers := (watchers st)[u := watchers st ! u @ [w]]\<rparr>))"

section \<open>New clauses\<close>

text \<open>The first position from \<open>j\<close> on whose literal has no value.\<close>

fun find_unassigned :: "bool \<Rightarrow> int list \<Rightarrow> nat \<Rightarrow> rup_checker \<Rightarrow> nat option res" where
  "find_unassigned dbg [] j st = Inr None"
| "find_unassigned dbg (other # lits) j st =
     bind_res (val dbg other st) (\<lambda>v. if v \<noteq> 0 then find_unassigned dbg lits (Suc j) st else Inr (Some j))"

definition choose_watch :: "bool \<Rightarrow> rup_checker \<Rightarrow> nat \<Rightarrow> int list \<Rightarrow> int list res" where
  "choose_watch dbg st i lits =
     bind_res (get_at lits i) (\<lambda>lit. bind_res (val dbg lit st) (\<lambda>v.
       if v = 0 then Inr lits
       else bind_res (find_unassigned dbg (drop (Suc i) lits) (Suc i) st) (\<lambda>k.
            case k of None \<Rightarrow> Inr lits | Some j \<Rightarrow> Inr (lits[i := lits ! j, j := lits ! i]))))"

definition assert_free :: "bool \<Rightarrow> int \<Rightarrow> rup_checker \<Rightarrow> unit res" where
  "assert_free dbg lit st = (if dbg then bind_res (val dbg lit st) (\<lambda>v. cassert dbg (v = 0)) else Inr ())"

definition new_clause :: "bool \<Rightarrow> rup_checker \<Rightarrow> (nat \<times> rup_checker) res" where
  "new_clause dbg st =
     (let sz = length (simplified st); a = fresh st
      in bind_res (cassert dbg (sz > 1 \<and> int sz \<le> UINT_MAX)) (\<lambda>_.
         let st = st\<lparr>num_clauses := num_clauses st + 1, fresh := a + 1\<rparr>
         in bind_res (choose_watch dbg st 0 (simplified st)) (\<lambda>lits.
            bind_res (choose_watch dbg st 1 lits) (\<lambda>lits.
            bind_res (get_at lits 0) (\<lambda>l0. bind_res (get_at lits 1) (\<lambda>l1.
            bind_res (assert_free dbg l0 st) (\<lambda>_. bind_res (assert_free dbg l1 st) (\<lambda>_.
            let st = st\<lparr>objects := (objects st)(a \<mapsto> \<lparr>hash = last_hash st, csize = sz, literals = lits\<rparr>)\<rparr>
            in bind_res (push_watch dbg l0 \<lparr>blit = l1, wsize = sz, wclause = a\<rparr> st) (\<lambda>st.
               bind_res (push_watch dbg l1 \<lparr>blit = l0, wsize = sz, wclause = a\<rparr> st) (\<lambda>st. Inr (a, st)))))))))))"

section \<open>The hash table\<close>

definition size_clauses :: "rup_checker \<Rightarrow> u64" where
  "size_clauses st = word_of_nat (length (clauses st))"

definition compute_hash :: "rup_checker \<Rightarrow> (u64 \<times> rup_checker) res" where
  "compute_hash st =
     bind_res (get_at (nonces st) (unat (last_id st mod 4))) (\<lambda>nonce.
       Inr (nonce * last_id st, st\<lparr>last_hash := nonce * last_id st\<rparr>))"

definition push_chain :: "bool \<Rightarrow> rup_checker \<Rightarrow> u64 \<Rightarrow> nat \<Rightarrow> nat list list \<Rightarrow> nat list list res" where
  "push_chain dbg st sz a table =
     bind_res (deref a st) (\<lambda>c.
     bind_res (reduce_hash dbg (hash c) sz) (\<lambda>h.
     bind_res (get_at table (unat h)) (\<lambda>chain. set_at table (unat h) (a # chain))))"

definition enlarge_clauses :: "bool \<Rightarrow> rup_checker \<Rightarrow> rup_checker res" where
  "enlarge_clauses dbg st =
     bind_res (cassert dbg (num_clauses st = length (clauses st))) (\<lambda>_.
       let new_size = (if clauses st \<noteq> [] then 2 * length (clauses st) else 1)
       in if 8 * int new_size > PTRDIFF_MAX then Inl Thrown
          else bind_res (fold_res (push_chain dbg st (word_of_nat new_size)) (concat (clauses st))
                 (replicate new_size [])) (\<lambda>table. Inr (st\<lparr>clauses := table\<rparr>)))"

definition insert :: "bool \<Rightarrow> rup_checker \<Rightarrow> rup_checker res" where
  "insert dbg st =
     bind_res (if num_clauses st = length (clauses st) then enlarge_clauses dbg st else Inr st) (\<lambda>st.
     bind_res (compute_hash st) (\<lambda>(hs, st).
     bind_res (reduce_hash dbg hs (size_clauses st)) (\<lambda>h.
     bind_res (new_clause dbg st) (\<lambda>(a, st).
     bind_res (get_at (clauses st) (unat h)) (\<lambda>chain.
       Inr (st\<lparr>clauses := (clauses st)[unat h := a # chain]\<rparr>))))))"

text \<open>The position in a chain of a clause with the hash and size whose literals are all marked.\<close>

fun find_in_chain :: "bool \<Rightarrow> rup_checker \<Rightarrow> bool list \<Rightarrow> u64 \<Rightarrow> nat \<Rightarrow> nat list \<Rightarrow> nat res" where
  "find_in_chain dbg st bits hs sz [] = Inr 0"
| "find_in_chain dbg st bits hs sz (a # chain) =
     bind_res (deref a st) (\<lambda>c.
     bind_res (if hash c = hs \<and> csize c = sz then all_marked dbg bits (literals c) else Inr False) (\<lambda>found.
       if found then Inr 0 else bind_res (find_in_chain dbg st bits hs sz chain) (\<lambda>k. Inr (Suc k))))"

text \<open>A pointer to a link is the index of a chain and a position in it.\<close>

definition find :: "bool \<Rightarrow> rup_checker \<Rightarrow> (nat \<times> nat \<times> rup_checker) res" where
  "find dbg st =
     bind_res (compute_hash st) (\<lambda>(hs, st).
     bind_res (reduce_hash dbg hs (size_clauses st)) (\<lambda>h.
     bind_res (set_bits dbg (simplified st) True (marks st)) (\<lambda>bits.
     bind_res (get_at (clauses st) (unat h)) (\<lambda>chain.
     bind_res (find_in_chain dbg st bits hs (length (simplified st)) chain) (\<lambda>k.
     bind_res (set_bits dbg (simplified st) False bits) (\<lambda>bits. Inr (unat h, k, st\<lparr>marks := bits\<rparr>)))))))"

section \<open>Garbage collection\<close>

fun any_true :: "bool \<Rightarrow> rup_checker \<Rightarrow> int list \<Rightarrow> bool res" where
  "any_true dbg st [] = Inr False"
| "any_true dbg st (lit # lits) = bind_res (val dbg lit st) (\<lambda>v. if v > 0 then Inr True else any_true dbg st lits)"

definition clause_satisfied :: "bool \<Rightarrow> cclause \<Rightarrow> rup_checker \<Rightarrow> bool res" where
  "clause_satisfied dbg c st = any_true dbg st (take (csize c) (literals c))"

text \<open>Satisfied clauses move from their chain to the garbage list.\<close>

fun sweep_chain :: "bool \<Rightarrow> nat list \<Rightarrow> rup_checker \<Rightarrow> (nat list \<times> rup_checker) res" where
  "sweep_chain dbg [] st = Inr ([], st)"
| "sweep_chain dbg (a # chain) st =
     bind_res (deref a st) (\<lambda>c.
     bind_res (clause_satisfied dbg c st) (\<lambda>sat.
       if sat then
         bind_res (cassert dbg (num_clauses st \<noteq> 0)) (\<lambda>_.
           sweep_chain dbg chain (st\<lparr>objects := (objects st)(a \<mapsto> c\<lparr>csize := 0\<rparr>), garbage := a # garbage st,
             num_garbage := num_garbage st + 1, num_clauses := num_clauses st - 1\<rparr>))
       else bind_res (sweep_chain dbg chain st) (\<lambda>(rest, st). Inr (a # rest, st))))"

definition sweep_slot :: "bool \<Rightarrow> nat \<Rightarrow> rup_checker \<Rightarrow> rup_checker res" where
  "sweep_slot dbg i st =
     bind_res (get_at (clauses st) i) (\<lambda>chain.
     bind_res (sweep_chain dbg chain st) (\<lambda>(rest, st). Inr (st\<lparr>clauses := (clauses st)[i := rest]\<rparr>)))"

fun live_watches :: "rup_checker \<Rightarrow> cwatch list \<Rightarrow> cwatch list res" where
  "live_watches st [] = Inr []"
| "live_watches st (w # ws) =
     bind_res (deref (wclause w) st) (\<lambda>c.
     bind_res (live_watches st ws) (\<lambda>rest. Inr (if csize c \<noteq> 0 then w # rest else rest)))"

definition flush_watcher :: "bool \<Rightarrow> int \<Rightarrow> rup_checker \<Rightarrow> rup_checker res" where
  "flush_watcher dbg lit st =
     (if lit = 0 then Inr st
      else bind_res (watcher_index dbg lit st) (\<lambda>u.
           bind_res (live_watches st (watchers st ! u)) (\<lambda>ws. Inr (st\<lparr>watchers := (watchers st)[u := ws]\<rparr>))))"

definition delete_object :: "bool \<Rightarrow> nat \<Rightarrow> rup_checker \<Rightarrow> rup_checker res" where
  "delete_object dbg a st =
     bind_res (deref a st) (\<lambda>c.
       if csize c \<noteq> 0
       then bind_res (cassert dbg (csize c > 1 \<and> num_clauses st \<noteq> 0)) (\<lambda>_.
              Inr (st\<lparr>num_clauses := num_clauses st - 1, objects := (objects st)(a := None)\<rparr>))
       else bind_res (cassert dbg (num_garbage st \<noteq> 0)) (\<lambda>_.
              Inr (st\<lparr>num_garbage := num_garbage st - 1, objects := (objects st)(a := None)\<rparr>)))"

text \<open>The loop over the literals counts in \<^verbatim>\<open>int\<close> up to \<^verbatim>\<open>size_vars\<close>.\<close>

definition collect_garbage_clauses :: "bool \<Rightarrow> rup_checker \<Rightarrow> rup_checker res" where
  "collect_garbage_clauses dbg st =
     bind_res (fold_res (sweep_slot dbg) [0..<length (clauses st)] st) (\<lambda>st.
       if int (size_vars st) > INT_MAX then Inl SignedOverflow
       else bind_res (fold_res (flush_watcher dbg) [1 - int (size_vars st)..int (size_vars st) - 1] st) (\<lambda>st.
            bind_res (fold_res (delete_object dbg) (garbage st) st) (\<lambda>st.
            bind_res (cassert dbg (num_garbage st = 0)) (\<lambda>_. Inr (st\<lparr>garbage := []\<rparr>)))))"

section \<open>Variables and imported clauses\<close>

definition enlarge_vars :: "bool \<Rightarrow> int \<Rightarrow> rup_checker \<Rightarrow> rup_checker res" where
  "enlarge_vars dbg idx st =
     bind_res (cassert dbg (0 < idx \<and> idx \<le> INT_MAX)) (\<lambda>_.
     let new_size_vars = grow (nat idx) (if size_vars st \<noteq> 0 then 2 * size_vars st else 2);
         pad = replicate (new_size_vars - size_vars st) 0
     in Inr (st\<lparr>vals := pad @ vals st @ pad,
                watchers := resize (2 * new_size_vars) [] (watchers st),
                marks := resize (2 * new_size_vars) False (marks st),
                size_vars := new_size_vars\<rparr>))"

definition import_literal :: "bool \<Rightarrow> int \<Rightarrow> rup_checker \<Rightarrow> rup_checker res" where
  "import_literal dbg lit st =
     bind_res (cassert dbg (lit \<noteq> 0 \<and> lit \<noteq> INT_MIN)) (\<lambda>_.
       if lit = INT_MIN then Inl SignedOverflow
       else bind_res (if \<bar>lit\<bar> \<ge> int (size_vars st) then enlarge_vars dbg \<bar>lit\<bar> st else Inr st) (\<lambda>st.
            Inr (st\<lparr>simplified := simplified st @ [lit], unsimplified := unsimplified st @ [lit]\<rparr>)))"

definition import_clause :: "bool \<Rightarrow> int list \<Rightarrow> rup_checker \<Rightarrow> rup_checker res" where
  "import_clause dbg = fold_res (import_literal dbg)"

definition lit_smaller :: "int \<Rightarrow> int \<Rightarrow> bool" where
  "lit_smaller a b = (let c = \<bar>a\<bar>; d = \<bar>b\<bar> in if c < d then True else if c > d then False else a < b)"

text \<open>The same order by a key.\<close>

definition lit_key :: "int \<Rightarrow> int" where
  "lit_key a = 2 * \<bar>a\<bar> + (if a < 0 then 0 else 1)"

lemma lit_smaller_key: "lit_smaller a b \<longleftrightarrow> lit_key a < lit_key b"
  by (auto simp: lit_smaller_def lit_key_def Let_def)

text \<open>Duplicates are dropped in place; the result says whether the clause is tautological or satisfied.\<close>

fun drop_duplicates :: "bool \<Rightarrow> rup_checker \<Rightarrow> int list \<Rightarrow> int \<Rightarrow> int list \<Rightarrow> (bool \<times> int list) res" where
  "drop_duplicates dbg st [] prev kept = Inr (False, kept)"
| "drop_duplicates dbg st (lit # lits) prev kept =
     (if lit = prev then drop_duplicates dbg st lits prev kept
      else if lit = - prev then Inr (True, kept)
      else bind_res (val dbg lit st) (\<lambda>tmp.
           if tmp > 0 then Inr (True, kept) else drop_duplicates dbg st lits lit (kept @ [lit])))"

definition tautological :: "bool \<Rightarrow> rup_checker \<Rightarrow> (bool \<times> rup_checker) res" where
  "tautological dbg st =
     (let lits = sort_key lit_key (simplified st)
      in bind_res (drop_duplicates dbg st lits 0 []) (\<lambda>(taut, kept).
           Inr (taut, st\<lparr>simplified := (if taut then kept @ drop (length kept) lits else kept)\<rparr>)))"

section \<open>Propagation\<close>

definition assign :: "bool \<Rightarrow> int \<Rightarrow> rup_checker \<Rightarrow> rup_checker res" where
  "assign dbg lit st =
     bind_res (assert_free dbg lit st) (\<lambda>_.
     bind_res (set_value lit 1 st) (\<lambda>st.
     bind_res (set_value (- lit) (- 1) st) (\<lambda>st. Inr (st\<lparr>trail := trail st @ [lit]\<rparr>))))"

definition assume_lit :: "bool \<Rightarrow> int \<Rightarrow> rup_checker \<Rightarrow> rup_checker res" where
  "assume_lit dbg lit st =
     bind_res (val dbg lit st) (\<lambda>tmp.
       if tmp > 0 then Inr st else bind_res (cassert dbg (tmp = 0)) (\<lambda>_. assign dbg lit st))"

text \<open>The literals above the level are taken off the trail, the last one first.\<close>

definition unassign :: "bool \<Rightarrow> int \<Rightarrow> rup_checker \<Rightarrow> rup_checker res" where
  "unassign dbg lit st =
     bind_res (if dbg then bind_res (val dbg lit st) (\<lambda>v. bind_res (cassert dbg (v > 0)) (\<lambda>_.
                 bind_res (val dbg (- lit) st) (\<lambda>v. cassert dbg (v < 0)))) else Inr ()) (\<lambda>_.
     bind_res (set_value (- lit) 0 st) (\<lambda>st.
     bind_res (set_value lit 0 st) (\<lambda>st. Inr (st\<lparr>trail := butlast (trail st)\<rparr>))))"

definition backtrack :: "bool \<Rightarrow> nat \<Rightarrow> rup_checker \<Rightarrow> rup_checker res" where
  "backtrack dbg previously_propagated st =
     bind_res (cassert dbg (previously_propagated \<le> length (trail st))) (\<lambda>_.
     bind_res (fold_res (unassign dbg) (rev (drop previously_propagated (trail st))) st) (\<lambda>st.
       Inr (st\<lparr>trail := resize previously_propagated 0 (trail st), next_to_propagate := previously_propagated\<rparr>)))"

datatype visit = Keep cwatch | Drop | Conflict

text \<open>The first of the positions whose literal is not false.\<close>

fun find_replacement :: "bool \<Rightarrow> int list \<Rightarrow> nat list \<Rightarrow> rup_checker \<Rightarrow> nat option res" where
  "find_replacement dbg lits [] st = Inr None"
| "find_replacement dbg lits (k # ks) st =
     bind_res (get_at lits k) (\<lambda>replacement. bind_res (val dbg replacement st) (\<lambda>v.
       if v \<ge> 0 then Inr (Some k) else find_replacement dbg lits ks st))"

text \<open>
  A watch of the false literal \<open>neg\<close> in a long clause.  A new watch for \<open>neg\<close> itself would invalidate the iterators
  of the loop.
\<close>

definition visit_long :: "bool \<Rightarrow> int \<Rightarrow> cwatch \<Rightarrow> rup_checker \<Rightarrow> (visit \<times> rup_checker) res" where
  "visit_long dbg neg w st =
     bind_res (cassert dbg (wsize w > 2)) (\<lambda>_.
     bind_res (deref (wclause w) st) (\<lambda>c.
       if csize c = 0 then Inr (Drop, st)
       else bind_res (cassert dbg (wsize w = csize c)) (\<lambda>_.
            bind_res (get_at (literals c) 0) (\<lambda>l0. bind_res (get_at (literals c) 1) (\<lambda>l1.
            let other = l0 XOR l1 XOR neg
            in bind_res (cassert dbg (other \<noteq> neg)) (\<lambda>_.
               bind_res (val dbg other st) (\<lambda>other_val.
                 if other_val > 0 then Inr (Keep (w\<lparr>blit := other\<rparr>), st)
                 else let lits = (literals c)[0 := other, 1 := neg];
                          st = st\<lparr>objects := (objects st)(wclause w \<mapsto> c\<lparr>literals := lits\<rparr>)\<rparr>
                      in bind_res (find_replacement dbg lits [2..<wsize w] st) (\<lambda>k.
                         case k of
                           Some k \<Rightarrow>
                             if lits ! k = neg then Inl OutOfRange
                             else bind_res (push_watch dbg (lits ! k) \<lparr>blit = neg, wsize = csize c, wclause = wclause w\<rparr> st) (\<lambda>st.
                               Inr (Drop, st\<lparr>objects := (objects st)(wclause w \<mapsto>
                                 c\<lparr>literals := lits[1 := lits ! k, k := neg]\<rparr>)\<rparr>))
                         | None \<Rightarrow>
                             if other_val = 0 then bind_res (assign dbg other st) (\<lambda>st. Inr (Keep w, st))
                             else Inr (Conflict, st)))))))))"

definition visit_watch :: "bool \<Rightarrow> int \<Rightarrow> cwatch \<Rightarrow> rup_checker \<Rightarrow> (visit \<times> rup_checker) res" where
  "visit_watch dbg neg w st =
     bind_res (cassert dbg (blit w \<noteq> neg)) (\<lambda>_.
     bind_res (val dbg (blit w) st) (\<lambda>blit_val.
       if blit_val > 0 then Inr (Keep w, st)
       else if wsize w = 2 then
         if blit_val < 0 then Inr (Conflict, st)
         else bind_res (assign dbg (blit w) st) (\<lambda>st. Inr (Keep w, st))
       else visit_long dbg neg w st))"

text \<open>The watches are compacted in place; those after a conflict are kept.\<close>

fun visit_all :: "bool \<Rightarrow> int \<Rightarrow> cwatch list \<Rightarrow> cwatch list \<Rightarrow> rup_checker \<Rightarrow> (bool \<times> cwatch list \<times> rup_checker) res" where
  "visit_all dbg neg [] kept st = Inr (True, kept, st)"
| "visit_all dbg neg (w # ws) kept st =
     bind_res (visit_watch dbg neg w st) (\<lambda>(v, st).
       case v of
         Keep w \<Rightarrow> visit_all dbg neg ws (kept @ [w]) st
       | Drop \<Rightarrow> visit_all dbg neg ws kept st
       | Conflict \<Rightarrow> Inr (False, kept @ w # ws, st))"

definition propagate_literal :: "bool \<Rightarrow> int \<Rightarrow> rup_checker \<Rightarrow> (bool \<times> rup_checker) res" where
  "propagate_literal dbg lit st =
     bind_res (if dbg then bind_res (val dbg lit st) (\<lambda>v. cassert dbg (v > 0 \<and> \<bar>lit\<bar> < int (size_vars st))) else Inr ()) (\<lambda>_.
     bind_res (watcher_index dbg (- lit) st) (\<lambda>u.
     bind_res (visit_all dbg (- lit) (watchers st ! u) [] st) (\<lambda>(r, ws, st).
       Inr (r, st\<lparr>watchers := (watchers st)[u := ws]\<rparr>))))"

definition propagate_step :: "bool \<Rightarrow> bool \<times> rup_checker \<Rightarrow> (bool \<times> bool \<times> rup_checker) res" where
  "propagate_step dbg s =
     (case s of (r, st) \<Rightarrow>
        if r \<and> next_to_propagate st < length (trail st)
        then bind_res (propagate_literal dbg (trail st ! next_to_propagate st)
               (st\<lparr>next_to_propagate := next_to_propagate st + 1\<rparr>)) (\<lambda>s. Inr (True, s))
        else Inr (False, s))"

definition propagate :: "bool \<Rightarrow> rup_checker \<Rightarrow> (bool \<times> rup_checker) res" where
  "propagate dbg st = loop (propagate_step dbg) (True, st)"

section \<open>The proof events\<close>

definition check :: "bool \<Rightarrow> rup_checker \<Rightarrow> (bool \<times> rup_checker) res" where
  "check dbg st =
     (if inconsistent st then Inr (True, st)
      else bind_res (fold_res (\<lambda>lit. assume_lit dbg (- lit)) (simplified st) st) (\<lambda>st1.
           bind_res (propagate dbg st1) (\<lambda>(r, st2).
           bind_res (backtrack dbg (next_to_propagate st) st2) (\<lambda>st3. Inr (\<not> r, st3)))))"

text \<open>The one literal that is not false, 0 if there is none, \<^verbatim>\<open>INT_MIN\<close> if there are several.\<close>

fun unit_literal :: "bool \<Rightarrow> rup_checker \<Rightarrow> int list \<Rightarrow> int \<Rightarrow> int res" where
  "unit_literal dbg st [] unit = Inr unit"
| "unit_literal dbg st (lit # lits) unit =
     bind_res (val dbg lit st) (\<lambda>tmp.
       if tmp < 0 then unit_literal dbg st lits unit
       else bind_res (cassert dbg (tmp = 0)) (\<lambda>_.
            if unit \<noteq> 0 then Inr INT_MIN else unit_literal dbg st lits lit))"

definition add_clause :: "bool \<Rightarrow> rup_checker \<Rightarrow> rup_checker res" where
  "add_clause dbg st =
     bind_res (unit_literal dbg st (simplified st) 0) (\<lambda>unit.
     let st = (if simplified st = [] then st\<lparr>inconsistent := True\<rparr> else st)
     in if unit = 0 then Inr (st\<lparr>inconsistent := True\<rparr>)
        else if unit \<noteq> INT_MIN then
          bind_res (assign dbg unit st) (\<lambda>st.
          bind_res (propagate dbg st) (\<lambda>(r, st). Inr (if \<not> r then st\<lparr>inconsistent := True\<rparr> else st)))
        else insert dbg st)"

definition clear_clause :: "rup_checker \<Rightarrow> rup_checker" where
  "clear_clause st = st\<lparr>simplified := [], unsimplified := []\<rparr>"

definition add_original_clause :: "bool \<Rightarrow> u64 \<Rightarrow> int list \<Rightarrow> rup_checker \<Rightarrow> rup_checker res" where
  "add_original_clause dbg i c st =
     (if inconsistent st then Inr st
      else bind_res (import_clause dbg c st) (\<lambda>st.
           bind_res (tautological dbg (st\<lparr>last_id := i\<rparr>)) (\<lambda>(taut, st).
           bind_res (if taut then Inr st else add_clause dbg st) (\<lambda>st. Inr (clear_clause st)))))"

definition add_derived_clause :: "bool \<Rightarrow> u64 \<Rightarrow> int list \<Rightarrow> rup_checker \<Rightarrow> rup_checker res" where
  "add_derived_clause dbg i c st =
     (if inconsistent st then Inr st
      else bind_res (import_clause dbg c st) (\<lambda>st.
           bind_res (tautological dbg (st\<lparr>last_id := i\<rparr>)) (\<lambda>(taut, st).
           bind_res (if taut then Inr st
                     else bind_res (check dbg st) (\<lambda>(ok, st).
                          bind_res (fatal_if (\<not> ok)) (\<lambda>_. add_clause dbg st))) (\<lambda>st.
             Inr (clear_clause st)))))"

text \<open>Move the clause a link points to from its chain to the garbage list.\<close>

definition unlink :: "nat \<Rightarrow> nat \<Rightarrow> cclause \<Rightarrow> rup_checker \<Rightarrow> rup_checker" where
  "unlink h k d st =
     (let chain = clauses st ! h; a = chain ! k
      in st\<lparr>num_garbage := num_garbage st + 1, num_clauses := num_clauses st - 1,
            clauses := (clauses st)[h := take k chain @ drop (Suc k) chain],
            garbage := a # garbage st, objects := (objects st)(a \<mapsto> d\<lparr>csize := 0\<rparr>)\<rparr>)"

definition delete_found :: "bool \<Rightarrow> nat \<Rightarrow> nat \<Rightarrow> rup_checker \<Rightarrow> rup_checker res" where
  "delete_found dbg h k st =
     (if k < length (clauses st ! h)
      then bind_res (deref (clauses st ! h ! k) st) (\<lambda>d.
           bind_res (cassert dbg (csize d > 1 \<and> num_clauses st \<noteq> 0)) (\<lambda>_.
           let st = unlink h k d st
           in if 2 * num_garbage st > max (length (clauses st)) (size_vars st)
              then collect_garbage_clauses dbg st else Inr st))
      else Inl Aborted)"

definition delete_clause :: "bool \<Rightarrow> u64 \<Rightarrow> int list \<Rightarrow> rup_checker \<Rightarrow> rup_checker res" where
  "delete_clause dbg i c st =
     (if inconsistent st then Inr st
      else bind_res (import_clause dbg c st) (\<lambda>st.
           bind_res (tautological dbg (st\<lparr>last_id := i\<rparr>)) (\<lambda>(taut, st).
           bind_res (if taut then Inr st
                     else bind_res (find dbg st) (\<lambda>(h, k, st). delete_found dbg h k st)) (\<lambda>st.
             Inr (clear_clause st)))))"

definition add_assumption_clause :: "bool \<Rightarrow> u64 \<Rightarrow> int list \<Rightarrow> rup_checker \<Rightarrow> rup_checker res" where
  "add_assumption_clause dbg i c st = bind_res (add_derived_clause dbg i c st) (delete_clause dbg i c)"

datatype rup_event =
    Original u64 "int list"
  | Derived u64 "int list"
  | Delete u64 "int list"
  | Assumption u64 "int list"

fun handle_event :: "bool \<Rightarrow> rup_event \<Rightarrow> rup_checker \<Rightarrow> rup_checker res" where
  "handle_event dbg (Original i c) = add_original_clause dbg i c"
| "handle_event dbg (Derived i c) = add_derived_clause dbg i c"
| "handle_event dbg (Delete i c) = delete_clause dbg i c"
| "handle_event dbg (Assumption i c) = add_assumption_clause dbg i c"

definition run_events :: "bool \<Rightarrow> rup_event list \<Rightarrow> rup_checker res" where
  "run_events dbg evs = fold_res (handle_event dbg) evs Checker_new"

end
