(* ===== verification/RupPropagation.thy ===== *)
theory RupPropagation
  imports RupChecker
begin

text \<open>
  The online proof checker, first part: an invariant of its state, and that propagation keeps it without a fault or
  a failed assertion; a conflict means that the clauses are contradictory, and an accepted clause follows from them.
\<close>

section \<open>The invariant\<close>

definition lit_ok :: "nat \<Rightarrow> int \<Rightarrow> bool" where
  "lit_ok n l \<longleftrightarrow> l \<noteq> 0 \<and> \<bar>l\<bar> < int n"

definition lit_value :: "rup_checker \<Rightarrow> int \<Rightarrow> int" where
  "lit_value st l = vals st ! nat (l + int (size_vars st))"

definition lit_slot :: "int \<Rightarrow> nat" where
  "lit_slot l = nat (2 * (\<bar>l\<bar> - 1) + (if l < 0 then 1 else 0))"

definition watches_of :: "rup_checker \<Rightarrow> int \<Rightarrow> cwatch list" where
  "watches_of st l = watchers st ! lit_slot l"

text \<open>
  The tables have room for all literals, and literals are small enough for \<^verbatim>\<open>l2u\<close>.  The first value belongs to no
  literal, the last two watch lists neither; they become those of literals when the tables are enlarged.
\<close>

definition vars_ok :: "rup_checker \<Rightarrow> bool" where
  "vars_ok st \<longleftrightarrow>
     (size_vars st = 0 \<or> size_vars st dvd 2 ^ 30) \<and> length (vals st) = 2 * size_vars st \<and>
     set (take 1 (vals st)) \<subseteq> {0} \<and> length (watchers st) = 2 * size_vars st \<and>
     set (drop (2 * size_vars st - 2) (watchers st)) \<subseteq> {[]} \<and> marks st = replicate (2 * size_vars st) False \<and>
     (\<forall>l. lit_ok (size_vars st) l \<longrightarrow> lit_value st l \<in> {-1, 0, 1} \<and> lit_value st (- l) = - lit_value st l)"

text \<open>The trail holds the true literals.\<close>

definition trail_ok :: "rup_checker \<Rightarrow> bool" where
  "trail_ok st \<longleftrightarrow>
     distinct (trail st) \<and> next_to_propagate st \<le> length (trail st) \<and> (\<forall>l \<in> set (trail st). lit_ok (size_vars st) l) \<and>
     (\<forall>l. lit_ok (size_vars st) l \<longrightarrow> (l \<in> set (trail st) \<longleftrightarrow> lit_value st l = 1))"

definition clause_ok :: "nat \<Rightarrow> cclause \<Rightarrow> bool" where
  "clause_ok n c \<longleftrightarrow>
     2 \<le> length (literals c) \<and> (\<forall>l \<in> set (literals c). lit_ok n l \<and> - l \<notin> set (literals c)) \<and>
     distinct (literals c) \<and> csize c \<in> {0, length (literals c)}"

text \<open>
  A watch of a clause of two literals holds the other one; a longer clause is watched by its first two literals, and at
  most once by each.
\<close>

definition watch_ok :: "nat \<Rightarrow> (nat \<rightharpoonup> cclause) \<Rightarrow> int \<Rightarrow> cwatch \<Rightarrow> bool" where
  "watch_ok n objs l w \<longleftrightarrow>
     (\<exists>c. objs (wclause w) = Some c \<and> wsize w = length (literals c) \<and> lit_ok n (blit w) \<and> blit w \<noteq> l \<and>
        (if wsize w = 2 then set (literals c) = {l, blit w} else l \<in> set (take 2 (literals c))))"

definition watches_ok :: "nat \<Rightarrow> (nat \<rightharpoonup> cclause) \<Rightarrow> (int \<Rightarrow> cwatch list) \<Rightarrow> bool" where
  "watches_ok n objs wl \<longleftrightarrow>
     (\<forall>l. lit_ok n l \<longrightarrow> distinct (map wclause (wl l)) \<and> (\<forall>w \<in> set (wl l). watch_ok n objs l w))"

definition store_ok :: "rup_checker \<Rightarrow> bool" where
  "store_ok st \<longleftrightarrow> (\<forall>a c. objects st a = Some c \<longrightarrow> a < fresh st \<and> clause_ok (size_vars st) c)"

text \<open>All clauses are consequences of the given ones \<open>F\<close>, the true literals those of \<open>G\<close>.\<close>

definition sound :: "int list set \<Rightarrow> int list set \<Rightarrow> rup_checker \<Rightarrow> bool" where
  "sound F G st \<longleftrightarrow>
     (\<forall>a c. objects st a = Some c \<longrightarrow> entails F (literals c)) \<and> (\<forall>l \<in> set (trail st). entails G [l])"

section \<open>Values and watches\<close>

lemma lit_ok_neg [simp]: "lit_ok n (- l) \<longleftrightarrow> lit_ok n l"
  by (auto simp: lit_ok_def)

lemma lit_ok_nonzero: "lit_ok n l \<Longrightarrow> l \<noteq> 0"
  by (simp add: lit_ok_def)

lemma vars_ok_bound: "vars_ok st \<Longrightarrow> size_vars st \<le> 1073741824"
  using dvd_imp_le [of "size_vars st" "2 ^ 30"] by (auto simp: vars_ok_def)

lemma vars_okD:
  assumes "vars_ok st"
  shows "length (vals st) = 2 * size_vars st" "length (watchers st) = 2 * size_vars st"
    "marks st = replicate (2 * size_vars st) False"
    "lit_ok (size_vars st) l \<Longrightarrow> lit_value st l \<in> {-1, 0, 1}"
    "lit_ok (size_vars st) l \<Longrightarrow> lit_value st (- l) = - lit_value st l"
  using assms by (auto simp: vars_ok_def)

lemma value_at_ok:
  assumes "vars_ok st" "lit_ok (size_vars st) l"
  shows "value_at l st = Inr (lit_value st l)"
  using assms by (auto simp: value_at_def lit_value_def lit_ok_def vars_okD(1) Let_def)

lemma val_returns:
  assumes "vars_ok st" "lit_ok (size_vars st) l"
  shows "val dbg l st = Inr (lit_value st l)"
proof -
  have "value_at (- l) st = Inr (- lit_value st l)" using value_at_ok [OF assms(1), of "- l"] assms vars_okD(5) by simp
  moreover have "l \<noteq> INT_MIN" using assms vars_ok_bound [OF assms(1)] by (auto simp: lit_ok_def INT_MIN_def)
  ultimately show ?thesis using assms value_at_ok [OF assms] by (simp add: val_def cassert_def lit_ok_def)
qed

lemma returns_val:
  assumes "vars_ok st" "lit_ok (size_vars st) l" "returns (\<lambda>dbg. g dbg (lit_value st l)) Q"
  shows "returns (\<lambda>dbg. bind_res (val dbg l st) (g dbg)) Q"
  using assms by (simp add: val_returns)

lemma lit_slot_less: "lit_ok n l \<Longrightarrow> lit_slot l < 2 * n"
  by (auto simp: lit_slot_def lit_ok_def)

lemma int_lit_slot: "l \<noteq> 0 \<Longrightarrow> int (lit_slot l) = 2 * \<bar>l\<bar> - (if l < 0 then 1 else 2)"
  by (auto simp: lit_slot_def)

lemma lit_slot_inj:
  assumes "l \<noteq> 0" "k \<noteq> 0"
  shows "lit_slot l = lit_slot k \<longleftrightarrow> l = k"
proof
  assume "lit_slot l = lit_slot k"
  then have "2 * \<bar>l\<bar> - (if l < 0 then 1 else 2) = 2 * \<bar>k\<bar> - (if k < 0 then 1 else 2)"
    using int_lit_slot [OF assms(1)] int_lit_slot [OF assms(2)] by simp
  then show "l = k" by (auto simp: abs_if split: if_splits) presburger+
qed simp

lemma l2u_ok:
  assumes "vars_ok st" "lit_ok (size_vars st) l"
  shows "l2u dbg l = Inr (lit_slot l)"
  using assms vars_ok_bound [OF assms(1)]
  by (auto simp: l2u_def lit_ok_def lit_slot_def cassert_def INT_MIN_def INT_MAX_def UINT_MAX_def)

lemma watcher_index_ok:
  assumes "vars_ok st" "lit_ok (size_vars st) l"
  shows "watcher_index dbg l st = Inr (lit_slot l)"
  using assms lit_slot_less [OF assms(2)] by (simp add: watcher_index_def l2u_ok cassert_def vars_okD(2))

lemma push_watch_ok:
  assumes "vars_ok st" "lit_ok (size_vars st) l"
  shows "push_watch dbg l w st = Inr (st\<lparr>watchers := (watchers st)[lit_slot l := watches_of st l @ [w]]\<rparr>)"
  using assms by (simp add: push_watch_def watcher_index_ok watches_of_def)

text \<open>Writing a value and reading it back.\<close>

lemma set_value_ok:
  assumes "vars_ok st" "lit_ok (size_vars st) l"
  shows "set_value l v st = Inr (st\<lparr>vals := (vals st)[nat (l + int (size_vars st)) := v]\<rparr>)"
  using assms by (auto simp: set_value_def lit_ok_def vars_okD(1) Let_def)

definition with_value :: "int \<Rightarrow> int \<Rightarrow> rup_checker \<Rightarrow> rup_checker" where
  "with_value l v st = st\<lparr>vals := (vals st)[nat (l + int (size_vars st)) := v, nat (- l + int (size_vars st)) := - v]\<rparr>"

lemma with_value_same [simp]:
  "size_vars (with_value l v st) = size_vars st" "watchers (with_value l v st) = watchers st"
  "marks (with_value l v st) = marks st" "objects (with_value l v st) = objects st" "fresh (with_value l v st) = fresh st"
  "trail (with_value l v st) = trail st" "next_to_propagate (with_value l v st) = next_to_propagate st"
  by (simp_all add: with_value_def)

lemma lit_value_with_value:
  assumes "vars_ok st" "lit_ok (size_vars st) l" "lit_ok (size_vars st) k"
  shows "lit_value (with_value l v st) k = (if k = l then v else if k = - l then - v else lit_value st k)"
proof -
  define i where "i j = nat (j + int (size_vars st))" for j
  have i: "i k = i j \<longleftrightarrow> k = j" "i j < length (vals st)" if "lit_ok (size_vars st) j" for j
    using assms(3) that by (auto simp: lit_ok_def i_def vars_okD(1) [OF assms(1)])
  have "l \<noteq> - l" using assms(2) by (auto simp: lit_ok_def)
  have len: "i l < length (vals st)" "i (- l) < length (vals st)" using i(2) assms(2) by auto
  have "(vals st)[i l := v, i (- l) := - v] ! i k = (if k = l then v else if k = - l then - v else vals st ! i k)"
  proof -
    consider "k = l" | "k = - l" "k \<noteq> l" | "k \<noteq> l" "k \<noteq> - l" by blast
    then show ?thesis
    proof cases
      case 1
      then have "i (- l) \<noteq> i l" using i(1) [of "- l"] assms(2) \<open>l \<noteq> - l\<close> by simp
      then show ?thesis using 1 len by simp
    next
      case 2
      then show ?thesis using len by simp
    next
      case 3
      then have "i l \<noteq> i k" "i (- l) \<noteq> i k" using i(1) [of l] i(1) [of "- l"] assms(2) by auto
      then show ?thesis using 3 by simp
    qed
  qed
  then show ?thesis by (simp add: lit_value_def with_value_def i_def)
qed

lemma vars_ok_with_value:
  assumes "vars_ok st" "lit_ok (size_vars st) l" "v \<in> {-1, 0, 1}"
  shows "vars_ok (with_value l v st)"
  unfolding vars_ok_def
proof (intro conjI allI impI)
  fix k assume k: "lit_ok (size_vars (with_value l v st)) k"
  then show "lit_value (with_value l v st) k \<in> {-1, 0, 1}"
    using assms vars_okD(4) [OF assms(1), of k] by (auto simp: lit_value_with_value)
  have "- k = l \<longleftrightarrow> k = - l" by auto
  moreover have "l \<noteq> - l" using assms(2) by (auto simp: lit_ok_def)
  ultimately show "lit_value (with_value l v st) (- k) = - lit_value (with_value l v st) k"
    using assms vars_okD(5) [OF assms(1), of k] k by (auto simp: lit_value_with_value)
next
  have "1 \<le> nat (l + int (size_vars st))" "1 \<le> nat (- l + int (size_vars st))" using assms(2) by (auto simp: lit_ok_def)
  then show "set (take 1 (vals (with_value l v st))) \<subseteq> {0}" using assms(1) by (simp add: vars_ok_def with_value_def)
qed (use assms(1) in \<open>auto simp: vars_ok_def with_value_def\<close>)

section \<open>Assigning and unassigning\<close>

definition assigned :: "int \<Rightarrow> rup_checker \<Rightarrow> rup_checker" where
  "assigned l st = (with_value l 1 st)\<lparr>trail := trail st @ [l]\<rparr>"

definition unassigned :: "int \<Rightarrow> rup_checker \<Rightarrow> rup_checker" where
  "unassigned l st = (with_value (- l) 0 st)\<lparr>trail := butlast (trail st)\<rparr>"

lemma vars_ok_trail [simp]:
  "vars_ok (st\<lparr>trail := t\<rparr>) \<longleftrightarrow> vars_ok st" "vars_ok (st\<lparr>next_to_propagate := k\<rparr>) \<longleftrightarrow> vars_ok st"
  "lit_value (st\<lparr>trail := t\<rparr>) = lit_value st" "lit_value (st\<lparr>next_to_propagate := k\<rparr>) = lit_value st"
  by (auto simp: vars_ok_def lit_value_def fun_eq_iff)

lemma set_both:
  assumes "vars_ok st" "lit_ok (size_vars st) l"
  shows "bind_res (set_value l v st) (set_value (- l) (- v)) = Inr (with_value l v st)"
proof -
  let ?n = "int (size_vars st)"
  have "\<not> l + ?n < 0" "nat (l + ?n) < length (vals st)" "\<not> - l + ?n < 0" "nat (- l + ?n) < length (vals st)"
    using assms(2) by (auto simp: lit_ok_def vars_okD(1) [OF assms(1)])
  then show ?thesis by (simp add: set_value_def Let_def with_value_def)
qed

lemma assign_ok:
  assumes "vars_ok st" "lit_ok (size_vars st) l" "lit_value st l = 0"
  shows "assign dbg l st = Inr (assigned l st)"
proof -
  have "assert_free dbg l st = Inr ()" using assms by (simp add: assert_free_def val_returns cassert_def)
  moreover have "bind_res (set_value l 1 st) (\<lambda>st. bind_res (set_value (- l) (- 1) st) (\<lambda>st. Inr (st\<lparr>trail := trail st @ [l]\<rparr>))) =
      bind_res (bind_res (set_value l 1 st) (set_value (- l) (- 1))) (\<lambda>st. Inr (st\<lparr>trail := trail st @ [l]\<rparr>))"
    by (simp add: bind_res_assoc)
  ultimately show ?thesis using set_both [OF assms(1,2), of 1] by (simp add: assign_def assigned_def)
qed

lemma vars_ok_assigned:
  "vars_ok st \<Longrightarrow> lit_ok (size_vars st) l \<Longrightarrow> vars_ok (assigned l st)"
  by (simp add: assigned_def vars_ok_with_value)

lemma lit_value_assigned:
  "vars_ok st \<Longrightarrow> lit_ok (size_vars st) l \<Longrightarrow> lit_ok (size_vars st) k \<Longrightarrow>
   lit_value (assigned l st) k = (if k = l then 1 else if k = - l then - 1 else lit_value st k)"
  by (simp add: assigned_def lit_value_with_value)

lemma trail_ok_assigned:
  assumes "vars_ok st" "trail_ok st" "lit_ok (size_vars st) l" "lit_value st l = 0"
  shows "trail_ok (assigned l st)"
proof -
  have "l \<notin> set (trail st)" using assms by (auto simp: trail_ok_def)
  moreover have "- l \<noteq> l" using assms(3) by (auto simp: lit_ok_def)
  moreover have "- l \<notin> set (trail st)" using assms vars_okD(5) [OF assms(1,3)] by (auto simp: trail_ok_def)
  moreover have "size_vars (assigned l st) = size_vars st" "trail (assigned l st) = trail st @ [l]"
      "next_to_propagate (assigned l st) = next_to_propagate st"
    by (simp_all add: assigned_def)
  ultimately show ?thesis using assms by (auto simp: trail_ok_def lit_value_assigned)
qed

lemma unassign_ok:
  assumes "vars_ok st" "lit_ok (size_vars st) l" "lit_value st l = 1"
  shows "unassign dbg l st = Inr (unassigned l st)"
proof -
  have "val d l st = Inr 1" "val d (- l) st = Inr (- 1)" for d
    using val_returns [OF assms(1,2)] val_returns [OF assms(1), of "- l"] assms vars_okD(5) [OF assms(1,2)] by auto
  moreover have "bind_res (set_value (- l) 0 st) (\<lambda>st. bind_res (set_value l 0 st) (\<lambda>st. Inr (st\<lparr>trail := butlast (trail st)\<rparr>))) =
      bind_res (bind_res (set_value (- l) 0 st) (set_value l 0)) (\<lambda>st. Inr (st\<lparr>trail := butlast (trail st)\<rparr>))"
    by (simp add: bind_res_assoc)
  ultimately show ?thesis using set_both [OF assms(1), of "- l" 0] assms(2)
    by (simp add: unassign_def unassigned_def cassert_def)
qed

lemma vars_ok_unassigned:
  "vars_ok st \<Longrightarrow> lit_ok (size_vars st) l \<Longrightarrow> vars_ok (unassigned l st)"
  by (simp add: unassigned_def vars_ok_with_value)

lemma lit_value_unassigned:
  "vars_ok st \<Longrightarrow> lit_ok (size_vars st) l \<Longrightarrow> lit_ok (size_vars st) k \<Longrightarrow>
   lit_value (unassigned l st) k = (if k = l \<or> k = - l then 0 else lit_value st k)"
  by (auto simp: unassigned_def lit_value_with_value)

text \<open>
  During backtracking the literals above the level leave the trail one by one.
\<close>

lemma trail_unassigned:
  assumes v: "vars_ok st" and t: "trail st = ls @ [l]" "distinct (trail st)" "\<forall>k \<in> set (trail st). lit_ok (size_vars st) k"
    and iff: "\<forall>k. lit_ok (size_vars st) k \<longrightarrow> (k \<in> set (trail st) \<longleftrightarrow> lit_value st k = 1)"
  shows "trail (unassigned l st) = ls" "\<forall>k. lit_ok (size_vars st) k \<longrightarrow> (k \<in> set ls \<longleftrightarrow> lit_value (unassigned l st) k = 1)"
proof -
  show "trail (unassigned l st) = ls" using t(1) by (simp add: unassigned_def)
  have l: "lit_ok (size_vars st) l" "lit_value st l = 1" using t iff by auto
  have "- l \<notin> set (trail st)" using iff l v vars_okD(5) [OF v l(1)] by auto
  then show "\<forall>k. lit_ok (size_vars st) k \<longrightarrow> (k \<in> set ls \<longleftrightarrow> lit_value (unassigned l st) k = 1)"
    using t iff l(1) v by (auto simp: lit_value_unassigned)
qed

section \<open>Consequences of the trail\<close>

lemma true_entailed:
  assumes "sound F G st" "trail_ok st" "lit_ok (size_vars st) l" "lit_value st l = 1"
  shows "entails G [l]"
  using assms by (auto simp: sound_def trail_ok_def)

lemma false_entailed:
  assumes "sound F G st" "vars_ok st" "trail_ok st" "lit_ok (size_vars st) l" "lit_value st l = -1"
  shows "entails G [- l]"
  using true_entailed [OF assms(1,3), of "- l"] assms(4,5) vars_okD(5) [OF assms(2,4)] by simp

lemma unit_entailed:
  assumes "entails G c" "0 \<notin> set c" "\<And>k. k \<in> set c \<Longrightarrow> k \<noteq> l \<Longrightarrow> entails G [- k]"
  shows "entails G [l]"
  unfolding entails_models
proof (intro allI impI)
  fix M assume M: "models M G"
  then obtain k where k: "k \<in> set c" "sat_lit M k" using assms(1) by (auto simp: entails_models sat_clause_def)
  have "k = l"
  proof (rule ccontr)
    assume "k \<noteq> l"
    then have "sat_lit M (- k)" using assms(3) [OF k(1)] M by (auto simp: entails_models sat_clause_def)
    moreover have "k \<noteq> 0" using k(1) assms(2) by auto
    ultimately show False using k(2) by simp
  qed
  then show "sat_clause M [l]" using k(2) by (simp add: sat_clause_def)
qed

lemma conflict_unsat:
  assumes "entails G c" "0 \<notin> set c" "\<And>k. k \<in> set c \<Longrightarrow> entails G [- k]"
  shows "unsat G"
proof -
  have "entails G [1]" "entails G [-1]"
    using assms(3) by (auto intro: unit_entailed [OF assms(1,2)])
  then have "\<not> models M G" for M by (auto simp: entails_models sat_clause_def sat_lit_def)
  then show ?thesis by (simp add: unsat_def models_def)
qed


section \<open>The invariant of propagation\<close>

text \<open>What propagation leaves alone; it permutes literals of clauses and adds to the trail.\<close>

definition same_clause :: "cclause \<Rightarrow> cclause \<Rightarrow> bool" where
  "same_clause c d \<longleftrightarrow> hash c = hash d \<and> csize c = csize d \<and> mset (literals c) = mset (literals d)"

definition evolves :: "rup_checker \<Rightarrow> rup_checker \<Rightarrow> bool" where
  "evolves st st' \<longleftrightarrow>
     size_vars st' = size_vars st \<and> marks st' = marks st \<and> inconsistent st' = inconsistent st \<and>
     clauses st' = clauses st \<and> garbage st' = garbage st \<and> num_clauses st' = num_clauses st \<and>
     num_garbage st' = num_garbage st \<and> simplified st' = simplified st \<and>
     unsimplified st' = unsimplified st \<and> nonces st' = nonces st \<and> last_hash st' = last_hash st \<and>
     last_id st' = last_id st \<and> fresh st' = fresh st \<and>
     (\<forall>a. rel_option same_clause (objects st a) (objects st' a)) \<and> (\<exists>ext. trail st' = trail st @ ext)"

lemma same_clause_refl [simp]: "same_clause c c"
  by (simp add: same_clause_def)

lemma same_clause_trans: "same_clause c d \<Longrightarrow> same_clause d e \<Longrightarrow> same_clause c e"
  by (simp add: same_clause_def)

lemma evolves_refl [simp]: "evolves st st"
  by (auto simp: evolves_def intro: option.rel_refl)

lemma evolves_trans [trans]:
  assumes "evolves s t" "evolves t u"
  shows "evolves s u"
proof -
  have "rel_option same_clause (objects s a) (objects u a)" for a
  proof -
    have "rel_option same_clause (objects s a) (objects t a)" "rel_option same_clause (objects t a) (objects u a)"
      using assms by (simp_all add: evolves_def)
    then show ?thesis by (cases "objects s a"; cases "objects t a"; cases "objects u a") (auto intro: same_clause_trans)
  qed
  then show ?thesis using assms by (auto simp: evolves_def)
qed

lemma evolves_same:
  assumes "evolves st st'"
  shows "size_vars st' = size_vars st" "marks st' = marks st" "inconsistent st' = inconsistent st" "clauses st' = clauses st"
    "garbage st' = garbage st" "num_clauses st' = num_clauses st" "num_garbage st' = num_garbage st"
    "simplified st' = simplified st" "unsimplified st' = unsimplified st" "nonces st' = nonces st"
    "last_hash st' = last_hash st" "last_id st' = last_id st" "fresh st' = fresh st"
  using assms by (simp_all add: evolves_def)

lemma evolves_assigned: "evolves st (assigned l st)"
  by (auto simp: evolves_def assigned_def with_value_def intro: option.rel_refl)

text \<open>Everything but the hash table; \<open>wl\<close> are the watches.\<close>

definition prop_inv :: "int list set \<Rightarrow> int list set \<Rightarrow> (int \<Rightarrow> cwatch list) \<Rightarrow> rup_checker \<Rightarrow> bool" where
  "prop_inv F G wl st \<longleftrightarrow>
     vars_ok st \<and> trail_ok st \<and> store_ok st \<and> watches_ok (size_vars st) (objects st) wl \<and> sound F G st \<and>
     (\<forall>c. entails F c \<longrightarrow> entails G c)"

lemma prop_invD:
  assumes "prop_inv F G wl st"
  shows "vars_ok st" "trail_ok st" "store_ok st" "watches_ok (size_vars st) (objects st) wl" "sound F G st"
    "entails F c \<Longrightarrow> entails G c"
  using assms by (auto simp: prop_inv_def)

lemma prop_inv_object:
  assumes "prop_inv F G wl st" "objects st a = Some c"
  shows "clause_ok (size_vars st) c" "entails F (literals c)" "entails G (literals c)" "0 \<notin> set (literals c)" "a < fresh st"
  using assms by (auto simp: prop_inv_def store_ok_def sound_def clause_ok_def lit_ok_def)

lemma prop_inv_false:
  "prop_inv F G wl st \<Longrightarrow> lit_ok (size_vars st) l \<Longrightarrow> lit_value st l = -1 \<Longrightarrow> entails G [- l]"
  by (rule false_entailed) (auto simp: prop_inv_def)

lemma prop_inv_value: "prop_inv F G wl st \<Longrightarrow> lit_ok (size_vars st) l \<Longrightarrow> lit_value st l \<in> {-1, 0, 1}"
  using prop_invD(1) vars_okD(4) by blast

lemma prop_inv_assigned:
  assumes "prop_inv F G wl st" "lit_ok (size_vars st) l" "lit_value st l = 0" "entails G [l]"
  shows "prop_inv F G wl (assigned l st)"
proof -
  have same: "size_vars (assigned l st) = size_vars st" "objects (assigned l st) = objects st" "fresh (assigned l st) = fresh st"
      "trail (assigned l st) = trail st @ [l]"
    by (simp_all add: assigned_def)
  show ?thesis using assms prop_invD(1) [OF assms(1)]
    by (auto simp: prop_inv_def same vars_ok_assigned trail_ok_assigned store_ok_def sound_def)
qed

text \<open>Changing the order of the literals of one clause.\<close>

lemma watch_ok_reorder:
  assumes "watch_ok n objs l w" "objs a = Some c" "mset (literals c') = mset (literals c)"
    "wclause w = a \<Longrightarrow> wsize w \<noteq> 2 \<Longrightarrow> l \<in> set (take 2 (literals c'))"
  shows "watch_ok n (objs(a \<mapsto> c')) l w"
proof -
  obtain d where d: "objs (wclause w) = Some d" "wsize w = length (literals d)" "lit_ok n (blit w)" "blit w \<noteq> l"
    "if wsize w = 2 then set (literals d) = {l, blit w} else l \<in> set (take 2 (literals d))"
    using assms(1) by (auto simp: watch_ok_def)
  show ?thesis
  proof (cases "wclause w = a")
    case True
    then have "d = c" using d(1) assms(2) by simp
    note d' = d [unfolded this]
    show ?thesis using True d' assms(4) mset_eq_length [OF assms(3)] mset_eq_setD [OF assms(3)]
      by (simp add: watch_ok_def)
  next
    case False
    then show ?thesis using d by (simp add: watch_ok_def)
  qed
qed

lemma clause_ok_reorder:
  assumes "clause_ok n c" "mset (literals c') = mset (literals c)" "csize c' = csize c"
  shows "clause_ok n c'"
  using assms(1,3) mset_eq_length [OF assms(2)] mset_eq_setD [OF assms(2)] mset_eq_imp_distinct_iff [OF assms(2)]
  by (simp add: clause_ok_def)

lemma entails_set: "set c = set d \<Longrightarrow> entails F c \<longleftrightarrow> entails F d"
  by (auto simp: entails_def sat_clause_def)

lemma prop_inv_reorder:
  assumes "prop_inv F G wl st" "objects st a = Some c" "mset (literals c') = mset (literals c)" "csize c' = csize c"
    "watches_ok (size_vars st) ((objects st)(a \<mapsto> c')) wl'"
  shows "prop_inv F G wl' (st\<lparr>objects := (objects st)(a \<mapsto> c')\<rparr>)"
proof -
  have v: "vars_ok (st\<lparr>objects := f\<rparr>) \<longleftrightarrow> vars_ok st" "lit_value (st\<lparr>objects := f\<rparr>) = lit_value st" for f
    by (auto simp: vars_ok_def lit_value_def fun_eq_iff)
  have "clause_ok (size_vars st) c'" using clause_ok_reorder [OF prop_inv_object(1) [OF assms(1,2)] assms(3,4)] .
  moreover have "entails F (literals c')"
    using prop_inv_object(2) [OF assms(1,2)] entails_set [OF mset_eq_setD [OF assms(3)]] by simp
  moreover have "a < fresh st" using assms(1,2) by (rule prop_inv_object(5))
  ultimately show ?thesis using assms(1,5)
    by (auto simp: prop_inv_def v trail_ok_def store_ok_def sound_def)
qed

lemma evolves_reorder:
  assumes "objects st a = Some c" "mset (literals c') = mset (literals c)" "csize c' = csize c" "hash c' = hash c"
  shows "evolves st (st\<lparr>objects := (objects st)(a \<mapsto> c')\<rparr>)"
  using assms by (auto simp: evolves_def same_clause_def intro: option.rel_refl)


section \<open>Visiting a watch\<close>

text \<open>The watches, while those of \<open>neg\<close> are being compacted.\<close>

definition watching :: "int \<Rightarrow> cwatch list \<Rightarrow> rup_checker \<Rightarrow> int \<Rightarrow> cwatch list" where
  "watching neg ws st l = (if l = neg then ws else watches_of st l)"

definition visited :: "int list set \<Rightarrow> int list set \<Rightarrow> int \<Rightarrow> cwatch list \<Rightarrow> cwatch list \<Rightarrow> cwatch \<Rightarrow> visit \<Rightarrow> rup_checker \<Rightarrow> bool" where
  "visited F G neg kept ws w v st \<longleftrightarrow>
     (case v of
        Keep w' \<Rightarrow> prop_inv F G (watching neg (kept @ w' # ws) st) st
      | Drop \<Rightarrow> prop_inv F G (watching neg (kept @ ws) st) st
      | Conflict \<Rightarrow> prop_inv F G (watching neg (kept @ w # ws) st) st \<and> unsat G)"

lemma find_replacement_ok:
  assumes "vars_ok st" "\<forall>l \<in> set lits. lit_ok (size_vars st) l" "\<forall>k \<in> set ks. k < length lits"
  shows "\<exists>r. (\<forall>dbg. find_replacement dbg lits ks st = Inr r) \<and>
    (case r of None \<Rightarrow> \<forall>k \<in> set ks. lit_value st (lits ! k) < 0 | Some k \<Rightarrow> k \<in> set ks \<and> lit_value st (lits ! k) \<ge> 0)"
  using assms(3)
proof (induction ks)
  case (Cons k ks)
  then obtain r where r: "\<And>dbg. find_replacement dbg lits ks st = Inr r"
    "case r of None \<Rightarrow> \<forall>k \<in> set ks. lit_value st (lits ! k) < 0 | Some k \<Rightarrow> k \<in> set ks \<and> lit_value st (lits ! k) \<ge> 0"
    by auto
  have "val dbg (lits ! k) st = Inr (lit_value st (lits ! k))" for dbg
    using val_returns [OF assms(1)] assms(2) Cons.prems by simp
  then show ?case using r Cons.prems
    by (cases "lit_value st (lits ! k) \<ge> 0") (auto split: option.splits)
qed simp

lemma xor_other: "a XOR b XOR a = (b :: int)" "a XOR b XOR b = (a :: int)"
  by (simp_all add: xor.left_commute [of a b a])

text \<open>The literals of a watched clause, once the other watch and the false one have been put in front.\<close>

lemma watched_pair:
  assumes "clause_ok n c" "neg \<in> set (take 2 (literals c))" "other = literals c ! 0 XOR literals c ! 1 XOR neg"
    "lits = (literals c)[0 := other, 1 := neg]"
  shows "mset lits = mset (literals c)" "other \<noteq> neg" "lits ! 0 = other" "lits ! 1 = neg"
    "set (take 2 lits) = {other, neg}" "set (take 2 (literals c)) = {other, neg}"
proof -
  obtain l0 l1 rest where c: "literals c = l0 # l1 # rest"
    using assms(1) by (metis clause_ok_def Suc_le_length_iff numeral_2_eq_2)
  have "l0 \<noteq> l1" using assms(1) c by (auto simp: clause_ok_def)
  moreover have "neg = l0 \<or> neg = l1" using assms(2) c by auto
  moreover have "other = l0 XOR l1 XOR neg" using assms(3) c by simp
  ultimately have "other = l1 \<and> neg = l0 \<or> other = l0 \<and> neg = l1" using xor_other by metis
  then show "mset lits = mset (literals c)" "other \<noteq> neg" "lits ! 0 = other" "lits ! 1 = neg"
    "set (take 2 lits) = {other, neg}" "set (take 2 (literals c)) = {other, neg}"
    using c assms(4) \<open>l0 \<noteq> l1\<close> by auto
qed


lemma watching_unique:
  assumes "watches_ok n objs (watching neg (kept @ w # ws) st)" "lit_ok n neg"
  shows "watch_ok n objs neg w" "\<And>v. v \<in> set (kept @ ws) \<Longrightarrow> wclause v \<noteq> wclause w"
    "distinct (map wclause (kept @ ws))" "\<And>v. v \<in> set (kept @ ws) \<Longrightarrow> watch_ok n objs neg v"
proof -
  have "distinct (map wclause (kept @ w # ws)) \<and> (\<forall>v \<in> set (kept @ w # ws). watch_ok n objs neg v)"
    using assms unfolding watches_ok_def watching_def by metis
  then show "watch_ok n objs neg w" "\<And>v. v \<in> set (kept @ ws) \<Longrightarrow> wclause v \<noteq> wclause w"
    "distinct (map wclause (kept @ ws))" "\<And>v. v \<in> set (kept @ ws) \<Longrightarrow> watch_ok n objs neg v"
    by (auto simp: image_iff)
qed

lemma watches_ok_watching:
  "watches_ok n objs (watching neg ws st) \<longleftrightarrow>
     (lit_ok n neg \<longrightarrow> distinct (map wclause ws) \<and> (\<forall>w \<in> set ws. watch_ok n objs neg w)) \<and>
     (\<forall>l. lit_ok n l \<longrightarrow> l \<noteq> neg \<longrightarrow> distinct (map wclause (watches_of st l)) \<and> (\<forall>w \<in> set (watches_of st l). watch_ok n objs l w))"
  by (auto simp: watches_ok_def watching_def)

text \<open>A blocking literal may be replaced, and a watch dropped.\<close>

lemma watches_ok_blit:
  assumes "watches_ok n objs (watching neg (kept @ w # ws) st)" "lit_ok n b" "b \<noteq> neg" "wsize w \<noteq> 2"
  shows "watches_ok n objs (watching neg (kept @ w\<lparr>blit := b\<rparr> # ws) st)"
  using assms by (auto simp: watches_ok_watching watch_ok_def)

lemma watches_ok_drop:
  "watches_ok n objs (watching neg (kept @ w # ws) st) \<Longrightarrow> watches_ok n objs (watching neg (kept @ ws) st)"
  by (auto simp: watches_ok_watching)

text \<open>The two watches of a clause keep their places when its first two literals are exchanged.\<close>

lemma watches_ok_swap:
  assumes "watches_ok n objs wl" "objs a = Some c" "mset (literals c') = mset (literals c)"
    "set (take 2 (literals c')) = set (take 2 (literals c))"
  shows "watches_ok n (objs(a \<mapsto> c')) wl"
  unfolding watches_ok_def
proof (intro allI impI conjI ballI)
  fix l w assume l: "lit_ok n l" and w: "w \<in> set (wl l)"
  have ok: "watch_ok n objs l w" using assms(1) l w by (simp add: watches_ok_def)
  show "watch_ok n (objs(a \<mapsto> c')) l w"
  proof (rule watch_ok_reorder [OF ok assms(2,3)])
    assume "wclause w = a" "wsize w \<noteq> 2"
    then have "l \<in> set (take 2 (literals c))" using ok assms(2) by (auto simp: watch_ok_def)
    then show "l \<in> set (take 2 (literals c'))" using assms(4) by simp
  qed
qed (use assms(1) in \<open>simp add: watches_ok_def\<close>)

text \<open>A watch moves from \<open>neg\<close> to another literal, which becomes the second one.\<close>

lemma watches_ok_move:
  assumes ok: "watches_ok n objs (watching neg (kept @ w # ws) st)" and neg: "lit_ok n neg" and a: "objs (wclause w) = Some c"
    and len: "length (literals c) \<noteq> 2" and m: "mset (literals c') = mset (literals c)"
    and front: "set (take 2 (literals c)) = {other, neg}" "set (take 2 (literals c')) = {other, r}"
    and r: "r \<noteq> neg" "r \<noteq> other" "lit_ok n r"
    and st': "\<And>l. l \<noteq> r \<Longrightarrow> lit_ok n l \<Longrightarrow> watches_of st' l = watches_of st l"
      "watches_of st' r = watches_of st r @ [\<lparr>blit = neg, wsize = length (literals c), wclause = wclause w\<rparr>]"
  shows "watches_ok n (objs(wclause w \<mapsto> c')) (watching neg (kept @ ws) st')"
proof -
  note u = watching_unique [OF ok neg]
  have keep: "watch_ok n (objs(wclause w \<mapsto> c')) l v" if "watch_ok n objs l v" "wclause v = wclause w \<Longrightarrow> l \<noteq> neg" for l v
    using that(1) a m
  proof (rule watch_ok_reorder)
    assume "wclause v = wclause w" "wsize v \<noteq> 2"
    then have "l \<in> {other, neg}" using that(1) a front(1) by (auto simp: watch_ok_def)
    then show "l \<in> set (take 2 (literals c'))" using that(2) \<open>wclause v = wclause w\<close> front(2) by auto
  qed
  have others: "distinct (map wclause (watches_of st l))" "v \<in> set (watches_of st l) \<Longrightarrow> watch_ok n objs l v"
    if "lit_ok n l" "l \<noteq> neg" for l v
    using ok that by (auto simp: watches_ok_watching)
  have "wclause w \<notin> wclause ` set (watches_of st r)"
  proof
    assume "wclause w \<in> wclause ` set (watches_of st r)"
    then obtain v where "v \<in> set (watches_of st r)" "wclause v = wclause w" by auto
    then have "watch_ok n objs r v" using others(2) [OF r(3,1)] by blast
    then have "r \<in> set (take 2 (literals c))" using a len \<open>wclause v = wclause w\<close> by (auto simp: watch_ok_def)
    then show False using len front(1) r by auto
  qed
  moreover have "watch_ok n (objs(wclause w \<mapsto> c')) r \<lparr>blit = neg, wsize = length (literals c), wclause = wclause w\<rparr>"
    using neg r(1) len front(2) mset_eq_length [OF m] by (simp add: watch_ok_def)
  ultimately have "distinct (map wclause (watches_of st' l)) \<and> (\<forall>v \<in> set (watches_of st' l). watch_ok n (objs(wclause w \<mapsto> c')) l v)"
    if "lit_ok n l" "l \<noteq> neg" for l
    using others [OF that] keep that st' r by (cases "l = r") auto
  moreover have "watch_ok n (objs(wclause w \<mapsto> c')) neg v" if "v \<in> set (kept @ ws)" for v
    using keep [OF u(4) [OF that]] u(2) [OF that] by blast
  ultimately show ?thesis using u(3) by (auto simp: watches_ok_watching)
qed


lemma returns_witness: "(\<And>dbg. f dbg = Inr x) \<Longrightarrow> Q x \<Longrightarrow> returns f Q"
  by (auto simp: returns_def)

text \<open>The result of a visit: what has changed, and the invariant with the watches as they are then.\<close>

definition visit_post :: "int list set \<Rightarrow> int list set \<Rightarrow> int \<Rightarrow> cwatch list \<Rightarrow> cwatch list \<Rightarrow> cwatch \<Rightarrow> rup_checker \<Rightarrow>
    visit \<times> rup_checker \<Rightarrow> bool" where
  "visit_post F G neg kept ws w st r \<longleftrightarrow>
     evolves st (snd r) \<and> next_to_propagate (snd r) = next_to_propagate st \<and> lit_value (snd r) neg = -1 \<and>
     length (watchers (snd r)) = length (watchers st) \<and> visited F G neg kept ws w (fst r) (snd r)"

lemma watching_cong: "watchers st' = watchers st \<Longrightarrow> watching neg ws st' = watching neg ws st"
  by (simp add: watching_def watches_of_def fun_eq_iff)

lemma with_value_neg:
  assumes "vars_ok st" "lit_ok (size_vars st) l" "lit_ok (size_vars st) neg" "lit_value st l = 0" "lit_value st neg = -1"
  shows "lit_value (assigned l st) neg = -1"
  using assms vars_okD(5) [OF assms(1,2)] by (auto simp: lit_value_assigned)

lemma visit_post_assigned:
  assumes "prop_inv F G (watching neg (kept @ w # ws) st) st" "lit_ok (size_vars st) l" "lit_value st l = 0" "entails G [l]"
    "lit_ok (size_vars st) neg" "lit_value st neg = -1"
  shows "visit_post F G neg kept ws w st (Keep w, assigned l st)"
proof -
  have same: "watchers (assigned l st) = watchers st" "next_to_propagate (assigned l st) = next_to_propagate st"
    by (simp_all add: assigned_def)
  show ?thesis using prop_inv_assigned [OF assms(1-4)] with_value_neg [OF prop_invD(1) [OF assms(1)] assms(2,5,3,6)]
    by (simp add: visit_post_def visited_def evolves_assigned same watching_cong [OF same(1)])
qed

lemma entails_false_rest:
  assumes "prop_inv F G wl st" "objects st a = Some c"
    and "\<And>k. k \<in> set (literals c) \<Longrightarrow> k \<noteq> l \<Longrightarrow> lit_value st k = -1"
  shows "entails G [l]"
proof (rule unit_entailed [OF prop_inv_object(3,4) [OF assms(1,2)]])
  fix k assume "k \<in> set (literals c)" "k \<noteq> l"
  then show "entails G [- k]"
    using prop_inv_false [OF assms(1)] assms(3) prop_inv_object(1) [OF assms(1,2)] by (auto simp: clause_ok_def)
qed

lemma unsat_false_clause:
  assumes "prop_inv F G wl st" "objects st a = Some c" "\<And>k. k \<in> set (literals c) \<Longrightarrow> lit_value st k = -1"
  shows "unsat G"
proof (rule conflict_unsat [OF prop_inv_object(3,4) [OF assms(1,2)]])
  fix k assume "k \<in> set (literals c)"
  then show "entails G [- k]"
    using prop_inv_false [OF assms(1)] assms(3) prop_inv_object(1) [OF assms(1,2)] by (auto simp: clause_ok_def)
qed

lemma objects_same [simp]:
  "vars_ok (st\<lparr>objects := f\<rparr>) \<longleftrightarrow> vars_ok st" "lit_value (st\<lparr>objects := f\<rparr>) = lit_value st"
  "watches_of (st\<lparr>objects := f\<rparr>) = watches_of st" "watching neg ws (st\<lparr>objects := f\<rparr>) = watching neg ws st"
  by (auto simp: vars_ok_def lit_value_def watches_of_def watching_def fun_eq_iff)

lemma drop_slot: "lit_ok n l \<Longrightarrow> drop (2 * n - 2) (ws[lit_slot l := x]) = drop (2 * n - 2) ws"
  using int_lit_slot [of l] by (intro drop_update_cancel) (auto simp: lit_ok_def split: if_splits)

lemma watchers_same:
  "length ws = length (watchers st) \<Longrightarrow> drop (2 * size_vars st - 2) ws = drop (2 * size_vars st - 2) (watchers st) \<Longrightarrow>
     vars_ok (st\<lparr>watchers := ws\<rparr>) \<longleftrightarrow> vars_ok st"
  "lit_value (st\<lparr>watchers := ws\<rparr>) = lit_value st"
  by (auto simp: vars_ok_def lit_value_def fun_eq_iff)

lemma prop_inv_watchers:
  assumes "prop_inv F G wl st" "length ws = length (watchers st)"
    "drop (2 * size_vars st - 2) ws = drop (2 * size_vars st - 2) (watchers st)" "watches_ok (size_vars st) (objects st) wl'"
  shows "prop_inv F G wl' (st\<lparr>watchers := ws\<rparr>)"
  using assms by (auto simp: prop_inv_def watchers_same trail_ok_def store_ok_def sound_def)

lemma watches_of_push:
  assumes "vars_ok st" "lit_ok (size_vars st) r" "lit_ok (size_vars st) l"
  shows "watches_of (st\<lparr>watchers := (watchers st)[lit_slot r := ws]\<rparr>) l = (if l = r then ws else watches_of st l)"
  using assms lit_slot_less [of "size_vars st"] lit_slot_inj [of l r]
  by (auto simp: watches_of_def vars_okD(2) lit_ok_def)


text \<open>A new watch, after which the replacement is the second literal.\<close>

lemma visit_post_move:
  assumes inv: "prop_inv F G (watching neg (kept @ w # ws) st) st" and neg: "lit_ok (size_vars st) neg" "lit_value st neg = -1"
    and c: "objects st (wclause w) = Some c" "length (literals c) \<noteq> 2" "mset lits = mset (literals c)" "csize c = length (literals c)"
    and front: "set (take 2 (literals c)) = {other, neg}" "lits ! 0 = other" "lits ! 1 = neg"
    and k: "2 \<le> k" "k < length lits"
  shows "visit_post F G neg kept ws w st (Drop,
    st\<lparr>watchers := (watchers st)[lit_slot (lits ! k) := watches_of st (lits ! k) @ [\<lparr>blit = neg, wsize = csize c, wclause = wclause w\<rparr>]],
       objects := (objects st)(wclause w \<mapsto> c\<lparr>literals := lits[1 := lits ! k, k := neg]\<rparr>)\<rparr>)"
proof -
  let ?r = "lits ! k" and ?c' = "c\<lparr>literals := lits[1 := lits ! k, k := neg]\<rparr>"
  let ?w' = "\<lparr>blit = neg, wsize = csize c, wclause = wclause w\<rparr>"
  let ?ws = "(watchers st)[lit_slot ?r := watches_of st ?r @ [?w']]"
  let ?st1 = "st\<lparr>objects := (objects st)(wclause w \<mapsto> ?c')\<rparr>"
  have ok: "clause_ok (size_vars st) c" using prop_inv_object(1) [OF inv c(1)] .
  have lits: "distinct lits" "\<forall>l \<in> set lits. lit_ok (size_vars st) l"
    using ok mset_eq_imp_distinct_iff [OF c(3)] mset_eq_setD [OF c(3)] by (auto simp: clause_ok_def)
  have "0 < length lits" "1 < length lits" using k by auto
  then have r: "?r \<noteq> neg" "?r \<noteq> other" "lit_ok (size_vars st) ?r"
    using lits(2) k nth_eq_iff_index_eq [OF lits(1) k(2), of 0] nth_eq_iff_index_eq [OF lits(1) k(2), of 1]
    unfolding front(2) [symmetric] front(3) [symmetric] by auto
  have m': "mset (literals ?c') = mset (literals c)"
    using k c(3) front(3) mset_swap [of k lits 1] by simp
  obtain x y rest where xy: "lits = x # y # rest" using k by (cases lits; cases "tl lits") auto
  have front': "set (take 2 (literals ?c')) = {other, ?r}"
    using front(2) k by (cases k; cases "k - 1") (auto simp: xy numeral_2_eq_2)
  have same: "watches_of (st\<lparr>watchers := ?ws\<rparr>) l = (if l = ?r then watches_of st ?r @ [?w'] else watches_of st l)"
    if "lit_ok (size_vars st) l" for l
    using watches_of_push [OF prop_invD(1) [OF inv] r(3) that] .
  have "watches_ok (size_vars st) ((objects st)(wclause w \<mapsto> ?c')) (watching neg (kept @ ws) (st\<lparr>watchers := ?ws\<rparr>))"
    by (rule watches_ok_move [OF prop_invD(4) [OF inv] neg(1) c(1,2) m' front(1) front' r])
      (use same r(3) c(4) in auto)
  then have "prop_inv F G (watching neg (kept @ ws) (st\<lparr>watchers := ?ws\<rparr>)) ((st\<lparr>watchers := ?ws\<rparr>)\<lparr>objects := (objects st)(wclause w \<mapsto> ?c')\<rparr>)"
    using prop_inv_reorder [OF _ _ m', of F G "watching neg (kept @ w # ws) st" "st\<lparr>watchers := ?ws\<rparr>"] c(1)
      prop_inv_watchers [OF inv length_list_update drop_slot [OF r(3)] prop_invD(4) [OF inv]]
    by simp
  moreover have "evolves st ?st1" by (rule evolves_reorder [OF c(1) m']) simp_all
  ultimately show ?thesis using neg(2)
    by (simp add: visit_post_def visited_def evolves_def watchers_same(2))
qed


lemma visit_long_ok:
  assumes inv: "prop_inv F G (watching neg (kept @ w # ws) st) st" and neg: "lit_ok (size_vars st) neg" "lit_value st neg = -1"
    and long: "wsize w \<noteq> 2"
  shows "returns (\<lambda>dbg. visit_long dbg neg w st) (visit_post F G neg kept ws w st)"
proof -
  have v: "vars_ok st" using prop_invD(1) [OF inv] .
  obtain c where c: "objects st (wclause w) = Some c" "wsize w = length (literals c)" "neg \<in> set (take 2 (literals c))"
    using watching_unique(1) [OF prop_invD(4) [OF inv] neg(1)] long by (auto simp: watch_ok_def)
  have ok: "clause_ok (size_vars st) c" using prop_inv_object(1) [OF inv c(1)] .
  have len: "wsize w > 2" using ok long c(2) by (auto simp: clause_ok_def)
  show ?thesis
  proof (cases "csize c = 0")
    case True
    have "visit_long dbg neg w st = Inr (Drop, st)" for dbg
      using True c(1) len by (simp add: visit_long_def deref_def cassert_def)
    moreover have "visit_post F G neg kept ws w st (Drop, st)"
      using inv neg(2) watches_ok_drop [OF prop_invD(4) [OF inv]]
      by (simp add: visit_post_def visited_def prop_inv_def)
    ultimately show ?thesis by (rule returns_witness)
  next
    case False
    then have cs: "csize c = length (literals c)" using ok by (auto simp: clause_ok_def)
    define other where "other = literals c ! 0 XOR literals c ! 1 XOR neg"
    define lits where "lits = (literals c)[0 := other, 1 := neg]"
    note pair = watched_pair [OF ok c(3) other_def lits_def]
    let ?c1 = "c\<lparr>literals := lits\<rparr>"
    let ?st1 = "st\<lparr>objects := (objects st)(wclause w \<mapsto> ?c1)\<rparr>"
    have "other \<in> set (literals c)" using pair(6) by (metis in_set_takeD insertI1)
    then have o: "lit_ok (size_vars st) other" using ok by (auto simp: clause_ok_def)
    have lits: "\<forall>l \<in> set lits. lit_ok (size_vars st) l" "length lits = wsize w" "set lits = set (literals c)"
      using ok mset_eq_setD [OF pair(1)] c(2) by (auto simp: clause_ok_def lits_def)
    have ev: "evolves st ?st1" by (rule evolves_reorder [OF c(1)]) (simp_all add: pair(1))
    have inv1: "prop_inv F G (watching neg (kept @ w # ws) ?st1) ?st1"
      using prop_inv_reorder [OF inv c(1), of ?c1] watches_ok_swap [OF prop_invD(4) [OF inv] c(1), of ?c1] pair(1,5,6)
      by simp
    obtain k where k: "\<And>dbg. find_replacement dbg lits [2..<wsize w] ?st1 = Inr k"
      "case k of None \<Rightarrow> \<forall>k \<in> {2..<wsize w}. lit_value st (lits ! k) < 0 | Some k \<Rightarrow> k \<in> {2..<wsize w} \<and> lit_value st (lits ! k) \<ge> 0"
      using find_replacement_ok [of ?st1 lits "[2..<wsize w]"] v lits(1,2) by (auto split: option.splits)
    have eq: "visit_long dbg neg w st =
      (if lit_value st other > 0 then Inr (Keep (w\<lparr>blit := other\<rparr>), st)
       else case k of
         Some k \<Rightarrow> if lits ! k = neg then Inl OutOfRange
           else bind_res (push_watch dbg (lits ! k) \<lparr>blit = neg, wsize = csize c, wclause = wclause w\<rparr> ?st1) (\<lambda>st.
             Inr (Drop, st\<lparr>objects := (objects st)(wclause w \<mapsto> c\<lparr>literals := lits[1 := lits ! k, k := neg]\<rparr>)\<rparr>))
       | None \<Rightarrow> if lit_value st other = 0 then bind_res (assign dbg other ?st1) (\<lambda>st. Inr (Keep w, st))
           else Inr (Conflict, ?st1))" for dbg
    proof -
      have "get_at (literals c) 0 = Inr (literals c ! 0)" "get_at (literals c) 1 = Inr (literals c ! 1)"
        by (rule get_at_ok, use len c(2) in linarith)+
      moreover have "literals c ! 0 XOR literals c ! Suc 0 XOR neg = other" "(literals c)[0 := other, Suc 0 := neg] = lits"
        by (simp_all add: other_def lits_def)
      ultimately show ?thesis using False c(1,2) cs len pair(2) val_returns [OF v o] k(1)
        by (cases k) (simp_all add: visit_long_def deref_def cassert_def Let_def)
    qed
    have rest: "lit_value st l = -1" if "l \<in> set (literals c)" "l \<noteq> other" "k = None" for l
    proof -
      have "l \<in> set lits" using that(1) lits(3) by simp
      then obtain i where i: "i < length lits" "lits ! i = l" by (auto simp: in_set_conv_nth)
      show ?thesis
      proof (cases "i < 2")
        case True
        then show ?thesis using i(2) that(2) pair(3,4) neg(2) by (cases i) auto
      next
        case False
        then have "lit_value st l < 0" using k(2) i lits(2) that(3) by auto
        then show ?thesis using prop_inv_value [OF inv] lits(1) i by force
      qed
    qed
    have post: "visit_post F G neg kept ws w st (Keep (w\<lparr>blit := other\<rparr>), st)"
      using inv neg(2) watches_ok_blit [OF prop_invD(4) [OF inv] o pair(2) long]
      by (simp add: visit_post_def visited_def prop_inv_def)
    consider "lit_value st other > 0" | "lit_value st other \<le> 0" "k = None" | i where "lit_value st other \<le> 0" "k = Some i"
      by (cases k; cases "lit_value st other > 0") auto
    then show ?thesis
    proof cases
      case 1
      then show ?thesis using post by (simp add: eq)
    next
      case 2
      show ?thesis
      proof (cases "lit_value st other = 0")
        case True
        have "entails G [other]" by (rule entails_false_rest [OF inv c(1) rest [OF _ _ 2(2)]])
        then have "visit_post F G neg kept ws w ?st1 (Keep w, assigned other ?st1)"
          using visit_post_assigned [OF inv1] o True neg by simp
        then have "visit_post F G neg kept ws w st (Keep w, assigned other ?st1)"
          using evolves_trans [OF ev] by (simp add: visit_post_def)
        moreover have "assign dbg other ?st1 = Inr (assigned other ?st1)" for dbg
          using assign_ok [of ?st1 other] v o True by simp
        ultimately show ?thesis using 2 True by (simp add: eq)
      next
        case False
        then have "lit_value st other = -1" using 2(1) prop_inv_value [OF inv o] by auto
        then have "unsat G" using unsat_false_clause [OF inv c(1)] rest 2(2) by metis
        then have "visit_post F G neg kept ws w st (Conflict, ?st1)"
          using inv1 ev neg(2) by (simp add: visit_post_def visited_def)
        then show ?thesis using 2 False by (simp add: eq)
      qed
    next
      case (3 i)
      then have i: "2 \<le> i" "i < length lits" using k(2) lits(2) by auto
      have r: "lit_ok (size_vars st) (lits ! i)" using lits(1) i(2) by simp
      have "lits ! i \<noteq> neg"
        using pair(4) i nth_eq_iff_index_eq [of lits i 1] mset_eq_imp_distinct_iff [OF pair(1)] ok by (auto simp: clause_ok_def)
      then show ?thesis
        using 3 visit_post_move [OF inv neg c(1) _ pair(1) cs pair(6,3,4) i] long c(2) push_watch_ok [of ?st1 "lits ! i"] v r
        by (simp add: eq)
    qed
  qed
qed


lemma visit_watch_ok:
  assumes inv: "prop_inv F G (watching neg (kept @ w # ws) st) st" and neg: "lit_ok (size_vars st) neg" "lit_value st neg = -1"
  shows "returns (\<lambda>dbg. visit_watch dbg neg w st) (visit_post F G neg kept ws w st)"
proof -
  have v: "vars_ok st" using prop_invD(1) [OF inv] .
  have w: "watch_ok (size_vars st) (objects st) neg w" using watching_unique(1) [OF prop_invD(4) [OF inv] neg(1)] .
  then have b: "lit_ok (size_vars st) (blit w)" "blit w \<noteq> neg" by (auto simp: watch_ok_def)
  have keep: "visit_post F G neg kept ws w st (Keep w, st)" using inv neg(2) by (simp add: visit_post_def visited_def)
  have eq: "visit_watch dbg neg w st = (if lit_value st (blit w) > 0 then Inr (Keep w, st)
      else if wsize w = 2 then if lit_value st (blit w) < 0 then Inr (Conflict, st)
        else bind_res (assign dbg (blit w) st) (\<lambda>st. Inr (Keep w, st))
      else visit_long dbg neg w st)" for dbg
    using b val_returns [OF v b(1)] by (simp add: visit_watch_def cassert_def)
  consider "lit_value st (blit w) > 0" | "lit_value st (blit w) \<le> 0" "wsize w \<noteq> 2" | "lit_value st (blit w) \<le> 0" "wsize w = 2"
    by linarith
  then show ?thesis
  proof cases
    case 1
    then show ?thesis using keep by (simp add: eq)
  next
    case 2
    then show ?thesis using visit_long_ok [OF inv neg] by (simp add: eq)
  next
    case 3
    then obtain c where c: "objects st (wclause w) = Some c" "set (literals c) = {neg, blit w}" using w by (auto simp: watch_ok_def)
    show ?thesis
    proof (cases "lit_value st (blit w) = 0")
      case True
      have "entails G [blit w]" by (rule entails_false_rest [OF inv c(1)]) (use c(2) neg(2) in auto)
      then have "visit_post F G neg kept ws w st (Keep w, assigned (blit w) st)"
        using visit_post_assigned [OF inv b(1) True _ neg] by blast
      then show ?thesis using 3 True assign_ok [OF v b(1) True] by (simp add: eq)
    next
      case False
      then have "lit_value st (blit w) = -1" using 3(1) prop_inv_value [OF inv b(1)] by auto
      then have "unsat G" using unsat_false_clause [OF inv c(1)] c(2) neg(2) by auto
      then have "visit_post F G neg kept ws w st (Conflict, st)"
        using inv neg(2) by (simp add: visit_post_def visited_def)
      then show ?thesis using 3 False by (simp add: eq)
    qed
  qed
qed

definition visit_all_post :: "int list set \<Rightarrow> int list set \<Rightarrow> int \<Rightarrow> rup_checker \<Rightarrow> bool \<times> cwatch list \<times> rup_checker \<Rightarrow> bool" where
  "visit_all_post F G neg st s \<longleftrightarrow>
     (case s of (r, ws, st') \<Rightarrow>
        evolves st st' \<and> next_to_propagate st' = next_to_propagate st \<and> length (watchers st') = length (watchers st) \<and>
        prop_inv F G (watching neg ws st') st' \<and> (\<not> r \<longrightarrow> unsat G))"

lemma visit_all_ok:
  assumes "prop_inv F G (watching neg (kept @ ws) st) st" "lit_ok (size_vars st) neg" "lit_value st neg = -1"
  shows "returns (\<lambda>dbg. visit_all dbg neg ws kept st) (visit_all_post F G neg st)"
  using assms
proof (induction ws arbitrary: kept st)
  case Nil
  then show ?case by (simp add: visit_all_post_def)
next
  case (Cons w ws)
  have step: "returns (\<lambda>dbg. visit_watch dbg neg w st) (visit_post F G neg kept ws w st)"
    using visit_watch_ok [OF Cons.prems] .
  have rest: "returns (\<lambda>dbg. visit_all dbg neg ws kept' st') (visit_all_post F G neg st)"
    if p: "visit_post F G neg kept ws w st (v, st')" "prop_inv F G (watching neg (kept' @ ws) st') st'" for v st' kept'
  proof -
    have e: "evolves st st'" "next_to_propagate st' = next_to_propagate st" "length (watchers st') = length (watchers st)"
        "lit_value st' neg = -1"
      using p(1) by (auto simp: visit_post_def)
    have "returns (\<lambda>dbg. visit_all dbg neg ws kept' st') (visit_all_post F G neg st')"
      using Cons.IH [OF p(2)] e Cons.prems(2) evolves_same(1) [OF e(1)] by simp
    then show ?thesis
      by (rule returns_mono) (use e evolves_trans [OF e(1)] in \<open>auto simp: visit_all_post_def\<close>)
  qed
  have "returns (\<lambda>dbg. bind_res (visit_watch dbg neg w st) (\<lambda>(v, st). case v of
         Keep w \<Rightarrow> visit_all dbg neg ws (kept @ [w]) st
       | Drop \<Rightarrow> visit_all dbg neg ws kept st
       | Conflict \<Rightarrow> Inr (False, kept @ w # ws, st))) (visit_all_post F G neg st)"
  proof (rule returns_bind [OF step])
    fix s assume s: "visit_post F G neg kept ws w st s"
    obtain v st' where vs: "s = (v, st')" by (cases s)
    show "returns (\<lambda>dbg. case s of (v, st) \<Rightarrow> (case v of
         Keep w \<Rightarrow> visit_all dbg neg ws (kept @ [w]) st
       | Drop \<Rightarrow> visit_all dbg neg ws kept st
       | Conflict \<Rightarrow> Inr (False, kept @ w # ws, st))) (visit_all_post F G neg st)"
    proof (cases v)
      case (Keep w')
      then show ?thesis using rest [of v st' "kept @ [w']"] s vs by (simp add: visit_post_def visited_def)
    next
      case Drop
      then show ?thesis using rest [of v st' kept] s vs by (simp add: visit_post_def visited_def)
    next
      case Conflict
      then show ?thesis using s vs by (simp add: visit_post_def visited_def visit_all_post_def)
    qed
  qed
  then show ?case by simp
qed

section \<open>Propagation\<close>

lemma watches_ok_cong:
  "(\<And>l. lit_ok n l \<Longrightarrow> wl l = wl' l) \<Longrightarrow> watches_ok n objs wl = watches_ok n objs wl'"
  by (simp add: watches_ok_def)

definition prop_post :: "int list set \<Rightarrow> int list set \<Rightarrow> rup_checker \<Rightarrow> bool \<times> rup_checker \<Rightarrow> bool" where
  "prop_post F G st s \<longleftrightarrow>
     evolves st (snd s) \<and> prop_inv F G (watches_of (snd s)) (snd s) \<and> (\<not> fst s \<longrightarrow> unsat G)"

lemma propagate_literal_ok:
  assumes inv: "prop_inv F G (watches_of st) st" and l: "lit_ok (size_vars st) l" "lit_value st l = 1"
  shows "returns (\<lambda>dbg. propagate_literal dbg l st) (\<lambda>s. prop_post F G st s \<and> next_to_propagate (snd s) = next_to_propagate st)"
proof -
  have v: "vars_ok st" using prop_invD(1) [OF inv] .
  have neg: "lit_ok (size_vars st) (- l)" "lit_value st (- l) = -1" using l vars_okD(5) [OF v l(1)] by auto
  have "watching (- l) (watches_of st (- l)) st = watches_of st" by (auto simp: watching_def)
  then have "prop_inv F G (watching (- l) ([] @ watches_of st (- l)) st) st" using inv by simp
  then have all: "returns (\<lambda>dbg. visit_all dbg (- l) (watches_of st (- l)) [] st) (visit_all_post F G (- l) st)"
    using neg by (rule visit_all_ok)
  have "returns (\<lambda>dbg. bind_res (visit_all dbg (- l) (watches_of st (- l)) [] st)
      (\<lambda>(r, ws, st). Inr (r, st\<lparr>watchers := (watchers st)[lit_slot (- l) := ws]\<rparr>)))
      (\<lambda>s. prop_post F G st s \<and> next_to_propagate (snd s) = next_to_propagate st)"
  proof (rule returns_bind [OF all], clarify)
    fix r ws st' assume p: "visit_all_post F G (- l) st (r, ws, st')"
    then have e: "evolves st st'" "next_to_propagate st' = next_to_propagate st" "prop_inv F G (watching (- l) ws st') st'" "\<not> r \<longrightarrow> unsat G"
      by (auto simp: visit_all_post_def)
    let ?st = "st'\<lparr>watchers := (watchers st')[lit_slot (- l) := ws]\<rparr>"
    have n: "lit_ok (size_vars st') (- l)" using neg(1) evolves_same(1) [OF e(1)] by simp
    have "watches_ok (size_vars st') (objects st') (watches_of ?st)"
      using prop_invD(4) [OF e(3)] watches_of_push [OF prop_invD(1) [OF e(3)] n]
      by (subst watches_ok_cong [where wl' = "watching (- l) ws st'"]) (simp_all add: watching_def)
    then have "prop_inv F G (watches_of ?st) ?st" by (rule prop_inv_watchers [OF e(3) length_list_update drop_slot [OF n]])
    then show "returns (\<lambda>dbg. Inr (r, ?st)) (\<lambda>s. prop_post F G st s \<and> next_to_propagate (snd s) = next_to_propagate st)"
      using e by (simp add: prop_post_def evolves_def)
  qed
  moreover have "propagate_literal dbg l st = bind_res (visit_all dbg (- l) (watches_of st (- l)) [] st)
      (\<lambda>(r, ws, st). Inr (r, st\<lparr>watchers := (watchers st)[lit_slot (- l) := ws]\<rparr>))" for dbg
    using l val_returns [OF v l(1), of True] watcher_index_ok [OF v neg(1)]
    by (cases dbg) (simp_all add: propagate_literal_def cassert_def watches_of_def lit_ok_def)
  ultimately show ?thesis by simp
qed

lemma lits_length:
  assumes "distinct ls" "\<And>l. l \<in> set ls \<Longrightarrow> lit_ok n l"
  shows "length ls \<le> 2 * n"
proof -
  have "\<bar>l\<bar> < int n" if "l \<in> set ls" for l using assms(2) [OF that] by (simp add: lit_ok_def)
  then have "set ls \<subseteq> {- int n..int n - 1}" by fastforce
  then have "card (set ls) \<le> card {- int n..int n - 1}" by (rule card_mono [OF finite_atLeastAtMost_int])
  then show ?thesis using assms(1) by (simp add: distinct_card)
qed

lemma trail_length: "trail_ok st \<Longrightarrow> length (trail st) \<le> 2 * size_vars st"
  unfolding trail_ok_def by (blast intro: lits_length)

lemma propagate_ok:
  assumes "prop_inv F G (watches_of st) st"
  shows "returns (\<lambda>dbg. propagate dbg st)
    (\<lambda>s. prop_post F G st s \<and> (fst s \<longrightarrow> next_to_propagate (snd s) = length (trail (snd s))))"
proof -
  define m where "m s = 2 * size_vars (snd s) - next_to_propagate (snd s)" for s :: "bool \<times> rup_checker"
  have "returns (\<lambda>dbg. propagate_step dbg s) (\<lambda>(go, s'). if go then prop_post F G st s' \<and> m s' < m s
      else prop_post F G st s' \<and> (fst s' \<longrightarrow> next_to_propagate (snd s') = length (trail (snd s'))))"
    if s: "prop_post F G st s" for s
  proof -
    obtain r st1 where s1: "s = (r, st1)" by (cases s)
    have e: "evolves st st1" "prop_inv F G (watches_of st1) st1" using s s1 by (auto simp: prop_post_def)
    show ?thesis
    proof (cases "r \<and> next_to_propagate st1 < length (trail st1)")
      case True
      let ?st = "st1\<lparr>next_to_propagate := next_to_propagate st1 + 1\<rparr>"
      let ?l = "trail st1 ! next_to_propagate st1"
      have t: "trail_ok st1" using prop_invD(2) [OF e(2)] .
      have "?l \<in> set (trail st1)" using True by simp
      then have l: "lit_ok (size_vars ?st) ?l" "lit_value ?st ?l = 1" using t by (auto simp: trail_ok_def)
      have "watches_of ?st = watches_of st1" by (simp add: watches_of_def fun_eq_iff)
      then have "prop_inv F G (watches_of ?st) ?st" using e(2) True by (auto simp: prop_inv_def trail_ok_def store_ok_def sound_def)
      then have "returns (\<lambda>dbg. propagate_literal dbg ?l ?st) (\<lambda>s. prop_post F G ?st s \<and> next_to_propagate (snd s) = next_to_propagate ?st)"
        using l by (rule propagate_literal_ok)
      moreover have "next_to_propagate st1 < 2 * size_vars st1" using trail_length [OF t] True by simp
      moreover have "evolves st ?st" "size_vars st1 = size_vars st" using e(1) by (simp_all add: evolves_def)
      ultimately have "returns (\<lambda>dbg. bind_res (propagate_literal dbg ?l ?st) (\<lambda>s. Inr (True, s)))
          (\<lambda>(go, s'). if go then prop_post F G st s' \<and> m s' < m s
            else prop_post F G st s' \<and> (fst s' \<longrightarrow> next_to_propagate (snd s') = length (trail (snd s'))))"
        by (elim returns_bind) (auto simp: prop_post_def m_def s1 evolves_same(1) intro: evolves_trans)
      then show ?thesis using True s1 by (simp add: propagate_step_def)
    next
      case False
      then have "propagate_step dbg s = Inr (False, s)" for dbg using s1 by (auto simp: propagate_step_def)
      moreover have "r \<longrightarrow> next_to_propagate st1 = length (trail st1)"
        using False prop_invD(2) [OF e(2)] by (auto simp: trail_ok_def)
      ultimately show ?thesis using s s1 by simp
    qed
  qed
  moreover have "prop_post F G st (True, st)" using assms by (simp add: prop_post_def)
  ultimately show ?thesis unfolding propagate_def by (intro returns_loop [where I = "prop_post F G st" and m = m]) auto
qed


section \<open>Backtracking\<close>

text \<open>The state after the literals above the level \<open>k\<close> have been taken off the trail.\<close>

definition cut_back :: "nat \<Rightarrow> rup_checker \<Rightarrow> rup_checker \<Rightarrow> bool" where
  "cut_back k st st' \<longleftrightarrow>
     (\<exists>vs n. st' = st\<lparr>vals := vs, trail := take k (trail st), next_to_propagate := n\<rparr>) \<and> vars_ok st' \<and>
     (\<forall>l. lit_ok (size_vars st) l \<longrightarrow> (l \<in> set (take k (trail st)) \<longleftrightarrow> lit_value st' l = 1))"

lemma cut_back_step:
  assumes c: "cut_back (Suc k) st s" and t: "trail_ok st" "k < length (trail st)"
  shows "returns (\<lambda>dbg. unassign dbg (trail st ! k) s) (cut_back k st)"
proof -
  let ?l = "trail st ! k"
  obtain vs n where s: "s = st\<lparr>vals := vs, trail := take (Suc k) (trail st), next_to_propagate := n\<rparr>" "vars_ok s"
    "\<forall>l. lit_ok (size_vars st) l \<longrightarrow> (l \<in> set (take (Suc k) (trail st)) \<longleftrightarrow> lit_value s l = 1)"
    using c by (auto simp: cut_back_def)
  have size: "size_vars s = size_vars st" by (subst s(1)) simp
  have trail: "trail s = take k (trail st) @ [?l]" using t(2) by (subst s(1)) (simp add: take_Suc_conv_app_nth)
  have ok: "distinct (trail s)" "\<forall>l \<in> set (trail s). lit_ok (size_vars s) l"
    using t size by (auto simp: trail trail_ok_def take_Suc_conv_app_nth [symmetric] dest: in_set_takeD)
  have mem: "\<forall>l. lit_ok (size_vars s) l \<longrightarrow> (l \<in> set (trail s) \<longleftrightarrow> lit_value s l = 1)"
    using s(3) size t(2) by (simp add: trail take_Suc_conv_app_nth)
  have l: "lit_ok (size_vars s) ?l" "lit_value s ?l = 1" using ok mem trail by auto
  have "unassign dbg ?l s = Inr (unassigned ?l s)" for dbg using unassign_ok [OF s(2) l] .
  moreover have "cut_back k st (unassigned ?l s)"
    unfolding cut_back_def
  proof (intro conjI)
    have "butlast (take (Suc k) (trail st)) = take k (trail st)" using t(2) by (simp add: take_Suc_conv_app_nth)
    then show "\<exists>vs n. unassigned ?l s = st\<lparr>vals := vs, trail := take k (trail st), next_to_propagate := n\<rparr>"
      by (intro exI [of _ "vals (unassigned ?l s)"] exI [of _ n]) (simp add: s(1) unassigned_def with_value_def)
  qed (use vars_ok_unassigned [OF s(2) l(1)] trail_unassigned(2) [OF s(2) trail ok mem] size in auto)
  ultimately show ?thesis by (rule returns_witness)
qed

lemma backtrack_ok:
  assumes "vars_ok st" "trail_ok st" "k \<le> length (trail st)"
  shows "returns (\<lambda>dbg. backtrack dbg k st) (\<lambda>st'. cut_back k st st' \<and> next_to_propagate st' = k)"
proof -
  let ?n = "length (trail st)"
  have "st = st\<lparr>vals := vals st, trail := take ?n (trail st), next_to_propagate := next_to_propagate st\<rparr>" by simp
  then have start: "cut_back ?n st st" using assms unfolding cut_back_def trail_ok_def by (metis take_all order_refl)
  have "returns (\<lambda>dbg. fold_res (unassign dbg) (rev (drop k (trail st))) st)
      (\<lambda>s. cut_back (?n - length (rev (drop k (trail st)))) st s)"
  proof (rule returns_fold)
    fix pre l post s assume p: "rev (drop k (trail st)) = pre @ l # post" "cut_back (?n - length pre) st s"
    have "length pre < ?n - k" using arg_cong [OF p(1), of length] by simp
    moreover have "l = rev (drop k (trail st)) ! length pre" using p(1) by simp
    ultimately have i: "l = trail st ! (?n - Suc (length pre))" "?n - Suc (length pre) < ?n" "Suc (?n - Suc (length pre)) = ?n - length pre"
      using assms(3) by (auto simp: rev_nth)
    show "returns (\<lambda>dbg. unassign dbg l s) (\<lambda>s. cut_back (?n - length (pre @ [l])) st s)"
      using cut_back_step [of "?n - Suc (length pre)" st s] p(2) i assms(2) by simp
  qed (simp add: start)
  then have "returns (\<lambda>dbg. fold_res (unassign dbg) (rev (drop k (trail st))) st) (cut_back k st)"
    using assms(3) by simp
  then have "returns (\<lambda>dbg. bind_res (fold_res (unassign dbg) (rev (drop k (trail st))) st) (\<lambda>st.
       Inr (st\<lparr>trail := resize k 0 (trail st), next_to_propagate := k\<rparr>))) (\<lambda>st'. cut_back k st st' \<and> next_to_propagate st' = k)"
  proof (rule returns_bind)
    fix s assume c: "cut_back k st s"
    then have "trail s = take k (trail st)" by (auto simp: cut_back_def)
    then have "resize k 0 (trail s) = trail s" using assms(3) by (simp add: resize_def)
    moreover have "cut_back k st (s\<lparr>next_to_propagate := k\<rparr>)"
    proof -
      obtain vs n where s: "s = st\<lparr>vals := vs, trail := take k (trail st), next_to_propagate := n\<rparr>"
        using c by (auto simp: cut_back_def)
      then show ?thesis using c unfolding cut_back_def by (intro conjI exI [of _ vs] exI [of _ k]) auto
    qed
    ultimately show "returns (\<lambda>dbg. Inr (s\<lparr>trail := resize k 0 (trail s), next_to_propagate := k\<rparr>))
        (\<lambda>st'. cut_back k st st' \<and> next_to_propagate st' = k)"
      by simp
  qed
  then show ?thesis using assms(3) by (simp add: backtrack_def returns_assert)
qed


section \<open>Checking a clause\<close>

definition negations :: "int list \<Rightarrow> int list set" where
  "negations c = (\<lambda>l. [- l]) ` set c"

lemma unsat_negations:
  assumes "unsat (F \<union> negations c)" "0 \<notin> set c"
  shows "entails F c"
  unfolding entails_models
proof (intro allI impI, rule ccontr)
  fix M assume M: "models M F" "\<not> sat_clause M c"
  then have "sat_lit M (- l)" if "l \<in> set c" for l
    using that assms(2) sat_lit_neg [of l M] by (cases "l = 0") (auto simp: sat_clause_def)
  then have "models M (negations c)" by (auto simp: models_def negations_def sat_clause_def)
  then show False using assms(1) M(1) by (auto simp: unsat_def models_def)
qed

lemma prop_inv_more:
  assumes "prop_inv F G wl st" "G \<subseteq> H"
  shows "prop_inv F H wl st"
  using assms by (auto simp: prop_inv_def sound_def intro: entails_mono)

text \<open>The clause to be checked: every variable at most once, and no true literal.\<close>

definition simple_clause :: "rup_checker \<Rightarrow> int list \<Rightarrow> bool" where
  "simple_clause st c \<longleftrightarrow>
     distinct c \<and> (\<forall>l \<in> set c. lit_ok (size_vars st) l \<and> - l \<notin> set c \<and> lit_value st l \<noteq> 1)"

lemma assume_ok:
  assumes inv: "prop_inv F G (watches_of s) s" and l: "l \<in> set c" "simple_clause s c" "[- l] \<in> G"
  shows "returns (\<lambda>dbg. assume_lit dbg (- l) s)
    (\<lambda>s'. evolves s s' \<and> prop_inv F G (watches_of s') s' \<and> next_to_propagate s' = next_to_propagate s \<and> simple_clause s' c)"
proof -
  have v: "vars_ok s" using prop_invD(1) [OF inv] .
  have ok: "lit_ok (size_vars s) l" "lit_value s l \<noteq> 1" using l by (auto simp: simple_clause_def)
  have val: "val dbg (- l) s = Inr (- lit_value s l)" for dbg using val_returns [OF v, of "- l"] ok vars_okD(5) [OF v ok(1)] by simp
  have range: "lit_value s l \<in> {-1, 0, 1}" using prop_inv_value [OF inv ok(1)] .
  show ?thesis
  proof (cases "lit_value s l = 0")
    case True
    have neg: "lit_ok (size_vars s) (- l)" "lit_value s (- l) = 0" using ok True vars_okD(5) [OF v ok(1)] by auto
    have inv': "prop_inv F G (watches_of s) (assigned (- l) s)"
      using prop_inv_assigned [OF inv neg] entails_member [OF l(3)] by blast
    have w: "watches_of (assigned (- l) s) = watches_of s" by (simp add: assigned_def watches_of_def fun_eq_iff)
    have "simple_clause (assigned (- l) s) c"
      unfolding simple_clause_def
    proof (intro conjI ballI)
      fix k assume k: "k \<in> set c"
      have "k \<noteq> - l" using l(1,2) k by (auto simp: simple_clause_def)
      moreover have "lit_ok (size_vars s) k" "lit_value s k \<noteq> 1" using l(2) k by (auto simp: simple_clause_def)
      ultimately show "lit_value (assigned (- l) s) k \<noteq> 1" using neg(1) by (auto simp: lit_value_assigned [OF v])
    qed (use l(2) in \<open>auto simp: simple_clause_def assigned_def\<close>)
    moreover have "next_to_propagate (assigned (- l) s) = next_to_propagate s" by (simp add: assigned_def)
    ultimately show ?thesis using True val assign_ok [OF v neg] inv' w
      by (simp add: assume_lit_def cassert_def evolves_assigned)
  next
    case False
    then have "- lit_value s l > 0" using range ok(2) by auto
    then show ?thesis using val inv l(2) by (simp add: assume_lit_def)
  qed
qed

lemma sound_cut_back:
  assumes c: "cut_back k st2 st3" and inv: "prop_inv F G (watches_of st2) st2" and base: "prop_inv F F wl st"
    and t: "take k (trail st2) = trail st" "next_to_propagate st3 = k" "k = length (trail st)" "size_vars st2 = size_vars st"
  shows "prop_inv F F (watches_of st3) st3"
proof -
  obtain vs n where st3: "st3 = st2\<lparr>vals := vs, trail := take k (trail st2), next_to_propagate := n\<rparr>" "vars_ok st3"
    "\<forall>l. lit_ok (size_vars st2) l \<longrightarrow> (l \<in> set (take k (trail st2)) \<longleftrightarrow> lit_value st3 l = 1)"
    using c by (auto simp: cut_back_def)
  have same: "size_vars st3 = size_vars st2" "objects st3 = objects st2" "fresh st3 = fresh st2" "watches_of st3 = watches_of st2"
    "trail st3 = trail st"
    using t(1) by (simp_all add: st3(1) watches_of_def fun_eq_iff)
  have "trail_ok st3" using prop_invD(2) [OF base] st3(3) t same by (auto simp: trail_ok_def)
  moreover have "sound F F st3" using prop_invD(5) [OF inv] prop_invD(5) [OF base] same by (simp add: sound_def)
  ultimately show ?thesis using st3(2) prop_invD(3,4) [OF inv] same by (simp add: prop_inv_def store_ok_def)
qed

definition check_post :: "int list set \<Rightarrow> rup_checker \<Rightarrow> bool \<times> rup_checker \<Rightarrow> bool" where
  "check_post F st s \<longleftrightarrow>
     evolves st (snd s) \<and> trail (snd s) = trail st \<and> next_to_propagate (snd s) = next_to_propagate st \<and>
     prop_inv F F (watches_of (snd s)) (snd s) \<and> (fst s \<longrightarrow> entails F (simplified st))"

lemma check_ok:
  assumes inv: "prop_inv F F (watches_of st) st" and c: "simple_clause st (simplified st)" and i: "\<not> inconsistent st"
    and settled: "next_to_propagate st = length (trail st)"
  shows "returns (\<lambda>dbg. check dbg st) (check_post F st)"
proof -
  let ?c = "simplified st" and ?G = "F \<union> negations (simplified st)"
  define I where "I s \<longleftrightarrow> evolves st s \<and> prop_inv F ?G (watches_of s) s \<and> next_to_propagate s = next_to_propagate st \<and> simple_clause s ?c" for s
  have "returns (\<lambda>dbg. fold_res (\<lambda>lit. assume_lit dbg (- lit)) ?c st) (\<lambda>s. I s)"
  proof (rule returns_fold [where I = "\<lambda>_. I"])
    show "I st" using inv c prop_inv_more [OF inv, of ?G] by (simp add: I_def)
    fix pre l post s assume l: "?c = pre @ l # post" and s: "I s"
    have "l \<in> set ?c" "[- l] \<in> ?G" using l by (auto simp: negations_def)
    then have "returns (\<lambda>dbg. assume_lit dbg (- l) s)
        (\<lambda>s'. evolves s s' \<and> prop_inv F ?G (watches_of s') s' \<and> next_to_propagate s' = next_to_propagate s \<and> simple_clause s' ?c)"
      using s by (intro assume_ok) (auto simp: I_def)
    then show "returns (\<lambda>dbg. assume_lit dbg (- l) s) I"
      by (rule returns_mono) (use s in \<open>auto simp: I_def intro: evolves_trans\<close>)
  qed
  then have "returns (\<lambda>dbg. bind_res (fold_res (\<lambda>lit. assume_lit dbg (- lit)) ?c st) (\<lambda>st1.
      bind_res (propagate dbg st1) (\<lambda>(r, st2).
      bind_res (backtrack dbg (next_to_propagate st) st2) (\<lambda>st3. Inr (\<not> r, st3))))) (check_post F st)"
  proof (rule returns_bind)
    fix st1 assume st1: "I st1"
    have p: "returns (\<lambda>dbg. propagate dbg st1) (\<lambda>s. prop_post F ?G st1 s \<and> (fst s \<longrightarrow> next_to_propagate (snd s) = length (trail (snd s))))"
      using st1 by (intro propagate_ok) (simp add: I_def)
    show "returns (\<lambda>dbg. bind_res (propagate dbg st1) (\<lambda>(r, st2).
        bind_res (backtrack dbg (next_to_propagate st) st2) (\<lambda>st3. Inr (\<not> r, st3)))) (check_post F st)"
    proof (rule returns_bind [OF p], clarify)
      fix r st2 assume q: "prop_post F ?G st1 (r, st2)"
      then have e: "evolves st st2" "prop_inv F ?G (watches_of st2) st2" "\<not> r \<longrightarrow> unsat ?G"
        using st1 by (auto simp: prop_post_def I_def intro: evolves_trans)
      obtain ext where ext: "trail st2 = trail st @ ext" using e(1) by (auto simp: evolves_def)
      have b: "returns (\<lambda>dbg. backtrack dbg (next_to_propagate st) st2)
          (\<lambda>st3. cut_back (next_to_propagate st) st2 st3 \<and> next_to_propagate st3 = next_to_propagate st)"
        using prop_invD(1,2) [OF e(2)] ext settled by (intro backtrack_ok) auto
      show "returns (\<lambda>dbg. bind_res (backtrack dbg (next_to_propagate st) st2) (\<lambda>st3. Inr (\<not> r, st3))) (check_post F st)"
      proof (rule returns_bind [OF b])
        fix st3 assume st3: "cut_back (next_to_propagate st) st2 st3 \<and> next_to_propagate st3 = next_to_propagate st"
        have "prop_inv F F (watches_of st3) st3"
          using sound_cut_back [OF _ e(2) inv] st3 ext settled evolves_same(1) [OF e(1)] by simp
        moreover have "evolves st st3" "trail st3 = trail st"
          using st3 e(1) ext settled by (auto simp: cut_back_def evolves_def)
        moreover have "0 \<notin> set ?c" using c by (auto simp: simple_clause_def lit_ok_def)
        ultimately show "returns (\<lambda>dbg. Inr (\<not> r, st3)) (check_post F st)"
          using st3 e(3) unsat_negations [of F ?c] by (simp add: check_post_def)
      qed
    qed
  qed
  then show ?thesis using i by (simp add: check_def)
qed


end
