(* ===== verification/RupTable.thy ===== *)
theory RupTable
  imports RupPropagation
begin

unbundle bit_operations_syntax

text \<open>
  The online proof checker, second part: the store of clauses.  The hash table and the garbage list hold every object
  once, and a clause is in the slot of its hash value; new clauses, enlarging, deletion and garbage collection keep
  this and the watches.
\<close>

section \<open>Hash values\<close>

lemma reduce_hash_ok:
  assumes "0 < sz"
  shows "\<exists>h. (\<forall>dbg. reduce_hash dbg x sz = Inr h) \<and> h < sz"
proof -
  let ?h = "reduce_loop 32 x sz AND (sz - 1)"
  have "?h \<le> sz - 1" by (rule word_and_le1)
  also have "sz - 1 < sz" using assms by (metis word_gt_0 word_less_1 measure_unat word_less_nat_alt)
  finally have "?h < sz" .
  moreover from this have "reduce_hash dbg x sz = Inr ?h" for dbg
    using assms by (simp add: reduce_hash_def cassert_def)
  ultimately show ?thesis by blast
qed

definition home :: "u64 \<Rightarrow> nat \<Rightarrow> nat" where
  "home x n = (case reduce_hash False x (word_of_nat n) of Inr h \<Rightarrow> unat h | Inl e \<Rightarrow> 0)"

lemma home_ok:
  assumes "0 < n" "n < 2 ^ 64"
  obtains h where "\<And>dbg. reduce_hash dbg x (word_of_nat n) = Inr h" "unat h = home x n" "home x n < n"
proof -
  have n: "unat (word_of_nat n :: u64) = n" using assms(2) by (simp add: unat_of_nat take_bit_nat_eq_self)
  then have "0 < (word_of_nat n :: u64)" using assms(1) by (simp add: word_less_nat_alt)
  then obtain h where "\<And>dbg. reduce_hash dbg x (word_of_nat n) = Inr h" "h < word_of_nat n"
    using reduce_hash_ok by blast
  then show thesis using that n by (simp add: home_def word_less_nat_alt)
qed

section \<open>The invariant of the store\<close>

text \<open>\<open>placed\<close>: the addresses in a table are clauses in the slot of their hash value.\<close>

definition placed :: "(nat \<rightharpoonup> cclause) \<Rightarrow> nat list list \<Rightarrow> bool" where
  "placed objs table \<longleftrightarrow>
     (\<forall>i < length table. \<forall>a \<in> set (table ! i). \<exists>c. objs a = Some c \<and> csize c \<noteq> 0 \<and> home (hash c) (length table) = i)"

definition table_ok :: "rup_checker \<Rightarrow> bool" where
  "table_ok st \<longleftrightarrow>
     length (nonces st) = 4 \<and> length (clauses st) \<le> 2 * fresh st + 1 \<and>
     distinct (concat (clauses st) @ garbage st) \<and> dom (objects st) = set (concat (clauses st) @ garbage st) \<and>
     num_clauses st = length (concat (clauses st)) \<and> num_garbage st = length (garbage st) \<and>
     placed (objects st) (clauses st) \<and> (\<forall>a \<in> set (garbage st). \<exists>c. objects st a = Some c \<and> csize c = 0)"

lemma table_okD:
  assumes "table_ok st"
  shows "length (nonces st) = 4" "length (clauses st) \<le> 2 * fresh st + 1"
    "distinct (concat (clauses st) @ garbage st)" "dom (objects st) = set (concat (clauses st) @ garbage st)"
    "num_clauses st = length (concat (clauses st))" "num_garbage st = length (garbage st)"
    "placed (objects st) (clauses st)" "a \<in> set (garbage st) \<Longrightarrow> \<exists>c. objects st a = Some c \<and> csize c = 0"
  using assms by (auto simp: table_ok_def)

lemma placedD:
  assumes "placed objs table" "a \<in> set (concat table)"
  shows "\<exists>c. objs a = Some c \<and> csize c \<noteq> 0"
proof -
  obtain chain where "chain \<in> set table" "a \<in> set chain" using assms(2) by auto
  then obtain i where "i < length table" "a \<in> set (table ! i)" by (metis in_set_conv_nth)
  then show ?thesis using assms(1) by (auto simp: placed_def)
qed

lemma placed_nth:
  "placed objs table \<Longrightarrow> i < length table \<Longrightarrow> a \<in> set (table ! i) \<Longrightarrow>
     \<exists>c. objs a = Some c \<and> csize c \<noteq> 0 \<and> home (hash c) (length table) = i"
  by (simp add: placed_def)

lemma table_ok_evolves:
  assumes "table_ok st" "evolves st st'"
  shows "table_ok st'"
proof -
  have rel: "rel_option same_clause (objects st a) (objects st' a)" for a using assms(2) by (simp add: evolves_def)
  have "dom (objects st') = dom (objects st)" using rel by (force simp: rel_option_iff split: option.splits)
  moreover have "\<exists>d. objects st' a = Some d \<and> csize d = csize c \<and> hash d = hash c" if "objects st a = Some c" for a c
    using rel [of a] that by (auto simp: rel_option_iff same_clause_def split: option.splits)
  then have "placed (objects st') (clauses st)" "\<forall>a \<in> set (garbage st). \<exists>c. objects st' a = Some c \<and> csize c = 0"
    using table_okD(7,8) [OF assms(1)] unfolding placed_def by metis+
  ultimately show ?thesis using assms(1) evolves_same [OF assms(2)] by (simp add: table_ok_def)
qed

lemma mset_concat_update:
  "i < length xs \<Longrightarrow> mset (concat (xs[i := ys])) + mset (xs ! i) = mset (concat xs) + mset ys"
proof (induction xs arbitrary: i)
  case (Cons x xs)
  then show ?case by (cases i) (auto simp: ac_simps)
qed simp

lemma mset_concat_push: "i < length xs \<Longrightarrow> mset (concat (xs[i := a # xs ! i])) = add_mset a (mset (concat xs))"
  using mset_concat_update [of i xs "a # xs ! i"] by simp

lemma concat_replicate_Nil [simp]: "concat (replicate n []) = []"
  by (induction n) auto

section \<open>Enlarging the table\<close>

lemma placed_push:
  assumes "placed objs table" "objs a = Some c" "csize c \<noteq> 0" "h = home (hash c) (length table)" "h < length table"
  shows "placed objs (table[h := a # table ! h])"
  using assms by (auto simp: placed_def nth_list_update)

lemma enlarge_clauses_ok:
  assumes t: "table_ok st" and full: "num_clauses st = length (clauses st)" and small: "fresh st < 2 ^ 58"
    and bound: "length (concat (clauses st)) \<le> fresh st"
  shows "returns (\<lambda>dbg. enlarge_clauses dbg st)
    (\<lambda>st'. (\<exists>table. st' = st\<lparr>clauses := table\<rparr>) \<and> table_ok st' \<and> clauses st' \<noteq> [] \<and> mset (concat (clauses st')) = mset (concat (clauses st)))"
proof -
  let ?n = "if clauses st \<noteq> [] then 2 * length (clauses st) else 1"
  have "length (clauses st) \<le> fresh st" using table_okD(5) [OF t] full bound by simp
  then have n: "0 < ?n" "?n < 2 ^ 64" "\<not> 8 * int ?n > PTRDIFF_MAX" "?n \<le> 2 * fresh st + 1"
    using small by (auto simp: PTRDIFF_MAX_def)
  define I where "I pre table \<longleftrightarrow> length table = ?n \<and> mset (concat table) = mset pre \<and> placed (objects st) table" for pre table
  have "returns (\<lambda>dbg. fold_res (push_chain dbg st (word_of_nat ?n)) (concat (clauses st)) (replicate ?n [])) (I (concat (clauses st)))"
  proof (rule returns_fold)
    show "I [] (replicate ?n [])" by (simp add: I_def placed_def)
    fix pre a post table assume a: "concat (clauses st) = pre @ a # post" and table: "I pre table"
    have "a \<in> set (concat (clauses st))" using a by simp
    then obtain c where c: "objects st a = Some c" "csize c \<noteq> 0" using placedD [OF table_okD(7) [OF t]] by blast
    obtain h where h: "\<And>dbg. reduce_hash dbg (hash c) (word_of_nat ?n) = Inr h" "unat h = home (hash c) ?n" "home (hash c) ?n < ?n"
      using home_ok [OF n(1,2)] by blast
    have "push_chain dbg st (word_of_nat ?n) a table = Inr (table[unat h := a # table ! unat h])" for dbg
      using c h table by (simp add: push_chain_def deref_def I_def)
    moreover have "I (pre @ [a]) (table[unat h := a # table ! unat h])"
      using table h placed_push [of "objects st" table a c "unat h"] c mset_concat_push [of "unat h" table a] by (simp add: I_def)
    ultimately show "returns (\<lambda>dbg. push_chain dbg st (word_of_nat ?n) a table) (I (pre @ [a]))" by (rule returns_witness)
  qed
  then have "returns (\<lambda>dbg. bind_res (fold_res (push_chain dbg st (word_of_nat ?n)) (concat (clauses st)) (replicate ?n []))
      (\<lambda>table. Inr (st\<lparr>clauses := table\<rparr>)))
      (\<lambda>st'. (\<exists>table. st' = st\<lparr>clauses := table\<rparr>) \<and> table_ok st' \<and> clauses st' \<noteq> [] \<and> mset (concat (clauses st')) = mset (concat (clauses st)))"
  proof (rule returns_bind)
    fix table assume table: "I (concat (clauses st)) table"
    have m: "mset (concat table @ garbage st) = mset (concat (clauses st) @ garbage st)" using table by (simp add: I_def)
    have "length (concat table) = length (concat (clauses st))" using table mset_eq_length by (auto simp: I_def)
    moreover have "set (concat table @ garbage st) = set (concat (clauses st) @ garbage st)" using m by (rule mset_eq_setD)
    moreover have "distinct (concat table @ garbage st)" using m table_okD(3) [OF t] mset_eq_imp_distinct_iff by blast
    ultimately have "table_ok (st\<lparr>clauses := table\<rparr>)" using t table n(4) by (simp add: table_ok_def I_def)
    moreover have "table \<noteq> []" using table n(1) by (auto simp: I_def)
    ultimately show "returns (\<lambda>dbg. Inr (st\<lparr>clauses := table\<rparr>))
        (\<lambda>st'. (\<exists>table. st' = st\<lparr>clauses := table\<rparr>) \<and> table_ok st' \<and> clauses st' \<noteq> [] \<and> mset (concat (clauses st')) = mset (concat (clauses st)))"
      using table by (auto simp: I_def)
  qed
  then show ?thesis using full n(3) unfolding enlarge_clauses_def Let_def by (intro returns_assert) auto
qed

section \<open>New clauses\<close>

lemma find_unassigned_ok:
  assumes "vars_ok st" "\<forall>l \<in> set lits. lit_ok (size_vars st) l" "\<exists>l \<in> set lits. lit_value st l = 0"
  shows "\<exists>k. (\<forall>dbg. find_unassigned dbg lits j st = Inr (Some (j + k))) \<and> k < length lits \<and> lit_value st (lits ! k) = 0"
  using assms(2,3)
proof (induction lits arbitrary: j)
  case (Cons l lits)
  have val: "val dbg l st = Inr (lit_value st l)" for dbg using val_returns [OF assms(1)] Cons.prems(1) by simp
  show ?case
  proof (cases "lit_value st l = 0")
    case True
    then show ?thesis using val by (intro exI [of _ 0]) simp
  next
    case False
    then obtain k where "\<And>dbg. find_unassigned dbg lits (Suc j) st = Inr (Some (Suc j + k))" "k < length lits" "lit_value st (lits ! k) = 0"
      using Cons.IH [of "Suc j"] Cons.prems by auto
    then show ?thesis using val False by (intro exI [of _ "Suc k"]) simp
  qed
qed simp

lemma choose_watch_ok:
  assumes v: "vars_ok st" "\<forall>l \<in> set lits. lit_ok (size_vars st) l"
    and i: "i < length lits" "\<exists>l \<in> set (drop i lits). lit_value st l = 0"
  shows "returns (\<lambda>dbg. choose_watch dbg st i lits)
    (\<lambda>lits'. mset lits' = mset lits \<and> lit_value st (lits' ! i) = 0 \<and> take i lits' = take i lits)"
proof -
  have val: "val dbg (lits ! i) st = Inr (lit_value st (lits ! i))" for dbg using val_returns [OF v(1)] v(2) i(1) by simp
  show ?thesis
  proof (cases "lit_value st (lits ! i) = 0")
    case True
    then have "choose_watch dbg st i lits = Inr lits" for dbg using val i(1) by (simp add: choose_watch_def)
    then show ?thesis using True by simp
  next
    case False
    have "drop i lits = lits ! i # drop (Suc i) lits" using i(1) by (rule Cons_nth_drop_Suc [symmetric])
    then have ex: "\<exists>l \<in> set (drop (Suc i) lits). lit_value st l = 0" using i(2) False by auto
    have ok: "\<forall>l \<in> set (drop (Suc i) lits). lit_ok (size_vars st) l" using v(2) by (auto dest: in_set_dropD)
    obtain k where k: "\<And>dbg. find_unassigned dbg (drop (Suc i) lits) (Suc i) st = Inr (Some (Suc i + k))"
      "k < length (drop (Suc i) lits)" "lit_value st (drop (Suc i) lits ! k) = 0"
      using find_unassigned_ok [OF v(1) ok ex] by blast
    let ?j = "Suc i + k"
    have j: "?j < length lits" "lit_value st (lits ! ?j) = 0" using k(2,3) by auto
    have "choose_watch dbg st i lits = Inr (lits[i := lits ! ?j, ?j := lits ! i])" for dbg
      using val i(1) False k(1) by (simp add: choose_watch_def)
    moreover have "mset (lits[i := lits ! ?j, ?j := lits ! i]) = mset lits" using mset_swap [OF j(1) i(1)] by simp
    ultimately show ?thesis using i(1) j by simp
  qed
qed

text \<open>At least two literals have no value.\<close>

definition two_free :: "rup_checker \<Rightarrow> int list \<Rightarrow> bool" where
  "two_free st lits \<longleftrightarrow> 2 \<le> length (filter (\<lambda>l. lit_value st l = 0) lits)"

lemma two_free_mset: "mset lits = mset lits' \<Longrightarrow> two_free st lits \<Longrightarrow> two_free st lits'"
  unfolding two_free_def by (metis mset_filter size_mset)

lemma two_free_drop: "two_free st lits \<Longrightarrow> \<exists>l \<in> set lits. lit_value st l = 0" "two_free st lits \<Longrightarrow> \<exists>l \<in> set (drop 1 lits). lit_value st l = 0"
proof -
  assume t: "two_free st lits"
  show "\<exists>l \<in> set (drop 1 lits). lit_value st l = 0"
  proof (rule ccontr)
    assume "\<not> ?thesis"
    then have "filter (\<lambda>l. lit_value st l = 0) (drop 1 lits) = []" by (auto simp: filter_empty_conv)
    then show False using t by (cases lits) (auto simp: two_free_def split: if_splits)
  qed
  then show "\<exists>l \<in> set lits. lit_value st l = 0" by (auto dest: in_set_dropD)
qed

lemma two_free_length: "two_free st lits \<Longrightarrow> 2 \<le> length lits"
  using length_filter_le [of _ lits] by (auto simp: two_free_def intro: order_trans)

text \<open>The watches of a clause at a new address.\<close>

definition with_clause :: "int list \<Rightarrow> rup_checker \<Rightarrow> rup_checker" where
  "with_clause lits st =
     (let a = fresh st; n = length lits; l0 = lits ! 0; l1 = lits ! 1;
          ws = (watchers st)[lit_slot l0 := watches_of st l0 @ [\<lparr>blit = l1, wsize = n, wclause = a\<rparr>]]
      in st\<lparr>num_clauses := num_clauses st + 1, fresh := a + 1,
            objects := (objects st)(a \<mapsto> \<lparr>hash = last_hash st, csize = n, literals = lits\<rparr>),
            watchers := ws[lit_slot l1 := watches_of st l1 @ [\<lparr>blit = l0, wsize = n, wclause = a\<rparr>]]\<rparr>)"

lemma watches_ok_new:
  assumes ok: "watches_ok n objs wl" and a: "objs a = None" and c: "clause_ok n c" "l0 = literals c ! 0" "l1 = literals c ! 1"
    and wl': "\<And>l. lit_ok n l \<Longrightarrow> wl' l = (if l = l0 then wl l @ [\<lparr>blit = l1, wsize = length (literals c), wclause = a\<rparr>]
      else if l = l1 then wl l @ [\<lparr>blit = l0, wsize = length (literals c), wclause = a\<rparr>] else wl l)"
  shows "watches_ok n (objs(a \<mapsto> c)) wl'"
proof -
  obtain rest where lits: "literals c = l0 # l1 # rest"
    using c by (metis clause_ok_def Suc_le_length_iff numeral_2_eq_2 nth_Cons_0 nth_Cons_Suc One_nat_def)
  have l: "l0 \<noteq> l1" "lit_ok n l0" "lit_ok n l1" using c(1) lits by (auto simp: clause_ok_def)
  have old: "watch_ok n (objs(a \<mapsto> c)) l w" "wclause w \<noteq> a" if "w \<in> set (wl l)" "lit_ok n l" for l w
  proof -
    have w: "watch_ok n objs l w" using ok that by (simp add: watches_ok_def)
    then show "wclause w \<noteq> a" using a by (auto simp: watch_ok_def)
    then show "watch_ok n (objs(a \<mapsto> c)) l w" using w by (simp add: watch_ok_def)
  qed
  have new: "watch_ok n (objs(a \<mapsto> c)) l0 \<lparr>blit = l1, wsize = length (literals c), wclause = a\<rparr>"
    "watch_ok n (objs(a \<mapsto> c)) l1 \<lparr>blit = l0, wsize = length (literals c), wclause = a\<rparr>"
    using l lits by (auto simp: watch_ok_def)
  have dist: "distinct (map wclause (wl l))" if "lit_ok n l" for l using ok that by (simp add: watches_ok_def)
  show ?thesis
    unfolding watches_ok_def
  proof (intro allI impI)
    fix k assume k: "lit_ok n k"
    show "distinct (map wclause (wl' k)) \<and> (\<forall>w \<in> set (wl' k). watch_ok n (objs(a \<mapsto> c)) k w)"
      using old [OF _ k] new dist [OF k] l(1) by (auto simp: wl' [OF k])
  qed
qed

lemma watches_of_with_clause:
  assumes "vars_ok st" "lit_ok (size_vars st) (lits ! 0)" "lit_ok (size_vars st) (lits ! 1)" "lits ! 0 \<noteq> lits ! 1" "lit_ok (size_vars st) l"
  shows "watches_of (with_clause lits st) l =
    (if l = lits ! 0 then watches_of st l @ [\<lparr>blit = lits ! 1, wsize = length lits, wclause = fresh st\<rparr>]
     else if l = lits ! 1 then watches_of st l @ [\<lparr>blit = lits ! 0, wsize = length lits, wclause = fresh st\<rparr>] else watches_of st l)"
proof -
  have s: "lit_slot j = lit_slot k \<longleftrightarrow> j = k" "lit_slot k < length (watchers st)"
    if "lit_ok (size_vars st) j" "lit_ok (size_vars st) k" for j k
    using that lit_slot_inj [of j k] lit_slot_less [OF that(2)] vars_okD(2) [OF assms(1)] by (auto simp: lit_ok_def)
  show ?thesis using s assms(2-5) by (auto simp: with_clause_def Let_def watches_of_def nth_list_update)
qed


lemma with_clause_same [simp]:
  "size_vars (with_clause lits st) = size_vars st" "vals (with_clause lits st) = vals st" "trail (with_clause lits st) = trail st"
  "next_to_propagate (with_clause lits st) = next_to_propagate st" "marks (with_clause lits st) = marks st"
  "inconsistent (with_clause lits st) = inconsistent st" "clauses (with_clause lits st) = clauses st"
  "garbage (with_clause lits st) = garbage st" "num_garbage (with_clause lits st) = num_garbage st"
  "simplified (with_clause lits st) = simplified st" "nonces (with_clause lits st) = nonces st"
  "last_hash (with_clause lits st) = last_hash st" "last_id (with_clause lits st) = last_id st"
  "fresh (with_clause lits st) = fresh st + 1" "num_clauses (with_clause lits st) = num_clauses st + 1"
  "objects (with_clause lits st) = (objects st)(fresh st \<mapsto> \<lparr>hash = last_hash st, csize = length lits, literals = lits\<rparr>)"
  "length (watchers (with_clause lits st)) = length (watchers st)"
  by (simp_all add: with_clause_def Let_def)

lemma vars_ok_with_clause:
  assumes "vars_ok st" "lit_ok (size_vars st) (lits ! 0)" "lit_ok (size_vars st) (lits ! 1)"
  shows "vars_ok (with_clause lits st)"
proof -
  have "drop (2 * size_vars st - 2) (watchers (with_clause lits st)) = drop (2 * size_vars st - 2) (watchers st)"
    by (simp add: with_clause_def Let_def drop_slot [OF assms(2)] drop_slot [OF assms(3) [simplified]])
  moreover have "lit_value (with_clause lits st) = lit_value st" by (simp add: lit_value_def fun_eq_iff)
  ultimately show ?thesis using assms(1) by (simp add: vars_ok_def)
qed

lemma new_clause_ok:
  assumes v: "vars_ok st" and c: "simple_clause st (simplified st)" "two_free st (simplified st)"
  shows "returns (\<lambda>dbg. new_clause dbg st)
    (\<lambda>(a, st'). a = fresh st \<and> (\<exists>lits. mset lits = mset (simplified st) \<and> st' = with_clause lits st))"
proof -
  let ?c = "simplified st" and ?st = "st\<lparr>num_clauses := num_clauses st + 1, fresh := fresh st + 1\<rparr>"
  have same: "vars_ok ?st" "lit_value ?st = lit_value st" "size_vars ?st = size_vars st"
    using v by (auto simp: vars_ok_def lit_value_def fun_eq_iff)
  have ok: "\<forall>l \<in> set ?c. lit_ok (size_vars ?st) l" "distinct ?c" using c(1) by (auto simp: simple_clause_def)
  have "length ?c \<le> 2 * size_vars st" using c(1) by (intro lits_length) (auto simp: simple_clause_def)
  then have len: "1 < length ?c" "int (length ?c) \<le> UINT_MAX"
    using two_free_length [OF c(2)] vars_ok_bound [OF v] by (auto simp: UINT_MAX_def)
  have "returns (\<lambda>dbg. choose_watch dbg ?st 0 ?c) (\<lambda>lits. mset lits = mset ?c \<and> lit_value ?st (lits ! 0) = 0 \<and> take 0 lits = take 0 ?c)"
    using two_free_drop(1) [OF c(2)] same len(1) by (intro choose_watch_ok [OF same(1) ok(1)]) auto
  then obtain lits where lits: "\<And>dbg. choose_watch dbg ?st 0 ?c = Inr lits" "mset lits = mset ?c" "lit_value st (lits ! 0) = 0"
    using same(2) by (auto simp: returns_def)
  have ok': "\<forall>l \<in> set lits. lit_ok (size_vars ?st) l" "length lits = length ?c" using ok mset_eq_setD [OF lits(2)] mset_eq_length [OF lits(2)] by auto
  have "returns (\<lambda>dbg. choose_watch dbg ?st 1 lits) (\<lambda>ls. mset ls = mset lits \<and> lit_value ?st (ls ! 1) = 0 \<and> take 1 ls = take 1 lits)"
    using two_free_drop(2) [OF two_free_mset [OF lits(2) [symmetric] c(2)]] same len(1) ok'(2) by (intro choose_watch_ok [OF same(1) ok'(1)]) auto
  then obtain ls where ls: "\<And>dbg. choose_watch dbg ?st 1 lits = Inr ls" "mset ls = mset lits" "lit_value st (ls ! 1) = 0" "take 1 ls = take 1 lits"
    using same(2) by (auto simp: returns_def)
  have m: "mset ls = mset ?c" using ls(2) lits(2) by simp
  have n: "length ls = length ?c" "0 < length ls" "1 < length ls" using mset_eq_length [OF m] len(1) by auto
  have "ls ! 0 = lits ! 0" using arg_cong [OF ls(4), of "\<lambda>xs. xs ! 0"] n ok'(2) by simp
  then have free: "lit_value ?st (ls ! 0) = 0" "lit_value ?st (ls ! 1) = 0" using lits(3) ls(3) same(2) by auto
  have lk: "lit_ok (size_vars st) (ls ! 0)" "lit_ok (size_vars st) (ls ! 1)" "ls ! 0 \<noteq> ls ! 1"
    using ok n mset_eq_setD [OF m] mset_eq_imp_distinct_iff [OF m] nth_eq_iff_index_eq [of ls 0 1] nth_mem [of 0 ls] nth_mem [of 1 ls] by auto
  have get: "get_at ls 0 = Inr (ls ! 0)" "get_at ls 1 = Inr (ls ! 1)" using n by (auto simp: get_at_def)
  have af: "assert_free dbg (ls ! 0) ?st = Inr ()" "assert_free dbg (ls ! 1) ?st = Inr ()" for dbg
    using val_returns [OF same(1)] lk free by (simp_all add: assert_free_def cassert_def)
  let ?st1 = "?st\<lparr>objects := (objects st)(fresh st \<mapsto> \<lparr>hash = last_hash st, csize = length ?c, literals = ls\<rparr>)\<rparr>"
  let ?st2 = "?st1\<lparr>watchers := (watchers st)[lit_slot (ls ! 0) := watches_of st (ls ! 0) @ [\<lparr>blit = ls ! 1, wsize = length ?c, wclause = fresh st\<rparr>]]\<rparr>"
  have v1: "vars_ok ?st1" using same(1) by simp
  have p0: "push_watch dbg (ls ! 0) \<lparr>blit = ls ! 1, wsize = length ?c, wclause = fresh st\<rparr> ?st1 = Inr ?st2" for dbg
    using push_watch_ok [OF v1, of "ls ! 0"] lk(1) by (simp add: watches_of_def)
  have v2: "vars_ok ?st2" using v1 watchers_same(1) [of "watchers ?st2" ?st1] by (simp add: drop_slot [OF lk(1)])
  have w2: "watches_of ?st2 (ls ! 1) = watches_of st (ls ! 1)"
    using lk lit_slot_inj [of "ls ! 1" "ls ! 0"] by (auto simp: watches_of_def lit_ok_def)
  have p1: "push_watch dbg (ls ! 1) \<lparr>blit = ls ! 0, wsize = length ?c, wclause = fresh st\<rparr> ?st2 = Inr (with_clause ls st)" for dbg
    using push_watch_ok [OF v2, of "ls ! 1"] lk(2) w2 n(1) by (simp add: with_clause_def Let_def)
  have "new_clause dbg st = Inr (fresh st, with_clause ls st)" for dbg
    using len lits(1) ls(1) get af p0 p1 by (simp add: new_clause_def Let_def cassert_def)
  then show ?thesis using m by (intro returns_witness) auto
qed


section \<open>Insertion\<close>

definition checker_inv :: "int list set \<Rightarrow> rup_checker \<Rightarrow> bool" where
  "checker_inv F st \<longleftrightarrow> prop_inv F F (watches_of st) st \<and> table_ok st"

text \<open>What the operations on the table leave alone.\<close>

definition calm :: "rup_checker \<Rightarrow> rup_checker \<Rightarrow> bool" where
  "calm st st' \<longleftrightarrow>
     size_vars st' = size_vars st \<and> vals st' = vals st \<and> trail st' = trail st \<and> next_to_propagate st' = next_to_propagate st \<and>
     marks st' = marks st \<and> inconsistent st' = inconsistent st \<and> nonces st' = nonces st \<and> simplified st' = simplified st \<and>
     last_id st' = last_id st"

lemma calm_refl [simp]: "calm st st"
  by (simp add: calm_def)

lemma calm_trans: "calm s t \<Longrightarrow> calm t u \<Longrightarrow> calm s u"
  by (simp add: calm_def)

lemma calm_lit_value: "calm st st' \<Longrightarrow> lit_value st' = lit_value st"
  by (auto simp: calm_def lit_value_def fun_eq_iff)

lemma calm_simple_clause: "calm st st' \<Longrightarrow> simple_clause st' c \<longleftrightarrow> simple_clause st c"
  using calm_lit_value [of st st'] by (simp add: simple_clause_def calm_def)

lemma calm_two_free: "calm st st' \<Longrightarrow> two_free st' c \<longleftrightarrow> two_free st c"
  using calm_lit_value [of st st'] by (simp add: two_free_def)

text \<open>The keys by which clauses are found: hash value and set of literals.\<close>

definition key :: "rup_checker \<Rightarrow> nat \<Rightarrow> u64 \<times> int set" where
  "key st a = (case objects st a of Some c \<Rightarrow> (hash c, set (literals c)) | None \<Rightarrow> (0, {}))"

definition keys :: "rup_checker \<Rightarrow> (u64 \<times> int set) multiset" where
  "keys st = image_mset (key st) (mset (concat (clauses st)))"

lemma key_table [simp]:
  "key (st\<lparr>clauses := t\<rparr>) = key st" "key (st\<lparr>last_hash := x\<rparr>) = key st" "key (st\<lparr>simplified := c\<rparr>) = key st"
  "key (st\<lparr>unsimplified := c\<rparr>) = key st" "key (st\<lparr>last_id := i\<rparr>) = key st" "key (st\<lparr>inconsistent := b\<rparr>) = key st"
  "key (st\<lparr>marks := m\<rparr>) = key st" "key (st\<lparr>garbage := g\<rparr>) = key st" "key (st\<lparr>num_garbage := k\<rparr>) = key st"
  by (simp_all add: key_def fun_eq_iff)

definition id_hash :: "rup_checker \<Rightarrow> u64 \<Rightarrow> u64" where
  "id_hash st i = nonces st ! unat (i mod 4) * i"

lemma nonce_index: "unat ((i :: u64) mod 4) < 4"
  by (simp add: unat_mod)

lemma keys_evolves:
  assumes "evolves st st'"
  shows "keys st' = keys st"
proof -
  have rel: "rel_option same_clause (objects st a) (objects st' a)" for a using assms by (simp add: evolves_def)
  have "key st' a = key st a" for a
    using rel [of a] by (cases "objects st a"; cases "objects st' a") (auto simp: key_def same_clause_def dest: mset_eq_setD)
  then have "key st' = key st" by (simp add: fun_eq_iff)
  then show ?thesis using evolves_same(4) [OF assms] by (simp add: keys_def)
qed

lemma prop_inv_with_clause:
  assumes inv: "prop_inv F F (watches_of st) st" and c: "simple_clause st c" "entails F c" "2 \<le> length c" "mset lits = mset c"
  shows "prop_inv F F (watches_of (with_clause lits st)) (with_clause lits st)"
proof -
  let ?d = "\<lparr>hash = last_hash st, csize = length lits, literals = lits\<rparr>" and ?st = "with_clause lits st"
  have lits: "set lits = set c" "length lits = length c" "distinct lits \<longleftrightarrow> distinct c"
    using mset_eq_setD [OF c(4)] mset_eq_length [OF c(4)] mset_eq_imp_distinct_iff [OF c(4)] by auto
  have d: "clause_ok (size_vars st) ?d" using c(1,3) lits by (auto simp: clause_ok_def simple_clause_def)
  have v: "vars_ok st" using prop_invD(1) [OF inv] .
  have "0 < length lits" "1 < length lits" using c(3) lits(2) by auto
  then have lk: "lit_ok (size_vars st) (lits ! 0)" "lit_ok (size_vars st) (lits ! 1)" "lits ! 0 \<noteq> lits ! 1"
    using d nth_mem [of 0 lits] nth_mem [of 1 lits] nth_eq_iff_index_eq [of lits 0 1] by (auto simp: clause_ok_def)
  have a: "objects st (fresh st) = None" using prop_inv_object(5) [OF inv, of "fresh st"] by fastforce
  have "watches_ok (size_vars st) ((objects st)(fresh st \<mapsto> ?d)) (watches_of ?st)"
    by (rule watches_ok_new [OF prop_invD(4) [OF inv] a d, of "lits ! 0" "lits ! 1"])
      (simp_all only: watches_of_with_clause [OF v lk] cclause.select_convs)
  moreover have "vars_ok ?st" using vars_ok_with_clause [OF v lk(1,2)] .
  moreover have "lit_value ?st = lit_value st" by (simp add: lit_value_def fun_eq_iff)
  moreover have "entails F lits" using c(2) entails_set [OF lits(1)] by simp
  ultimately show ?thesis using inv d
    by (auto simp: prop_inv_def trail_ok_def store_ok_def sound_def less_Suc_eq)
qed

lemma distinct_below: "distinct xs \<Longrightarrow> \<forall>a \<in> set xs. a < n \<Longrightarrow> length (xs :: nat list) \<le> n"
  using card_mono [of "{..<n}" "set xs"] by (auto simp: distinct_card)

lemma concat_below:
  assumes "checker_inv F st"
  shows "length (concat (clauses st)) \<le> fresh st" "a \<in> set (concat (clauses st) @ garbage st) \<Longrightarrow> a < fresh st"
proof -
  have t: "table_ok st" and s: "store_ok st" using assms by (auto simp: checker_inv_def prop_inv_def)
  show below: "a < fresh st" if "a \<in> set (concat (clauses st) @ garbage st)" for a
  proof -
    have "a \<in> dom (objects st)" using that table_okD(4) [OF t] by simp
    then show ?thesis using s by (auto simp: store_ok_def)
  qed
  show "length (concat (clauses st)) \<le> fresh st"
    using table_okD(3) [OF t] below by (intro distinct_below) auto
qed

text \<open>A new clause, put into the slot of its hash value.\<close>

lemma table_ok_with_clause:
  assumes t: "table_ok st" and a: "\<forall>a \<in> set (concat (clauses st) @ garbage st). a < fresh st"
    and h: "h = home (last_hash st) (length (clauses st))" "h < length (clauses st)" and lits: "lits \<noteq> []"
  shows "table_ok ((with_clause lits st)\<lparr>clauses := (clauses st)[h := fresh st # clauses st ! h]\<rparr>)"
proof -
  let ?t = "(clauses st)[h := fresh st # clauses st ! h]"
  let ?objs = "(objects st)(fresh st \<mapsto> \<lparr>hash = last_hash st, csize = length lits, literals = lits\<rparr>)"
  have m: "mset (concat ?t) = add_mset (fresh st) (mset (concat (clauses st)))" using mset_concat_push [OF h(2)] .
  then have s: "set (concat ?t) = {fresh st} \<union> set (concat (clauses st))" using mset_eq_setD [of "concat ?t" "fresh st # concat (clauses st)"] by simp
  have len: "length (concat ?t) = Suc (length (concat (clauses st)))" using arg_cong [OF m, of size] by simp
  have "mset (concat ?t @ garbage st) = mset (fresh st # concat (clauses st) @ garbage st)" using m by simp
  then have "distinct (concat ?t @ garbage st) \<longleftrightarrow> distinct (fresh st # concat (clauses st) @ garbage st)"
    by (rule mset_eq_imp_distinct_iff)
  then have d: "distinct (concat ?t @ garbage st)" using table_okD(3) [OF t] a by auto
  have other: "?objs b = objects st b" if "b \<in> set (concat (clauses st) @ garbage st)" for b using a that by auto
  have "placed ?objs (clauses st)"
    using table_okD(7) [OF t] other unfolding placed_def by (metis (no_types, lifting) UnI1 UN_I nth_mem set_append set_concat)
  then have "placed ?objs ?t" using h lits by (intro placed_push [where c = "\<lparr>hash = last_hash st, csize = length lits, literals = lits\<rparr>"]) auto
  moreover have "\<forall>b \<in> set (garbage st). \<exists>c. ?objs b = Some c \<and> csize c = 0" using table_okD(8) [OF t] other by simp
  moreover have "dom ?objs = set (concat ?t @ garbage st)" using table_okD(4) [OF t] s by auto
  ultimately show ?thesis using table_okD(1,2,5,6) [OF t] d len by (simp add: table_ok_def)
qed


lemma prop_inv_table [simp]:
  "prop_inv F G wl (st\<lparr>clauses := t\<rparr>) \<longleftrightarrow> prop_inv F G wl st" "prop_inv F G wl (st\<lparr>last_hash := x\<rparr>) \<longleftrightarrow> prop_inv F G wl st"
  "prop_inv F G wl (st\<lparr>garbage := g\<rparr>) \<longleftrightarrow> prop_inv F G wl st" "prop_inv F G wl (st\<lparr>num_clauses := k\<rparr>) \<longleftrightarrow> prop_inv F G wl st"
  "prop_inv F G wl (st\<lparr>num_garbage := k\<rparr>) \<longleftrightarrow> prop_inv F G wl st" "prop_inv F G wl (st\<lparr>last_id := i\<rparr>) \<longleftrightarrow> prop_inv F G wl st"
  "prop_inv F G wl (st\<lparr>simplified := c\<rparr>) \<longleftrightarrow> prop_inv F G wl st" "prop_inv F G wl (st\<lparr>unsimplified := c\<rparr>) \<longleftrightarrow> prop_inv F G wl st"
  "prop_inv F G wl (st\<lparr>inconsistent := b\<rparr>) \<longleftrightarrow> prop_inv F G wl st"
  by (simp_all add: prop_inv_def vars_ok_def trail_ok_def store_ok_def sound_def lit_value_def)

lemma watches_of_table [simp]:
  "watches_of (st\<lparr>clauses := t\<rparr>) = watches_of st" "watches_of (st\<lparr>last_hash := x\<rparr>) = watches_of st"
  "watches_of (st\<lparr>garbage := g\<rparr>) = watches_of st" "watches_of (st\<lparr>num_clauses := k\<rparr>) = watches_of st"
  "watches_of (st\<lparr>num_garbage := k\<rparr>) = watches_of st" "watches_of (st\<lparr>last_id := i\<rparr>) = watches_of st"
  "watches_of (st\<lparr>simplified := c\<rparr>) = watches_of st" "watches_of (st\<lparr>unsimplified := c\<rparr>) = watches_of st"
  "watches_of (st\<lparr>inconsistent := b\<rparr>) = watches_of st"
  by (simp_all add: watches_of_def fun_eq_iff)

lemma compute_hash_ok:
  "length (nonces st) = 4 \<Longrightarrow> compute_hash st = Inr (id_hash st (last_id st), st\<lparr>last_hash := id_hash st (last_id st)\<rparr>)"
  using nonce_index [of "last_id st"] by (simp add: compute_hash_def id_hash_def)

lemma home_of_state:
  assumes "table_ok st" "clauses st \<noteq> []" "fresh st < 2 ^ 58"
  obtains h where "\<forall>dbg. reduce_hash dbg x (size_clauses st) = Inr h" "unat h = home x (length (clauses st))"
    "home x (length (clauses st)) < length (clauses st)"
proof -
  have "0 < length (clauses st)" "length (clauses st) < 2 ^ 64" using assms table_okD(2) [OF assms(1)] by auto
  then obtain h where "\<And>dbg. reduce_hash dbg x (word_of_nat (length (clauses st))) = Inr h" "unat h = home x (length (clauses st))"
    "home x (length (clauses st)) < length (clauses st)"
    using home_ok by blast
  then show thesis using that by (simp add: size_clauses_def)
qed

lemma enlarge_before_insert:
  assumes inv: "checker_inv F st" and small: "fresh st < 2 ^ 58"
  shows "returns (\<lambda>dbg. if num_clauses st = length (clauses st) then enlarge_clauses dbg st else Inr st)
    (\<lambda>s. calm st s \<and> checker_inv F s \<and> clauses s \<noteq> [] \<and> fresh s = fresh st \<and> keys s = keys st \<and> objects s = objects st)"
proof (cases "num_clauses st = length (clauses st)")
  case True
  have t: "table_ok st" using inv by (simp add: checker_inv_def)
  have "returns (\<lambda>dbg. enlarge_clauses dbg st)
      (\<lambda>s. calm st s \<and> checker_inv F s \<and> clauses s \<noteq> [] \<and> fresh s = fresh st \<and> keys s = keys st \<and> objects s = objects st)"
    by (rule returns_mono [OF enlarge_clauses_ok [OF t True small concat_below(1) [OF inv]]])
      (use inv in \<open>auto simp: calm_def checker_inv_def keys_def\<close>)
  then show ?thesis using True by simp
next
  case False
  then have "clauses st \<noteq> []" using inv table_okD(5) [of st] by (auto simp: checker_inv_def)
  then show ?thesis using False inv by simp
qed

lemma keys_with_clause:
  assumes "\<forall>a \<in> set (concat (clauses st) @ garbage st). a < fresh st" "h < length (clauses st)"
  shows "keys ((with_clause lits st)\<lparr>clauses := (clauses st)[h := fresh st # clauses st ! h]\<rparr>) = add_mset (last_hash st, set lits) (keys st)"
proof -
  have "image_mset (key (with_clause lits st)) (mset (concat (clauses st))) = image_mset (key st) (mset (concat (clauses st)))"
    using assms(1) by (intro image_mset_cong) (auto simp: key_def)
  moreover have "key (with_clause lits st) (fresh st) = (last_hash st, set lits)" by (simp add: key_def)
  ultimately show ?thesis using mset_concat_push [OF assms(2), of "fresh st"] by (simp add: keys_def)
qed

lemma insert_ok:
  assumes inv: "checker_inv F st" and c: "simple_clause st (simplified st)" "two_free st (simplified st)" "entails F (simplified st)"
    and small: "fresh st < 2 ^ 58"
  shows "returns (\<lambda>dbg. insert dbg st) (\<lambda>st'. calm st st' \<and> checker_inv F st' \<and> fresh st' = fresh st + 1 \<and>
    keys st' = add_mset (id_hash st (last_id st), set (simplified st)) (keys st))"
  unfolding insert_def
proof (rule returns_bind [OF enlarge_before_insert [OF inv small]])
  fix s assume s: "calm st s \<and> checker_inv F s \<and> clauses s \<noteq> [] \<and> fresh s = fresh st \<and> keys s = keys st \<and> objects s = objects st"
  let ?s = "s\<lparr>last_hash := id_hash s (last_id s)\<rparr>"
  have t: "table_ok s" and p: "prop_inv F F (watches_of s) s" using s by (auto simp: checker_inv_def)
  have calm: "calm st ?s" using s by (simp add: calm_def)
  have ts: "table_ok ?s" using t by (simp add: table_ok_def)
  have c': "simple_clause ?s (simplified ?s)" "two_free ?s (simplified ?s)" "entails F (simplified ?s)" "simplified ?s = simplified st"
    using c calm by (simp_all add: calm_simple_clause calm_two_free) (simp_all add: calm_def)
  have hash: "id_hash s (last_id s) = id_hash st (last_id st)" using s by (simp add: id_hash_def calm_def)
  obtain h where h: "\<forall>dbg. reduce_hash dbg (id_hash s (last_id s)) (size_clauses ?s) = Inr h"
    "unat h = home (id_hash s (last_id s)) (length (clauses ?s))" "unat h < length (clauses ?s)"
    using home_of_state [OF ts, of "id_hash s (last_id s)"] s small by auto
  have v: "vars_ok ?s" using prop_invD(1) [of F F "watches_of s" ?s] p by simp
  obtain lits where lits: "\<And>dbg. new_clause dbg ?s = Inr (fresh ?s, with_clause lits ?s)" "mset lits = mset (simplified st)"
    using new_clause_ok [OF v c'(1,2)] c'(4) by (auto simp: returns_def)
  let ?r = "(with_clause lits ?s)\<lparr>clauses := (clauses ?s)[unat h := fresh ?s # clauses ?s ! unat h]\<rparr>"
  have below: "\<forall>a \<in> set (concat (clauses ?s) @ garbage ?s). a < fresh ?s" using concat_below(2) [of F s] s by simp
  have len: "2 \<le> length (simplified st)" using two_free_length [OF c(2)] .
  have "prop_inv F F (watches_of (with_clause lits ?s)) (with_clause lits ?s)"
    using p c' len lits(2) by (intro prop_inv_with_clause [where c = "simplified st"]) simp_all
  moreover have "lits \<noteq> []" using mset_eq_length [OF lits(2)] len by auto
  then have "table_ok ?r" using table_ok_with_clause [OF ts below _ h(3)] h(2) by simp
  ultimately have "checker_inv F ?r" by (simp add: checker_inv_def)
  moreover have "calm st ?r" using s by (simp add: calm_def)
  moreover have "keys ?s = keys s" by (simp add: keys_def)
  then have "keys ?r = add_mset (id_hash st (last_id st), set (simplified st)) (keys st)"
    using keys_with_clause [OF below h(3)] s hash mset_eq_setD [OF lits(2)] by simp
  moreover have "bind_res (compute_hash s) (\<lambda>(hs, st). bind_res (reduce_hash dbg hs (size_clauses st)) (\<lambda>h.
     bind_res (new_clause dbg st) (\<lambda>(a, st). bind_res (get_at (clauses st) (unat h)) (\<lambda>chain.
       Inr (st\<lparr>clauses := (clauses st)[unat h := a # chain]\<rparr>))))) = Inr ?r" for dbg
    using compute_hash_ok [OF table_okD(1) [OF t]] h lits(1) by simp
  ultimately show "returns (\<lambda>dbg. bind_res (compute_hash s) (\<lambda>(hs, st). bind_res (reduce_hash dbg hs (size_clauses st)) (\<lambda>h.
     bind_res (new_clause dbg st) (\<lambda>(a, st). bind_res (get_at (clauses st) (unat h)) (\<lambda>chain.
       Inr (st\<lparr>clauses := (clauses st)[unat h := a # chain]\<rparr>)))))) (\<lambda>st'. calm st st' \<and> checker_inv F st' \<and> fresh st' = fresh st + 1 \<and>
    keys st' = add_mset (id_hash st (last_id st), set (simplified st)) (keys st))"
    using s by (intro returns_witness) auto
qed


section \<open>Finding a clause\<close>

lemma get_bit_ok:
  assumes "vars_ok st" "lit_ok (size_vars st) l" "length bits = 2 * size_vars st"
  shows "get_bit dbg bits l = Inr (bits ! lit_slot l)" "set_bit dbg l b bits = Inr (bits[lit_slot l := b])"
  using assms lit_slot_less [OF assms(2)] by (simp_all add: get_bit_def set_bit_def l2u_ok cassert_def)

definition bits_after :: "int list \<Rightarrow> bool \<Rightarrow> bool list \<Rightarrow> bool list" where
  "bits_after lits b bits = fold (\<lambda>l bits. bits[lit_slot l := b]) lits bits"

lemma length_bits_after [simp]: "length (bits_after lits b bits) = length bits"
  unfolding bits_after_def by (induction lits arbitrary: bits) auto

lemma nth_bits_after:
  "u < length bits \<Longrightarrow> bits_after lits b bits ! u = (if u \<in> lit_slot ` set lits then b else bits ! u)"
  unfolding bits_after_def by (induction lits arbitrary: bits) auto

lemma set_bits_ok:
  assumes "vars_ok st" "\<forall>l \<in> set lits. lit_ok (size_vars st) l" "length bits = 2 * size_vars st"
  shows "set_bits dbg lits b bits = Inr (bits_after lits b bits)"
  using assms(2,3) unfolding set_bits_def bits_after_def
  by (induction lits arbitrary: bits) (simp_all add: get_bit_ok [OF assms(1)])

lemma bits_cleared: "bits_after lits False (bits_after lits True (replicate n False)) = replicate n False"
  by (rule nth_equalityI) (auto simp: nth_bits_after)

lemma all_marked_ok:
  assumes "vars_ok st" "\<forall>l \<in> set lits. lit_ok (size_vars st) l" "length bits = 2 * size_vars st"
  shows "all_marked dbg bits lits = Inr (\<forall>l \<in> set lits. bits ! lit_slot l)"
  using assms(2) by (induction lits) (auto simp: get_bit_ok [OF assms(1) _ assms(3)])

lemma marked_iff:
  assumes "\<forall>l \<in> set c. lit_ok n l" "lit_ok n k"
  shows "bits_after c True (replicate (2 * n) False) ! lit_slot k \<longleftrightarrow> k \<in> set c"
proof -
  have "lit_slot k \<in> lit_slot ` set c \<longleftrightarrow> k \<in> set c"
    using assms lit_slot_inj [of k] by (auto simp: lit_ok_def image_iff)
  then show ?thesis using nth_bits_after [of "lit_slot k" "replicate (2 * n) False" c True] lit_slot_less [OF assms(2)] by auto
qed

text \<open>The test of a clause: the same hash value, and the same set of literals.\<close>

lemma find_in_chain_ok:
  assumes v: "vars_ok st" and chain: "\<forall>a \<in> set chain. \<exists>d. objects st a = Some d \<and> clause_ok (size_vars st) d \<and> csize d \<noteq> 0"
    and c: "simple_clause st c" and bits: "bits = bits_after c True (replicate (2 * size_vars st) False)"
  shows "find_in_chain dbg st bits hs (length c) chain = Inr (length (takeWhile (\<lambda>a. key st a \<noteq> (hs, set c)) chain))"
  using chain
proof (induction chain)
  case (Cons a chain)
  obtain d where d: "objects st a = Some d" "clause_ok (size_vars st) d" "csize d \<noteq> 0" using Cons.prems by auto
  have size: "csize d = length (literals d)" "distinct (literals d)" "\<forall>l \<in> set (literals d). lit_ok (size_vars st) l"
    using d(2,3) by (auto simp: clause_ok_def)
  have c': "\<forall>l \<in> set c. lit_ok (size_vars st) l" "distinct c" using c by (auto simp: simple_clause_def)
  have "all_marked dbg bits (literals d) = Inr (set (literals d) \<subseteq> set c)"
    using all_marked_ok [OF v size(3)] marked_iff [OF c'(1)] size(3) bits by auto
  moreover have "hash d = hs \<and> csize d = length c \<and> set (literals d) \<subseteq> set c \<longleftrightarrow> key st a = (hs, set c)"
  proof
    assume h: "hash d = hs \<and> csize d = length c \<and> set (literals d) \<subseteq> set c"
    then have "card (set (literals d)) = card (set c)" using size c'(2) by (simp add: distinct_card)
    then have "set (literals d) = set c" using h by (intro card_subset_eq) auto
    then show "key st a = (hs, set c)" using h d(1) by (simp add: key_def)
  next
    assume k: "key st a = (hs, set c)"
    then have "set (literals d) = set c" "hash d = hs" using d(1) by (auto simp: key_def)
    then show "hash d = hs \<and> csize d = length c \<and> set (literals d) \<subseteq> set c"
      using size(1,2) c'(2) distinct_card [of "literals d"] distinct_card [of c] by simp
  qed
  ultimately have test: "(if hash d = hs \<and> csize d = length c then all_marked dbg bits (literals d) else Inr False) = Inr (key st a = (hs, set c))"
    by (cases "hash d = hs \<and> csize d = length c") (simp_all, metis)
  show ?case
    unfolding find_in_chain.simps deref_def d(1) option.case bind_res_Inr test using Cons.IH Cons.prems by simp
qed simp

lemma find_ok:
  assumes inv: "checker_inv F st" and c: "simple_clause st (simplified st)" and ne: "clauses st \<noteq> []" and small: "fresh st < 2 ^ 58"
  shows "\<exists>h k. (\<forall>dbg. find dbg st = Inr (h, k, st\<lparr>last_hash := id_hash st (last_id st)\<rparr>)) \<and>
    h = home (id_hash st (last_id st)) (length (clauses st)) \<and> h < length (clauses st) \<and>
    k = length (takeWhile (\<lambda>a. key st a \<noteq> (id_hash st (last_id st), set (simplified st))) (clauses st ! h))"
proof -
  let ?K = "(id_hash st (last_id st), set (simplified st))" and ?st = "st\<lparr>last_hash := id_hash st (last_id st)\<rparr>"
  let ?bits = "bits_after (simplified st) True (replicate (2 * size_vars st) False)"
  have t: "table_ok st" and p: "prop_inv F F (watches_of st) st" using inv by (auto simp: checker_inv_def)
  have v: "vars_ok st" using prop_invD(1) [OF p] .
  have v': "vars_ok ?st" using prop_invD(1) [of F F "watches_of st" ?st] p by simp
  have ok: "\<forall>l \<in> set (simplified st). lit_ok (size_vars st) l" using c by (simp add: simple_clause_def)
  obtain h where h: "\<forall>dbg. reduce_hash dbg (fst ?K) (size_clauses st) = Inr h" "unat h = home (fst ?K) (length (clauses st))"
    "home (fst ?K) (length (clauses st)) < length (clauses st)"
    using home_of_state [OF t ne small, of "fst ?K"] by blast
  have chain: "\<exists>d. objects st a = Some d \<and> clause_ok (size_vars st) d \<and> csize d \<noteq> 0" if a: "a \<in> set (clauses st ! unat h)" for a
  proof -
    obtain d where "objects st a = Some d" "csize d \<noteq> 0" using placed_nth [OF table_okD(7) [OF t] _ a] h by auto
    then show ?thesis using prop_inv_object(1) [OF p] by blast
  qed
  have f: "find_in_chain dbg ?st ?bits (fst ?K) (length (simplified st)) (clauses st ! unat h) =
      Inr (length (takeWhile (\<lambda>a. key st a \<noteq> ?K) (clauses st ! unat h)))" for dbg
    using find_in_chain_ok [OF v', of "clauses st ! unat h" "simplified st" ?bits dbg "fst ?K"] chain c
    by (simp add: simple_clause_def lit_value_def)
  have m: "marks st = replicate (2 * size_vars st) False" using vars_okD(3) [OF v] .
  have "set_bits dbg (simplified st) True (marks st) = Inr ?bits" for dbg using set_bits_ok [OF v ok] m by simp
  moreover have "set_bits dbg (simplified st) False ?bits = Inr (marks st)" for dbg using set_bits_ok [OF v ok] m bits_cleared by simp
  moreover have "size_clauses ?st = size_clauses st" by (simp add: size_clauses_def)
  moreover have "?st\<lparr>marks := marks st\<rparr> = ?st" by simp
  ultimately have "find dbg st = Inr (unat h, length (takeWhile (\<lambda>a. key st a \<noteq> ?K) (clauses st ! unat h)), ?st)" for dbg
    using compute_hash_ok [OF table_okD(1) [OF t]] h f by (simp add: find_def)
  then show ?thesis using h by auto
qed

lemma takeWhile_stops: "\<exists>b \<in> set xs. \<not> P b \<Longrightarrow> length (takeWhile P xs) < length xs \<and> \<not> P (xs ! length (takeWhile P xs))"
  by (induction xs) auto

lemma find_present_clause:
  assumes inv: "checker_inv F st" and K: "(x, C) \<in># keys st"
    and k: "k = length (takeWhile (\<lambda>a. key st a \<noteq> (x, C)) (clauses st ! home x (length (clauses st))))"
  shows "clauses st \<noteq> []" "k < length (clauses st ! home x (length (clauses st)))"
    "key st (clauses st ! home x (length (clauses st)) ! k) = (x, C)"
proof -
  have t: "table_ok st" using inv by (simp add: checker_inv_def)
  have "(x, C) \<in> key st ` set (concat (clauses st))" using K by (simp add: keys_def)
  then obtain a where a: "a \<in> set (concat (clauses st))" "key st a = (x, C)" by (metis imageE)
  then obtain i where i: "i < length (clauses st)" "a \<in> set (clauses st ! i)" by (metis UN_E in_set_conv_nth set_concat)
  then obtain c where "objects st a = Some c" "home (hash c) (length (clauses st)) = i"
    using placed_nth [OF table_okD(7) [OF t]] by blast
  then have h: "home x (length (clauses st)) = i" using a(2) by (simp add: key_def)
  show "clauses st \<noteq> []" using i(1) by auto
  have "\<exists>b \<in> set (clauses st ! i). \<not> key st b \<noteq> (x, C)" using a(2) i(2) by blast
  from takeWhile_stops [OF this]
  show "k < length (clauses st ! home x (length (clauses st)))"
    "key st (clauses st ! home x (length (clauses st)) ! k) = (x, C)"
    by (simp_all add: k h)
qed

section \<open>Garbage\<close>

definition mark_garbage :: "nat list \<Rightarrow> (nat \<rightharpoonup> cclause) \<Rightarrow> nat \<rightharpoonup> cclause" where
  "mark_garbage bad objs a = (if a \<in> set bad then map_option (\<lambda>c. c\<lparr>csize := 0\<rparr>) (objs a) else objs a)"

definition satisfied :: "rup_checker \<Rightarrow> nat \<Rightarrow> bool" where
  "satisfied st a \<longleftrightarrow> (\<exists>c. objects st a = Some c \<and> (\<exists>l \<in> set (literals c). lit_value st l = 1))"

definition move_garbage :: "nat list \<Rightarrow> rup_checker \<Rightarrow> rup_checker" where
  "move_garbage bad st =
     st\<lparr>objects := mark_garbage bad (objects st), garbage := rev bad @ garbage st,
        num_garbage := num_garbage st + length bad, num_clauses := num_clauses st - length bad\<rparr>"

lemma mark_garbage_Cons: "objs a = Some c \<Longrightarrow> mark_garbage bad (objs(a \<mapsto> c\<lparr>csize := 0\<rparr>)) = mark_garbage (a # bad) objs"
  by (auto simp: mark_garbage_def fun_eq_iff)

lemma mark_garbage_Nil [simp]: "mark_garbage [] objs = objs"
  by (auto simp: mark_garbage_def fun_eq_iff)

lemma mark_garbage_some: "mark_garbage bad objs a = Some d \<longleftrightarrow> (\<exists>c. objs a = Some c \<and> d = (if a \<in> set bad then c\<lparr>csize := 0\<rparr> else c))"
  by (auto simp: mark_garbage_def)

lemma any_true_ok:
  assumes "vars_ok st" "\<forall>l \<in> set lits. lit_ok (size_vars st) l"
  shows "any_true dbg st lits = Inr (\<exists>l \<in> set lits. lit_value st l = 1)"
  using assms(2)
proof (induction lits)
  case (Cons l lits)
  have "lit_value st l \<in> {-1, 0, 1}" using vars_okD(4) [OF assms(1)] Cons.prems by simp
  then have "lit_value st l > 0 \<longleftrightarrow> lit_value st l = 1" by auto
  then show ?case using Cons val_returns [OF assms(1)] by simp
qed simp

lemma sweep_chain_ok:
  assumes "vars_ok st" "\<forall>a \<in> set chain. \<exists>c. objects st a = Some c \<and> clause_ok (size_vars st) c \<and> csize c \<noteq> 0" "distinct chain"
    "length chain \<le> num_clauses st"
  shows "sweep_chain dbg chain st = Inr (filter (\<lambda>a. \<not> satisfied st a) chain, move_garbage (filter (satisfied st) chain) st)"
  using assms
proof (induction chain arbitrary: st)
  case Nil
  then show ?case by (simp add: move_garbage_def)
next
  case (Cons a chain)
  obtain c where c: "objects st a = Some c" "clause_ok (size_vars st) c" "csize c \<noteq> 0" using Cons.prems(2) by auto
  then have "take (csize c) (literals c) = literals c" "\<forall>l \<in> set (literals c). lit_ok (size_vars st) l" by (auto simp: clause_ok_def)
  then have sat: "clause_satisfied dbg c st = Inr (satisfied st a)"
    using any_true_ok [OF Cons.prems(1)] c(1) by (simp add: clause_satisfied_def satisfied_def)
  show ?case
  proof (cases "satisfied st a")
    case True
    let ?st = "st\<lparr>objects := (objects st)(a \<mapsto> c\<lparr>csize := 0\<rparr>), garbage := a # garbage st,
      num_garbage := num_garbage st + 1, num_clauses := num_clauses st - 1\<rparr>"
    have lv: "lit_value (st\<lparr>objects := f, garbage := g, num_garbage := x, num_clauses := y\<rparr>) = lit_value st" for f g x y
      by (simp add: lit_value_def fun_eq_iff)
    have "satisfied ?st b = satisfied st b" for b using c(1) by (auto simp: satisfied_def lv)
    then have s: "satisfied ?st = satisfied st" by (simp add: fun_eq_iff)
    have "vars_ok ?st" using Cons.prems(1) by (simp add: vars_ok_def lit_value_def)
    moreover have "\<forall>b \<in> set chain. \<exists>c. objects ?st b = Some c \<and> clause_ok (size_vars ?st) c \<and> csize c \<noteq> 0"
      using Cons.prems(2,3) by auto
    ultimately have "sweep_chain dbg chain ?st = Inr (filter (\<lambda>b. \<not> satisfied st b) chain, move_garbage (filter (satisfied st) chain) ?st)"
      using Cons.IH [of ?st] Cons.prems(3,4) s by simp
    moreover have "move_garbage (filter (satisfied st) chain) ?st = move_garbage (filter (satisfied st) (a # chain)) st"
      using True mark_garbage_Cons [of "objects st" a c] c(1) by (simp add: move_garbage_def)
    ultimately show ?thesis using True c(1) sat Cons.prems(4) by (simp add: deref_def cassert_def)
  next
    case False
    then show ?thesis using c(1) sat Cons by (simp add: deref_def)
  qed
qed

text \<open>Garbage clauses keep their literals and their watches.\<close>

lemma prop_inv_mark:
  assumes "prop_inv F G wl st"
  shows "prop_inv F G wl (st\<lparr>objects := mark_garbage bad (objects st)\<rparr>)"
proof -
  have "watch_ok n (mark_garbage bad (objects st)) l w" if w: "watch_ok n (objects st) l w" for n l w
  proof -
    obtain c where "objects st (wclause w) = Some c" "wsize w = length (literals c)" "lit_ok n (blit w)" "blit w \<noteq> l"
      "if wsize w = 2 then set (literals c) = {l, blit w} else l \<in> set (take 2 (literals c))"
      using w unfolding watch_ok_def by blast
    then show ?thesis by (auto simp: watch_ok_def mark_garbage_def)
  qed
  then have "watches_ok (size_vars st) (mark_garbage bad (objects st)) wl"
    using prop_invD(4) [OF assms] by (simp add: watches_ok_def)
  moreover have "\<forall>a c. mark_garbage bad (objects st) a = Some c \<longrightarrow> a < fresh st \<and> clause_ok (size_vars st) c \<and> entails F (literals c)"
  proof (intro allI impI)
    fix a c assume "mark_garbage bad (objects st) a = Some c"
    then obtain d where d: "objects st a = Some d" "c = (if a \<in> set bad then d\<lparr>csize := 0\<rparr> else d)" by (auto simp: mark_garbage_some)
    then show "a < fresh st \<and> clause_ok (size_vars st) c \<and> entails F (literals c)"
      using prop_inv_object(1,2,5) [OF assms d(1)] by (cases "a \<in> set bad") (simp_all add: clause_ok_def)
  qed
  ultimately show ?thesis using assms by (simp add: prop_inv_def trail_ok_def store_ok_def sound_def)
qed

lemma key_mark: "key (st\<lparr>objects := mark_garbage bad (objects st)\<rparr>) = key st"
  by (auto simp: key_def mark_garbage_def fun_eq_iff split: option.splits)

text \<open>Moving some clauses of a chain to the garbage list.\<close>

lemma move_from_chain:
  assumes t: "table_ok st" and i: "i < length (clauses st)"
    and chain: "mset (clauses st ! i) = mset keep + mset bad"
  shows "table_ok ((move_garbage bad st)\<lparr>clauses := (clauses st)[i := keep]\<rparr>)"
    "keys st = keys ((move_garbage bad st)\<lparr>clauses := (clauses st)[i := keep]\<rparr>) + image_mset (key st) (mset bad)"
proof -
  let ?t = "(clauses st)[i := keep]" and ?objs = "mark_garbage bad (objects st)"
  have m: "mset (concat (clauses st)) = mset (concat ?t) + mset bad"
    using mset_concat_update [OF i, of keep] chain by (simp add: ac_simps)
  have "mset (concat ?t @ rev bad @ garbage st) = mset (concat (clauses st) @ garbage st)" using m by simp
  then have d: "distinct (concat ?t @ rev bad @ garbage st)" "set (concat ?t @ rev bad @ garbage st) = set (concat (clauses st) @ garbage st)"
    using table_okD(3) [OF t] mset_eq_imp_distinct_iff mset_eq_setD by blast+
  have len: "length (concat (clauses st)) = length (concat ?t) + length bad" using arg_cong [OF m, of size] by simp
  have dom: "dom ?objs = dom (objects st)" by (auto simp: mark_garbage_def dom_def)
  have sub: "a \<in> set (clauses st ! j)" if "j < length ?t" "a \<in> set (?t ! j)" for a j
    using that mset_eq_setD [of "clauses st ! i" "keep @ bad"] chain by (cases "j = i") auto
  have "placed ?objs ?t"
    unfolding placed_def
  proof (intro allI impI ballI)
    fix j a assume j: "j < length ?t" "a \<in> set (?t ! j)"
    then obtain c where c: "objects st a = Some c" "csize c \<noteq> 0" "home (hash c) (length (clauses st)) = j"
      using placed_nth [OF table_okD(7) [OF t]] sub by (metis length_list_update)
    have "a \<in> set (concat ?t)" using j nth_mem by fastforce
    then have "a \<notin> set bad" using d(1) by auto
    then show "\<exists>c. ?objs a = Some c \<and> csize c \<noteq> 0 \<and> home (hash c) (length ?t) = j" using c by (simp add: mark_garbage_def)
  qed
  moreover have "\<exists>c. ?objs a = Some c \<and> csize c = 0" if "a \<in> set (rev bad @ garbage st)" for a
  proof (cases "a \<in> set bad")
    case True
    then have "a \<in> dom (objects st)" using table_okD(4) [OF t] d(2) by auto
    then show ?thesis using True by (auto simp: mark_garbage_def)
  next
    case False
    then show ?thesis using that table_okD(8) [OF t] by (auto simp: mark_garbage_def)
  qed
  ultimately show "table_ok ((move_garbage bad st)\<lparr>clauses := ?t\<rparr>)"
    using table_okD(1,2,4,5,6) [OF t] d len dom by (simp add: table_ok_def move_garbage_def)
  have "key (move_garbage bad st) = key st" using key_mark [of bad st] by (simp add: move_garbage_def key_def fun_eq_iff)
  then show "keys st = keys ((move_garbage bad st)\<lparr>clauses := ?t\<rparr>) + image_mset (key st) (mset bad)"
    using m by (simp add: keys_def)
qed


text \<open>
  The effect of deletions on the keys: only clauses with a true literal, and those named, go.
\<close>

definition drops_satisfied :: "rup_checker \<Rightarrow> rup_checker \<Rightarrow> bool" where
  "drops_satisfied st st' \<longleftrightarrow> (\<forall>K. (\<forall>l \<in> snd K. lit_value st l \<noteq> 1) \<longrightarrow> count (keys st') K = count (keys st) K)"

lemma drops_satisfied_trans:
  "drops_satisfied s t \<Longrightarrow> drops_satisfied t u \<Longrightarrow> lit_value t = lit_value s \<Longrightarrow> drops_satisfied s u"
  by (simp add: drops_satisfied_def)

lemma move_same:
  "calm st ((move_garbage bad st)\<lparr>clauses := t\<rparr>)" "fresh ((move_garbage bad st)\<lparr>clauses := t\<rparr>) = fresh st"
  "watches_of ((move_garbage bad st)\<lparr>clauses := t\<rparr>) = watches_of st"
  by (simp_all add: calm_def move_garbage_def watches_of_def fun_eq_iff)

lemma checker_inv_move:
  assumes "checker_inv F st" "i < length (clauses st)" "mset (clauses st ! i) = mset keep + mset bad"
  shows "checker_inv F ((move_garbage bad st)\<lparr>clauses := (clauses st)[i := keep]\<rparr>)"
proof -
  have t: "table_ok st" and p: "prop_inv F F (watches_of st) st" using assms(1) by (auto simp: checker_inv_def)
  have "prop_inv F F (watches_of st) ((move_garbage bad st)\<lparr>clauses := (clauses st)[i := keep]\<rparr>)"
    using prop_inv_mark [OF p] by (simp add: move_garbage_def)
  then show ?thesis using move_from_chain(1) [OF t assms(2,3)] move_same(3) by (simp add: checker_inv_def)
qed

lemma sweep_slot_ok:
  assumes inv: "checker_inv F st" and i: "i < length (clauses st)"
  shows "returns (\<lambda>dbg. sweep_slot dbg i st)
    (\<lambda>s. calm st s \<and> checker_inv F s \<and> fresh s = fresh st \<and> drops_satisfied st s \<and> length (clauses s) = length (clauses st))"
proof -
  let ?chain = "clauses st ! i"
  let ?keep = "filter (\<lambda>a. \<not> satisfied st a) ?chain" and ?bad = "filter (satisfied st) ?chain"
  let ?s = "(move_garbage ?bad st)\<lparr>clauses := (clauses st)[i := ?keep]\<rparr>"
  have t: "table_ok st" and p: "prop_inv F F (watches_of st) st" using inv by (auto simp: checker_inv_def)
  have sub: "set ?chain \<subseteq> set (concat (clauses st))" using nth_mem [OF i] by auto
  have "distinct (concat (clauses st))" using table_okD(3) [OF t] by simp
  then have dist: "distinct ?chain" using i by (metis distinct_concat_iff nth_mem)
  have "length ?chain = card (set ?chain)" using dist by (simp add: distinct_card)
  also have "\<dots> \<le> card (set (concat (clauses st)))" using sub by (intro card_mono) auto
  also have "\<dots> \<le> num_clauses st" using table_okD(5) [OF t] card_length by metis
  finally have len: "length ?chain \<le> num_clauses st" .
  have objs: "\<forall>a \<in> set ?chain. \<exists>c. objects st a = Some c \<and> clause_ok (size_vars st) c \<and> csize c \<noteq> 0"
    using placed_nth [OF table_okD(7) [OF t] i] prop_inv_object(1) [OF p] by blast
  have m: "mset ?chain = mset ?keep + mset ?bad"
    using multiset_partition [of "mset ?chain" "satisfied st"] by (simp add: ac_simps)
  have "clauses (move_garbage ?bad st) = clauses st" by (simp add: move_garbage_def)
  then have "sweep_slot dbg i st = Inr ?s" for dbg
    using sweep_chain_ok [OF prop_invD(1) [OF p] objs dist len] i by (simp add: sweep_slot_def)
  moreover have "drops_satisfied st ?s"
    unfolding drops_satisfied_def
  proof (intro allI impI)
    fix K :: "u64 \<times> int set" assume K: "\<forall>l \<in> snd K. lit_value st l \<noteq> 1"
    have "K \<notin># image_mset (key st) (mset ?bad)"
    proof
      assume "K \<in># image_mset (key st) (mset ?bad)"
      then obtain a where a: "satisfied st a" "K = key st a" by auto
      then show False using K by (auto simp: satisfied_def key_def)
    qed
    then have "count (image_mset (key st) (mset ?bad)) K = 0" by (simp add: count_eq_zero_iff)
    then show "count (keys ?s) K = count (keys st) K" using move_from_chain(2) [OF t i m] by simp
  qed
  moreover have "length (clauses ?s) = length (clauses st)" by simp
  ultimately show ?thesis using checker_inv_move [OF inv i m] move_same [where st = st and bad = ?bad and t = "(clauses st)[i := ?keep]"]
    by (intro returns_witness) blast+
qed

lemma sweep_ok:
  assumes "checker_inv F st"
  shows "returns (\<lambda>dbg. fold_res (sweep_slot dbg) [0..<length (clauses st)] st)
    (\<lambda>s. calm st s \<and> checker_inv F s \<and> fresh s = fresh st \<and> drops_satisfied st s)"
proof -
  define I where "I s \<longleftrightarrow> calm st s \<and> checker_inv F s \<and> fresh s = fresh st \<and> drops_satisfied st s \<and> length (clauses s) = length (clauses st)" for s
  have "returns (\<lambda>dbg. fold_res (sweep_slot dbg) [0..<length (clauses st)] st) I"
  proof (rule returns_fold [where I = "\<lambda>_. I"])
    show "I st" using assms by (simp add: I_def drops_satisfied_def)
    fix pre i post s assume "[0..<length (clauses st)] = pre @ i # post" and s: "I s"
    then have "i \<in> set [0..<length (clauses st)]" by simp
    then have "i < length (clauses s)" using s by (simp add: I_def)
    then have "returns (\<lambda>dbg. sweep_slot dbg i s)
      (\<lambda>s'. calm s s' \<and> checker_inv F s' \<and> fresh s' = fresh s \<and> drops_satisfied s s' \<and> length (clauses s') = length (clauses s))"
      using s by (intro sweep_slot_ok) (simp add: I_def)
    then show "returns (\<lambda>dbg. sweep_slot dbg i s) I"
      by (rule returns_mono)
        (use s calm_lit_value [of st s] in \<open>auto simp: I_def intro: calm_trans drops_satisfied_trans\<close>)
  qed
  then show ?thesis by (rule returns_mono) (simp add: I_def)
qed


text \<open>Watches of garbage clauses are flushed.\<close>

abbreviation live :: "rup_checker \<Rightarrow> cwatch \<Rightarrow> bool" where
  "live st w \<equiv> (\<exists>c. objects st (wclause w) = Some c \<and> csize c \<noteq> 0)"

lemma live_watches_ok:
  "\<forall>w \<in> set ws. objects st (wclause w) \<noteq> None \<Longrightarrow> live_watches st ws = Inr (filter (live st) ws)"
  by (induction ws) (auto simp: deref_def)

definition flushed :: "rup_checker \<Rightarrow> int set \<Rightarrow> rup_checker \<Rightarrow> bool" where
  "flushed st L s \<longleftrightarrow>
     (\<exists>ws. s = st\<lparr>watchers := ws\<rparr> \<and> length ws = length (watchers st) \<and>
        drop (2 * size_vars st - 2) ws = drop (2 * size_vars st - 2) (watchers st)) \<and>
     (\<forall>l. lit_ok (size_vars st) l \<longrightarrow> watches_of s l = (if l \<in> L then filter (live st) (watches_of st l) else watches_of st l))"

lemma flush_watcher_ok:
  assumes v: "vars_ok st" and w: "watches_ok (size_vars st) (objects st) (watches_of st)" and s: "flushed st L s" and l: "l = 0 \<or> lit_ok (size_vars st) l"
  shows "returns (\<lambda>dbg. flush_watcher dbg l s) (flushed st (L \<union> {l}))"
proof (cases "l = 0")
  case True
  then have "flushed st (L \<union> {l}) s" using s by (auto simp: flushed_def lit_ok_def)
  then show ?thesis using True by (simp add: flush_watcher_def)
next
  case False
  then have l': "lit_ok (size_vars st) l" using l by simp
  obtain ws where ws: "s = st\<lparr>watchers := ws\<rparr>" "length ws = length (watchers st)"
    "drop (2 * size_vars st - 2) ws = drop (2 * size_vars st - 2) (watchers st)"
    using s by (auto simp: flushed_def)
  have vs: "vars_ok s" "size_vars s = size_vars st" "objects s = objects st" using v ws by (simp_all add: watchers_same)
  have of: "watches_of s l = (if l \<in> L then filter (live st) (watches_of st l) else watches_of st l)" using s l' by (simp add: flushed_def)
  then have "set (watches_of s l) \<subseteq> set (watches_of st l)" by auto
  then have "\<forall>w \<in> set (watches_of s l). objects s (wclause w) \<noteq> None"
    using w l' vs(3) unfolding watches_ok_def watch_ok_def by (metis option.distinct(1) subsetD)
  then have live: "live_watches s (watches_of s l) = Inr (filter (live st) (watches_of st l))"
    using live_watches_ok of vs(3) by auto
  let ?s = "s\<lparr>watchers := (watchers s)[lit_slot l := filter (live st) (watches_of st l)]\<rparr>"
  have "flush_watcher dbg l s = Inr ?s" for dbg
    using False watcher_index_ok [OF vs(1)] l' vs(2) live by (simp add: flush_watcher_def watches_of_def)
  moreover have "flushed st (L \<union> {l}) ?s"
    unfolding flushed_def
  proof (intro conjI allI impI)
    show "\<exists>ws. ?s = st\<lparr>watchers := ws\<rparr> \<and> length ws = length (watchers st) \<and>
        drop (2 * size_vars st - 2) ws = drop (2 * size_vars st - 2) (watchers st)"
      using ws by (intro exI [of _ "ws[lit_slot l := filter (live st) (watches_of st l)]"]) (simp add: drop_slot [OF l'])
    fix k assume k: "lit_ok (size_vars st) k"
    then have "watches_of ?s k = (if k = l then filter (live st) (watches_of st l) else watches_of s k)"
      using watches_of_push [OF vs(1), of l k] l' vs(2) by simp
    then show "watches_of ?s k = (if k \<in> L \<union> {l} then filter (live st) (watches_of st k) else watches_of st k)"
      using s k by (auto simp: flushed_def)
  qed
  ultimately show ?thesis by (rule returns_witness)
qed

lemma flush_ok:
  assumes "vars_ok st" "watches_ok (size_vars st) (objects st) (watches_of st)"
  shows "returns (\<lambda>dbg. fold_res (flush_watcher dbg) [1 - int (size_vars st)..int (size_vars st) - 1] st)
    (flushed st {1 - int (size_vars st)..int (size_vars st) - 1})"
proof -
  have "returns (\<lambda>dbg. fold_res (flush_watcher dbg) [1 - int (size_vars st)..int (size_vars st) - 1] st)
    (\<lambda>s. flushed st (set [1 - int (size_vars st)..int (size_vars st) - 1]) s)"
  proof (rule returns_fold)
    show "flushed st (set []) st" by (auto simp: flushed_def intro!: exI [of _ "watchers st"])
    fix pre l post s assume p: "[1 - int (size_vars st)..int (size_vars st) - 1] = pre @ l # post" "flushed st (set pre) s"
    have "l \<in> set [1 - int (size_vars st)..int (size_vars st) - 1]" using p(1) by simp
    then have "l = 0 \<or> lit_ok (size_vars st) l" by (auto simp: lit_ok_def)
    then show "returns (\<lambda>dbg. flush_watcher dbg l s) (\<lambda>s. flushed st (set (pre @ [l])) s)"
      using flush_watcher_ok [OF assms p(2)] by simp
  qed
  then show ?thesis by simp
qed

text \<open>The garbage clauses are freed.\<close>

lemma delete_garbage_ok:
  assumes "distinct bad" "\<forall>a \<in> set bad. \<exists>c. objects st a = Some c \<and> csize c = 0" "num_garbage st = length bad"
  shows "fold_res (delete_object dbg) bad st = Inr (st\<lparr>objects := objects st |` (- set bad), num_garbage := 0\<rparr>)"
  using assms
proof (induction bad arbitrary: st)
  case Nil
  then show ?case by (cases st) simp
next
  case (Cons a bad)
  let ?st = "st\<lparr>num_garbage := num_garbage st - 1, objects := (objects st)(a := None)\<rparr>"
  obtain c where "objects st a = Some c" "csize c = 0" using Cons.prems(2) by auto
  then have "delete_object dbg a st = Inr ?st" using Cons.prems(3) by (simp add: delete_object_def deref_def cassert_def)
  moreover have "fold_res (delete_object dbg) bad ?st = Inr (?st\<lparr>objects := objects ?st |` (- set bad), num_garbage := 0\<rparr>)"
    using Cons.prems by (intro Cons.IH) auto
  moreover have "(objects st)(a := None) |` (- set bad) = objects st |` (- set (a # bad))"
    by (auto simp: restrict_map_def fun_eq_iff)
  ultimately show ?case by simp
qed

lemma collect_garbage_ok:
  assumes inv: "checker_inv F st"
  shows "returns (\<lambda>dbg. collect_garbage_clauses dbg st)
    (\<lambda>s. calm st s \<and> checker_inv F s \<and> fresh s = fresh st \<and> drops_satisfied st s)"
  unfolding collect_garbage_clauses_def
proof (rule returns_bind [OF sweep_ok [OF inv]])
  fix s assume s: "calm st s \<and> checker_inv F s \<and> fresh s = fresh st \<and> drops_satisfied st s"
  then have t: "table_ok s" and p: "prop_inv F F (watches_of s) s" by (auto simp: checker_inv_def)
  have n: "\<not> int (size_vars s) > INT_MAX" using vars_ok_bound [OF prop_invD(1) [OF p]] by (simp add: INT_MAX_def)
  let ?objs = "objects s |` (- set (garbage s))"
  have "returns (\<lambda>dbg. bind_res (fold_res (flush_watcher dbg) [1 - int (size_vars s)..int (size_vars s) - 1] s) (\<lambda>st.
      bind_res (fold_res (delete_object dbg) (garbage st) st) (\<lambda>st.
      bind_res (cassert dbg (num_garbage st = 0)) (\<lambda>_. Inr (st\<lparr>garbage := []\<rparr>)))))
    (\<lambda>s. calm st s \<and> checker_inv F s \<and> fresh s = fresh st \<and> drops_satisfied st s)"
  proof (rule returns_bind [OF flush_ok [OF prop_invD(1,4) [OF p]]])
    fix s1 assume s1: "flushed s {1 - int (size_vars s)..int (size_vars s) - 1} s1"
    then obtain ws where ws: "s1 = s\<lparr>watchers := ws\<rparr>" "length ws = length (watchers s)"
      "drop (2 * size_vars s - 2) ws = drop (2 * size_vars s - 2) (watchers s)"
      by (auto simp: flushed_def)
    have of: "watches_of s1 l = filter (live s) (watches_of s l)" if "lit_ok (size_vars s) l" for l
      using s1 that by (auto simp: flushed_def lit_ok_def)
    let ?s = "s1\<lparr>objects := ?objs, num_garbage := 0, garbage := []\<rparr>"
    have "fold_res (delete_object dbg) (garbage s1) s1 = Inr (s1\<lparr>objects := ?objs, num_garbage := 0\<rparr>)" for dbg
      using delete_garbage_ok [of "garbage s1" s1] table_okD(3,6,8) [OF t] ws(1) by simp
    then have run: "bind_res (fold_res (delete_object dbg) (garbage s1) s1) (\<lambda>st.
        bind_res (cassert dbg (num_garbage st = 0)) (\<lambda>_. Inr (st\<lparr>garbage := []\<rparr>))) = Inr ?s" for dbg
      by (simp add: cassert_def)
    have "watches_ok (size_vars s) ?objs (watches_of s1)"
      unfolding watches_ok_def
    proof (intro allI impI conjI ballI)
      fix l assume l: "lit_ok (size_vars s) l"
      have "distinct (map wclause (watches_of s l))" using prop_invD(4) [OF p] l by (simp add: watches_ok_def)
      then show "distinct (map wclause (watches_of s1 l))" by (simp add: of [OF l] distinct_map_filter)
      fix w assume "w \<in> set (watches_of s1 l)"
      then have w: "w \<in> set (watches_of s l)" "live s w" by (simp_all add: of [OF l])
      have "watch_ok (size_vars s) (objects s) l w" using prop_invD(4) [OF p] l w(1) by (simp add: watches_ok_def)
      moreover have "wclause w \<notin> set (garbage s)" using w(2) table_okD(8) [OF t] by fastforce
      ultimately show "watch_ok (size_vars s) ?objs l w" by (simp add: watch_ok_def)
    qed
    moreover have "watches_of ?s = watches_of s1" by (simp add: watches_of_def fun_eq_iff)
    moreover have "vars_ok s1" using prop_invD(1) [OF p] ws by (simp add: watchers_same)
    ultimately have w': "watches_ok (size_vars s) ?objs (watches_of ?s)" and v': "vars_ok ?s"
      by (simp_all add: vars_ok_def lit_value_def)
    have lv: "lit_value ?s = lit_value s" by (simp add: lit_value_def fun_eq_iff ws(1))
    have p': "prop_inv F F (watches_of ?s) ?s"
      unfolding prop_inv_def
    proof (intro conjI)
      show "vars_ok ?s" by (rule v')
      show "watches_ok (size_vars ?s) (objects ?s) (watches_of ?s)" using w' by (simp add: ws(1))
      show "trail_ok ?s" using prop_invD(2) [OF p] lv by (simp add: trail_ok_def ws(1))
      show "store_ok ?s" using prop_invD(3) [OF p] by (simp add: store_ok_def restrict_map_def ws(1))
      show "sound F F ?s" using prop_invD(5) [OF p] by (simp add: sound_def restrict_map_def ws(1))
    qed simp
    have other: "?objs a = objects s a" if "a \<in> set (concat (clauses s))" for a
      using that table_okD(3) [OF t] unfolding distinct_append restrict_map_def by auto
    have "placed ?objs (clauses s)"
      using table_okD(7) [OF t] other unfolding placed_def by (metis (no_types, lifting) UN_I nth_mem set_concat)
    then have t': "table_ok ?s" using t ws(1) by (auto simp: table_ok_def)
    have same: "clauses ?s = clauses s" using ws(1) by simp
    have "key ?s a = key s a" if "a \<in># mset (concat (clauses s))" for a
      using other [of a] that ws(1) unfolding key_def by simp
    then have "keys ?s = keys s" unfolding keys_def same by (rule image_mset_cong)
    then have "drops_satisfied st ?s" using s by (simp add: drops_satisfied_def)
    moreover have "calm st ?s" using s ws(1) by (simp add: calm_def)
    moreover have fr: "fresh ?s = fresh st" using s ws(1) by simp
    ultimately show "returns (\<lambda>dbg. bind_res (fold_res (delete_object dbg) (garbage s1) s1) (\<lambda>st.
        bind_res (cassert dbg (num_garbage st = 0)) (\<lambda>_. Inr (st\<lparr>garbage := []\<rparr>))))
      (\<lambda>s. calm st s \<and> checker_inv F s \<and> fresh s = fresh st \<and> drops_satisfied st s)"
      using p' t' s ws(1) fr by (intro returns_witness [OF run]) (unfold checker_inv_def, blast)
  qed
  then show "returns (\<lambda>dbg. if int (size_vars s) > INT_MAX then Inl SignedOverflow
       else bind_res (fold_res (flush_watcher dbg) [1 - int (size_vars s)..int (size_vars s) - 1] s) (\<lambda>st.
            bind_res (fold_res (delete_object dbg) (garbage st) st) (\<lambda>st.
            bind_res (cassert dbg (num_garbage st = 0)) (\<lambda>_. Inr (st\<lparr>garbage := []\<rparr>)))))
    (\<lambda>s. calm st s \<and> checker_inv F s \<and> fresh s = fresh st \<and> drops_satisfied st s)"
    using n by simp
qed


end
