(* ===== verification/RupEvents.thy ===== *)
theory RupEvents
  imports RupTable
begin

text \<open>
  The online proof checker, third part: the proof events.  Imported clauses are cleaned of duplicates, kept as units or
  put into the table, checked and deleted; every event keeps the invariant, and its effect on the stored clauses is
  stated on their keys.
\<close>

section \<open>More variables\<close>

lemma dvd_double:
  assumes "n dvd (2::nat) ^ k" "n < 2 ^ k"
  shows "2 * n dvd 2 ^ k"
proof -
  obtain m where m: "2 ^ k = n * m" using assms(1) by (auto simp: dvd_def)
  then have "m \<noteq> 1" "m dvd 2 ^ k" using assms(2) by auto
  have "even m"
  proof (rule ccontr)
    assume "odd m"
    then have "coprime m (2 ^ k)" by simp
    then have "m dvd 1" using \<open>m dvd 2 ^ k\<close> by (meson coprime_common_divisor dvd_refl)
    then show False using \<open>m \<noteq> 1\<close> by simp
  qed
  then show ?thesis using m by (auto simp: dvd_def)
qed

lemma grow_dvd: "n dvd 2 ^ 30 \<Longrightarrow> idx < 2 ^ 30 \<Longrightarrow> grow idx n dvd 2 ^ 30"
proof (induction idx n rule: grow.induct)
  case (1 idx n)
  show ?case
  proof (cases "n \<le> idx \<and> 0 < n")
    case True
    then have "2 * n dvd 2 ^ 30" using dvd_double [OF "1.prems"(1)] "1.prems"(2) by simp
    then have "grow idx (2 * n) dvd 2 ^ 30" using "1.IH" True "1.prems"(2) by simp
    then show ?thesis using True grow.simps [of idx n] by simp
  next
    case False
    then have "grow idx n = n" using grow.simps [of idx n] by auto
    then show ?thesis using "1.prems"(1) by simp
  qed
qed

text \<open>The state after an import: larger tables, and literals appended to the clause.\<close>

definition imported :: "rup_checker \<Rightarrow> rup_checker \<Rightarrow> bool" where
  "imported st s \<longleftrightarrow>
     (\<exists>n vs ws ms c d. s = st\<lparr>size_vars := n, vals := vs, watchers := ws, marks := ms, simplified := c, unsimplified := d\<rparr> \<and>
        size_vars st \<le> n) \<and>
     (\<forall>l. lit_ok (size_vars st) l \<longrightarrow> lit_value s l = lit_value st l)"

lemma importedI:
  assumes "s = st\<lparr>size_vars := n, vals := vs, watchers := ws, marks := ms, simplified := c, unsimplified := d\<rparr>" "size_vars st \<le> n"
    "\<And>l. lit_ok (size_vars st) l \<Longrightarrow> lit_value s l = lit_value st l"
  shows "imported st s"
  using assms unfolding imported_def by blast

lemma importedD:
  assumes "imported st s"
  shows "size_vars st \<le> size_vars s" "lit_ok (size_vars st) l \<Longrightarrow> lit_value s l = lit_value st l"
    "trail s = trail st" "next_to_propagate s = next_to_propagate st" "objects s = objects st" "clauses s = clauses st"
    "garbage s = garbage st" "nonces s = nonces st" "fresh s = fresh st" "inconsistent s = inconsistent st"
    "num_clauses s = num_clauses st" "num_garbage s = num_garbage st" "keys s = keys st"
proof -
  obtain n vs ws ms c d where s: "s = st\<lparr>size_vars := n, vals := vs, watchers := ws, marks := ms, simplified := c, unsimplified := d\<rparr>"
    "size_vars st \<le> n"
    using assms unfolding imported_def by blast
  then have "key s = key st" by (simp add: key_def fun_eq_iff)
  then show "keys s = keys st" using s by (simp add: keys_def)
qed (use assms in \<open>auto simp: imported_def\<close>)

lemma lit_ok_mono: "lit_ok n l \<Longrightarrow> n \<le> m \<Longrightarrow> lit_ok m l"
  by (auto simp: lit_ok_def)

lemma imported_clause: "imported st (st\<lparr>simplified := c, unsimplified := d\<rparr>)"
proof -
  have "st\<lparr>simplified := c, unsimplified := d\<rparr> = st\<lparr>size_vars := size_vars st, vals := vals st, watchers := watchers st, marks := marks st,
      simplified := c, unsimplified := d\<rparr>" by simp
  moreover have "lit_value (st\<lparr>simplified := c, unsimplified := d\<rparr>) = lit_value st" by (simp add: lit_value_def fun_eq_iff)
  ultimately show ?thesis unfolding imported_def by (metis order_refl)
qed

lemma imported_refl: "imported st st"
  using imported_clause [where st = st and c = "simplified st" and d = "unsimplified st"] by simp

lemma imported_trans:
  assumes "imported s t" "imported t u"
  shows "imported s u"
proof -
  have "lit_value u l = lit_value s l" if "lit_ok (size_vars s) l" for l
    using importedD(2) [OF assms(2)] importedD(1,2) [OF assms(1)] lit_ok_mono that by metis
  moreover obtain n vs ws ms c d where t: "t = s\<lparr>size_vars := n, vals := vs, watchers := ws, marks := ms, simplified := c, unsimplified := d\<rparr>" "size_vars s \<le> n"
    using assms(1) unfolding imported_def by blast
  moreover obtain n' vs' ws' ms' c' d' where u: "u = t\<lparr>size_vars := n', vals := vs', watchers := ws', marks := ms', simplified := c', unsimplified := d'\<rparr>" "size_vars t \<le> n'"
    using assms(2) unfolding imported_def by blast
  moreover have "u = s\<lparr>size_vars := n', vals := vs', watchers := ws', marks := ms', simplified := c', unsimplified := d'\<rparr>" "size_vars s \<le> n'"
    using t u by simp_all
  ultimately show ?thesis unfolding imported_def by blast
qed

lemma nth_padded:
  fixes l :: int
  assumes "length xs = 2 * n" "n \<le> m" "\<bar>l\<bar> < int m"
  shows "(replicate (m - n) d @ xs @ replicate (m - n) d) ! nat (l + int m) =
    (if - int n \<le> l \<and> l < int n then xs ! nat (l + int n) else d)"
proof (cases "- int n \<le> l \<and> l < int n")
  case True
  then have "nat (l + int m) = (m - n) + nat (l + int n)" "nat (l + int n) < 2 * n" using assms(2) by linarith+
  then show ?thesis using True assms(1) by (simp add: nth_append)
next
  case False
  let ?k = "nat (l + int m)"
  have "?k < m - n \<or> (m - n + 2 * n \<le> ?k \<and> ?k < (m - n) + 2 * n + (m - n))"
    using assms(2,3) False by linarith
  then have "(replicate (m - n) d @ xs @ replicate (m - n) d) ! ?k = d"
  proof
    assume "m - n + 2 * n \<le> ?k \<and> ?k < (m - n) + 2 * n + (m - n)"
    then have "\<not> ?k < m - n" "\<not> ?k - (m - n) < length xs" "?k - (m - n) - length xs < m - n" using assms(1) by linarith+
    then show ?thesis unfolding nth_append length_replicate by (simp only: if_False nth_replicate)
  qed (simp add: nth_append)
  then show ?thesis unfolding if_not_P [OF False] .
qed

lemma nth_in_drop: "k \<le> i \<Longrightarrow> i < length xs \<Longrightarrow> xs ! i \<in> set (drop k xs)"
  using nth_mem [of "i - k" "drop k xs"] by simp

lemma nth_resize_longer: "length xs \<le> n \<Longrightarrow> i < n \<Longrightarrow> resize n d xs ! i = (if i < length xs then xs ! i else d)"
  by (simp add: resize_def nth_append)

lemma enlarge_vars_ok:
  assumes inv: "checker_inv F st" and idx: "int (size_vars st) \<le> idx" "0 < idx" "idx < 2 ^ 30"
  shows "returns (\<lambda>dbg. enlarge_vars dbg idx st)
    (\<lambda>s. imported st s \<and> checker_inv F s \<and> idx < int (size_vars s) \<and> simplified s = simplified st)"
proof -
  let ?n = "size_vars st"
  define m where "m = grow (nat idx) (if ?n \<noteq> 0 then 2 * ?n else 2)"
  let ?pad = "replicate (m - ?n) (0 :: int)"
  let ?s = "st\<lparr>vals := ?pad @ vals st @ ?pad, watchers := resize (2 * m) [] (watchers st), marks := resize (2 * m) False (marks st), size_vars := m\<rparr>"
  have t: "table_ok st" and p: "prop_inv F F (watches_of st) st" using inv by (auto simp: checker_inv_def)
  have v: "vars_ok st" using prop_invD(1) [OF p] .
  have m: "?n \<le> m" "idx < int m"
    using grow_above [of "if ?n \<noteq> 0 then 2 * ?n else 2" "nat idx"] grow_at_least [of "if ?n \<noteq> 0 then 2 * ?n else 2" "nat idx"] idx(2)
    by (auto simp: m_def split: if_splits)
  have "(if ?n \<noteq> 0 then 2 * ?n else 2) dvd 2 ^ 30"
    using v idx(1,3) dvd_double [of ?n 30] by (auto simp: vars_ok_def)
  then have dvd: "m dvd 2 ^ 30" using idx by (simp only: m_def) (rule grow_dvd, simp_all)
  have ok: "lit_ok m l" if "lit_ok ?n l" for l using that m(1) by (rule lit_ok_mono)
  have first: "vals st ! 0 = 0" if "?n \<noteq> 0"
    using v that by (cases "vals st") (auto simp: vars_ok_def)
  have new: "lit_value ?s l = (if lit_ok ?n l then lit_value st l else 0)" if "lit_ok m l" for l
    using nth_padded [OF vars_okD(1) [OF v] m(1), of l 0] that first by (auto simp: lit_value_def lit_ok_def)
  have watches: "watches_of ?s l = (if lit_ok ?n l then watches_of st l else [])" if l: "lit_ok m l" for l
  proof (cases "lit_slot l < 2 * ?n")
    case True
    then have w: "watches_of ?s l = watchers st ! lit_slot l"
      using lit_slot_less [OF l] m(1) vars_okD(2) [OF v] by (simp add: watches_of_def nth_resize_longer)
    have "watchers st ! lit_slot l = []" if "\<not> lit_ok ?n l"
    proof -
      have "2 * ?n - 2 \<le> lit_slot l" using that l int_lit_slot [of l] by (auto simp: lit_ok_def split: if_splits)
      then have "watchers st ! lit_slot l \<in> set (drop (2 * ?n - 2) (watchers st))"
        using True vars_okD(2) [OF v] by (intro nth_in_drop) simp_all
      then show ?thesis using v unfolding vars_ok_def by blast
    qed
    then show ?thesis using w by (simp add: watches_of_def)
  next
    case False
    then have "\<not> lit_ok ?n l" using lit_slot_less [of ?n l] by auto
    then show ?thesis using False lit_slot_less [OF l] m(1) vars_okD(2) [OF v] by (simp add: watches_of_def nth_resize_longer)
  qed
  have "vars_ok ?s"
    unfolding vars_ok_def
  proof (intro conjI allI impI)
    show "set (take 1 (vals ?s)) \<subseteq> {0}" using v m(1) by (cases "m - ?n") (auto simp: vars_ok_def)
    show "marks ?s = replicate (2 * size_vars ?s) False"
      using vars_okD(3) [OF v] m(1) by (simp add: resize_def replicate_add [symmetric])
    show "set (drop (2 * size_vars ?s - 2) (watchers ?s)) \<subseteq> {[]}"
    proof (cases "?n = m")
      case True
      then show ?thesis using idx(1) m(2) by simp
    next
      case False
      then have "2 * ?n \<le> 2 * m - 2" using m(1) by linarith
      then have "drop (2 * m - 2) (resize (2 * m) [] (watchers st)) = replicate 2 []"
        using vars_okD(2) [OF v] m(2) idx(2) by (auto simp: resize_def)
      then show ?thesis by simp
    qed
    fix l assume l: "lit_ok (size_vars ?s) l"
    then show "lit_value ?s l \<in> {-1, 0, 1}" "lit_value ?s (- l) = - lit_value ?s l"
      using vars_okD(4,5) [OF v, of l] new [of l] new [of "- l"] by auto
  qed (use dvd vars_okD(1) [OF v] m(1) in auto)
  moreover have "trail_ok ?s" using prop_invD(2) [OF p] new ok by (auto simp: trail_ok_def)
  moreover have "store_ok ?s" using prop_invD(3) [OF p] ok by (auto simp: store_ok_def clause_ok_def)
  moreover have "sound F F ?s" using prop_invD(5) [OF p] by (simp add: sound_def)
  moreover have "watch_ok m (objects st) l w" if "watch_ok ?n (objects st) l w" for l w
    using that ok by (auto simp: watch_ok_def)
  then have "watches_ok m (objects st) (watches_of ?s)"
    using prop_invD(4) [OF p] watches by (auto simp: watches_ok_def)
  ultimately have "checker_inv F ?s" using t by (simp add: checker_inv_def prop_inv_def table_ok_def)
  moreover have "?s = st\<lparr>size_vars := m, vals := ?pad @ vals st @ ?pad, watchers := resize (2 * m) [] (watchers st),
      marks := resize (2 * m) False (marks st), simplified := simplified st, unsimplified := unsimplified st\<rparr>" by simp
  then have "imported st ?s" using m(1) by (rule importedI) (use new ok in simp)
  moreover have "enlarge_vars dbg idx st = Inr ?s" for dbg
    using idx by (simp add: enlarge_vars_def cassert_def INT_MAX_def m_def Let_def)
  ultimately show ?thesis using m(2) by (intro returns_witness) auto
qed

text \<open>The literals of proofs: not 0, and small enough for the tables of \<^verbatim>\<open>int\<close>-indexed bits.\<close>

definition small_lit :: "int \<Rightarrow> bool" where
  "small_lit l \<longleftrightarrow> l \<noteq> 0 \<and> \<bar>l\<bar> < 2 ^ 30"

lemma import_clause_ok:
  assumes inv: "checker_inv F st" and c: "\<forall>l \<in> set c. small_lit l"
  shows "returns (\<lambda>dbg. import_clause dbg c st)
    (\<lambda>s. imported st s \<and> checker_inv F s \<and> simplified s = simplified st @ c \<and> (\<forall>l \<in> set c. lit_ok (size_vars s) l))"
  unfolding import_clause_def
proof (rule returns_fold [where I = "\<lambda>pre s. imported st s \<and> checker_inv F s \<and> simplified s = simplified st @ pre \<and>
    (\<forall>l \<in> set pre. lit_ok (size_vars s) l)"])
  show "imported st st \<and> checker_inv F st \<and> simplified st = simplified st @ [] \<and> (\<forall>l \<in> set []. lit_ok (size_vars st) l)"
    using inv imported_refl by simp
  fix pre l post s
  assume l: "c = pre @ l # post"
    and s: "imported st s \<and> checker_inv F s \<and> simplified s = simplified st @ pre \<and> (\<forall>l \<in> set pre. lit_ok (size_vars s) l)"
  let ?P = "\<lambda>s'. imported s s' \<and> checker_inv F s' \<and> \<bar>l\<bar> < int (size_vars s') \<and> simplified s' = simplified s"
  let ?Q = "\<lambda>s'. imported st s' \<and> checker_inv F s' \<and> simplified s' = simplified st @ pre @ [l] \<and> (\<forall>l \<in> set (pre @ [l]). lit_ok (size_vars s') l)"
  have small: "l \<noteq> 0" "\<bar>l\<bar> < 2 ^ 30" using c l by (auto simp: small_lit_def)
  have "returns (\<lambda>dbg. if \<bar>l\<bar> \<ge> int (size_vars s) then enlarge_vars dbg \<bar>l\<bar> s else Inr s) ?P"
    using s small imported_refl enlarge_vars_ok [of F s "\<bar>l\<bar>"] by (cases "\<bar>l\<bar> \<ge> int (size_vars s)") auto
  then have "returns (\<lambda>dbg. bind_res (if \<bar>l\<bar> \<ge> int (size_vars s) then enlarge_vars dbg \<bar>l\<bar> s else Inr s)
      (\<lambda>s'. Inr (s'\<lparr>simplified := simplified s' @ [l], unsimplified := unsimplified s' @ [l]\<rparr>))) ?Q"
  proof (rule returns_bind)
    fix s' assume s': "?P s'"
    let ?s = "s'\<lparr>simplified := simplified s' @ [l], unsimplified := unsimplified s' @ [l]\<rparr>"
    have "imported st ?s" using s s' imported_clause imported_trans by blast
    moreover have "checker_inv F ?s" using s' by (simp add: checker_inv_def table_ok_def)
    moreover have "\<forall>k \<in> set (pre @ [l]). lit_ok (size_vars ?s) k"
      using s s' small(1) importedD(1) [of s s'] by (auto simp: lit_ok_def)
    ultimately show "returns (\<lambda>dbg. Inr ?s) ?Q" using s s' by simp
  qed
  moreover have "l \<noteq> INT_MIN" using small by (auto simp: INT_MIN_def)
  ultimately show "returns (\<lambda>dbg. import_literal dbg l s) ?Q"
    using small by (simp add: import_literal_def cassert_def)
qed


section \<open>Clauses without duplicates\<close>

lemma lit_key_inj: "lit_key a = lit_key b \<longleftrightarrow> a = b"
  by (auto simp: lit_key_def split: if_splits) presburger+

text \<open>A literal above the last one kept, which is not its negation, is no negation of any kept one.\<close>

lemma no_negation_below:
  assumes "a = p \<or> lit_key a < lit_key p" "lit_key p < lit_key l" "l \<noteq> - p" "l \<noteq> 0" "a \<noteq> 0" "p \<noteq> 0"
  shows "a \<noteq> - l" "a \<noteq> l"
  using assms by (auto simp: lit_key_def split: if_splits)

definition ordered :: "int list \<Rightarrow> bool" where
  "ordered c \<longleftrightarrow> sorted_wrt (\<lambda>a b. lit_key a < lit_key b) c"

text \<open>The result of dropping the duplicates among literals \<open>ls\<close>.\<close>

definition dropped :: "rup_checker \<Rightarrow> int set \<Rightarrow> bool \<times> int list \<Rightarrow> bool" where
  "dropped st ls r \<longleftrightarrow>
     (if fst r then \<exists>l \<in> ls. lit_value st l = 1 \<or> - l \<in> ls else set (snd r) = ls \<and> simple_clause st (snd r))"

lemma drop_duplicates_ok:
  assumes v: "vars_ok st" "\<forall>l \<in> set lits. lit_ok (size_vars st) l" and sorted: "sorted (map lit_key lits)"
    and kept: "simple_clause st kept" "ordered kept" "if kept = [] then prev = 0 else prev = last kept"
    and above: "\<forall>l \<in> set lits. \<forall>k \<in> set kept. lit_key k \<le> lit_key l"
  shows "returns (\<lambda>dbg. drop_duplicates dbg st lits prev kept) (dropped st (set (kept @ lits)))"
  using v(2) sorted kept above
proof (induction lits arbitrary: prev kept)
  case Nil
  then show ?case by (simp add: dropped_def)
next
  case (Cons l lits)
  have l: "lit_ok (size_vars st) l" "l \<noteq> 0" using Cons.prems(1) by (auto simp: lit_ok_def)
  have val: "val dbg l st = Inr (lit_value st l)" for dbg using val_returns [OF v(1) l(1)] .
  have range: "lit_value st l \<in> {-1, 0, 1}" using vars_okD(4) [OF v(1) l(1)] .
  show ?case
  proof (cases "l = prev")
    case True
    then have "kept \<noteq> []" "prev = last kept" using Cons.prems(5) l(2) by (auto split: if_splits)
    then have "l \<in> set kept" using True by simp
    then have "set (kept @ l # lits) = set (kept @ lits)" by auto
    moreover have "returns (\<lambda>dbg. drop_duplicates dbg st lits prev kept) (dropped st (set (kept @ lits)))"
      using Cons.prems by (intro Cons.IH) auto
    ultimately show ?thesis using True by (simp only: drop_duplicates.simps simp_thms if_True)
  next
    case False
    show ?thesis
    proof (cases "l = - prev \<or> lit_value st l = 1")
      case True
      have "- l \<in> set kept" if "l = - prev" using that Cons.prems(5) l(2) by (auto split: if_splits)
      then have "dropped st (set (kept @ l # lits)) (True, kept)" using True by (auto simp: dropped_def)
      moreover have "drop_duplicates dbg st (l # lits) prev kept = Inr (True, kept)" for dbg
        using True \<open>l \<noteq> prev\<close> val by auto
      ultimately show ?thesis by (intro returns_witness)
    next
      case free: False
      have below: "a \<noteq> - l \<and> a \<noteq> l" if a: "a \<in> set kept" for a
      proof -
        have ne: "kept \<noteq> []" "prev = last kept" using a Cons.prems(5) by (auto split: if_splits)
        then have p: "prev \<in> set kept" by simp
        have nz: "a \<noteq> 0" "prev \<noteq> 0" using a p Cons.prems(3) by (auto simp: simple_clause_def lit_ok_def)
        have "kept = butlast kept @ [prev]" using ne by simp
        then have "a = prev \<or> lit_key a < lit_key prev"
          using a Cons.prems(4) unfolding ordered_def by (metis Un_iff empty_iff list.set(1) list.set_intros(1) set_append set_ConsD sorted_wrt_append)
        moreover have "lit_key prev < lit_key l" using p Cons.prems(6) False lit_key_inj [of prev l] by (fastforce simp: order_le_less)
        ultimately show ?thesis using no_negation_below [of a prev l] free l(2) nz by blast
      qed
      have "l \<notin> set kept" "- l \<notin> set kept" "\<forall>a \<in> set kept. - a \<noteq> l" using below by (auto, force)
      then have "simple_clause st (kept @ [l])" using Cons.prems(3) free l by (auto simp: simple_clause_def)
      moreover have "\<forall>a \<in> set kept. lit_key a < lit_key l"
        using below Cons.prems(6) lit_key_inj by (fastforce simp: order_le_less)
      then have "ordered (kept @ [l])" using Cons.prems(4) by (simp add: ordered_def sorted_wrt_append)
      moreover have "\<forall>k \<in> set lits. \<forall>a \<in> set (kept @ [l]). lit_key a \<le> lit_key k" using Cons.prems(2,6) by auto
      ultimately have "returns (\<lambda>dbg. drop_duplicates dbg st lits l (kept @ [l])) (dropped st (set ((kept @ [l]) @ lits)))"
        using Cons.prems(1,2) by (intro Cons.IH) auto
      moreover have "\<not> lit_value st l > 0" using free range by auto
      ultimately show ?thesis using False free val by simp
    qed
  qed
qed

lemma tautological_ok:
  assumes "vars_ok st" "\<forall>l \<in> set (simplified st). lit_ok (size_vars st) l"
  shows "returns (\<lambda>dbg. tautological dbg st)
    (\<lambda>(taut, s). \<exists>c d. s = st\<lparr>simplified := c\<rparr> \<and> dropped st (set (simplified st)) (taut, d) \<and> (\<not> taut \<longrightarrow> c = d))"
  (is "returns _ ?Q")
proof -
  let ?lits = "sort_key lit_key (simplified st)"
  have "returns (\<lambda>dbg. drop_duplicates dbg st ?lits 0 []) (dropped st (set ([] @ ?lits)))"
    using assms by (intro drop_duplicates_ok) (simp_all add: simple_clause_def ordered_def)
  then show ?thesis
    unfolding tautological_def Let_def
  proof (rule returns_bind)
    fix r assume r: "dropped st (set ([] @ ?lits)) r"
    obtain taut kept where tk: "r = (taut, kept)" by (cases r)
    let ?c = "if taut then kept @ drop (length kept) ?lits else kept"
    have "dropped st (set (simplified st)) (taut, kept)" "\<not> taut \<longrightarrow> ?c = kept" using r tk by simp_all
    then have "?Q (taut, st\<lparr>simplified := ?c\<rparr>)" by blast
    then show "returns (\<lambda>dbg. case r of (taut, kept) \<Rightarrow>
        Inr (taut, st\<lparr>simplified := if taut then kept @ drop (length kept) ?lits else kept\<rparr>)) ?Q"
      unfolding tk by (simp only: case_prod_conv returns_Inr)
  qed
qed

section \<open>Adding a clause\<close>

lemma unit_literal_ok:
  assumes "vars_ok st" "\<forall>l \<in> set lits. lit_ok (size_vars st) l \<and> lit_value st l \<noteq> 1"
  shows "unit_literal dbg st lits u =
    Inr (case filter (\<lambda>l. lit_value st l = 0) lits of [] \<Rightarrow> u | [l] \<Rightarrow> if u = 0 then l else INT_MIN | _ \<Rightarrow> INT_MIN)"
  using assms(2)
proof (induction lits arbitrary: u)
  case (Cons l lits)
  have l: "l \<noteq> 0" "val dbg l st = Inr (lit_value st l)" "lit_value st l \<in> {-1, 0}"
    using Cons.prems val_returns [OF assms(1)] vars_okD(4) [OF assms(1), of l] by (auto simp: lit_ok_def)
  then show ?case using Cons
    by (cases "lit_value st l = 0") (auto simp: cassert_def split: list.splits)
qed simp


text \<open>What adding clauses, checks and deletions may change.\<close>

definition extends :: "rup_checker \<Rightarrow> rup_checker \<Rightarrow> bool" where
  "extends st s \<longleftrightarrow>
     size_vars s = size_vars st \<and> nonces s = nonces st \<and> last_id s = last_id st \<and> (\<exists>ext. trail s = trail st @ ext)"

lemma extends_refl [simp]: "extends st st"
  by (simp add: extends_def)

lemma extends_trans: "extends s t \<Longrightarrow> extends t u \<Longrightarrow> extends s u"
  by (auto simp: extends_def)

lemma evolves_extends: "evolves st s \<Longrightarrow> extends st s"
  by (auto simp: evolves_def extends_def)

lemma calm_extends: "calm st s \<Longrightarrow> extends st s"
  by (auto simp: calm_def extends_def)

lemma extends_true:
  assumes "extends st s" "trail_ok st" "trail_ok s" "lit_ok (size_vars st) l" "lit_value st l = 1"
  shows "lit_value s l = 1"
proof -
  have "l \<in> set (trail st)" using assms(2,4,5) by (simp add: trail_ok_def)
  then have "l \<in> set (trail s)" using assms(1) by (auto simp: extends_def)
  then show ?thesis using assms(3) unfolding trail_ok_def by blast
qed

text \<open>Between events the trail is propagated, or the clauses are known to be contradictory.\<close>

definition settled :: "int list set \<Rightarrow> rup_checker \<Rightarrow> bool" where
  "settled F st \<longleftrightarrow> (if inconsistent st then unsat F else next_to_propagate st = length (trail st))"

definition added :: "rup_checker \<Rightarrow> rup_checker \<Rightarrow> bool" where
  "added st s \<longleftrightarrow>
     inconsistent s \<or> keys s = add_mset (id_hash st (last_id st), set (simplified st)) (keys st) \<or>
     keys s = keys st \<and> (\<exists>l \<in> set (simplified st). lit_value s l = 1)"

lemma add_unit_ok:
  assumes inv: "checker_inv F st" and l: "lit_ok (size_vars st) l" "lit_value st l = 0" "entails F [l]" "l \<in> set (simplified st)"
    and ok: "\<not> inconsistent st"
  shows "returns (\<lambda>dbg. bind_res (assign dbg l st) (\<lambda>st. bind_res (propagate dbg st) (\<lambda>(r, st).
      Inr (if \<not> r then st\<lparr>inconsistent := True\<rparr> else st))))
    (\<lambda>s. extends st s \<and> checker_inv F s \<and> fresh s = fresh st \<and> settled F s \<and> added st s)"
proof -
  have t: "table_ok st" and p: "prop_inv F F (watches_of st) st" using inv by (auto simp: checker_inv_def)
  let ?st = "assigned l st"
  have "watches_of ?st = watches_of st" by (simp add: assigned_def watches_of_def fun_eq_iff)
  then have p': "prop_inv F F (watches_of ?st) ?st" using prop_inv_assigned [OF p l(1,2,3)] by simp
  have "returns (\<lambda>dbg. bind_res (propagate dbg ?st) (\<lambda>(r, st). Inr (if \<not> r then st\<lparr>inconsistent := True\<rparr> else st)))
    (\<lambda>s. extends st s \<and> checker_inv F s \<and> fresh s = fresh st \<and> settled F s \<and> added st s)"
  proof (rule returns_bind [OF propagate_ok [OF p']], clarify)
    fix r s assume s: "prop_post F F ?st (r, s)" "fst (r, s) \<longrightarrow> next_to_propagate (snd (r, s)) = length (trail (snd (r, s)))"
    let ?s = "if \<not> r then s\<lparr>inconsistent := True\<rparr> else s"
    have e: "evolves ?st s" "prop_inv F F (watches_of s) s" "\<not> r \<Longrightarrow> unsat F" using s(1) by (auto simp: prop_post_def)
    have e': "evolves st s" using evolves_assigned e(1) by (rule evolves_trans)
    have "checker_inv F ?s" using e(2) table_ok_evolves [OF t e'] by (simp add: checker_inv_def table_ok_def)
    moreover have "extends st ?s" using evolves_extends [OF e'] by (simp add: extends_def)
    moreover have "settled F ?s" using s(2) e(3) ok evolves_same(3) [OF e'] by (simp add: settled_def)
    moreover have "trail ?st = trail st @ [l]" by (simp add: assigned_def)
    then have "l \<in> set (trail s)" using e(1) by (auto simp: evolves_def)
    then have "lit_value s l = 1" using prop_invD(2) [OF e(2)] by (auto simp: trail_ok_def)
    then have "added st ?s" using keys_evolves [OF e'] l(4) by (auto simp: added_def)
    ultimately show "returns (\<lambda>dbg. Inr ?s) (\<lambda>s. extends st s \<and> checker_inv F s \<and> fresh s = fresh st \<and> settled F s \<and> added st s)"
      using evolves_same(13) [OF e'] by simp
  qed
  then show ?thesis using assign_ok [OF prop_invD(1) [OF p] l(1,2)] by simp
qed

lemma free_literals:
  assumes "prop_inv F F wl st" "simple_clause st c" "entails F c"
  shows "filter (\<lambda>l. lit_value st l = 0) c = [] \<Longrightarrow> unsat F"
    "filter (\<lambda>l. lit_value st l = 0) c = [k] \<Longrightarrow> entails F [k] \<and> k \<in> set c \<and> lit_value st k = 0 \<and> lit_ok (size_vars st) k"
proof -
  have ok: "lit_ok (size_vars st) l" "lit_value st l \<noteq> 1" if "l \<in> set c" for l using assms(2) that by (auto simp: simple_clause_def)
  have nz: "0 \<notin> set c" using ok(1) by (auto simp: lit_ok_def)
  have neg: "entails F [- l]" if "l \<in> set c" "lit_value st l \<noteq> 0" for l
    using prop_inv_false [OF assms(1) ok(1) [OF that(1)]] prop_inv_value [OF assms(1) ok(1) [OF that(1)]] ok(2) [OF that(1)] that(2) by auto
  { assume "filter (\<lambda>l. lit_value st l = 0) c = []"
    then have "l \<in> set c \<Longrightarrow> lit_value st l \<noteq> 0" for l by (auto simp: filter_empty_conv)
    then show "unsat F" using conflict_unsat [OF assms(3) nz] neg by blast }
  { assume k: "filter (\<lambda>l. lit_value st l = 0) c = [k]"
    have iff: "l \<in> set c \<and> lit_value st l = 0 \<longleftrightarrow> l = k" for l using arg_cong [OF k, of set] by auto
    then have "entails F [k]" using unit_entailed [OF assms(3) nz, of k] neg by blast
    then show "entails F [k] \<and> k \<in> set c \<and> lit_value st k = 0 \<and> lit_ok (size_vars st) k" using iff [of k] ok(1) by blast }
qed

lemma add_clause_settled:
  assumes inv: "checker_inv F st" and c: "simple_clause st (simplified st)" "entails F (simplified st)"
    and ok: "settled F st" "\<not> inconsistent st" and small: "fresh st < 2 ^ 58"
  shows "returns (\<lambda>dbg. add_clause dbg st)
    (\<lambda>s. extends st s \<and> checker_inv F s \<and> fresh s \<le> fresh st + 1 \<and> settled F s \<and> added st s)" (is "returns _ ?Q")
proof -
  have p: "prop_inv F F (watches_of st) st" using inv by (simp add: checker_inv_def)
  let ?free = "filter (\<lambda>l. lit_value st l = 0) (simplified st)"
  have unit: "unit_literal dbg st (simplified st) 0 = Inr (case ?free of [] \<Rightarrow> 0 | [l] \<Rightarrow> l | _ \<Rightarrow> INT_MIN)" for dbg
    using unit_literal_ok [OF prop_invD(1) [OF p], of "simplified st" dbg 0] c(1)
    by (simp add: simple_clause_def split: list.split)
  consider "?free = []" | l where "?free = [l]" | l k ls where "?free = l # k # ls" by (metis list.exhaust)
  then show ?thesis
  proof cases
    case 1
    let ?s = "st\<lparr>inconsistent := True\<rparr>"
    have run: "add_clause dbg st = Inr ?s" for dbg using unit 1 by (simp add: add_clause_def Let_def)
    have "checker_inv F ?s" using inv by (simp add: checker_inv_def table_ok_def)
    then have "?Q ?s" using free_literals(1) [OF p c 1] by (simp add: extends_def settled_def added_def)
    with run show ?thesis by (rule returns_witness)
  next
    case 2
    have l: "entails F [l]" "l \<in> set (simplified st)" "lit_value st l = 0" "lit_ok (size_vars st) l"
      using free_literals(2) [OF p c 2] by auto
    have n: "l \<noteq> 0" "l \<noteq> INT_MIN" "simplified st \<noteq> []"
      using l vars_ok_bound [OF prop_invD(1) [OF p]] by (auto simp: lit_ok_def INT_MIN_def)
    then show ?thesis using returns_mono [OF add_unit_ok [OF inv l(4,3,1,2) ok(2)], of ?Q] unit 2 by (simp add: add_clause_def Let_def)
  next
    case 3
    have "?free \<noteq> []" using 3 by simp
    then have n: "simplified st \<noteq> []" by auto
    have "two_free st (simplified st)" using 3 by (simp add: two_free_def)
    then have "returns (\<lambda>dbg. insert dbg st) ?Q"
      by (rule returns_mono [OF insert_ok [OF inv c(1) _ c(2) small]])
        (use ok in \<open>auto simp: calm_extends settled_def added_def calm_def\<close>)
    then show ?thesis using unit 3 n by (simp add: add_clause_def Let_def INT_MIN_def)
  qed
qed



section \<open>Deleting a clause\<close>

lemma unlink_move:
  assumes "objects st (clauses st ! h ! k) = Some d"
  shows "unlink h k d st =
    (move_garbage [clauses st ! h ! k] st)\<lparr>clauses := (clauses st)[h := take k (clauses st ! h) @ drop (Suc k) (clauses st ! h)]\<rparr>"
  using mark_garbage_Cons [where objs = "objects st" and a = "clauses st ! h ! k" and c = d and bad = "[]"] assms
  by (simp add: unlink_def Let_def move_garbage_def)

lemma mset_nth_split: "k < length xs \<Longrightarrow> mset xs = mset (take k xs @ drop (Suc k) xs) + mset [xs ! k]"
  by (subst (1) id_take_nth_drop [of k xs]) simp_all

text \<open>Among the clauses without a true literal, just one with the key is gone.\<close>

definition deleted :: "u64 \<times> int set \<Rightarrow> rup_checker \<Rightarrow> rup_checker \<Rightarrow> bool" where
  "deleted k st s \<longleftrightarrow>
     (\<forall>K. (\<forall>l \<in> snd K. lit_value st l \<noteq> 1) \<longrightarrow> count (keys s) K + (if K = k then 1 else 0) = count (keys st) K)"

lemma deleted_later: "deleted k st s \<Longrightarrow> drops_satisfied s s' \<Longrightarrow> lit_value s = lit_value st \<Longrightarrow> deleted k st s'"
  by (simp add: deleted_def drops_satisfied_def)

lemma delete_found_ok:
  assumes inv: "checker_inv F st" and h: "h < length (clauses st)" and k: "k < length (clauses st ! h)"
  shows "returns (\<lambda>dbg. delete_found dbg h k st)
    (\<lambda>s. calm st s \<and> checker_inv F s \<and> fresh s = fresh st \<and> deleted (key st (clauses st ! h ! k)) st s)" (is "returns _ ?Q")
proof -
  let ?a = "clauses st ! h ! k" and ?keep = "take k (clauses st ! h) @ drop (Suc k) (clauses st ! h)"
  let ?s = "(move_garbage [?a] st)\<lparr>clauses := (clauses st)[h := ?keep]\<rparr>"
  have t: "table_ok st" and p: "prop_inv F F (watches_of st) st" using inv by (auto simp: checker_inv_def)
  have a: "?a \<in> set (clauses st ! h)" using k by simp
  then obtain d where d: "objects st ?a = Some d" "csize d \<noteq> 0" using placed_nth [OF table_okD(7) [OF t] h] by blast
  then have size: "csize d > 1" using prop_inv_object(1) [OF p d(1)] by (auto simp: clause_ok_def)
  have "?a \<in> set (concat (clauses st))" using a h by auto
  then have num: "num_clauses st \<noteq> 0" using table_okD(5) [OF t] by (metis empty_iff length_0_conv list.set(1))
  have m: "mset (clauses st ! h) = mset ?keep + mset [?a]" using k by (rule mset_nth_split)
  have s: "calm st ?s" "checker_inv F ?s" "fresh ?s = fresh st"
    using checker_inv_move [OF inv h m] move_same(1,2) [where st = st and bad = "[?a]" and t = "(clauses st)[h := ?keep]"] by blast+
  have keys: "keys st = add_mset (key st ?a) (keys ?s)" using move_from_chain(2) [OF t h m] by simp
  then have del: "deleted (key st ?a) st ?s" by (simp add: deleted_def)
  have "returns (\<lambda>dbg. if 2 * num_garbage ?s > max (length (clauses ?s)) (size_vars ?s) then collect_garbage_clauses dbg ?s else Inr ?s) ?Q"
  proof (cases "2 * num_garbage ?s > max (length (clauses ?s)) (size_vars ?s)")
    case True
    have "returns (\<lambda>dbg. collect_garbage_clauses dbg ?s) ?Q"
    proof (rule returns_mono [OF collect_garbage_ok [OF s(2)]])
      fix s' assume s': "calm ?s s' \<and> checker_inv F s' \<and> fresh s' = fresh ?s \<and> drops_satisfied ?s s'"
      then have "deleted (key st ?a) st s'" using deleted_later [OF del _ calm_lit_value [OF s(1)]] by blast
      moreover have "calm st s'" using s(1) s' by (blast intro: calm_trans)
      ultimately show "?Q s'" using s' s(3) by (simp only:)
    qed
    then show ?thesis using True by (simp only: if_True)
  next
    case False
    then show ?thesis unfolding if_not_P [OF False] returns_Inr using s del by blast
  qed
  moreover have "delete_found dbg h k st = (let st = unlink h k d st
      in if 2 * num_garbage st > max (length (clauses st)) (size_vars st) then collect_garbage_clauses dbg st else Inr st)" for dbg
    using d(1) size num k by (simp add: delete_found_def deref_def cassert_def)
  ultimately show ?thesis by (simp only: Let_def unlink_move [OF d(1)])
qed



section \<open>The events\<close>

definition event_inv :: "int list set \<Rightarrow> rup_checker \<Rightarrow> bool" where
  "event_inv F st \<longleftrightarrow> checker_inv F st \<and> settled F st \<and> simplified st = []"

text \<open>What later operations keep: true literals stay true.\<close>

definition progress :: "rup_checker \<Rightarrow> rup_checker \<Rightarrow> bool" where
  "progress st s \<longleftrightarrow>
     size_vars st \<le> size_vars s \<and> nonces s = nonces st \<and>
     (\<forall>l. lit_ok (size_vars st) l \<longrightarrow> lit_value st l = 1 \<longrightarrow> lit_value s l = 1)"

lemma progress_trans:
  assumes "progress s t" "progress t u"
  shows "progress s u"
  using assms lit_ok_mono unfolding progress_def by (metis order_trans)

lemma extends_progress:
  assumes "extends st s" "checker_inv F st" "checker_inv G s"
  shows "progress st s"
proof -
  have "trail_ok st" "trail_ok s" using assms(2,3) prop_invD(2) by (auto simp: checker_inv_def)
  then show ?thesis using extends_true [OF assms(1)] assms(1) by (simp add: progress_def extends_def)
qed

lemma imported_progress: "imported st s \<Longrightarrow> progress st s"
  using importedD [of st s] by (simp add: progress_def)

text \<open>The live clauses \<open>L\<close>, with their identifiers, are in the table, except for those with a true literal.\<close>

definition plain :: "rup_checker \<Rightarrow> int set \<Rightarrow> bool" where
  "plain st C \<longleftrightarrow> (\<forall>l \<in> C. lit_ok (size_vars st) l \<and> lit_value st l \<noteq> 1 \<and> - l \<notin> C)"

definition hashed :: "rup_checker \<Rightarrow> (u64 \<times> int set) multiset \<Rightarrow> (u64 \<times> int set) multiset" where
  "hashed st L = image_mset (\<lambda>(i, C). (id_hash st i, C)) L"

definition covers :: "(u64 \<times> int set) multiset \<Rightarrow> rup_checker \<Rightarrow> bool" where
  "covers L st \<longleftrightarrow>
     inconsistent st \<or>
     (\<forall>p \<in># L. \<forall>l \<in> snd p. lit_ok (size_vars st) l) \<and>
     (\<forall>K. plain st (snd K) \<longrightarrow> count (hashed st L) K \<le> count (keys st) K)"

lemma covers_step:
  assumes L: "covers L st" and p: "progress st s" and i: "inconsistent st \<Longrightarrow> inconsistent s"
    and ok: "\<forall>p \<in># L'. p \<in># L \<or> (\<forall>l \<in> snd p. lit_ok (size_vars s) l)"
    and keys: "\<And>K. plain s (snd K) \<Longrightarrow> \<not> inconsistent s \<Longrightarrow>
      count (hashed st L') K + count (keys st) K \<le> count (keys s) K + count (hashed st L) K"
  shows "covers L' s"
proof (cases "inconsistent s")
  case False
  then have L': "\<forall>p \<in># L. \<forall>l \<in> snd p. lit_ok (size_vars st) l" "\<And>K. plain st (snd K) \<Longrightarrow> count (hashed st L) K \<le> count (keys st) K"
    using L i by (auto simp: covers_def)
  have h: "hashed s M = hashed st M" for M using p by (simp add: hashed_def id_hash_def progress_def)
  have "\<forall>p \<in># L'. \<forall>l \<in> snd p. lit_ok (size_vars s) l"
    using ok L'(1) p lit_ok_mono unfolding progress_def by blast
  moreover have "count (hashed s L') K \<le> count (keys s) K" if K: "plain s (snd K)" for K
  proof (cases "K \<in># hashed st L")
    case True
    then have "\<forall>l \<in> snd K. lit_ok (size_vars st) l" using L'(1) by (auto simp: hashed_def)
    then have "plain st (snd K)" using K p by (auto simp: plain_def progress_def)
    then show ?thesis using L'(2) [of K] keys [OF K False] h by (simp add: le_diff_conv)
  next
    case False
    then have "count (hashed st L) K = 0" by (simp add: count_eq_zero_iff)
    then show ?thesis using keys [OF K \<open>\<not> inconsistent s\<close>] h by simp
  qed
  ultimately show ?thesis unfolding covers_def by blast
qed (simp add: covers_def)

text \<open>The clause of an event, imported and cleaned.\<close>

definition prepared :: "int list set \<Rightarrow> u64 \<Rightarrow> int list \<Rightarrow> rup_checker \<Rightarrow> bool \<Rightarrow> rup_checker \<Rightarrow> bool" where
  "prepared F i c st taut s \<longleftrightarrow>
     checker_inv F s \<and> settled F s \<and> \<not> inconsistent s \<and> last_id s = i \<and> fresh s = fresh st \<and> keys s = keys st \<and> progress st s \<and>
     (\<forall>l \<in> set c. lit_ok (size_vars s) l) \<and>
     (if taut then \<exists>l \<in> set c. lit_value s l = 1 \<or> - l \<in> set c
      else set (simplified s) = set c \<and> simple_clause s (simplified s))"

lemma prepare_ok:
  assumes inv: "event_inv F st" and i: "\<not> inconsistent st" and c: "\<forall>l \<in> set c. small_lit l"
  shows "returns (\<lambda>dbg. bind_res (import_clause dbg c st) (\<lambda>st. tautological dbg (st\<lparr>last_id := i\<rparr>)))
    (\<lambda>(taut, s). prepared F i c st taut s)"
proof (rule returns_bind [OF import_clause_ok [of F st c]])
  show "checker_inv F st" using inv by (simp add: event_inv_def)
  show "\<forall>l \<in> set c. small_lit l" by (rule c)
  fix s assume s: "imported st s \<and> checker_inv F s \<and> simplified s = simplified st @ c \<and> (\<forall>l \<in> set c. lit_ok (size_vars s) l)"
  let ?s = "s\<lparr>last_id := i\<rparr>"
  have simp: "simplified ?s = c" using s inv by (simp add: event_inv_def)
  have "prop_inv F F (watches_of s) s" using s by (simp add: checker_inv_def)
  then have v: "vars_ok ?s" using prop_invD(1) [of F F "watches_of s" ?s] by simp
  have ok: "\<forall>l \<in> set (simplified ?s). lit_ok (size_vars ?s) l" using s simp by simp
  show "returns (\<lambda>dbg. tautological dbg ?s) (\<lambda>(taut, s). prepared F i c st taut s)"
  proof (rule returns_mono [OF tautological_ok [OF v ok]], clarify)
    fix taut d e assume d: "dropped ?s (set (simplified ?s)) (taut, e)" "\<not> taut \<longrightarrow> d = e"
    let ?r = "?s\<lparr>simplified := d\<rparr>"
    have lv: "lit_value ?r = lit_value ?s" "lit_value ?s = lit_value s" by (simp_all add: lit_value_def fun_eq_iff)
    have "checker_inv F ?r" using s by (simp add: checker_inv_def table_ok_def)
    moreover have "settled F ?r" "\<not> inconsistent ?r" "fresh ?r = fresh st" "keys ?r = keys st"
      using s importedD [of st s] inv i by (simp_all add: event_inv_def settled_def keys_def)
    moreover have "progress st ?r" using imported_progress [of st s] s lv by (simp add: progress_def)
    moreover have "if taut then \<exists>l \<in> set c. lit_value ?r l = 1 \<or> - l \<in> set c
        else set (simplified ?r) = set c \<and> simple_clause ?r (simplified ?r)"
      using d lv simp by (cases taut) (auto simp: dropped_def simple_clause_def)
    ultimately show "prepared F i c st taut ?r" using s unfolding prepared_def by simp
  qed
qed

lemma prepared_taut_entailed:
  assumes "prepared F i c st True s"
  shows "entails F c"
proof -
  have p: "prop_inv F F (watches_of s) s" using assms by (simp add: prepared_def checker_inv_def)
  obtain l where l: "l \<in> set c" "lit_value s l = 1 \<or> - l \<in> set c" "lit_ok (size_vars s) l" using assms by (auto simp: prepared_def)
  show ?thesis
  proof (cases "lit_value s l = 1")
    case True
    then have "entails F [l]" using true_entailed [OF prop_invD(5,2) [OF p] l(3)] by simp
    then show ?thesis by (rule entails_weaker) (use l(1) in simp)
  next
    case False
    then have "- l \<in> set c" "l \<noteq> 0" using l by (auto simp: lit_ok_def)
    then have "sat_clause M c" for M using l(1) sat_lit_neg [of l M] unfolding sat_clause_def by blast
    then show ?thesis by (simp add: entails_def)
  qed
qed



text \<open>The invariant after an event that names a clause, and the live clauses then.\<close>

definition after_event :: "int list set \<Rightarrow> ((u64 \<times> int set) multiset \<Rightarrow> (u64 \<times> int set) multiset) \<Rightarrow> rup_checker \<Rightarrow> rup_checker \<Rightarrow> bool" where
  "after_event F f st s \<longleftrightarrow> event_inv F s \<and> fresh s \<le> fresh st + 1 \<and> (\<forall>L. covers L st \<longrightarrow> covers (f L) s)"

lemma clear_clause_same:
  "checker_inv F (clear_clause s) \<longleftrightarrow> checker_inv F s" "settled F (clear_clause s) \<longleftrightarrow> settled F s"
  "fresh (clear_clause s) = fresh s" "covers L (clear_clause s) \<longleftrightarrow> covers L s" "simplified (clear_clause s) = []"
proof -
  have "lit_value (clear_clause s) = lit_value s" "keys (clear_clause s) = keys s" "hashed (clear_clause s) = hashed s"
    by (simp_all add: clear_clause_def lit_value_def keys_def hashed_def id_hash_def fun_eq_iff)
  moreover have "plain (clear_clause s) = plain s" using calculation by (simp add: plain_def clear_clause_def fun_eq_iff)
  ultimately show "covers L (clear_clause s) \<longleftrightarrow> covers L s" by (simp add: covers_def clear_clause_def)
qed (simp_all add: clear_clause_def checker_inv_def table_ok_def settled_def)

lemma after_event_cleared:
  assumes "checker_inv F s" "settled F s" "fresh s \<le> fresh st + 1" "\<And>L. covers L st \<Longrightarrow> covers (f L) s"
  shows "after_event F f st (clear_clause s)"
  using assms by (simp add: after_event_def event_inv_def clear_clause_same)

lemma settled_more: "settled F s \<Longrightarrow> F \<subseteq> G \<Longrightarrow> settled G s"
  unfolding settled_def unsat_def by (cases "inconsistent s") (simp_all, blast)

lemma checker_inv_more:
  assumes "checker_inv F s" "F \<subseteq> G"
  shows "checker_inv G s"
proof -
  have "entails F d \<Longrightarrow> entails G d" for d using assms(2) by (rule entails_mono [rotated])
  then show ?thesis using assms(1) by (auto simp: checker_inv_def prop_inv_def sound_def)
qed

lemma inconsistent_after:
  assumes "event_inv F st" "inconsistent st" "F \<subseteq> G"
  shows "after_event G f st st"
proof -
  have "settled G st" "checker_inv G st" using settled_more checker_inv_more assms(1,3) by (auto simp: event_inv_def)
  then show ?thesis using assms(1,2) by (simp add: after_event_def event_inv_def covers_def)
qed

text \<open>A tautological or satisfied clause is not stored: it is not plain.\<close>

lemma covers_taut:
  assumes p: "prepared F i c st True s" and L: "covers L st" and i: "\<not> inconsistent st"
  shows "covers (add_mset (i, set c) L) s" "covers (L - {#(i, set c)#}) s"
proof -
  have s: "progress st s" "keys s = keys st" "\<forall>l \<in> set c. lit_ok (size_vars s) l" "\<not> plain s (set c)"
    using p by (auto simp: prepared_def plain_def)
  have h: "hashed st (add_mset (i, set c) L) = add_mset (id_hash st i, set c) (hashed st L)" by (simp add: hashed_def)
  show "covers (add_mset (i, set c) L) s"
    by (rule covers_step [OF L s(1)]) (use i s in \<open>auto simp: h\<close>)
  have "count (hashed st (L - {#(i, set c)#})) K \<le> count (hashed st L) K" for K
    unfolding hashed_def by (intro mset_subset_eq_count image_mset_subseteq_mono) simp
  then show "covers (L - {#(i, set c)#}) s"
    by (intro covers_step [OF L s(1)]) (use i s in \<open>auto simp: add_mono intro: in_diffD\<close>)
qed

lemma covers_added:
  assumes p: "prepared F i c st False s" and L: "covers L st" and i: "\<not> inconsistent st"
    and e: "extends s s'" "checker_inv G s'" "added s s'"
  shows "covers (add_mset (i, set c) L) s'"
proof -
  have s: "progress st s" "keys s = keys st" "\<forall>l \<in> set c. lit_ok (size_vars s) l" "checker_inv F s" "last_id s = i" "set (simplified s) = set c"
    using p by (auto simp: prepared_def)
  have pr: "progress s s'" using extends_progress [OF e(1) s(4) e(2)] .
  have ids: "id_hash s i = id_hash st i" using s(1) by (simp add: id_hash_def progress_def)
  have h: "hashed st (add_mset (i, set c) L) = add_mset (id_hash st i, set c) (hashed st L)" by (simp add: hashed_def)
  show ?thesis
  proof (rule covers_step [OF L progress_trans [OF s(1) pr]])
    show "\<forall>p \<in># add_mset (i, set c) L. p \<in># L \<or> (\<forall>l \<in> snd p. lit_ok (size_vars s') l)"
      using s(3) pr lit_ok_mono by (auto simp: progress_def)
    fix K :: "u64 \<times> int set" assume K: "plain s' (snd K)" "\<not> inconsistent s'"
    then have "keys s' = add_mset (id_hash st i, set c) (keys st) \<or> keys s' = keys st \<and> \<not> plain s' (set c)"
      using e(3) s(2,5,6) ids by (auto simp: added_def plain_def)
    then show "count (hashed st (add_mset (i, set c) L)) K + count (keys st) K \<le> count (keys s') K + count (hashed st L) K"
      using K(1) by (auto simp: h)
  qed (use i in simp)
qed

lemma add_prepared_ok:
  assumes p: "prepared F i c st False s" and i: "\<not> inconsistent st" and c: "entails G c" "F \<subseteq> G" and small: "fresh st < 2 ^ 58"
  shows "returns (\<lambda>dbg. bind_res (add_clause dbg s) (\<lambda>st. Inr (clear_clause st))) (after_event G (add_mset (i, set c)) st)"
proof -
  have s: "checker_inv G s" "settled G s" "\<not> inconsistent s" "simple_clause s (simplified s)" "set (simplified s) = set c" "fresh s = fresh st"
    using p checker_inv_more [OF _ c(2)] settled_more [OF _ c(2)] by (auto simp: prepared_def)
  have "entails G (simplified s)" using c(1) entails_set [OF s(5)] by simp
  then have "returns (\<lambda>dbg. add_clause dbg s)
      (\<lambda>s'. extends s s' \<and> checker_inv G s' \<and> fresh s' \<le> fresh s + 1 \<and> settled G s' \<and> added s s')"
    using s small by (intro add_clause_settled) simp_all
  then show ?thesis
  proof (rule returns_bind)
    fix s' assume s': "extends s s' \<and> checker_inv G s' \<and> fresh s' \<le> fresh s + 1 \<and> settled G s' \<and> added s s'"
    then have "after_event G (add_mset (i, set c)) st (clear_clause s')"
      using covers_added [OF p _ i] s(6) by (intro after_event_cleared) auto
    then show "returns (\<lambda>dbg. Inr (clear_clause s')) (after_event G (add_mset (i, set c)) st)" by simp
  qed
qed

lemma add_original_ok:
  assumes inv: "event_inv F st" and c: "\<forall>l \<in> set c. small_lit l" and small: "fresh st < 2 ^ 58"
  shows "returns (\<lambda>dbg. add_original_clause dbg i c st) (after_event ({c} \<union> F) (add_mset (i, set c)) st)"
proof (cases "inconsistent st")
  case True
  then show ?thesis using inconsistent_after [OF inv True, of "{c} \<union> F" "add_mset (i, set c)"] by (auto simp: add_original_clause_def)
next
  case False
  have "add_original_clause dbg i c st =
      bind_res (bind_res (import_clause dbg c st) (\<lambda>st. tautological dbg (st\<lparr>last_id := i\<rparr>))) (\<lambda>(taut, st).
      bind_res (if taut then Inr st else add_clause dbg st) (\<lambda>st. Inr (clear_clause st)))" for dbg
    using False by (simp add: add_original_clause_def bind_res_assoc)
  moreover have "returns (\<lambda>dbg. bind_res (bind_res (import_clause dbg c st) (\<lambda>st. tautological dbg (st\<lparr>last_id := i\<rparr>))) (\<lambda>(taut, st).
      bind_res (if taut then Inr st else add_clause dbg st) (\<lambda>st. Inr (clear_clause st)))) (after_event ({c} \<union> F) (add_mset (i, set c)) st)"
  proof (rule returns_bind [OF prepare_ok [OF inv False c]], clarify)
    fix taut s assume p: "prepared F i c st taut s"
    show "returns (\<lambda>dbg. bind_res (if taut then Inr s else add_clause dbg s) (\<lambda>st. Inr (clear_clause st)))
        (after_event ({c} \<union> F) (add_mset (i, set c)) st)"
    proof (cases taut)
      case True
      then have "prepared F i c st True s" using p by simp
      then have "after_event ({c} \<union> F) (add_mset (i, set c)) st (clear_clause s)"
        using covers_taut(1) [of F i c st s] False settled_more [of F s "{c} \<union> F"] checker_inv_more [of F s "{c} \<union> F"]
        by (intro after_event_cleared) (auto simp: prepared_def)
      then show ?thesis using True by simp
    next
      case f: False
      then show ?thesis using add_prepared_ok [of F i c st s "{c} \<union> F"] p False small entails_member [of c "{c} \<union> F"] by auto
    qed
  qed
  ultimately show ?thesis by simp
qed



text \<open>The computation does not depend on assertions, and ends with the property wanted or a refused proof.\<close>

definition concludes :: "(bool \<Rightarrow> 'a res) \<Rightarrow> ('a \<Rightarrow> bool) \<Rightarrow> bool" where
  "concludes f Q \<longleftrightarrow> (\<exists>r. (\<forall>dbg. f dbg = r) \<and> (case r of Inl e \<Rightarrow> e = Aborted | Inr x \<Rightarrow> Q x))"

lemma returns_concludes: "returns f Q \<Longrightarrow> concludes f Q"
  by (auto simp: returns_def concludes_def)

lemma concludes_Inl [simp]: "concludes (\<lambda>dbg. Inl e) Q \<longleftrightarrow> e = Aborted"
  by (auto simp: concludes_def)

lemma concludes_bind:
  assumes "concludes f R" "\<And>x. R x \<Longrightarrow> concludes (\<lambda>dbg. g dbg x) Q"
  shows "concludes (\<lambda>dbg. bind_res (f dbg) (g dbg)) Q"
proof -
  obtain r where r: "\<forall>dbg. f dbg = r" "case r of Inl e \<Rightarrow> e = Aborted | Inr x \<Rightarrow> R x" using assms(1) by (auto simp: concludes_def)
  then show ?thesis using assms(2) by (cases r) (auto simp: concludes_def)
qed

lemma concludesE:
  assumes "concludes f Q"
  obtains "\<And>dbg. f dbg = Inl Aborted" | x where "\<And>dbg. f dbg = Inr x" "Q x"
proof -
  obtain r where r: "\<And>dbg. f dbg = r" "case r of Inl e \<Rightarrow> e = Aborted | Inr x \<Rightarrow> Q x" using assms unfolding concludes_def by blast
  show thesis
  proof (cases r)
    case (Inl e)
    then show thesis using r that(1) by simp
  next
    case (Inr x)
    then show thesis using r that(2) [of x] by simp
  qed
qed

lemma check_prepared:
  assumes p: "prepared F i c st False s"
  shows "returns (\<lambda>dbg. check dbg s) (\<lambda>(ok, s'). prepared F i c st False s' \<and> (ok \<longrightarrow> entails F c))"
proof -
  have s: "checker_inv F s" "\<not> inconsistent s" "simple_clause s (simplified s)" "set (simplified s) = set c" "next_to_propagate s = length (trail s)"
    using p by (auto simp: prepared_def settled_def)
  have t: "table_ok s" and inv: "prop_inv F F (watches_of s) s" using s(1) by (auto simp: checker_inv_def)
  show ?thesis
  proof (rule returns_mono [OF check_ok [OF inv s(3,2,5)]], clarify)
    fix ok s' assume post: "check_post F s (ok, s')"
    then have e: "evolves s s'" "trail s' = trail s" "next_to_propagate s' = next_to_propagate s" "prop_inv F F (watches_of s') s'"
      "ok \<Longrightarrow> entails F (simplified s)"
      by (auto simp: check_post_def)
    note same = evolves_same [OF e(1)]
    have inv': "checker_inv F s'" using e(4) table_ok_evolves [OF t e(1)] by (simp add: checker_inv_def)
    have "lit_value s' l \<noteq> 1" if "l \<in> set (simplified s)" for l
    proof -
      have "lit_ok (size_vars s) l" "lit_value s l \<noteq> 1" using s(3) that by (auto simp: simple_clause_def)
      then show ?thesis using prop_invD(2) [OF inv] prop_invD(2) [OF e(4)] e(2) same(1) by (simp add: trail_ok_def)
    qed
    then have "simple_clause s' (simplified s')" using s(3) same by (simp add: simple_clause_def)
    moreover have "progress st s'"
      using p progress_trans extends_progress [OF evolves_extends [OF e(1)] s(1) inv'] by (auto simp: prepared_def)
    moreover have "settled F s'" using s(2,5) e(2,3) same(3) by (simp add: settled_def)
    ultimately have "prepared F i c st False s'"
      using p inv' same keys_evolves [OF e(1)] by (simp add: prepared_def)
    then show "prepared F i c st False s' \<and> (ok \<longrightarrow> entails F c)" using e(5) entails_set [OF s(4)] by simp
  qed
qed

lemma unsat_entails: "unsat F \<Longrightarrow> entails F c"
  by (auto simp: unsat_def entails_def)

lemma add_derived_ok:
  assumes inv: "event_inv F st" and c: "\<forall>l \<in> set c. small_lit l" and small: "fresh st < 2 ^ 58"
  shows "concludes (\<lambda>dbg. add_derived_clause dbg i c st) (\<lambda>s. entails F c \<and> after_event F (add_mset (i, set c)) st s)"
    (is "concludes _ ?Q")
proof (cases "inconsistent st")
  case True
  then have "entails F c" using inv by (simp add: event_inv_def settled_def unsat_entails)
  then show ?thesis using inconsistent_after [OF inv True, of F "add_mset (i, set c)"] True
    by (auto simp: add_derived_clause_def concludes_def)
next
  case False
  have "add_derived_clause dbg i c st =
      bind_res (bind_res (import_clause dbg c st) (\<lambda>st. tautological dbg (st\<lparr>last_id := i\<rparr>))) (\<lambda>(taut, st).
      bind_res (if taut then Inr st
                else bind_res (check dbg st) (\<lambda>(ok, st). bind_res (fatal_if (\<not> ok)) (\<lambda>_. add_clause dbg st))) (\<lambda>st.
        Inr (clear_clause st)))" for dbg
    using False by (simp add: add_derived_clause_def bind_res_assoc)
  moreover have "concludes (\<lambda>dbg. bind_res (bind_res (import_clause dbg c st) (\<lambda>st. tautological dbg (st\<lparr>last_id := i\<rparr>))) (\<lambda>(taut, st).
      bind_res (if taut then Inr st
                else bind_res (check dbg st) (\<lambda>(ok, st). bind_res (fatal_if (\<not> ok)) (\<lambda>_. add_clause dbg st))) (\<lambda>st.
        Inr (clear_clause st)))) ?Q"
  proof (rule concludes_bind [OF returns_concludes [OF prepare_ok [OF inv False c]]], clarify)
    fix taut s assume p: "prepared F i c st taut s"
    show "concludes (\<lambda>dbg. bind_res (if taut then Inr s
        else bind_res (check dbg s) (\<lambda>(ok, st). bind_res (fatal_if (\<not> ok)) (\<lambda>_. add_clause dbg st))) (\<lambda>st. Inr (clear_clause st))) ?Q"
    proof (cases taut)
      case True
      then have t: "prepared F i c st True s" using p by simp
      then have "after_event F (add_mset (i, set c)) st (clear_clause s)"
        using covers_taut(1) [of F i c st s] False by (intro after_event_cleared) (auto simp: prepared_def)
      then show ?thesis using True prepared_taut_entailed [OF t] by (auto simp: concludes_def)
    next
      case f: False
      then have p': "prepared F i c st False s" using p by simp
      have "concludes (\<lambda>dbg. bind_res (check dbg s) (\<lambda>(ok, st).
          bind_res (bind_res (fatal_if (\<not> ok)) (\<lambda>_. add_clause dbg st)) (\<lambda>st. Inr (clear_clause st)))) ?Q"
      proof (rule concludes_bind [OF returns_concludes [OF check_prepared [OF p']]], clarify)
        fix ok s' assume s': "prepared F i c st False s'" "ok \<longrightarrow> entails F c"
        show "concludes (\<lambda>dbg. bind_res (bind_res (fatal_if (\<not> ok)) (\<lambda>_. add_clause dbg s')) (\<lambda>st. Inr (clear_clause st))) ?Q"
        proof (cases ok)
          case True
          then have "entails F c" using s'(2) by simp
          then have "returns (\<lambda>dbg. bind_res (add_clause dbg s') (\<lambda>st. Inr (clear_clause st))) ?Q"
            using add_prepared_ok [OF s'(1) False _ order_refl small] by (auto intro: returns_mono)
          then show ?thesis using True by (auto simp: fatal_if_def intro: returns_concludes)
        qed (simp add: fatal_if_def)
      qed
      then show ?thesis using f by (simp add: bind_res_assoc case_prod_unfold)
    qed
  qed
  ultimately show ?thesis by simp
qed



definition drop_live :: "u64 \<times> int set \<Rightarrow> (u64 \<times> int set) multiset \<Rightarrow> (u64 \<times> int set) multiset" where
  "drop_live p L = (if p \<in># L then L - {#p#} else {#})"

lemma covers_nothing [simp]: "covers {#} st"
  by (simp add: covers_def hashed_def)

text \<open>A live clause has its key in the table.\<close>

lemma covers_key:
  assumes p: "prepared F i c st False s" and i: "\<not> inconsistent st" and L: "covers L st" "(i, set c) \<in># L"
  shows "(id_hash s i, set c) \<in># keys s"
proof -
  have s: "progress st s" "keys s = keys st" "simple_clause s (simplified s)" "set (simplified s) = set c"
    using p by (auto simp: prepared_def)
  have ids: "id_hash s i = id_hash st i" using s(1) by (simp add: id_hash_def progress_def)
  have "\<forall>l \<in> set c. lit_ok (size_vars st) l" using L i by (auto simp: covers_def)
  moreover have "\<forall>l \<in> set c. lit_value s l \<noteq> 1 \<and> - l \<notin> set c" using s(3,4) by (simp add: simple_clause_def)
  ultimately have "plain st (set c)" using s(1) by (auto simp: plain_def progress_def)
  then have "count (hashed st L) (id_hash st i, set c) \<le> count (keys st) (id_hash st i, set c)" using L(1) i by (simp add: covers_def)
  moreover have "(id_hash st i, set c) \<in># hashed st L" using L(2) by (force simp: hashed_def)
  ultimately have "0 < count (keys st) (id_hash st i, set c)" by (metis count_greater_zero_iff less_le_trans)
  then show ?thesis using s(2) ids by simp
qed

lemma covers_deleted:
  assumes p: "prepared F i c st False s" and L: "covers L st" and i: "\<not> inconsistent st"
    and e: "calm s s'" "checker_inv F s'" "deleted (id_hash s i, set c) s s'"
  shows "covers (drop_live (i, set c) L) s'"
proof (cases "(i, set c) \<in># L")
  case True
  have s: "progress st s" "keys s = keys st" "checker_inv F s" using p by (auto simp: prepared_def)
  have pr: "progress s s'" using extends_progress [OF calm_extends [OF e(1)] s(3) e(2)] .
  have ids: "id_hash s i = id_hash st i" using s(1) by (simp add: id_hash_def progress_def)
  have lv: "lit_value s' = lit_value s" using calm_lit_value [OF e(1)] .
  obtain M where M: "L = add_mset (i, set c) M" using True by (metis insert_DiffM)
  have h: "hashed st L = add_mset (id_hash st i, set c) (hashed st M)" by (simp add: M hashed_def)
  have "covers M s'"
  proof (rule covers_step [OF L progress_trans [OF s(1) pr]])
    fix K :: "u64 \<times> int set" assume K: "plain s' (snd K)"
    then have "count (keys s') K + (if K = (id_hash st i, set c) then 1 else 0) = count (keys st) K"
      using spec [OF e(3) [unfolded deleted_def], of K] s(2) ids lv by (simp add: plain_def)
    then show "count (hashed st M) K + count (keys st) K \<le> count (keys s') K + count (hashed st L) K"
      by (auto simp: h split: if_splits)
  qed (use i M in auto)
  then show ?thesis by (simp add: drop_live_def M)
next
  case False
  then show ?thesis by (simp add: drop_live_def)
qed

lemma delete_prepared:
  assumes p: "prepared F i c st False s" and i: "\<not> inconsistent st" and small: "fresh st < 2 ^ 58"
  defines "run \<equiv> \<lambda>dbg. bind_res (bind_res (find dbg s) (\<lambda>(h, k, st). delete_found dbg h k st)) (\<lambda>st. Inr (clear_clause st))"
  shows "(\<forall>dbg s'. run dbg = Inr s' \<longrightarrow> after_event F (drop_live (i, set c)) st s') \<and>
    ((id_hash s i, set c) \<in># keys s \<longrightarrow> returns run (after_event F (drop_live (i, set c)) st))"
proof -
  have s: "checker_inv F s" "settled F s" "simple_clause s (simplified s)" "set (simplified s) = set c" "fresh s = fresh st" "last_id s = i"
    using p by (auto simp: prepared_def)
  let ?K = "(id_hash s i, set c)"
  show ?thesis
  proof (cases "clauses s = []")
    case True
    then have "find dbg s = (if dbg then Inl Aborted else Inl Diverges)" for dbg
      using compute_hash_ok [of s] s(1)
      by (simp add: find_def checker_inv_def table_ok_def reduce_hash_def size_clauses_def cassert_def)
    then have "run dbg \<noteq> Inr s'" for dbg s' by (simp add: run_def)
    moreover have "?K \<notin># keys s" using True by (simp add: keys_def)
    ultimately show ?thesis by blast
  next
    case False
    let ?s = "s\<lparr>last_hash := id_hash s i\<rparr>"
    obtain h k where f: "\<forall>dbg. find dbg s = Inr (h, k, ?s)" and h: "h = home (id_hash s i) (length (clauses s))" "h < length (clauses s)"
      and k: "k = length (takeWhile (\<lambda>a. key s a \<noteq> ?K) (clauses s ! h))"
      using find_ok [OF s(1,3) False] small s(4,5,6) by auto
    show ?thesis
    proof (cases "k < length (clauses s ! h)")
      case True
      then have "key s (clauses s ! h ! k) = ?K" using nth_length_takeWhile [of "\<lambda>a. key s a \<noteq> ?K" "clauses s ! h"] k by simp
      then have K: "key ?s (clauses ?s ! h ! k) = ?K" by simp
      have inv: "checker_inv F ?s" using s(1) by (simp add: checker_inv_def table_ok_def)
      have "returns run (after_event F (drop_live (i, set c)) st)"
        unfolding run_def
      proof (rule returns_bind)
        show "returns (\<lambda>dbg. bind_res (find dbg s) (\<lambda>(h, k, st). delete_found dbg h k st))
          (\<lambda>s'. calm ?s s' \<and> checker_inv F s' \<and> fresh s' = fresh ?s \<and> deleted ?K ?s s')"
          using delete_found_ok [OF inv, of h k] h True f K by simp
        fix s' assume s': "calm ?s s' \<and> checker_inv F s' \<and> fresh s' = fresh ?s \<and> deleted ?K ?s s'"
        have same: "calm s s'" "deleted ?K s s'"
          using s' by (simp_all add: calm_def deleted_def keys_def lit_value_def)
        have "settled F s'" using s(2) same(1) by (simp add: settled_def calm_def)
        then have "after_event F (drop_live (i, set c)) st (clear_clause s')"
          using s' s(5) covers_deleted [OF p _ i same(1) _ same(2)] by (intro after_event_cleared) auto
        then show "returns (\<lambda>dbg. Inr (clear_clause s')) (after_event F (drop_live (i, set c)) st)" by simp
      qed
      then show ?thesis by (auto simp: returns_def)
    next
      case absent: False
      then have "run dbg \<noteq> Inr s'" for dbg s' using f by (simp add: run_def delete_found_def)
      moreover have "?K \<notin># keys s" using find_present_clause(2) [OF s(1), of "id_hash s i" "set c" k] k h absent by auto
      ultimately show ?thesis by blast
    qed
  qed
qed

lemma delete_ok:
  assumes inv: "event_inv F st" and c: "\<forall>l \<in> set c. small_lit l" and small: "fresh st < 2 ^ 58"
  shows "delete_clause dbg i c st = Inr s \<Longrightarrow> after_event F (drop_live (i, set c)) st s"
    "covers L st \<Longrightarrow> (i, set c) \<in># L \<Longrightarrow> returns (\<lambda>dbg. delete_clause dbg i c st) (after_event F (drop_live (i, set c)) st)"
proof -
  have "(\<forall>dbg s. delete_clause dbg i c st = Inr s \<longrightarrow> after_event F (drop_live (i, set c)) st s) \<and>
    (covers L st \<and> (i, set c) \<in># L \<longrightarrow> returns (\<lambda>dbg. delete_clause dbg i c st) (after_event F (drop_live (i, set c)) st))"
  proof (cases "inconsistent st")
    case True
    then show ?thesis using inconsistent_after [OF inv True, of F "drop_live (i, set c)"] by (auto simp: delete_clause_def)
  next
    case False
    have "delete_clause dbg i c st =
        bind_res (bind_res (import_clause dbg c st) (\<lambda>st. tautological dbg (st\<lparr>last_id := i\<rparr>))) (\<lambda>(taut, st).
        bind_res (if taut then Inr st else bind_res (find dbg st) (\<lambda>(h, k, st). delete_found dbg h k st)) (\<lambda>st. Inr (clear_clause st)))" for dbg
      using False by (simp add: delete_clause_def bind_res_assoc)
    moreover obtain taut s1 where t: "\<And>dbg. bind_res (import_clause dbg c st) (\<lambda>st. tautological dbg (st\<lparr>last_id := i\<rparr>)) = Inr (taut, s1)"
      and p: "prepared F i c st taut s1"
      using prepare_ok [OF inv False c, of i] by (auto simp: returns_def)
    ultimately have run: "delete_clause dbg i c st =
        bind_res (if taut then Inr s1 else bind_res (find dbg s1) (\<lambda>(h, k, st). delete_found dbg h k st)) (\<lambda>st. Inr (clear_clause st))" for dbg
      by simp
    show ?thesis
    proof (cases taut)
      case True
      then have "prepared F i c st True s1" using p by simp
      then have "after_event F (drop_live (i, set c)) st (clear_clause s1)"
        using covers_taut(2) [of F i c st s1] False by (intro after_event_cleared) (auto simp: prepared_def drop_live_def)
      then show ?thesis using True run by (auto simp: returns_def)
    next
      case f: False
      then have p': "prepared F i c st False s1" using p by simp
      show ?thesis using delete_prepared [OF p' False small] covers_key [OF p' False, of L] f by (auto simp: run)
    qed
  qed
  then show "delete_clause dbg i c st = Inr s \<Longrightarrow> after_event F (drop_live (i, set c)) st s"
    "covers L st \<Longrightarrow> (i, set c) \<in># L \<Longrightarrow> returns (\<lambda>dbg. delete_clause dbg i c st) (after_event F (drop_live (i, set c)) st)"
    by blast+
qed



section \<open>Runs\<close>

fun event_clause :: "rup_event \<Rightarrow> int list" where
  "event_clause (Original i c) = c"
| "event_clause (Derived i c) = c"
| "event_clause (Delete i c) = c"
| "event_clause (Assumption i c) = c"

fun facts_after :: "rup_event \<Rightarrow> int list set \<Rightarrow> int list set" where
  "facts_after (Original i c) F = {c} \<union> F"
| "facts_after e F = F"

text \<open>The original clauses of a list of events.\<close>

definition originals :: "rup_event list \<Rightarrow> int list set" where
  "originals evs = {c. \<exists>i. Original i c \<in> set evs}"

text \<open>A clause of this kind must follow from the original ones.\<close>

fun claims :: "rup_event \<Rightarrow> bool" where
  "claims (Derived i c) = True"
| "claims (Assumption i c) = True"
| "claims e = False"

text \<open>The live clauses, with identifiers, and deletions of live clauses only.\<close>

fun live_after :: "rup_event \<Rightarrow> (u64 \<times> int set) multiset \<Rightarrow> (u64 \<times> int set) multiset" where
  "live_after (Original i c) L = add_mset (i, set c) L"
| "live_after (Derived i c) L = add_mset (i, set c) L"
| "live_after (Delete i c) L = drop_live (i, set c) L"
| "live_after (Assumption i c) L = L"

fun allowed :: "rup_event \<Rightarrow> (u64 \<times> int set) multiset \<Rightarrow> bool" where
  "allowed (Delete i c) L = ((i, set c) \<in># L)"
| "allowed e L = True"

fun deletes_live :: "(u64 \<times> int set) multiset \<Rightarrow> rup_event list \<Rightarrow> bool" where
  "deletes_live L [] = True"
| "deletes_live L (e # evs) =
     (allowed e L \<and> deletes_live (live_after e L) evs)"

lemma bind_res_return [simp]: "bind_res m Inr = m"
  by (cases m) simp_all

lemma deletes_live_snoc: "deletes_live L (evs @ [e]) \<longleftrightarrow> deletes_live L evs \<and> allowed e (fold live_after evs L)"
  by (induction evs arbitrary: L) simp_all

lemma originals_Cons: "originals (e # evs) = facts_after e {} \<union> originals evs"
  by (cases e) (auto simp: originals_def)

lemma originals_snoc: "originals (evs @ [e]) = facts_after e (originals evs)"
  by (cases e) (auto simp: originals_def)

text \<open>One event: what it claims follows, and it stops at most when it claims something.\<close>

lemma handle_event_sound:
  assumes inv: "event_inv F st" and c: "\<forall>l \<in> set (event_clause e). small_lit l" and small: "fresh st + 1 < 2 ^ 58"
    and run: "handle_event dbg e st = Inr s"
  shows "event_inv (facts_after e F) s \<and> fresh s \<le> fresh st + 2 \<and> (claims e \<longrightarrow> entails F (event_clause e))"
proof -
  have small': "fresh st < 2 ^ 58" using small by simp
  show ?thesis
  proof (cases e)
    case (Original i c)
    then show ?thesis using add_original_ok [OF inv _ small', of c i] assms(2,4) by (auto simp: returns_def after_event_def)
  next
    case (Derived i c)
    then show ?thesis using add_derived_ok [OF inv _ small', of c i] assms(2,4) by (auto simp: after_event_def elim: concludesE)
  next
    case (Delete i c)
    then show ?thesis using delete_ok(1) [OF inv _ small', of c dbg i s] assms(2,4) by (auto simp: after_event_def)
  next
    case (Assumption i c)
    then have c': "\<forall>l \<in> set c. small_lit l" using assms(2) by simp
    obtain s1 where s1: "add_derived_clause dbg i c st = Inr s1" "delete_clause dbg i c s1 = Inr s"
      using run Assumption by (auto simp: add_assumption_clause_def bind_res_def split: sum.splits)
    then have d: "entails F c" "event_inv F s1" "fresh s1 \<le> fresh st + 1"
      using add_derived_ok [OF inv c' small', of i] by (auto simp: after_event_def elim: concludesE)
    have "event_inv F s \<and> fresh s \<le> fresh s1 + 1" using delete_ok(1) [OF d(2) c' _ s1(2)] d(3) small by (simp add: after_event_def)
    then show ?thesis using Assumption d by auto
  qed
qed

definition event_post :: "rup_event \<Rightarrow> int list set \<Rightarrow> (u64 \<times> int set) multiset \<Rightarrow> rup_checker \<Rightarrow> rup_checker \<Rightarrow> bool" where
  "event_post e F L st s \<longleftrightarrow> event_inv (facts_after e F) s \<and> fresh s \<le> fresh st + 2 \<and> covers (live_after e L) s"

lemma handle_event_concludes:
  assumes inv: "event_inv F st" and c: "\<forall>l \<in> set (event_clause e). small_lit l" and small: "fresh st + 1 < 2 ^ 58"
    and L: "covers L st" "allowed e L"
  shows "concludes (\<lambda>dbg. handle_event dbg e st) (event_post e F L st)"
    "\<not> claims e \<Longrightarrow> returns (\<lambda>dbg. handle_event dbg e st) (event_post e F L st)"
proof -
  have small': "fresh st < 2 ^ 58" using small by simp
  have orig: "returns (\<lambda>dbg. handle_event dbg (Original i c) st) (event_post (Original i c) F L st)" if "e = Original i c" for i c
    using add_original_ok [OF inv _ small', of c i] c L(1) that by (auto simp: after_event_def event_post_def intro: returns_mono)
  have del: "returns (\<lambda>dbg. handle_event dbg (Delete i c) st) (event_post (Delete i c) F L st)" if "e = Delete i c" for i c
    using delete_ok(2) [OF inv _ small', of c L i] c L that by (auto simp: after_event_def event_post_def intro: returns_mono)
  show "returns (\<lambda>dbg. handle_event dbg e st) (event_post e F L st)" if "\<not> claims e" using orig del that by (cases e) auto
  show "concludes (\<lambda>dbg. handle_event dbg e st) (event_post e F L st)"
  proof (cases e)
    case (Derived i c)
    have "concludes (\<lambda>dbg. bind_res (add_derived_clause dbg i c st) Inr) (event_post e F L st)"
      using add_derived_ok [OF inv _ small', of c i] c Derived L(1)
      by (intro concludes_bind [where R = "\<lambda>s. entails F c \<and> after_event F (add_mset (i, set c)) st s"])
        (auto simp: after_event_def event_post_def concludes_def)
    then show ?thesis using Derived by simp
  next
    case (Assumption i c)
    then have c': "\<forall>l \<in> set c. small_lit l" using c by simp
    have "concludes (\<lambda>dbg. bind_res (add_derived_clause dbg i c st) (delete_clause dbg i c)) (event_post e F L st)"
    proof (rule concludes_bind [OF add_derived_ok [OF inv c' small', of i]])
      fix s1 assume s1: "entails F c \<and> after_event F (add_mset (i, set c)) st s1"
      then have d: "event_inv F s1" "fresh s1 \<le> fresh st + 1" "covers (add_mset (i, set c) L) s1" using L(1) by (auto simp: after_event_def)
      have "returns (\<lambda>dbg. delete_clause dbg i c s1) (after_event F (drop_live (i, set c)) s1)"
        using d small by (intro delete_ok(2) [OF d(1) c' _ d(3)]) simp_all
      then have "returns (\<lambda>dbg. delete_clause dbg i c s1) (event_post e F L st)"
        by (rule returns_mono) (use d Assumption in \<open>force simp: after_event_def event_post_def drop_live_def\<close>)
      then show "concludes (\<lambda>dbg. delete_clause dbg i c s1) (event_post e F L st)" by (rule returns_concludes)
    qed
    then show ?thesis using Assumption by (simp add: add_assumption_clause_def)
  qed (use orig del in \<open>auto intro: returns_concludes\<close>)
qed

text \<open>The checker at the start.\<close>

lemma event_inv_start: "event_inv {} Checker_new"
proof -
  have "length (init_nonces n r) = n" for n r by (induction n arbitrary: r) (simp_all add: Let_def)
  then show ?thesis
    by (auto simp: event_inv_def checker_inv_def prop_inv_def vars_ok_def trail_ok_def store_ok_def sound_def watches_ok_def table_ok_def
      settled_def Checker_new_def lit_ok_def placed_def)
qed

lemma covers_start: "covers {#} Checker_new"
  by simp

definition small_events :: "rup_event list \<Rightarrow> bool" where
  "small_events evs \<longleftrightarrow> (\<forall>e \<in> set evs. \<forall>l \<in> set (event_clause e). small_lit l) \<and> length evs < 2 ^ 57"

lemma run_snoc: "run_events dbg (evs @ [e]) = bind_res (run_events dbg evs) (handle_event dbg e)"
  by (simp add: run_events_def fold_res_append bind_res_def split: sum.split)

lemma run_sound:
  assumes "small_events evs" "run_events dbg evs = Inr st"
  shows "event_inv (originals evs) st \<and> fresh st \<le> 2 * length evs"
  using assms
proof (induction evs arbitrary: st rule: rev_induct)
  case Nil
  then show ?case using event_inv_start by (auto simp: run_events_def originals_def Checker_new_def)
next
  case (snoc e evs)
  obtain s where s: "run_events dbg evs = Inr s" "handle_event dbg e s = Inr st"
    using snoc.prems(2) by (auto simp: run_snoc bind_res_def split: sum.splits)
  have "small_events evs" using snoc.prems(1) by (auto simp: small_events_def)
  then have inv: "event_inv (originals evs) s" "fresh s \<le> 2 * length evs" using snoc.IH s(1) by auto
  have "fresh s + 1 < 2 ^ 58" "\<forall>l \<in> set (event_clause e). small_lit l" using snoc.prems(1) inv(2) by (auto simp: small_events_def)
  then show ?case using handle_event_sound [OF inv(1) _ _ s(2)] inv(2) by (simp add: originals_snoc)
qed

lemma run_concludes:
  assumes "small_events evs" "deletes_live {#} evs"
  shows "concludes (\<lambda>dbg. run_events dbg evs) (\<lambda>st. event_inv (originals evs) st \<and> fresh st \<le> 2 * length evs \<and> covers (fold live_after evs {#}) st)"
  using assms
proof (induction evs rule: rev_induct)
  case Nil
  then show ?case using event_inv_start by (simp add: concludes_def run_events_def originals_def Checker_new_def)
next
  case (snoc e evs)
  have live: "deletes_live {#} evs" "allowed e (fold live_after evs {#})"
    using snoc.prems(2) unfolding deletes_live_snoc by blast+
  have small: "small_events evs" "\<forall>l \<in> set (event_clause e). small_lit l" "2 * length evs + 1 < 2 ^ 58"
    using snoc.prems(1) by (auto simp: small_events_def)
  have "concludes (\<lambda>dbg. run_events dbg evs) (\<lambda>st. event_inv (originals evs) st \<and> fresh st \<le> 2 * length evs \<and> covers (fold live_after evs {#}) st)"
    using snoc.IH small(1) live(1) by blast
  then show ?case
    unfolding run_snoc
  proof (rule concludes_bind)
    fix s assume s: "event_inv (originals evs) s \<and> fresh s \<le> 2 * length evs \<and> covers (fold live_after evs {#}) s"
    then have "concludes (\<lambda>dbg. handle_event dbg e s) (event_post e (originals evs) (fold live_after evs {#}) s)"
      using small s live(2) by (intro handle_event_concludes(1)) auto
    then show "concludes (\<lambda>dbg. handle_event dbg e s)
        (\<lambda>st. event_inv (originals (evs @ [e])) st \<and> fresh st \<le> 2 * length (evs @ [e]) \<and> covers (fold live_after (evs @ [e]) {#}) st)"
      using s by (cases rule: concludesE) (auto simp: concludes_def event_post_def originals_snoc)
  qed
qed

end
