(* ===== verification/RupSound.thy ===== *)
theory RupSound
  imports RupEvents
begin

text \<open>
  The online proof checker, fourth part: what a run of the checker shows.  An accepted clause follows from the original
  ones, the store of clauses is consistent, and a run stops only at a clause that is refused.
\<close>

lemma fold_res_none [simp]: "fold_res f [] = Inr"
  by (rule ext) simp

lemma run_append: "run_events dbg (xs @ ys) = bind_res (run_events dbg xs) (fold_res (handle_event dbg) ys)"
  by (simp add: run_events_def fold_res_append)

lemma small_events_append: "small_events (xs @ ys) \<Longrightarrow> small_events xs"
  by (auto simp: small_events_def)

lemma run_prefix:
  assumes "small_events (pre @ e # post)" "run_events dbg (pre @ e # post) = Inr st"
  obtains s s' where "event_inv (originals pre) s" "fresh s + 1 < 2 ^ 58" "handle_event dbg e s = Inr s'"
proof -
  obtain s s' where s: "run_events dbg pre = Inr s" "handle_event dbg e s = Inr s'"
    using assms(2) by (auto simp: run_append bind_res_def split: sum.splits)
  have "event_inv (originals pre) s" "fresh s \<le> 2 * length pre" using run_sound [OF small_events_append [OF assms(1)] s(1)] by auto
  moreover have "2 * length pre + 1 < 2 ^ 58" using assms(1) by (simp add: small_events_def)
  ultimately show thesis using that s(2) by auto
qed

definition rup_example :: "rup_event list" where
  "rup_example = [Original 1 [1, 2], Original 2 [1, -2], Derived 3 [1], Original 4 [-1]]"

lemma rup_example_run:
  obtains st where "run_events True rup_example = Inr st" "inconsistent st"
proof -
  have "case run_events True rup_example of Inl e \<Rightarrow> False | Inr st \<Rightarrow> inconsistent st" by code_simp
  then show thesis using that by (auto split: sum.splits)
qed

lemma rup_example_small: "small_events rup_example"
  by (simp add: small_events_def rup_example_def small_lit_def)

section \<open>Soundness\<close>

text \<open>
  C35: in a run that ends without an error, every derived clause and every assumption clause follows from the original
  clauses before it, and when the checker has found the clauses inconsistent, the original ones are unsatisfiable.
\<close>

theorem rup_proof_sound:
  assumes "small_events evs" "run_events dbg evs = Inr st"
  shows "(\<forall>pre e post. evs = pre @ e # post \<and> claims e \<longrightarrow> entails (originals pre) (event_clause e)) \<and>
    (inconsistent st \<longrightarrow> unsat (originals evs))"
proof (intro conjI allI impI, elim conjE)
  fix pre e post assume e: "evs = pre @ e # post" "claims e"
  have "\<forall>l \<in> set (event_clause e). small_lit l" using assms(1) unfolding e(1) by (simp add: small_events_def)
  moreover have "small_events (pre @ e # post)" "run_events dbg (pre @ e # post) = Inr st" using assms unfolding e(1) .
  then obtain s s' where "event_inv (originals pre) s" "fresh s + 1 < 2 ^ 58" "handle_event dbg e s = Inr s'"
    by (rule run_prefix)
  ultimately show "entails (originals pre) (event_clause e)" using handle_event_sound e(2) by blast
next
  assume "inconsistent st"
  then show "unsat (originals evs)" using run_sound [OF assms] by (simp add: event_inv_def settled_def)
qed

theorem rup_proof_sound_witness:
  "entails {[1, 2], [1, -2]} [1] \<and> unsat {[1, 2], [1, -2], [-1]}"
proof -
  obtain st where st: "run_events True rup_example = Inr st" "inconsistent st" using rup_example_run .
  have "originals [] = {}" by (simp add: originals_def)
  then have o: "originals [Original 1 [1, 2], Original 2 [1, -2]] = {[1, 2], [1, -2]}" "originals rup_example = {[1, 2], [1, -2], [-1]}"
    by (simp_all add: originals_Cons rup_example_def insert_commute)
  have e: "rup_example = [Original 1 [1, 2], Original 2 [1, -2]] @ Derived 3 [1] # [Original 4 [-1]]" "claims (Derived 3 [1])"
    by (simp_all add: rup_example_def)
  note r = rup_proof_sound [OF rup_example_small st(1)]
  have "entails (originals [Original 1 [1, 2], Original 2 [1, -2]]) (event_clause (Derived 3 [1]))" using r e by blast
  moreover have "unsat (originals rup_example)" using r st(2) by blast
  ultimately show ?thesis unfolding o by simp
qed

section \<open>The store\<close>

text \<open>
  C36: after a run without an error the store of clauses is consistent: every object is in exactly one chain or in the
  garbage list and was not freed, the counters are right, a clause is in the chain of its hash value and has its
  literals, of different variables, and every watch points to an object that has the watched literal.
\<close>

theorem rup_store_consistent:
  assumes "small_events evs" "run_events dbg evs = Inr st"
  shows "distinct (concat (clauses st) @ garbage st) \<and> dom (objects st) = set (concat (clauses st) @ garbage st) \<and>
    num_clauses st = length (concat (clauses st)) \<and> num_garbage st = length (garbage st) \<and>
    (\<forall>i < length (clauses st). \<forall>a \<in> set (clauses st ! i). \<exists>c. objects st a = Some c \<and> csize c = length (literals c) \<and>
       2 \<le> csize c \<and> distinct (map abs (literals c)) \<and>
       reduce_hash dbg' (hash c) (word_of_nat (length (clauses st))) = Inr (word_of_nat i)) \<and>
    (\<forall>l. l \<noteq> 0 \<and> \<bar>l\<bar> < int (size_vars st) \<longrightarrow>
       (\<forall>w \<in> set (watchers st ! nat (2 * (\<bar>l\<bar> - 1) + (if l < 0 then 1 else 0))).
          \<exists>c. objects st (wclause w) = Some c \<and> l \<in> set (literals c) \<and> blit w \<noteq> l))"
proof -
  have inv: "checker_inv (originals evs) st" and fresh: "fresh st \<le> 2 * length evs"
    using run_sound [OF assms] by (auto simp: event_inv_def)
  have t: "table_ok st" and p: "prop_inv (originals evs) (originals evs) (watches_of st) st" using inv by (auto simp: checker_inv_def)
  have chains: "\<exists>c. objects st a = Some c \<and> csize c = length (literals c) \<and> 2 \<le> csize c \<and> distinct (map abs (literals c)) \<and>
      reduce_hash dbg' (hash c) (word_of_nat (length (clauses st))) = Inr (word_of_nat i)"
    if a: "i < length (clauses st)" "a \<in> set (clauses st ! i)" for i a
  proof -
    obtain c where c: "objects st a = Some c" "csize c \<noteq> 0" "home (hash c) (length (clauses st)) = i"
      using placed_nth [OF table_okD(7) [OF t] a] by blast
    have n: "0 < length (clauses st)" "length (clauses st) < 2 ^ 64"
      using a(1) table_okD(2) [OF t] fresh assms(1) by (auto simp: small_events_def)
    obtain h where h: "\<And>dbg. reduce_hash dbg (hash c) (word_of_nat (length (clauses st))) = Inr h" "unat h = home (hash c) (length (clauses st))"
      using home_ok [OF n] by blast
    have "h = word_of_nat i" unfolding c(3) [symmetric] h(2) [symmetric] by simp
    moreover have ok: "clause_ok (size_vars st) c" using prop_inv_object(1) [OF p c(1)] .
    then have "inj_on abs (set (literals c))" by (auto simp: clause_ok_def inj_on_def abs_if split: if_splits)
    ultimately show ?thesis using c h(1) ok by (auto simp: clause_ok_def distinct_map)
  qed
  have "\<exists>c. objects st (wclause w) = Some c \<and> l \<in> set (literals c) \<and> blit w \<noteq> l"
    if l: "l \<noteq> 0 \<and> \<bar>l\<bar> < int (size_vars st)" "w \<in> set (watchers st ! nat (2 * (\<bar>l\<bar> - 1) + (if l < 0 then 1 else 0)))" for l w
  proof -
    have "watch_ok (size_vars st) (objects st) l w"
      using prop_invD(4) [OF p] l by (simp add: watches_ok_def lit_ok_def watches_of_def lit_slot_def)
    then show ?thesis by (auto simp: watch_ok_def split: if_splits dest: in_set_takeD)
  qed
  then show ?thesis using table_okD(3,4,5,6) [OF t] chains by blast
qed

theorem rup_store_consistent_witness:
  "\<exists>st. run_events True rup_example = Inr st \<and> distinct (concat (clauses st) @ garbage st)"
proof -
  obtain st where "run_events True rup_example = Inr st" using rup_example_run .
  then show ?thesis using rup_store_consistent [OF rup_example_small, of True st] by blast
qed

section \<open>Totality\<close>

text \<open>
  C37: a run on literals below \<open>2 ^ 30\<close> that deletes live clauses only either ends without a fault and with the same
  result whether or not assertions are compiled in, or it is aborted, and then by a derived or assumption clause that
  is refused.
\<close>

theorem rup_run_total:
  assumes "small_events evs" "deletes_live {#} evs"
  shows "(\<exists>st. \<forall>dbg. run_events dbg evs = Inr st) \<or>
    (\<forall>dbg. run_events dbg evs = Inl Aborted) \<and>
    (\<exists>pre e post. evs = pre @ e # post \<and> claims e \<and> (\<exists>st. \<forall>dbg. run_events dbg pre = Inr st \<and> handle_event dbg e st = Inl Aborted))"
  using assms
proof (induction evs rule: rev_induct)
  case Nil
  then show ?case by (simp add: run_events_def)
next
  case (snoc e evs)
  have IH: "small_events evs" "deletes_live {#} evs" using snoc.prems small_events_append by (auto simp: deletes_live_snoc)
  show ?case
  proof (cases "\<exists>st. \<forall>dbg. run_events dbg evs = Inr st")
    case True
    then obtain st where st: "\<And>dbg. run_events dbg evs = Inr st" by blast
    have inv: "event_inv (originals evs) st" "fresh st + 1 < 2 ^ 58" "covers (fold live_after evs {#}) st"
      using run_concludes [OF IH] st snoc.prems(1) by (auto simp: concludes_def small_events_def)
    have e: "\<forall>l \<in> set (event_clause e). small_lit l" "allowed e (fold live_after evs {#})"
      using snoc.prems by (auto simp: small_events_def deletes_live_snoc)
    have run: "run_events dbg (evs @ [e]) = handle_event dbg e st" for dbg using st by (simp add: run_append)
    show ?thesis
    proof (cases "claims e")
      case True
      show ?thesis
      proof (rule concludesE [OF handle_event_concludes(1) [OF inv(1) e(1) inv(2,3) e(2)]])
        assume "\<And>dbg. handle_event dbg e st = Inl Aborted"
        then have "\<forall>dbg. run_events dbg (evs @ [e]) = Inl Aborted" "\<forall>dbg. run_events dbg evs = Inr st \<and> handle_event dbg e st = Inl Aborted"
          using run st by simp_all
        then show ?thesis using True by blast
      next
        fix x assume "\<And>dbg. handle_event dbg e st = Inr x"
        then show ?thesis using run by simp
      qed
    next
      case False
      then show ?thesis using handle_event_concludes(2) [OF inv(1) e(1) inv(2,3) e(2) False] run by (auto simp: returns_def)
    qed
  next
    case False
    then obtain pre d post where p: "\<forall>dbg. run_events dbg evs = Inl Aborted" "evs = pre @ d # post" "claims d"
      "\<exists>st. \<forall>dbg. run_events dbg pre = Inr st \<and> handle_event dbg d st = Inl Aborted"
      using snoc.IH IH by blast
    have "run_events dbg (evs @ [e]) = Inl Aborted" for dbg using p(1) by (simp add: run_append)
    moreover have "evs @ [e] = pre @ d # post @ [e]" using p(2) by simp
    ultimately show ?thesis using p(3,4) by blast
  qed
qed

theorem rup_run_total_witness: "\<exists>st. \<forall>dbg. run_events dbg [Original 1 [1, 2], Delete 1 [2, 1]] = Inr st"
proof -
  let ?evs = "[Original 1 [1, 2], Delete 1 [2, 1]]"
  have "small_events ?evs" by (simp add: small_events_def small_lit_def)
  moreover have "deletes_live {#} ?evs" by (simp add: insert_commute)
  moreover have "\<not> claims e" if "?evs = pre @ e # post" for pre e post
  proof -
    have "e \<in> set ?evs" unfolding that by simp
    then show ?thesis by auto
  qed
  ultimately show ?thesis using rup_run_total [of ?evs] by blast
qed

end
