(* ===== verification/DecisionQueue.thy ===== *)
theory DecisionQueue
  imports Prelude
begin

text \<open>
  The variable move to front (VMTF) decision queue of the SAT solver: \<^verbatim>\<open>queue.hpp\<close>, \<^verbatim>\<open>queue.cpp\<close>, the decision on the queue
  of \<^verbatim>\<open>decide.cpp\<close>, bumping in \<^verbatim>\<open>analyze.cpp\<close>, the part of \<^verbatim>\<open>unassign\<close> in \<^verbatim>\<open>backtrack.cpp\<close> that keeps the queue up to
  date, and the map of the queue in \<^verbatim>\<open>compact.cpp\<close>.  The queue is a doubly linked list in an array indexed by variables.
  Variables are natural numbers and 0 is none, as in the code.  Options are arguments, and the flag \<open>dbg\<close> says whether
  assertions are compiled in.
\<close>

section \<open>The queue\<close>

record link =
  lprev :: nat
  lnext :: nat

record vmtf =
  links :: "link list"
  q_first :: nat
  q_last :: nat
  q_unassigned :: nat
  q_bumped :: int
  btab :: "int list"
  bump_count :: int
  q_vals :: "int list"
  q_max_var :: nat

definition INT64_MAX :: int where
  "INT64_MAX = 9223372036854775807"

definition INT64_MIN :: int where
  "INT64_MIN = - 9223372036854775808"

definition set_prev :: "nat \<Rightarrow> nat \<Rightarrow> vmtf \<Rightarrow> vmtf res" where
  "set_prev idx p st =
     bind_res (get_at (links st) idx) (\<lambda>l. Inr (st\<lparr>links := (links st)[idx := l\<lparr>lprev := p\<rparr>]\<rparr>))"

definition set_next :: "nat \<Rightarrow> nat \<Rightarrow> vmtf \<Rightarrow> vmtf res" where
  "set_next idx n st =
     bind_res (get_at (links st) idx) (\<lambda>l. Inr (st\<lparr>links := (links st)[idx := l\<lparr>lnext := n\<rparr>]\<rparr>))"

text \<open>The reference to the link is read again after the writes.\<close>

definition dequeue :: "nat \<Rightarrow> vmtf \<Rightarrow> vmtf res" where
  "dequeue idx st =
     bind_res (get_at (links st) idx) (\<lambda>l.
     bind_res (if lprev l \<noteq> 0 then set_next (lprev l) (lnext l) st else Inr (st\<lparr>q_first := lnext l\<rparr>)) (\<lambda>st.
     bind_res (get_at (links st) idx) (\<lambda>l.
       if lnext l \<noteq> 0 then set_prev (lnext l) (lprev l) st else Inr (st\<lparr>q_last := lprev l\<rparr>))))"

definition enqueue :: "nat \<Rightarrow> vmtf \<Rightarrow> vmtf res" where
  "enqueue idx st =
     bind_res (set_prev idx (q_last st) st) (\<lambda>st.
     bind_res (if q_last st \<noteq> 0 then set_next (q_last st) idx st else Inr (st\<lparr>q_first := idx\<rparr>)) (\<lambda>st.
       set_next idx 0 (st\<lparr>q_last := idx\<rparr>)))"

definition update_queue_unassigned :: "bool \<Rightarrow> nat \<Rightarrow> vmtf \<Rightarrow> vmtf res" where
  "update_queue_unassigned dbg idx st =
     bind_res (cassert dbg (0 < idx \<and> idx \<le> q_max_var st)) (\<lambda>_.
     bind_res (get_at (btab st) idx) (\<lambda>b. Inr (st\<lparr>q_unassigned := idx, q_bumped := b\<rparr>)))"

definition set_stamp :: "nat \<Rightarrow> int \<Rightarrow> vmtf \<Rightarrow> vmtf res" where
  "set_stamp idx b st = bind_res (set_at (btab st) idx b) (\<lambda>bs. Inr (st\<lparr>btab := bs\<rparr>))"

text \<open>The next time stamp is taken.\<close>

definition next_stamp :: "nat \<Rightarrow> vmtf \<Rightarrow> vmtf res" where
  "next_stamp idx st =
     (if bump_count st = INT64_MAX then Inl SignedOverflow
      else set_stamp idx (bump_count st + 1) (st\<lparr>bump_count := bump_count st + 1\<rparr>))"

section \<open>New variables\<close>

definition enqueue_first :: "bool \<Rightarrow> nat \<Rightarrow> vmtf \<Rightarrow> vmtf res" where
  "enqueue_first dbg idx st =
     bind_res (set_prev idx 0 st) (\<lambda>st.
     bind_res (if q_first st \<noteq> 0
               then bind_res (get_at (links st) (q_first st)) (\<lambda>l.
                    bind_res (cassert dbg (lprev l = 0)) (\<lambda>_.
                    bind_res (set_prev (q_first st) idx st) (\<lambda>st.
                    bind_res (get_at (btab st) (q_first st)) (\<lambda>b.
                      if b = INT64_MIN then Inl SignedOverflow else set_stamp idx (b - 1) st))))
               else bind_res (cassert dbg (q_last st = 0)) (\<lambda>_. set_stamp idx 0 (st\<lparr>q_last := idx\<rparr>))) (\<lambda>st.
     bind_res (get_at (btab st) idx) (\<lambda>b.
     bind_res (cassert dbg (b \<le> bump_count st)) (\<lambda>_.
     bind_res (set_next idx (q_first st) st) (\<lambda>st.
     let st = st\<lparr>q_first := idx\<rparr>
     in if q_unassigned st = 0 then update_queue_unassigned dbg (q_last st) st else Inr st)))))"

definition enqueue_last :: "bool \<Rightarrow> nat \<Rightarrow> vmtf \<Rightarrow> vmtf res" where
  "enqueue_last dbg idx st =
     bind_res (set_next idx 0 st) (\<lambda>st.
     bind_res (if q_last st \<noteq> 0
               then bind_res (get_at (links st) (q_last st)) (\<lambda>l.
                    bind_res (cassert dbg (lnext l = 0)) (\<lambda>_. set_next (q_last st) idx st))
               else bind_res (cassert dbg (q_first st = 0)) (\<lambda>_. Inr (st\<lparr>q_first := idx\<rparr>))) (\<lambda>st.
     bind_res (next_stamp idx st) (\<lambda>st.
     bind_res (set_prev idx (q_last st) st) (\<lambda>st.
       update_queue_unassigned dbg idx (st\<lparr>q_last := idx\<rparr>)))))"

definition init_enqueue :: "bool \<Rightarrow> bool \<Rightarrow> nat \<Rightarrow> vmtf \<Rightarrow> vmtf res" where
  "init_enqueue dbg reverse idx = (if reverse then enqueue_first dbg idx else enqueue_last dbg idx)"

definition init_queue :: "bool \<Rightarrow> bool \<Rightarrow> nat \<Rightarrow> nat \<Rightarrow> vmtf \<Rightarrow> vmtf res" where
  "init_queue dbg reverse old_max_var new_max_var st =
     bind_res (cassert dbg (old_max_var < new_max_var)) (\<lambda>_.
       fold_res (\<lambda>idx. init_enqueue dbg reverse (idx + 1)) [old_max_var..<new_max_var] st)"

section \<open>Bumping, unassigning and deciding\<close>

definition value_of :: "bool \<Rightarrow> nat \<Rightarrow> vmtf \<Rightarrow> int res" where
  "value_of dbg idx st =
     bind_res (cassert dbg (idx \<noteq> 0 \<and> idx \<le> q_max_var st)) (\<lambda>_. get_at (q_vals st) idx)"

definition bump_queue :: "bool \<Rightarrow> nat \<Rightarrow> vmtf \<Rightarrow> vmtf res" where
  "bump_queue dbg idx st =
     bind_res (cassert dbg (idx \<noteq> 0 \<and> idx \<le> q_max_var st)) (\<lambda>_.
     bind_res (get_at (links st) idx) (\<lambda>l.
       if lnext l = 0 then Inr st
       else bind_res (dequeue idx st) (\<lambda>st.
            bind_res (enqueue idx st) (\<lambda>st.
            bind_res (cassert dbg (bump_count st \<noteq> INT64_MAX)) (\<lambda>_.
            bind_res (next_stamp idx st) (\<lambda>st.
            bind_res (get_at (q_vals st) idx) (\<lambda>v.
              if v = 0 then update_queue_unassigned dbg idx st else Inr st)))))))"

text \<open>A variable gets a value, and loses it; the value kept is that of the positive literal.\<close>

definition assign_value :: "bool \<Rightarrow> nat \<Rightarrow> int \<Rightarrow> vmtf \<Rightarrow> vmtf res" where
  "assign_value dbg idx v st =
     bind_res (cassert dbg (- 1 \<le> v \<and> v \<le> 1 \<and> idx \<noteq> 0 \<and> idx \<le> q_max_var st)) (\<lambda>_.
     bind_res (set_at (q_vals st) idx v) (\<lambda>vs. Inr (st\<lparr>q_vals := vs\<rparr>)))"

definition unassign_queue :: "bool \<Rightarrow> nat \<Rightarrow> vmtf \<Rightarrow> vmtf res" where
  "unassign_queue dbg idx st =
     bind_res (assign_value dbg idx 0 st) (\<lambda>st.
     bind_res (get_at (btab st) idx) (\<lambda>b.
       if q_bumped st < b then update_queue_unassigned dbg idx st else Inr st))"

definition search_step :: "bool \<Rightarrow> vmtf \<Rightarrow> nat \<times> nat \<Rightarrow> (bool \<times> nat \<times> nat) res" where
  "search_step dbg st s =
     (case s of (r, searched) \<Rightarrow>
        bind_res (value_of dbg r st) (\<lambda>v.
          if v \<noteq> 0 then bind_res (get_at (links st) r) (\<lambda>l. Inr (True, lprev l, searched + 1))
          else Inr (False, r, searched)))"

definition next_decision_variable_on_queue :: "bool \<Rightarrow> vmtf \<Rightarrow> (nat \<times> vmtf) res" where
  "next_decision_variable_on_queue dbg st =
     bind_res (loop (search_step dbg st) (q_unassigned st, 0)) (\<lambda>(r, searched).
     bind_res (if searched \<noteq> 0 then update_queue_unassigned dbg r st else Inr st) (\<lambda>st. Inr (r, st)))"

section \<open>Shuffling\<close>

text \<open>The walk through the queue from its end.\<close>

definition back_step :: "vmtf \<Rightarrow> nat \<times> nat list \<Rightarrow> (bool \<times> nat \<times> nat list) res" where
  "back_step st s =
     (case s of (idx, seen) \<Rightarrow>
        if idx = 0 then Inr (False, s)
        else bind_res (get_at (links st) idx) (\<lambda>l. Inr (True, lprev l, seen @ [idx])))"

definition backwards :: "vmtf \<Rightarrow> nat list res" where
  "backwards st = bind_res (loop (back_step st) (q_last st, [])) (\<lambda>(idx, seen). Inr seen)"

text \<open>The random numbers \<open>pick i\<close> are drawn from \<open>i..max_var - 1\<close>.\<close>

fun swaps :: "(nat \<Rightarrow> nat) \<Rightarrow> nat list \<Rightarrow> nat list \<Rightarrow> nat list res" where
  "swaps pick [] xs = Inr xs"
| "swaps pick (i # is) xs =
     bind_res (get_at xs i) (\<lambda>x. bind_res (get_at xs (pick i)) (\<lambda>y. swaps pick is (xs[i := y, pick i := x])))"

definition stamp_step :: "nat \<times> int \<times> vmtf \<Rightarrow> (bool \<times> nat \<times> int \<times> vmtf) res" where
  "stamp_step s =
     (case s of (idx, b, st) \<Rightarrow>
        if idx = 0 then Inr (False, s)
        else bind_res (set_stamp idx b st) (\<lambda>st.
             if b = INT64_MIN then Inl SignedOverflow
             else bind_res (get_at (links st) idx) (\<lambda>l. Inr (True, lprev l, b - 1, st))))"

definition shuffle_queue :: "bool \<Rightarrow> (nat \<Rightarrow> nat) \<Rightarrow> vmtf \<Rightarrow> vmtf res" where
  "shuffle_queue shufflerandom pick st =
     bind_res (if shufflerandom then swaps pick [0..<q_max_var st - 1] (rev [1..<q_max_var st + 1]) else backwards st) (\<lambda>shuffle.
     bind_res (fold_res enqueue shuffle (st\<lparr>q_first := 0, q_last := 0\<rparr>)) (\<lambda>st.
     bind_res (loop stamp_step (q_last st, q_bumped st, st)) (\<lambda>(idx, b, st). Inr (st\<lparr>q_unassigned := q_last st\<rparr>))))"


section \<open>Compacting\<close>

record mapper =
  m_table :: "nat list"
  m_new_max_var :: nat
  m_first_fixed :: nat
  m_map_first_fixed :: nat

definition map_one :: "(nat \<Rightarrow> bool) \<Rightarrow> (nat \<Rightarrow> bool) \<Rightarrow> nat \<Rightarrow> mapper \<Rightarrow> mapper res" where
  "map_one active fixed src m =
     (let dst = m_new_max_var m + 1
      in if active src
         then bind_res (set_at (m_table m) src dst) (\<lambda>t. Inr (m\<lparr>m_table := t, m_new_max_var := dst\<rparr>))
         else if fixed src \<and> m_first_fixed m = 0
         then bind_res (set_at (m_table m) src dst) (\<lambda>t.
              Inr (m\<lparr>m_table := t, m_new_max_var := dst, m_first_fixed := src, m_map_first_fixed := dst\<rparr>))
         else Inr m)"

definition Mapper_new :: "(nat \<Rightarrow> bool) \<Rightarrow> (nat \<Rightarrow> bool) \<Rightarrow> nat \<Rightarrow> mapper res" where
  "Mapper_new active fixed max_var =
     fold_res (map_one active fixed) [1..<max_var + 1]
       \<lparr>m_table = replicate (max_var + 1) 0, m_new_max_var = 0, m_first_fixed = 0, m_map_first_fixed = 0\<rparr>"

definition map_idx :: "bool \<Rightarrow> nat \<Rightarrow> mapper \<Rightarrow> nat \<Rightarrow> nat res" where
  "map_idx dbg max_var m src =
     bind_res (cassert dbg (0 < src \<and> src \<le> max_var)) (\<lambda>_.
     bind_res (get_at (m_table m) src) (\<lambda>r. bind_res (cassert dbg (r \<le> m_new_max_var m)) (\<lambda>_. Inr r)))"

definition map_entry :: "bool \<Rightarrow> nat \<Rightarrow> mapper \<Rightarrow> nat \<Rightarrow> 'a list \<Rightarrow> 'a list res" where
  "map_entry dbg max_var m src v =
     bind_res (map_idx dbg max_var m src) (\<lambda>dst.
       if dst = 0 then Inr v
       else bind_res (cassert dbg (dst \<le> src)) (\<lambda>_. bind_res (get_at v src) (\<lambda>x. set_at v dst x)))"

text \<open>\<open>d\<close> is the value of new entries, which the code does not have as vectors do not grow here.\<close>

definition map_vector :: "bool \<Rightarrow> nat \<Rightarrow> mapper \<Rightarrow> 'a \<Rightarrow> 'a list \<Rightarrow> 'a list res" where
  "map_vector dbg max_var m d v =
     bind_res (fold_res (map_entry dbg max_var m) [1..<max_var + 1] v) (\<lambda>v. Inr (resize (m_new_max_var m + 1) d v))"

text \<open>The values go to a new array; the entry of unmapped variables is overwritten at last.\<close>

definition map_value :: "bool \<Rightarrow> nat \<Rightarrow> mapper \<Rightarrow> int list \<Rightarrow> nat \<Rightarrow> int list \<Rightarrow> int list res" where
  "map_value dbg max_var m vals src new_vals =
     bind_res (map_idx dbg max_var m src) (\<lambda>dst. bind_res (get_at vals src) (\<lambda>v. set_at new_vals dst v))"

definition map_vals :: "bool \<Rightarrow> nat \<Rightarrow> mapper \<Rightarrow> int list \<Rightarrow> int list \<Rightarrow> int list res" where
  "map_vals dbg max_var m new_vals vals =
     bind_res (fold_res (map_value dbg max_var m vals) [1..<max_var + 1] new_vals) (\<lambda>vs. set_at vs 0 0)"

definition flush_step :: "bool \<Rightarrow> mapper \<Rightarrow> (nat \<Rightarrow> bool) \<Rightarrow> nat \<times> nat \<times> nat \<times> vmtf \<Rightarrow> (bool \<times> nat \<times> nat \<times> nat \<times> vmtf) res" where
  "flush_step dbg m active s =
     (case s of (idx, prev, mapped_prev, st) \<Rightarrow>
        if idx = 0 then Inr (False, s)
        else bind_res (get_at (links st) idx) (\<lambda>l.
             if idx = m_first_fixed m then Inr (True, lnext l, prev, mapped_prev, st)
             else bind_res (map_idx dbg (q_max_var st) m idx) (\<lambda>dst.
                  if dst = 0 then Inr (True, lnext l, prev, mapped_prev, st)
                  else bind_res (cassert dbg (active idx)) (\<lambda>_.
                       bind_res (if prev \<noteq> 0 then set_next prev dst st else Inr (st\<lparr>q_first := dst\<rparr>)) (\<lambda>st.
                       bind_res (set_prev idx mapped_prev st) (\<lambda>st. Inr (True, lnext l, idx, dst, st)))))))"

definition flush_queue :: "bool \<Rightarrow> mapper \<Rightarrow> (nat \<Rightarrow> bool) \<Rightarrow> vmtf \<Rightarrow> vmtf res" where
  "flush_queue dbg m active st =
     bind_res (loop (flush_step dbg m active) (q_first st, 0, 0, st)) (\<lambda>(idx, prev, mapped_prev, st).
     bind_res (if prev \<noteq> 0 then set_next prev 0 st else Inr (st\<lparr>q_first := 0\<rparr>)) (\<lambda>st.
       Inr (st\<lparr>q_last := mapped_prev, q_unassigned := mapped_prev\<rparr>)))"

text \<open>The new array of values is not initialised: \<open>junk\<close>.\<close>

definition compact_queue :: "bool \<Rightarrow> (nat \<Rightarrow> bool) \<Rightarrow> (nat \<Rightarrow> bool) \<Rightarrow> (nat \<Rightarrow> int) \<Rightarrow> vmtf \<Rightarrow> vmtf res" where
  "compact_queue dbg active fixed junk st =
     bind_res (Mapper_new active fixed (q_max_var st)) (\<lambda>m.
     bind_res (flush_queue dbg m active st) (\<lambda>st.
     bind_res (map_vals dbg (q_max_var st) m (map junk [0..<m_new_max_var m + 1]) (q_vals st)) (\<lambda>vs.
     bind_res (map_vector dbg (q_max_var st) m 0 (btab st)) (\<lambda>bs.
     bind_res (map_vector dbg (q_max_var st) m \<lparr>lprev = 0, lnext = 0\<rparr> (links st)) (\<lambda>ls.
       Inr (st\<lparr>q_vals := vs, btab := bs, links := ls, q_max_var := m_new_max_var m\<rparr>))))))"

section \<open>The tables\<close>

definition enlarge_tables :: "nat \<Rightarrow> vmtf \<Rightarrow> vmtf" where
  "enlarge_tables n st =
     (if length (links st) \<le> n
      then let v = grow n (if length (links st) \<noteq> 0 then 2 * length (links st) else 1 + n)
           in st\<lparr>links := resize v \<lparr>lprev = 0, lnext = 0\<rparr> (links st), btab := resize v 0 (btab st), q_vals := resize v 0 (q_vals st)\<rparr>
      else st)"

definition add_variables :: "bool \<Rightarrow> bool \<Rightarrow> nat \<Rightarrow> vmtf \<Rightarrow> vmtf res" where
  "add_variables dbg reverse n st =
     (if n \<le> q_max_var st then Inr st
      else let st1 = enlarge_tables n st
           in bind_res (cassert dbg (\<forall>i \<in> set [q_max_var st + 1..<n + 1]. q_vals st1 ! i = 0 \<and> btab st1 ! i = 0)) (\<lambda>_.
              bind_res (cassert dbg (btab st1 ! 0 = 0)) (\<lambda>_.
                init_queue dbg reverse (q_max_var st) n (st1\<lparr>q_max_var := n\<rparr>))))"

definition vmtf_new :: vmtf where
  "vmtf_new =
     \<lparr>links = [], q_first = 0, q_last = 0, q_unassigned = 0, q_bumped = 0, btab = [], bump_count = 0, q_vals = [], q_max_var = 0\<rparr>"

section \<open>Events\<close>

text \<open>
  A shuffle comes with whether it is random and with the numbers drawn, the growth of the tables with the option
  \<open>reverse\<close>, and compaction with the variables that are active and those that are fixed.
\<close>

datatype queue_event =
    AddVars bool nat
  | BumpVar nat
  | AssignVar nat int
  | UnassignVar nat
  | DecideQueue
  | ShuffleQueue bool "nat list"
  | CompactQueue "nat list" "nat list"

definition picker :: "nat list \<Rightarrow> nat \<Rightarrow> nat" where
  "picker picks i = (if i < length picks then picks ! i else i)"

text \<open>A step returns the decision; it is 0 for the other events.\<close>

definition silent :: "vmtf res \<Rightarrow> (nat \<times> vmtf) res" where
  "silent r = bind_res r (\<lambda>st. Inr (0, st))"

fun queue_step :: "bool \<Rightarrow> (nat \<Rightarrow> int) \<Rightarrow> queue_event \<Rightarrow> vmtf \<Rightarrow> (nat \<times> vmtf) res" where
  "queue_step dbg junk (AddVars reverse n) st = silent (add_variables dbg reverse n st)"
| "queue_step dbg junk (BumpVar x) st = silent (bump_queue dbg x st)"
| "queue_step dbg junk (AssignVar x v) st = silent (assign_value dbg x v st)"
| "queue_step dbg junk (UnassignVar x) st = silent (unassign_queue dbg x st)"
| "queue_step dbg junk DecideQueue st = next_decision_variable_on_queue dbg st"
| "queue_step dbg junk (ShuffleQueue shufflerandom picks) st = silent (shuffle_queue shufflerandom (picker picks) st)"
| "queue_step dbg junk (CompactQueue actives fixeds) st =
     silent (compact_queue dbg (\<lambda>x. x \<in> set actives) (\<lambda>x. x \<in> set fixeds) junk st)"

fun queue_run :: "bool \<Rightarrow> (nat \<Rightarrow> int) \<Rightarrow> queue_event list \<Rightarrow> vmtf \<Rightarrow> (nat list \<times> vmtf) res" where
  "queue_run dbg junk [] st = Inr ([], st)"
| "queue_run dbg junk (e # es) st =
     bind_res (queue_step dbg junk e st) (\<lambda>(r, st).
     bind_res (queue_run dbg junk es st) (\<lambda>(rs, st). Inr (r # rs, st)))"

end
