(* ===== verification/QueueOrder.thy ===== *)
theory QueueOrder
  imports DecisionQueue
begin

text \<open>
  The decision queue is a list of variables: the chain of links, the invariant of the queue with its stamps and its
  pointer, and what bumping, assigning and unassigning, new variables and decisions do to the list.
\<close>

section \<open>Chains of links\<close>

text \<open>
  The variables of a list are linked in its order; the links are the values of \<open>f\<close> on the neighbours, as the map of
  the queue writes the new index of a variable into the links of the old one.
\<close>

fun chain :: "(nat \<Rightarrow> nat) \<Rightarrow> link list \<Rightarrow> nat \<Rightarrow> nat list \<Rightarrow> nat \<Rightarrow> bool" where
  "chain f ls p [] n = True"
| "chain f ls p (x # xs) n =
     (x < length ls \<and> lprev (ls ! x) = p \<and> lnext (ls ! x) = (if xs = [] then n else f (hd xs)) \<and> chain f ls (f x) xs n)"

lemma chain_append:
  "chain f ls p (xs @ ys) n \<longleftrightarrow>
     chain f ls p xs (if ys = [] then n else f (hd ys)) \<and> chain f ls (if xs = [] then p else f (last xs)) ys n"
  by (induction xs arbitrary: p) auto

lemma chain_frame:
  "(\<And>x. x \<in> set xs \<Longrightarrow> ls' ! x = ls ! x) \<Longrightarrow> length ls' = length ls \<Longrightarrow> chain f ls' p xs n = chain f ls p xs n"
  by (induction xs arbitrary: p) auto

lemma chain_update: "a \<notin> set xs \<Longrightarrow> chain f (ls[a := l]) p xs n = chain f ls p xs n"
  by (rule chain_frame) (metis nth_list_update_neq, simp)

lemma chain_bounded: "chain f ls p xs n \<Longrightarrow> x \<in> set xs \<Longrightarrow> x < length ls"
  by (induction xs arbitrary: p) auto

lemma chain_set_next:
  assumes "chain f ls p xs n" "distinct xs" "xs \<noteq> []"
  shows "chain f (ls[last xs := (ls ! last xs)\<lparr>lnext := m\<rparr>]) p xs m"
  using assms
proof (induction xs arbitrary: p)
  case (Cons x xs)
  show ?case
  proof (cases "xs = []")
    case False
    then have "last xs \<noteq> x" using Cons.prems(2) last_in_set [of xs] by auto
    then show ?thesis using Cons False by auto
  qed (use Cons.prems in simp)
qed simp

lemma chain_set_prev:
  assumes "chain f ls p xs n" "distinct xs" "xs \<noteq> []"
  shows "chain f (ls[hd xs := (ls ! hd xs)\<lparr>lprev := q\<rparr>]) q xs n"
proof (cases xs)
  case (Cons x ys)
  then show ?thesis using assms by (auto simp: chain_update)
qed (use assms in simp)

text \<open>The shape of the queue.\<close>

definition shaped :: "nat list \<Rightarrow> vmtf \<Rightarrow> bool" where
  "shaped xs st \<longleftrightarrow>
     chain id (links st) 0 xs 0 \<and> distinct xs \<and> 0 \<notin> set xs \<and>
     q_first st = (if xs = [] then 0 else hd xs) \<and> q_last st = (if xs = [] then 0 else last xs)"

definition relinked :: "vmtf \<Rightarrow> vmtf \<Rightarrow> bool" where
  "relinked st st' \<longleftrightarrow>
     q_unassigned st' = q_unassigned st \<and> q_bumped st' = q_bumped st \<and> btab st' = btab st \<and> bump_count st' = bump_count st \<and>
     q_vals st' = q_vals st \<and> q_max_var st' = q_max_var st \<and> length (links st') = length (links st)"

lemma relinkedD:
  assumes "relinked st st'"
  shows "q_unassigned st' = q_unassigned st" "q_bumped st' = q_bumped st" "btab st' = btab st" "bump_count st' = bump_count st"
    "q_vals st' = q_vals st" "q_max_var st' = q_max_var st" "length (links st') = length (links st)"
  using assms by (auto simp: relinked_def)

lemma set_next_ok: "i < length (links st) \<Longrightarrow> set_next i m st = Inr (st\<lparr>links := (links st)[i := (links st ! i)\<lparr>lnext := m\<rparr>]\<rparr>)"
  by (simp add: set_next_def)

lemma set_prev_ok: "i < length (links st) \<Longrightarrow> set_prev i m st = Inr (st\<lparr>links := (links st)[i := (links st ! i)\<lparr>lprev := m\<rparr>]\<rparr>)"
  by (simp add: set_prev_def)

lemma shaped_middle:
  assumes "shaped (pre @ x # post) st"
  shows "x < length (links st)" "lprev (links st ! x) = (if pre = [] then 0 else last pre)"
    "lnext (links st ! x) = (if post = [] then 0 else hd post)"
    "chain id (links st) 0 pre x" "chain id (links st) x post 0"
  using assms by (auto simp: shaped_def chain_append)

lemma dequeue_ok:
  assumes s: "shaped (pre @ x # post) st"
  shows "\<exists>st'. dequeue x st = Inr st' \<and> shaped (pre @ post) st' \<and> relinked st st'"
proof -
  note m = shaped_middle [OF s]
  have d: "distinct pre" "distinct post" "set pre \<inter> set post = {}" "x \<notin> set pre" "x \<notin> set post" "0 \<notin> set pre" "0 \<notin> set post"
    using s by (auto simp: shaped_def)
  let ?p = "if pre = [] then 0 else last pre" and ?n = "if post = [] then 0 else hd post"
  let ?ls = "if pre = [] then links st else (links st)[last pre := (links st ! last pre)\<lparr>lnext := ?n\<rparr>]"
  let ?st1 = "if pre = [] then st\<lparr>q_first := ?n\<rparr> else st\<lparr>links := ?ls\<rparr>"
  have p: "pre = [] \<or> last pre \<noteq> 0 \<and> last pre < length (links st)" using d(6) chain_bounded [OF m(4)] last_in_set [of pre] by metis
  have n: "post = [] \<or> hd post \<noteq> 0 \<and> hd post < length (links st)" using d(7) chain_bounded [OF m(5)] hd_in_set [of post] by metis
  have 1: "(if lprev (links st ! x) \<noteq> 0 then set_next (lprev (links st ! x)) (lnext (links st ! x)) st
      else Inr (st\<lparr>q_first := lnext (links st ! x)\<rparr>)) = Inr ?st1"
    using m(2,3) p set_next_ok by (auto simp: set_next_def)
  have ls1: "links ?st1 = ?ls" "length ?ls = length (links st)" by auto
  have "x \<noteq> last pre" if "pre \<noteq> []" using d(4) that by auto
  then have x: "?ls ! x = links st ! x" by auto
  have pre: "chain id ?ls 0 pre ?n"
    using chain_set_next [OF m(4) d(1), of ?n] by auto
  have "last pre \<notin> set post" if "pre \<noteq> []" using d(3) that last_in_set by blast
  then have post: "chain id ?ls x post 0" using m(5) by (auto simp: chain_update)
  let ?ls' = "if post = [] then ?ls else ?ls[hd post := (?ls ! hd post)\<lparr>lprev := ?p\<rparr>]"
  have "hd post \<notin> set pre" if "post \<noteq> []" using d(3) that hd_in_set by blast
  then have pre': "chain id ?ls' 0 pre ?n" using pre by (auto simp: chain_update)
  have post': "chain id ?ls' ?p post 0" using chain_set_prev [OF post d(2), of ?p] by auto
  let ?st2 = "if post = [] then ?st1\<lparr>q_last := ?p\<rparr> else ?st1\<lparr>links := ?ls'\<rparr>"
  have 2: "(if lnext (links ?st1 ! x) \<noteq> 0 then set_prev (lnext (links ?st1 ! x)) (lprev (links ?st1 ! x)) ?st1
      else Inr (?st1\<lparr>q_last := lprev (links ?st1 ! x)\<rparr>)) = Inr ?st2"
    using x m(2,3) n by (auto simp: set_prev_def ls1)
  have "dequeue x st = Inr ?st2" using m(1) 1 2 ls1 unfolding dequeue_def by (simp only: get_at_ok bind_res_Inr)
  moreover have "links ?st2 = ?ls'" by auto
  then have "shaped (pre @ post) ?st2"
    using pre' post' d s unfolding shaped_def by (auto simp: chain_append)
  moreover have "relinked st ?st2"
    by (simp add: relinked_def)
  ultimately show ?thesis by blast
qed


lemma enqueue_ok:
  assumes s: "shaped xs st" and x: "x \<notin> set xs" "x \<noteq> 0" "x < length (links st)"
  shows "\<exists>st'. enqueue x st = Inr st' \<and> shaped (xs @ [x]) st' \<and> relinked st st'"
proof -
  have c: "chain id (links st) 0 xs 0" "distinct xs" "0 \<notin> set xs" and q: "q_last st = (if xs = [] then 0 else last xs)"
    using s by (auto simp: shaped_def)
  have l: "xs = [] \<or> last xs \<noteq> 0 \<and> last xs < length (links st) \<and> last xs \<noteq> x"
    using c(3) chain_bounded [OF c(1)] last_in_set [of xs] x(1) by metis
  let ?p = "q_last st"
  let ?ls1 = "(links st)[x := (links st ! x)\<lparr>lprev := ?p\<rparr>]"
  let ?ls2 = "if xs = [] then ?ls1 else ?ls1[last xs := (?ls1 ! last xs)\<lparr>lnext := x\<rparr>]"
  let ?ls3 = "?ls2[x := (?ls2 ! x)\<lparr>lnext := 0\<rparr>]"
  let ?st2 = "if xs = [] then st\<lparr>links := ?ls1, q_first := x\<rparr> else st\<lparr>links := ?ls2\<rparr>"
  have run: "enqueue x st = Inr (?st2\<lparr>q_last := x, links := ?ls3\<rparr>)"
  proof (cases "xs = []")
    case True
    then show ?thesis using x(3) q by (simp add: enqueue_def set_prev_def set_next_def)
  next
    case False
    then have "last xs \<noteq> 0" "last xs < length (links st)" using l by auto
    then show ?thesis using False x(3) q by (simp add: enqueue_def set_prev_def set_next_def)
  qed
  have "chain id ?ls1 0 xs 0" using c(1) x(1) by (simp add: chain_update)
  then have "chain id ?ls2 0 xs x" using chain_set_next [OF _ c(2), of id ?ls1 0 0 x] by auto
  then have "chain id ?ls3 0 xs x" using x(1) by (simp add: chain_update)
  moreover have "?ls2 ! x = (links st ! x)\<lparr>lprev := ?p\<rparr>" using x(3) l by auto
  then have "?ls3 ! x = (links st ! x)\<lparr>lprev := ?p, lnext := 0\<rparr>" "length ?ls3 = length (links st)" using x(3) by auto
  then have "chain id ?ls3 (if xs = [] then 0 else last xs) [x] 0" using x(3) q by simp
  ultimately have "chain id ?ls3 0 (xs @ [x]) 0" unfolding chain_append by (simp only: list.simps list.sel if_False id_apply)
  then have "shaped (xs @ [x]) (?st2\<lparr>q_last := x, links := ?ls3\<rparr>)" using s x(1,2) by (auto simp: shaped_def)
  moreover have "relinked st (?st2\<lparr>q_last := x, links := ?ls3\<rparr>)"
    by (simp add: relinked_def)
  ultimately show ?thesis using run by blast
qed

section \<open>The invariant\<close>

text \<open>
  The stamps increase along the queue.  All variables after \<open>q_unassigned\<close> have a stamp above \<open>q_bumped\<close>, and every
  variable with a stamp above it has a value.  So the search for a variable without a value can start at \<open>q_unassigned\<close>,
  and only a variable with a stamp above \<open>q_bumped\<close> has to become the new start when it loses its value.  The code
  comments ask for \<open>q_bumped\<close> to be the stamp of \<open>q_unassigned\<close>; bumping and compaction do not keep that.
\<close>

definition after_above :: "nat list \<Rightarrow> nat \<Rightarrow> int \<Rightarrow> int list \<Rightarrow> bool" where
  "after_above xs r bumped bs \<longleftrightarrow>
     (if xs = [] then r = 0 else \<exists>pre post. xs = pre @ r # post \<and> (\<forall>y \<in> set post. bumped < bs ! y))"

definition above_valued :: "nat list \<Rightarrow> int \<Rightarrow> int list \<Rightarrow> int list \<Rightarrow> bool" where
  "above_valued xs bumped bs vs \<longleftrightarrow> (\<forall>y \<in> set xs. bumped < bs ! y \<longrightarrow> vs ! y \<noteq> 0)"

definition pointed :: "nat list \<Rightarrow> vmtf \<Rightarrow> bool" where
  "pointed xs st \<longleftrightarrow>
     after_above xs (q_unassigned st) (q_bumped st) (btab st) \<and> above_valued xs (q_bumped st) (btab st) (q_vals st)"

lemma after_aboveI: "xs = pre @ r # post \<Longrightarrow> \<forall>y \<in> set post. b < bs ! y \<Longrightarrow> after_above xs r b bs"
  unfolding after_above_def by auto

definition stamped :: "nat list \<Rightarrow> vmtf \<Rightarrow> bool" where
  "stamped xs st \<longleftrightarrow>
     sorted_wrt (\<lambda>x y. btab st ! x < btab st ! y) xs \<and> (\<forall>x \<in> set xs. btab st ! x \<le> bump_count st) \<and>
     q_bumped st \<le> bump_count st \<and> 0 \<le> bump_count st"

definition sized :: "nat list \<Rightarrow> vmtf \<Rightarrow> bool" where
  "sized xs st \<longleftrightarrow>
     length (btab st) = length (links st) \<and> length (q_vals st) = length (links st) \<and>
     (q_max_var st < length (links st) \<or> q_max_var st = 0) \<and> (\<forall>x \<in> set xs. x \<le> q_max_var st)"

definition queue_inv :: "nat list \<Rightarrow> vmtf \<Rightarrow> bool" where
  "queue_inv xs st \<longleftrightarrow> shaped xs st \<and> pointed xs st \<and> stamped xs st \<and> sized xs st"

text \<open>The stamps lie between \<open>-B\<close> and \<open>B\<close>; a step that only moves the pointer, the stamps or the order keeps the values.\<close>

definition within :: "int \<Rightarrow> nat list \<Rightarrow> vmtf \<Rightarrow> bool" where
  "within B xs st \<longleftrightarrow> (\<forall>x \<in> set xs. - B \<le> btab st ! x) \<and> - B \<le> q_bumped st \<and> bump_count st \<le> B"

definition moved :: "int \<Rightarrow> nat list \<Rightarrow> vmtf \<Rightarrow> vmtf \<Rightarrow> bool" where
  "moved B xs st st' \<longleftrightarrow>
     queue_inv xs st' \<and> within B xs st' \<and> q_vals st' = q_vals st \<and> q_max_var st' = q_max_var st \<and>
     (\<forall>i. i = 0 \<or> q_max_var st < i \<longrightarrow> btab st' ! i = btab st ! i)"

definition fresh :: "vmtf \<Rightarrow> bool" where
  "fresh st \<longleftrightarrow>
     (\<forall>i. q_max_var st < i \<and> i < length (links st) \<longrightarrow> q_vals st ! i = 0 \<and> btab st ! i = 0) \<and> (links st \<noteq> [] \<longrightarrow> btab st ! 0 = 0)"

lemma moved_fresh:
  assumes "moved B xs st st'" "sized ys st" "fresh st"
  shows "fresh st'"
proof -
  have len: "length (links st') = length (links st)"
    using assms(1,2) by (metis moved_def queue_inv_def sized_def)
  then show ?thesis using assms by (auto simp: fresh_def moved_def)
qed

lemma within_mono: "within B xs st \<Longrightarrow> B \<le> B' \<Longrightarrow> within B' xs st"
  by (fastforce simp: within_def)

lemma within_pointer: "within B xs st \<Longrightarrow> r \<in> set xs \<Longrightarrow> within B xs (st\<lparr>q_unassigned := q, q_bumped := btab st ! r\<rparr>)"
  by (simp add: within_def)

lemma queue_in_range:
  assumes "queue_inv xs st" "x \<in> set xs"
  shows "x \<noteq> 0" "x \<le> q_max_var st" "x < length (links st)" "x < length (btab st)" "x < length (q_vals st)"
proof -
  show x: "x \<noteq> 0" using assms by (metis queue_inv_def shaped_def)
  show "x < length (links st)" using assms by (auto simp: queue_inv_def shaped_def intro: chain_bounded)
  then show "x \<le> q_max_var st" "x < length (btab st)" "x < length (q_vals st)" using assms by (auto simp: queue_inv_def sized_def)
qed

lemma update_queue_unassigned_ok:
  "0 < idx \<Longrightarrow> idx \<le> q_max_var st \<Longrightarrow> idx < length (btab st) \<Longrightarrow>
     update_queue_unassigned dbg idx st = Inr (st\<lparr>q_unassigned := idx, q_bumped := btab st ! idx\<rparr>)"
  by (simp add: update_queue_unassigned_def cassert_def)

lemma after_aboveE:
  assumes "after_above xs r b bs" "xs \<noteq> []"
  obtains pre post where "xs = pre @ r # post" "\<forall>y \<in> set post. b < bs ! y"
  using assms unfolding after_above_def by auto

lemma after_above_cong:
  assumes "after_above xs r b bs" "\<And>y. y \<in> set xs \<Longrightarrow> bs' ! y = bs ! y"
  shows "after_above xs r b bs'"
proof (cases "xs = []")
  case False
  then obtain pre post where "xs = pre @ r # post" "\<forall>y \<in> set post. b < bs ! y" using after_aboveE [OF assms(1)] by blast
  then show ?thesis using assms(2) by (intro after_aboveI) auto
qed (use assms in \<open>simp add: after_above_def\<close>)

text \<open>The pointer moves to a variable after which all have values.\<close>

lemma stamped_after:
  assumes "stamped xs st" "xs = pre @ r # post" "y \<in> set xs" "btab st ! r < btab st ! y"
  shows "y \<in> set post"
proof -
  have "btab st ! y < btab st ! r" if "y \<in> set pre" using assms(1,2) that by (auto simp: stamped_def sorted_wrt_append)
  then show ?thesis using assms(2-4) by force
qed

lemma queue_inv_pointer:
  assumes sh: "shaped xs st" and s: "stamped xs st" and sz: "sized xs st"
    and xs: "xs = pre @ r # post" and post: "\<forall>y \<in> set post. q_vals st ! y \<noteq> 0"
  shows "queue_inv xs (st\<lparr>q_unassigned := r, q_bumped := btab st ! r\<rparr>)"
proof -
  have "\<forall>y \<in> set post. btab st ! r < btab st ! y" using s xs by (auto simp: stamped_def sorted_wrt_append)
  then have "after_above xs r (btab st ! r) (btab st)" by (rule after_aboveI [OF xs])
  moreover have "above_valued xs (btab st ! r) (btab st) (q_vals st)"
    using stamped_after [OF s xs] post unfolding above_valued_def by blast
  ultimately have "pointed xs (st\<lparr>q_unassigned := r, q_bumped := btab st ! r\<rparr>)"
    by (simp add: pointed_def)
  moreover have "btab st ! r \<le> bump_count st" using s xs by (simp add: stamped_def)
  ultimately show ?thesis using sh s sz by (simp add: queue_inv_def shaped_def stamped_def sized_def)
qed

lemma update_pointer:
  assumes "shaped xs st" "stamped xs st" "sized xs st" "xs = pre @ r # post" "\<forall>y \<in> set post. q_vals st ! y \<noteq> 0"
  shows "returns (\<lambda>dbg. update_queue_unassigned dbg r st)
           (\<lambda>st'. st' = st\<lparr>q_unassigned := r, q_bumped := btab st ! r\<rparr> \<and> queue_inv xs st')"
proof -
  have "r \<in> set xs" using assms(4) by simp
  then have "0 < r" "r \<le> q_max_var st" "r < length (btab st)"
    using assms(1,3) by (metis gr0I shaped_def, simp add: sized_def, metis chain_bounded shaped_def sized_def)
  then show ?thesis using queue_inv_pointer [OF assms] by (simp add: update_queue_unassigned_ok)
qed

lemma pointed_high: "pointed xs st \<Longrightarrow> y \<in> set xs \<Longrightarrow> q_bumped st < btab st ! y \<Longrightarrow> q_vals st ! y \<noteq> 0"
  by (simp add: pointed_def above_valued_def)

lemma pointed_after:
  assumes "pointed xs st" "xs = pre @ q_unassigned st # post" "distinct xs" "y \<in> set post"
  shows "q_vals st ! y \<noteq> 0"
proof -
  obtain pre' post' where p: "xs = pre' @ q_unassigned st # post'" "\<forall>y \<in> set post'. q_bumped st < btab st ! y"
    using assms(1,2) by (auto simp: pointed_def after_above_def split: if_splits)
  have "post' = post"
    using append_Cons_eq_iff [of "q_unassigned st" pre post pre' post'] p(1) assms(2,3) by (metis distinct.simps(2) distinct_append disjoint_iff list.set_intros(1))
  then have "q_bumped st < btab st ! y" "y \<in> set xs" using p(2) assms(2,4) by auto
  then show ?thesis using pointed_high [OF assms(1)] by blast
qed

section \<open>Values\<close>

lemma assign_value_ok:
  assumes "queue_inv xs st" "within B xs st" "x \<in> set xs" "v = 1 \<or> v = - 1"
  shows "returns (\<lambda>dbg. assign_value dbg x v st)
    (\<lambda>st'. queue_inv xs st' \<and> within B xs st' \<and> q_vals st' = (q_vals st)[x := v] \<and> q_max_var st' = q_max_var st \<and> btab st' = btab st)"
proof -
  note r = queue_in_range [OF assms(1,3)]
  have "v \<noteq> 0" using assms(4) by auto
  then have "pointed xs (st\<lparr>q_vals := (q_vals st)[x := v]\<rparr>)"
    using assms r(5) unfolding queue_inv_def pointed_def above_valued_def by (simp add: nth_list_update)
  then have "queue_inv xs (st\<lparr>q_vals := (q_vals st)[x := v]\<rparr>)"
    using assms(1) by (simp add: queue_inv_def shaped_def stamped_def sized_def)
  then show ?thesis using r(1,2,5) assms(2,4) by (auto simp: assign_value_def within_def cassert_def)
qed

lemma unassign_queue_ok:
  assumes inv: "queue_inv xs st" and w: "within B xs st" and x: "x \<in> set xs"
  shows "returns (\<lambda>dbg. unassign_queue dbg x st)
    (\<lambda>st'. queue_inv xs st' \<and> within B xs st' \<and> q_vals st' = (q_vals st)[x := 0] \<and> q_max_var st' = q_max_var st \<and> btab st' = btab st)"
proof -
  note r = queue_in_range [OF inv x]
  let ?st = "st\<lparr>q_vals := (q_vals st)[x := 0]\<rparr>"
  have s: "stamped xs st" and p: "pointed xs st" and d: "distinct xs" using inv by (auto simp: queue_inv_def shaped_def)
  have a: "assign_value dbg x 0 st = Inr ?st" for dbg using r(1,2,5) by (simp add: assign_value_def cassert_def)
  show ?thesis
  proof (cases "q_bumped st < btab st ! x")
    case True
    obtain pre post where xs: "xs = pre @ x # post" using x by (metis split_list)
    have post: "q_vals st ! y \<noteq> 0" "y \<noteq> x" "btab st ! x < btab st ! y" if y: "y \<in> set post" for y
    proof -
      show b: "btab st ! x < btab st ! y" using s xs y by (auto simp: stamped_def sorted_wrt_append)
      show "q_vals st ! y \<noteq> 0" using pointed_high [OF p] xs y b True by simp
      show "y \<noteq> x" using d xs y by auto
    qed
    let ?st' = "?st\<lparr>q_unassigned := x, q_bumped := btab st ! x\<rparr>"
    have "above_valued xs (btab st ! x) (btab st) ((q_vals st)[x := 0])"
      unfolding above_valued_def
    proof (intro ballI impI)
      fix y assume "y \<in> set xs" "btab st ! x < btab st ! y"
      then have "y \<in> set post" by (rule stamped_after [OF s xs])
      then show "(q_vals st)[x := 0] ! y \<noteq> 0" using post(1,2) [of y] by simp
    qed
    moreover have "after_above xs x (btab st ! x) (btab st)" using post(3) by (intro after_aboveI [OF xs]) blast
    ultimately have "pointed xs ?st'" by (simp add: pointed_def)
    moreover have "btab st ! x \<le> bump_count st" using s x by (simp add: stamped_def)
    ultimately have "queue_inv xs ?st'" using inv by (simp add: queue_inv_def shaped_def stamped_def sized_def)
    moreover have "unassign_queue dbg x st = Inr ?st'" for dbg
      using a True r update_queue_unassigned_ok [of x ?st dbg] by (simp add: unassign_queue_def)
    ultimately show ?thesis using w x by (simp add: within_def)
  next
    case False
    then have "pointed xs ?st" using p r(5) by (simp add: pointed_def above_valued_def nth_list_update)
    then have "queue_inv xs ?st" using inv by (simp add: queue_inv_def shaped_def stamped_def sized_def)
    moreover have "unassign_queue dbg x st = Inr ?st" for dbg using a False r by (simp add: unassign_queue_def)
    ultimately show ?thesis using w by (simp add: within_def)
  qed
qed

section \<open>New stamps\<close>

definition restamped :: "nat \<Rightarrow> vmtf \<Rightarrow> vmtf" where
  "restamped x st = st\<lparr>bump_count := bump_count st + 1, btab := (btab st)[x := bump_count st + 1]\<rparr>"

lemma next_stamp_ok: "x < length (btab st) \<Longrightarrow> bump_count st < INT64_MAX \<Longrightarrow> next_stamp x st = Inr (restamped x st)"
  by (simp add: next_stamp_def set_stamp_def restamped_def)

lemma stamped_restamped:
  assumes s: "stamped xs st" and x: "x \<notin> set xs" "x < length (btab st)"
  shows "stamped (xs @ [x]) (restamped x st)"
proof -
  have b: "(btab st)[x := b] ! y = btab st ! y" if "y \<in> set xs" for y b using that x(1) by (metis nth_list_update_neq)
  have "sorted_wrt (\<lambda>y z. (btab st)[x := b] ! y < (btab st)[x := b] ! z) xs" for b
    using s b by (auto simp: stamped_def intro: sorted_wrt_mono_rel [rotated])
  then show ?thesis using s x(2) b by (fastforce simp: stamped_def restamped_def sorted_wrt_append)
qed

lemma shaped_restamped [simp]: "shaped xs (restamped x st) = shaped xs st"
  by (simp add: shaped_def restamped_def)

lemma sized_restamped [simp]: "sized xs (restamped x st) = sized xs st"
  by (simp add: sized_def restamped_def)

lemma stamped_subset: "stamped (pre @ x # post) st \<Longrightarrow> stamped (pre @ post) st"
  by (auto simp: stamped_def sorted_wrt_append)

lemma stamped_relinked: "relinked st st' \<Longrightarrow> stamped xs st' = stamped xs st"
  by (auto simp: stamped_def relinked_def)

lemma sized_relinked: "relinked st st' \<Longrightarrow> sized xs st' = sized xs st"
  by (auto simp: sized_def relinked_def)

lemma within_restamped:
  assumes "within B xs st" "x \<notin> set xs" "x < length (btab st)" "0 \<le> bump_count st"
  shows "within (B + 1) (xs @ [x]) (restamped x st)"
proof -
  have "(btab st)[x := b] ! y = btab st ! y" if "y \<in> set xs" for y b using that assms(2) by (metis nth_list_update_neq)
  then show ?thesis using assms by (fastforce simp: within_def restamped_def)
qed

lemma within_relinked: "relinked st st' \<Longrightarrow> within B xs st' = within B xs st"
  by (simp add: within_def relinked_def)

section \<open>Bumping\<close>

definition bumped_order :: "nat \<Rightarrow> nat list \<Rightarrow> nat list" where
  "bumped_order x xs = filter (\<lambda>y. y \<noteq> x) xs @ [x]"

lemma bumped_order_split:
  assumes "distinct (pre @ x # post)"
  shows "bumped_order x (pre @ x # post) = pre @ post @ [x]"
proof -
  have "filter (\<lambda>y. y \<noteq> x) pre = pre" "filter (\<lambda>y. y \<noteq> x) post = post"
    using assms by (auto intro!: filter_True)
  then show ?thesis by (simp add: bumped_order_def)
qed

lemma bumped_pointed:
  assumes p: "pointed (pre @ x # post) st" and d: "distinct (pre @ x # post)" and b: "q_bumped st \<le> bump_count st"
    and v: "q_vals st ! x \<noteq> 0" and x: "x < length (btab st)" and eq: "q_unassigned st' = q_unassigned st"
    "q_bumped st' = q_bumped st" "btab st' = (btab st)[x := bump_count st + 1]" "q_vals st' = q_vals st"
  shows "pointed (pre @ post @ [x]) st'"
proof -
  have "above_valued (pre @ post @ [x]) (q_bumped st) ((btab st)[x := bump_count st + 1]) (q_vals st)"
    using p v x unfolding pointed_def above_valued_def by (simp add: nth_list_update)
  moreover have "after_above (pre @ post @ [x]) (q_unassigned st) (q_bumped st) ((btab st)[x := bump_count st + 1])"
  proof -
    obtain pre' post' where p': "pre @ x # post = pre' @ q_unassigned st # post'" "\<forall>y \<in> set post'. q_bumped st < btab st ! y"
      using p by (auto simp: pointed_def after_above_def)
    have new: "\<forall>y \<in> set post'. q_bumped st < (btab st)[x := bump_count st + 1] ! y" "q_bumped st < (btab st)[x := bump_count st + 1] ! x"
      using p'(2) b x by (auto simp: nth_list_update)
    from p'(1) consider "q_unassigned st = x" | us where "pre = pre' @ q_unassigned st # us" "post' = us @ x # post"
      | us where "pre' = pre @ x # us" "post = us @ q_unassigned st # post'"
      by (auto simp: append_eq_append_conv2 Cons_eq_append_conv append_eq_Cons_conv)
    then show ?thesis
    proof cases
      case 1
      then show ?thesis using after_aboveI [of "pre @ post @ [x]" "pre @ post" x "[]"] by simp
    next
      case (2 us)
      then show ?thesis using new by (intro after_aboveI [of _ pre' _ "us @ post @ [x]"]) auto
    next
      case (3 us)
      then show ?thesis using new by (intro after_aboveI [of _ "pre @ us" _ "post' @ [x]"]) auto
    qed
  qed
  ultimately show ?thesis using eq by (simp add: pointed_def)
qed

lemma bump_queue_ok:
  assumes inv: "queue_inv xs st" and w: "within B xs st" and x: "x \<in> set xs" and B: "B + 1 \<le> INT64_MAX"
  shows "returns (\<lambda>dbg. bump_queue dbg x st) (moved (B + 1) (bumped_order x xs) st)"
proof -
  have room: "bump_count st < INT64_MAX" using w B by (simp add: within_def)
  note r = queue_in_range [OF inv x]
  obtain pre post where xs: "xs = pre @ x # post" using x by (metis split_list)
  have sh: "shaped (pre @ x # post) st" and d: "distinct (pre @ x # post)" and s: "stamped (pre @ x # post) st"
    and sz: "sized (pre @ x # post) st" and p: "pointed (pre @ x # post) st"
    using inv xs by (auto simp: queue_inv_def shaped_def)
  have order: "bumped_order x xs = pre @ post @ [x]" using xs bumped_order_split [OF d] by simp
  show ?thesis
  proof (cases "post = []")
    case True
    then have "bump_queue dbg x st = Inr st" for dbg using shaped_middle(3) [OF sh] r by (simp add: bump_queue_def cassert_def)
    then show ?thesis using inv order xs True within_mono [OF w, of "B + 1"] by (simp add: moved_def)
  next
    case False
    have "0 \<notin> set post" using sh by (auto simp: shaped_def)
    then have "lnext (links st ! x) \<noteq> 0" using False shaped_middle(3) [OF sh] hd_in_set [OF False] by (metis (full_types))
    moreover obtain st1 where st1: "dequeue x st = Inr st1" "shaped (pre @ post) st1" "relinked st st1" using dequeue_ok [OF sh] by blast
    note e1 = relinkedD [OF st1(3)]
    obtain st2 where st2: "enqueue x st1 = Inr st2" "shaped ((pre @ post) @ [x]) st2" "relinked st1 st2"
      using enqueue_ok [OF st1(2), of x] d r e1 by auto
    note e2 = relinkedD [OF st2(3)]
    have n: "next_stamp x st2 = Inr (restamped x st2)" using r room e1 e2 by (intro next_stamp_ok) auto
    ultimately have run: "bump_queue dbg x st =
        (if q_vals st ! x = 0 then update_queue_unassigned dbg x (restamped x st2) else Inr (restamped x st2))" for dbg
      using r st1(1) st2(1) room e1 e2 by (simp add: bump_queue_def cassert_def restamped_def)
    have s3: "stamped ((pre @ post) @ [x]) (restamped x st2)"
      using stamped_subset [OF s] d r e1 e2 stamped_relinked [OF st1(3)] stamped_relinked [OF st2(3)]
      by (intro stamped_restamped) auto
    have sz3: "sized ((pre @ post) @ [x]) (restamped x st2)"
    proof -
      have "sized ((pre @ post) @ [x]) st" using sz by (auto simp: sized_def)
      then show ?thesis by (simp only: sized_restamped sized_relinked [OF st1(3)] sized_relinked [OF st2(3)])
    qed
    have "within B (pre @ post) st" using w xs by (simp add: within_def)
    then have w3: "within (B + 1) (pre @ post @ [x]) (restamped x st2)"
      using within_restamped [of B "pre @ post" st2 x] d r e1 e2 s within_relinked [OF st1(3)] within_relinked [OF st2(3)]
      by (simp add: stamped_def)
    have eq: "q_vals (restamped x st2) = q_vals st" "q_max_var (restamped x st2) = q_max_var st"
      "\<forall>i. i = 0 \<or> q_max_var st < i \<longrightarrow> btab (restamped x st2) ! i = btab st ! i"
      using e1 e2 r by (auto simp: restamped_def nth_list_update)
    show ?thesis
    proof (cases "q_vals st ! x = 0")
      case True
      have "returns (\<lambda>dbg. update_queue_unassigned dbg x (restamped x st2)) (moved (B + 1) (pre @ post @ [x]) st)"
        by (rule returns_mono [OF update_pointer [of "pre @ post @ [x]" _ "pre @ post" x "[]"]])
          (use st2(2) s3 sz3 w3 eq within_pointer [OF w3, of x] in \<open>auto simp: moved_def\<close>)
      then show ?thesis using True run order by simp
    next
      case v: False
      have "pointed (pre @ post @ [x]) (restamped x st2)"
        by (rule bumped_pointed [OF p d _ v r(4)]) (use s e1 e2 in \<open>auto simp: restamped_def stamped_def\<close>)
      then have "moved (B + 1) (pre @ post @ [x]) st (restamped x st2)" using st2(2) s3 sz3 w3 eq by (simp add: moved_def queue_inv_def)
      then show ?thesis using v run order by simp
    qed
  qed
qed

section \<open>New variables\<close>

text \<open>Without \<open>reverse\<close> a new variable is enqueued, stamped and becomes the start of the search.\<close>

lemma link_updates [simp]:
  "(l :: link)\<lparr>lprev := p, lnext := n\<rparr> = \<lparr>lprev = p, lnext = n\<rparr>"
  "(l :: link)\<lparr>lnext := n, lprev := p\<rparr> = \<lparr>lprev = p, lnext = n\<rparr>"
  by simp_all

lemma enqueue_last_enqueue:
  assumes s: "shaped xs st" and x: "x \<notin> set xs" "x \<noteq> 0" "x < length (links st)" "x < length (btab st)"
    and room: "bump_count st < INT64_MAX"
  shows "enqueue_last dbg x st = bind_res (enqueue x st) (\<lambda>st. bind_res (next_stamp x st) (update_queue_unassigned dbg x))"
proof (cases "xs = []")
  case True
  then have "q_last st = 0" "q_first st = 0" using s by (auto simp: shaped_def)
  then show ?thesis using x room
    by (cases st) (simp add: enqueue_last_def enqueue_def set_next_def set_prev_def next_stamp_def set_stamp_def cassert_def)
next
  case False
  have "last xs \<in> set xs" using False by simp
  then have l: "last xs < length (links st)" "last xs \<noteq> 0" "last xs \<noteq> x"
    using s x(1) unfolding shaped_def by (metis chain_bounded)+
  have q: "q_last st = last xs" using s False by (simp add: shaped_def)
  have "xs = butlast xs @ last xs # []" using False by simp
  then have n: "lnext (links st ! last xs) = 0" using shaped_middle(3) [of "butlast xs" "last xs" "[]"] s by metis
  let ?y = "last xs" and ?ls = "links st"
  have "(?ls[x := (?ls ! x)\<lparr>lnext := 0\<rparr>, ?y := (?ls ! ?y)\<lparr>lnext := x\<rparr>])[x := (?ls ! x)\<lparr>lnext := 0, lprev := ?y\<rparr>] =
      (?ls[x := (?ls ! x)\<lparr>lprev := ?y\<rparr>, ?y := (?ls ! ?y)\<lparr>lnext := x\<rparr>])[x := (?ls ! x)\<lparr>lprev := ?y, lnext := 0\<rparr>]"
    using l(3) by (simp add: list_update_swap [of x ?y])
  then show ?thesis using x l n q room
    by (cases st) (simp add: enqueue_last_def enqueue_def set_next_def set_prev_def next_stamp_def set_stamp_def cassert_def)
qed

lemma enqueue_last_ok:
  assumes inv: "queue_inv xs st" and w: "within B xs st" and x: "x \<notin> set xs" "x \<noteq> 0" "x \<le> q_max_var st" and B: "B + 1 \<le> INT64_MAX"
  shows "returns (\<lambda>dbg. enqueue_last dbg x st) (moved (B + 1) (xs @ [x]) st)"
proof -
  have room: "bump_count st < INT64_MAX" using w B by (simp add: within_def)
  have sh: "shaped xs st" and s: "stamped xs st" and sz: "sized xs st" using inv by (auto simp: queue_inv_def)
  have l: "x < length (links st)" "x < length (btab st)" using sz x(2,3) by (auto simp: sized_def)
  obtain st1 where st1: "enqueue x st = Inr st1" "shaped (xs @ [x]) st1" "relinked st st1" using enqueue_ok [OF sh x(1,2) l(1)] by blast
  note e = relinkedD [OF st1(3)]
  have n: "next_stamp x st1 = Inr (restamped x st1)" using l room e by (intro next_stamp_ok) auto
  have run: "enqueue_last dbg x st = update_queue_unassigned dbg x (restamped x st1)" for dbg
    using enqueue_last_enqueue [OF sh x(1,2) l room] st1(1) n by simp
  have "stamped (xs @ [x]) (restamped x st1)"
    using s l x(1) e stamped_relinked [OF st1(3)] by (intro stamped_restamped) auto
  moreover have "sized (xs @ [x]) (restamped x st1)"
  proof -
    have "sized (xs @ [x]) st" using sz x(3) by (auto simp: sized_def)
    then show ?thesis by (simp only: sized_restamped sized_relinked [OF st1(3)])
  qed
  moreover have w1: "within (B + 1) (xs @ [x]) (restamped x st1)"
    using within_restamped [of B xs st1 x] w x(1) l e s within_relinked [OF st1(3)] by (simp add: stamped_def)
  moreover have "q_vals (restamped x st1) = q_vals st" "q_max_var (restamped x st1) = q_max_var st"
    "\<forall>i. i = 0 \<or> q_max_var st < i \<longrightarrow> btab (restamped x st1) ! i = btab st ! i"
    using e x by (auto simp: restamped_def nth_list_update)
  ultimately have "returns (\<lambda>dbg. update_queue_unassigned dbg x (restamped x st1)) (moved (B + 1) (xs @ [x]) st)"
    using st1(2) within_pointer [OF w1, of x]
    by (intro returns_mono [OF update_pointer [of "xs @ [x]" "restamped x st1" xs x "[]"]]) (auto simp: moved_def)
  then show ?thesis by (simp add: run)
qed

text \<open>
  With \<open>reverse\<close> the stamp of a new variable is below all others.  That it is not above \<open>q_bumped\<close> needs that the first
  variable of the queue is not.
\<close>

definition low_first :: "nat list \<Rightarrow> vmtf \<Rightarrow> bool" where
  "low_first xs st \<longleftrightarrow> xs = [] \<or> btab st ! hd xs \<le> q_bumped st"

lemma unassigned_low_first:
  assumes inv: "queue_inv xs st" and y: "y \<in> set xs" "q_vals st ! y = 0"
  shows "low_first xs st"
proof -
  have b: "btab st ! y \<le> q_bumped st" using pointed_high [of xs st y] inv y unfolding queue_inv_def by (meson linorder_not_less)
  obtain x ys where xs: "xs = x # ys" using y(1) by (cases xs) auto
  then have "btab st ! x \<le> btab st ! y" using inv y(1) by (auto simp: queue_inv_def stamped_def)
  then show ?thesis using b xs by (simp add: low_first_def)
qed

lemma enqueue_first_ok:
  assumes inv: "queue_inv xs st" and w: "within B xs st" and x: "x \<notin> set xs" "x \<noteq> 0" "x \<le> q_max_var st"
    and B: "B + 1 \<le> INT64_MAX" and low: "low_first xs st"
  shows "returns (\<lambda>dbg. enqueue_first dbg x st) (\<lambda>st'. moved (B + 1) (x # xs) st st' \<and> low_first (x # xs) st')"
proof -
  have sh: "shaped xs st" and s: "stamped xs st" and sz: "sized xs st" and p: "pointed xs st" using inv by (auto simp: queue_inv_def)
  have l: "x < length (links st)" "x < length (btab st)" using sz x(2,3) by (auto simp: sized_def)
  show ?thesis
  proof (cases "xs = []")
    case True
    let ?st = "st\<lparr>links := (links st)[x := \<lparr>lprev = 0, lnext = 0\<rparr>], q_last := x, btab := (btab st)[x := 0], q_first := x,
       q_unassigned := x, q_bumped := 0\<rparr>"
    have q: "q_first st = 0" "q_last st = 0" "q_unassigned st = 0" using sh p True by (auto simp: shaped_def pointed_def after_above_def)
    have "0 \<le> bump_count st" using s by (simp add: stamped_def)
    then have "enqueue_first dbg x st = Inr ?st" for dbg
      using q l x by (cases st) (simp add: enqueue_first_def set_prev_def set_next_def set_stamp_def cassert_def update_queue_unassigned_def)
    moreover have "queue_inv [x] ?st"
      using l x s sz after_aboveI [of "[x]" "[]" x "[]"]
      by (simp add: queue_inv_def shaped_def pointed_def stamped_def sized_def above_valued_def)
    moreover have "\<forall>i. i = 0 \<or> q_max_var st < i \<longrightarrow> (btab st)[x := 0] ! i = btab st ! i" using x by (auto simp: nth_list_update)
    ultimately show ?thesis using True l w s by (simp add: low_first_def moved_def within_def stamped_def)
  next
    case False
    then obtain y ys where xs: "xs = y # ys" by (cases xs) auto
    let ?ls1 = "(links st)[x := (links st ! x)\<lparr>lprev := 0\<rparr>]"
    let ?ls2 = "?ls1[y := (?ls1 ! y)\<lparr>lprev := x\<rparr>]"
    let ?ls = "?ls2[x := (?ls2 ! x)\<lparr>lnext := y\<rparr>]"
    let ?b = "btab st ! y - 1"
    let ?st = "st\<lparr>links := ?ls, q_first := x, btab := (btab st)[x := ?b]\<rparr>"
    have y: "y \<noteq> 0" "y < length (links st)" "y \<noteq> x" "y < length (btab st)" "lprev (links st ! y) = 0" "q_first st = y" "btab st ! y \<le> bump_count st"
      using queue_in_range [OF inv, of y] x(1) sh s xs by (auto simp: shaped_def stamped_def)
    have qu: "q_unassigned st \<noteq> 0" using p False queue_in_range(1) [OF inv, of "q_unassigned st"] by (auto simp: pointed_def after_above_def)
    have B': "- B \<le> btab st ! y" using w xs by (simp add: within_def)
    then have "btab st ! y \<noteq> INT64_MIN" using B by (simp add: INT64_MIN_def INT64_MAX_def)
    then have run: "enqueue_first dbg x st = Inr ?st" for dbg
      using y l qu by (simp add: enqueue_first_def set_prev_def set_next_def set_stamp_def cassert_def)
    have "chain id ?ls1 0 xs 0" using sh x(1) by (simp add: chain_update shaped_def)
    then have "chain id ?ls2 x xs 0" using chain_set_prev [of id ?ls1 0 xs 0 x] sh xs by (simp add: shaped_def)
    then have "chain id ?ls x xs 0" using x(1) by (simp add: chain_update)
    moreover have "?ls2 ! x = (links st ! x)\<lparr>lprev := 0\<rparr>" using l y(3) by simp
    then have "?ls ! x = (links st ! x)\<lparr>lprev := 0, lnext := y\<rparr>" "length ?ls = length (links st)" using l by auto
    then have "lprev (?ls ! x) = 0" "lnext (?ls ! x) = (if xs = [] then 0 else id (hd xs))" "x < length ?ls" using l xs by simp_all
    ultimately have c: "chain id ?ls 0 (x # xs) 0" unfolding chain.simps id_apply by blast
    have ls: "links ?st = ?ls" by simp
    have sh': "shaped (x # xs) ?st" unfolding shaped_def ls
      by (intro conjI, rule c) (use sh x xs in \<open>simp_all add: shaped_def\<close>)
    have old: "(btab st)[x := ?b] ! z = btab st ! z" if "z \<in> set xs" for z using that x(1) by (metis nth_list_update_neq)
    have above: "?b < btab st ! z" if "z \<in> set xs" for z using that s xs by (auto simp: stamped_def)
    have "sorted_wrt (\<lambda>z w. (btab st)[x := ?b] ! z < (btab st)[x := ?b] ! w) xs"
      using s old by (auto simp: stamped_def intro: sorted_wrt_mono_rel [rotated])
    then have s': "stamped (x # xs) ?st" using old above s l y(7) by (simp add: stamped_def)
    have low': "?b \<le> q_bumped st" using low xs by (simp add: low_first_def)
    obtain pre post where pp: "xs = pre @ q_unassigned st # post" "\<forall>y \<in> set post. q_bumped st < btab st ! y"
      using p False by (auto simp: pointed_def after_above_def)
    have "\<forall>y \<in> set post. q_bumped st < (btab st)[x := ?b] ! y" using pp old by simp
    then have "after_above (x # xs) (q_unassigned st) (q_bumped st) ((btab st)[x := ?b])"
      using pp(1) by (intro after_aboveI [of _ "x # pre" _ post]) auto
    moreover have "above_valued (x # xs) (q_bumped st) ((btab st)[x := ?b]) (q_vals st)"
      using p old low' l by (simp add: pointed_def above_valued_def)
    ultimately have "queue_inv (x # xs) ?st" using sh' s' sz x(3) by (simp add: queue_inv_def pointed_def sized_def)
    moreover have "within (B + 1) (x # xs) ?st" using w old l B' by (fastforce simp: within_def)
    moreover have "\<forall>i. i = 0 \<or> q_max_var st < i \<longrightarrow> (btab st)[x := ?b] ! i = btab st ! i" using x by (auto simp: nth_list_update)
    ultimately show ?thesis using run low' l xs by (simp add: low_first_def moved_def)
  qed
qed

text \<open>The tables grow; what they hold of the variables stays.\<close>

lemma queue_inv_frame:
  assumes inv: "queue_inv xs st"
    and eq: "q_first st' = q_first st" "q_last st' = q_last st" "q_unassigned st' = q_unassigned st" "q_bumped st' = q_bumped st"
      "bump_count st' = bump_count st"
    and at: "\<And>x. x \<in> set xs \<Longrightarrow> links st' ! x = links st ! x \<and> btab st' ! x = btab st ! x \<and> q_vals st' ! x = q_vals st ! x"
    and len: "length (links st) \<le> length (links st')" and sz: "sized xs st'"
  shows "queue_inv xs st'" "low_first xs st' = low_first xs st" "within B xs st' = within B xs st"
proof -
  have "chain f ls' p ys n" if "chain f ls p ys n" "\<forall>x \<in> set ys. ls' ! x = ls ! x" "length ls \<le> length ls'" for f ls ls' p ys n
    using that by (induction ys arbitrary: p) auto
  then have "shaped xs st'" using inv eq at len unfolding queue_inv_def shaped_def by (metis (full_types))
  moreover have "sorted_wrt (\<lambda>x y. btab st' ! x < btab st' ! y) xs"
    using inv at by (auto simp: queue_inv_def stamped_def intro: sorted_wrt_mono_rel [rotated])
  then have "stamped xs st'" using inv eq at by (simp add: queue_inv_def stamped_def)
  moreover have "after_above xs (q_unassigned st') (q_bumped st') (btab st')"
    using inv at eq after_above_cong [of xs "q_unassigned st" "q_bumped st" "btab st" "btab st'"] by (simp add: queue_inv_def pointed_def)
  then have "pointed xs st'" using inv at eq by (simp add: queue_inv_def pointed_def above_valued_def)
  ultimately show "queue_inv xs st'" using sz by (simp add: queue_inv_def)
  show "low_first xs st' = low_first xs st" using at [of "hd xs"] eq by (cases xs) (simp_all add: low_first_def)
  show "within B xs st' = within B xs st" using at eq by (simp add: within_def)
qed

definition with_room_for :: "nat \<Rightarrow> vmtf \<Rightarrow> vmtf" where
  "with_room_for n st = (enlarge_tables n st)\<lparr>q_max_var := n\<rparr>"

lemma with_room_for_ok:
  assumes inv: "queue_inv xs st" and n: "q_max_var st \<le> n"
  shows "queue_inv xs (with_room_for n st)" "low_first xs (with_room_for n st) = low_first xs st"
    "within B xs (with_room_for n st) = within B xs st" "q_max_var (with_room_for n st) = n"
proof -
  have sz: "sized xs st" using inv by (simp add: queue_inv_def)
  have above: "n < grow n (if length (links st) \<noteq> 0 then 2 * length (links st) else 1 + n)" by (rule grow_above) simp
  have b: "x < length (links st)" "x < length (btab st)" "x < length (q_vals st)" "x \<le> n" if "x \<in> set xs" for x
    using queue_in_range [OF inv that] n by auto
  have "sized xs (with_room_for n st)" using sz n above by (auto simp: sized_def with_room_for_def enlarge_tables_def Let_def)
  moreover have "length (links st) \<le> length (links (with_room_for n st))"
    using above by (auto simp: with_room_for_def enlarge_tables_def Let_def)
  moreover have "links (with_room_for n st) ! x = links st ! x \<and> btab (with_room_for n st) ! x = btab st ! x \<and>
      q_vals (with_room_for n st) ! x = q_vals st ! x" if "x \<in> set xs" for x
    using b [OF that] above by (auto simp: with_room_for_def enlarge_tables_def Let_def nth_resize)
  moreover have "q_first (with_room_for n st) = q_first st" "q_last (with_room_for n st) = q_last st"
    "q_unassigned (with_room_for n st) = q_unassigned st" "q_bumped (with_room_for n st) = q_bumped st"
    "bump_count (with_room_for n st) = bump_count st"
    by (auto simp: with_room_for_def enlarge_tables_def Let_def)
  moreover show "q_max_var (with_room_for n st) = n" by (simp add: with_room_for_def)
  ultimately show "queue_inv xs (with_room_for n st)" "low_first xs (with_room_for n st) = low_first xs st"
    "within B xs (with_room_for n st) = within B xs st"
    using queue_inv_frame [OF inv, of "with_room_for n st"] by blast+
qed

definition new_order :: "bool \<Rightarrow> nat list \<Rightarrow> nat list \<Rightarrow> nat list" where
  "new_order reverse ys xs = (if reverse then rev ys @ xs else xs @ ys)"

lemma with_room_for_entries:
  assumes "sized xs st"
  shows "length (links st) \<le> length (links (with_room_for n st))" "n < length (links (with_room_for n st))"
    "length (btab (with_room_for n st)) = length (links (with_room_for n st))"
    "i < length (links st) \<Longrightarrow> q_vals (with_room_for n st) ! i = q_vals st ! i \<and> btab (with_room_for n st) ! i = btab st ! i"
    "length (links st) \<le> i \<Longrightarrow> i < length (links (with_room_for n st)) \<Longrightarrow>
       q_vals (with_room_for n st) ! i = 0 \<and> btab (with_room_for n st) ! i = 0"
  using assms grow_above [of "if length (links st) \<noteq> 0 then 2 * length (links st) else 1 + n" n]
  by (auto simp: with_room_for_def enlarge_tables_def Let_def resize_def nth_append sized_def)

lemma with_room_for_fresh:
  assumes "sized xs st" "fresh st" "q_max_var st < n"
  shows "\<forall>i. q_max_var st < i \<and> i \<le> n \<longrightarrow> q_vals (with_room_for n st) ! i = 0 \<and> btab (with_room_for n st) ! i = 0"
    "btab (with_room_for n st) ! 0 = 0" "fresh (with_room_for n st)"
proof -
  note e = with_room_for_entries [OF assms(1)]
  have new: "q_vals (with_room_for n st) ! i = 0 \<and> btab (with_room_for n st) ! i = 0"
    if "q_max_var st < i" "i < length (links (with_room_for n st))" for i
    using e(4) [of i n] e(5) [of i n] assms(2) that by (cases "i < length (links st)") (auto simp: fresh_def)
  show "\<forall>i. q_max_var st < i \<and> i \<le> n \<longrightarrow> q_vals (with_room_for n st) ! i = 0 \<and> btab (with_room_for n st) ! i = 0"
    using new e(2) [of n] by auto
  have "links (with_room_for n st) \<noteq> []" using e(2) [of n] by auto
  then show b: "btab (with_room_for n st) ! 0 = 0"
    using e(4) [of 0 n] e(5) [of 0 n] e(2) [of n] assms(2) by (cases "links st = []") (auto simp: fresh_def)
  show "fresh (with_room_for n st)" using new b assms(3) by (auto simp: fresh_def with_room_for_def)
qed

lemma init_enqueue_ok:
  assumes inv: "queue_inv xs st" and w: "within B xs st" and y: "y \<notin> set xs" "y \<noteq> 0" "y \<le> q_max_var st"
    and B: "B + 1 \<le> INT64_MAX" and low: "reverse \<Longrightarrow> low_first xs st"
  shows "returns (\<lambda>dbg. init_enqueue dbg reverse y st)
    (\<lambda>st'. moved (B + 1) (new_order reverse [y] xs) st st' \<and> (reverse \<longrightarrow> low_first (new_order reverse [y] xs) st'))"
proof (cases reverse)
  case True
  then show ?thesis using enqueue_first_ok [OF inv w y B low] by (simp add: init_enqueue_def new_order_def)
next
  case False
  then show ?thesis using enqueue_last_ok [OF inv w y B] by (simp add: init_enqueue_def new_order_def)
qed

lemma init_fold_ok:
  assumes "queue_inv xs st" "within B xs st" and ys: "distinct ys" "set ys \<inter> set xs = {}" "\<forall>y \<in> set ys. y \<noteq> 0 \<and> y \<le> q_max_var st"
    and "B + int (length ys) \<le> INT64_MAX" and "reverse \<Longrightarrow> low_first xs st"
  shows "returns (\<lambda>dbg. fold_res (init_enqueue dbg reverse) ys st) (moved (B + int (length ys)) (new_order reverse ys xs) st)"
  using assms
proof (induction ys arbitrary: xs st B)
  case (Cons y ys)
  let ?xs = "new_order reverse [y] xs"
  have y: "y \<notin> set xs" "y \<noteq> 0" "y \<le> q_max_var st" "B + 1 \<le> INT64_MAX" using Cons.prems(3-6) by auto
  have order: "new_order reverse ys ?xs = new_order reverse (y # ys) xs" "set ?xs = insert y (set xs)" by (auto simp: new_order_def)
  have "returns (\<lambda>dbg. bind_res (init_enqueue dbg reverse y st) (fold_res (init_enqueue dbg reverse) ys))
      (moved (B + int (length (y # ys))) (new_order reverse (y # ys) xs) st)"
  proof (rule returns_bind [OF init_enqueue_ok [OF Cons.prems(1,2) y Cons.prems(7)]])
    fix st1 assume st1: "moved (B + 1) ?xs st st1 \<and> (reverse \<longrightarrow> low_first ?xs st1)"
    then have "returns (\<lambda>dbg. fold_res (init_enqueue dbg reverse) ys st1)
        (moved (B + 1 + int (length ys)) (new_order reverse ys ?xs) st1)"
      using Cons.prems(3-6) order(2) by (intro Cons.IH) (auto simp: moved_def)
    then show "returns (\<lambda>dbg. fold_res (init_enqueue dbg reverse) ys st1)
        (moved (B + int (length (y # ys))) (new_order reverse (y # ys) xs) st)"
      by (rule returns_mono) (use st1 order(1) in \<open>simp add: moved_def algebra_simps\<close>)
  qed
  then show ?case by simp
qed (simp add: new_order_def moved_def)

lemma table_room: "btab (enlarge_tables n st) = btab (with_room_for n st)" "q_vals (enlarge_tables n st) = q_vals (with_room_for n st)"
  by (simp_all add: with_room_for_def)

lemma add_variables_ok:
  assumes inv: "queue_inv xs st" and w: "within B xs st" and n: "q_max_var st < n"
    and B: "B + int (n - q_max_var st) \<le> INT64_MAX" and low: "reverse \<Longrightarrow> low_first xs st" and f: "fresh st"
  shows "returns (\<lambda>dbg. add_variables dbg reverse n st)
           (moved (B + int (n - q_max_var st)) (new_order reverse [q_max_var st + 1..<n + 1] xs) (with_room_for n st))"
proof -
  let ?ys = "[q_max_var st + 1..<n + 1]"
  note r = with_room_for_ok [OF inv, of n]
  have ys: "map (\<lambda>i. i + 1) [q_max_var st..<n] = ?ys" by (simp only: map_Suc_upt Suc_eq_plus1 [symmetric])
  have fold_map: "fold_res (\<lambda>i. f (i + 1)) is s = fold_res f (map (\<lambda>i. i + 1) is) s" for f :: "nat \<Rightarrow> vmtf \<Rightarrow> vmtf res" and "is" s
    by (induction "is" arbitrary: s) (auto simp: bind_res_def split: sum.splits)
  have len: "length ?ys = n - q_max_var st" by (simp del: upt_Suc)
  have "set xs \<subseteq> {..q_max_var st}" using queue_in_range(2) [OF inv] by auto
  then have "returns (\<lambda>dbg. fold_res (init_enqueue dbg reverse) ?ys (with_room_for n st))
      (moved (B + int (length ?ys)) (new_order reverse ?ys xs) (with_room_for n st))"
    using n r w low B by (intro init_fold_ok) (auto simp del: upt_Suc simp: len)
  moreover have "add_variables dbg reverse n st = fold_res (init_enqueue dbg reverse) ?ys (with_room_for n st)" for dbg
  proof -
    have "add_variables dbg reverse n st = fold_res (\<lambda>i. init_enqueue dbg reverse (i + 1)) [q_max_var st..<n] (with_room_for n st)"
      using n with_room_for_fresh(1,2) [OF _ f n] inv
      by (auto simp: add_variables_def init_queue_def cassert_def with_room_for_def [symmetric] Let_def queue_inv_def table_room)
    then show ?thesis by (simp only: fold_map ys)
  qed
  ultimately show ?thesis by (simp only: len)
qed

section \<open>Decisions\<close>

text \<open>The decision is the last variable of the queue without a value.\<close>

lemma next_decision_ok:
  assumes inv: "queue_inv xs st" and w: "within B xs st" and un: "\<exists>x \<in> set xs. q_vals st ! x = 0"
  shows "returns (\<lambda>dbg. next_decision_variable_on_queue dbg st)
           (\<lambda>(r, st'). moved B xs st st' \<and> r = last (filter (\<lambda>x. q_vals st ! x = 0) xs))"
proof -
  have d: "distinct xs" "xs \<noteq> []" and p: "pointed xs st" and sh: "shaped xs st" using inv un by (auto simp: queue_inv_def shaped_def)
  define I where "I = (\<lambda>(r, k). (\<exists>pre post. xs = pre @ r # post \<and> k \<le> length post \<and> (\<forall>y \<in> set post. q_vals st ! y \<noteq> 0)) \<and>
    (k = 0 \<longrightarrow> r = q_unassigned st))"
  define m where "m = (\<lambda>(r :: nat, k). length xs - k)"
  define Q where "Q = (\<lambda>(r, k :: nat). I (r, k) \<and> q_vals st ! r = 0)"
  have "I (q_unassigned st, 0)"
  proof -
    obtain pre post where "xs = pre @ q_unassigned st # post" using after_aboveE [OF _ d(2)] p unfolding pointed_def by metis
    then show ?thesis using pointed_after [OF p _ d(1)] unfolding I_def by blast
  qed
  moreover have "returns (\<lambda>dbg. search_step dbg st s) (\<lambda>(go, s'). if go then I s' \<and> m s' < m s else Q s')" if I: "I s" for s
  proof -
    obtain r k where s: "s = (r, k)" by (cases s)
    obtain pre post where xs: "xs = pre @ r # post" "\<forall>y \<in> set post. q_vals st ! y \<noteq> 0" "k \<le> length post"
      using I s by (auto simp: I_def)
    note r = queue_in_range [OF inv, of r]
    have v: "value_of dbg r st = Inr (q_vals st ! r)" for dbg using r xs(1) by (simp add: value_of_def cassert_def)
    show ?thesis
    proof (cases "q_vals st ! r = 0")
      case True
      then show ?thesis using I s v by (simp add: search_step_def Q_def)
    next
      case False
      have "pre \<noteq> []" using un xs False by auto
      then obtain pre' r' where pre: "pre = pre' @ [r']" by (cases pre rule: rev_cases) auto
      have l: "r < length (links st)" "lprev (links st ! r) = r'" using shaped_middle(1,2) [of pre r post st] sh xs(1) pre by auto
      have "xs = pre' @ r' # r # post" using xs(1) pre by simp
      then have "I (r', k + 1)" using xs(2,3) False unfolding I_def prod.case by (intro conjI exI [of _ pre'] exI [of _ "r # post"]) auto
      moreover have "m (r', k + 1) < m s" using s xs(1,3) by (simp add: m_def)
      ultimately show ?thesis using False s v l by (simp add: search_step_def)
    qed
  qed
  ultimately have "returns (\<lambda>dbg. loop (search_step dbg st) (q_unassigned st, 0)) Q" by (rule returns_loop)
  then show ?thesis unfolding next_decision_variable_on_queue_def
  proof (rule returns_bind)
    fix s assume "Q s"
    then obtain r k pre post where s: "s = (r, k)" "xs = pre @ r # post" "\<forall>y \<in> set post. q_vals st ! y \<noteq> 0" "q_vals st ! r = 0"
      "k = 0 \<longrightarrow> r = q_unassigned st"
      by (auto simp: Q_def I_def)
    have r: "r = last (filter (\<lambda>x. q_vals st ! x = 0) xs)" using s(2-4) by simp
    have mem: "r \<in> set xs" using s(2) by simp
    have ptr: "returns (\<lambda>dbg. update_queue_unassigned dbg r st)
           (\<lambda>st'. st' = st\<lparr>q_unassigned := r, q_bumped := btab st ! r\<rparr> \<and> queue_inv xs st')"
      using inv s(2,3) by (intro update_pointer) (auto simp: queue_inv_def)
    show "returns (\<lambda>dbg. case s of (r, searched) \<Rightarrow>
        bind_res (if searched \<noteq> 0 then update_queue_unassigned dbg r st else Inr st) (\<lambda>st. Inr (r, st)))
      (\<lambda>(r, st'). moved B xs st st' \<and> r = last (filter (\<lambda>x. q_vals st ! x = 0) xs))"
    proof (cases "k = 0")
      case True
      then show ?thesis using s(1,5) inv w r by (simp add: moved_def)
    next
      case False
      have "returns (\<lambda>dbg. bind_res (update_queue_unassigned dbg r st) (\<lambda>st. Inr (r, st)))
        (\<lambda>(r, st'). moved B xs st st' \<and> r = last (filter (\<lambda>x. q_vals st ! x = 0) xs))"
        using ptr by (rule returns_bind) (use r within_pointer [OF w mem] in \<open>auto simp: moved_def\<close>)
      then show ?thesis using False s(1) by simp
    qed
  qed
qed

end
