(* ===== verification/QueueReorder.thy ===== *)
theory QueueReorder
  imports QueueOrder
begin

text \<open>
  The operations that renew the whole queue: shuffling, and compaction with the mapper, the flush of the queue in place
  and the move of the tables to the new indices.
\<close>

section \<open>Shuffling\<close>

definition prev_of :: "nat list \<Rightarrow> nat" where
  "prev_of pre = (if pre = [] then 0 else last pre)"

lemma backwards_ok:
  assumes sh: "shaped xs st"
  shows "backwards st = Inr (rev xs)"
proof -
  define I where "I = (\<lambda>(idx, seen). \<exists>pre. xs = pre @ rev seen \<and> idx = prev_of pre)"
  define m where "m = (\<lambda>(idx :: nat, seen :: nat list). length xs - length seen)"
  define Q where "Q = (\<lambda>(idx :: nat, seen). seen = rev xs)"
  have "I (q_last st, [])" using sh by (auto simp: I_def prev_of_def shaped_def)
  moreover have "\<exists>go s'. back_step st s = Inr (go, s') \<and> (if go then I s' \<and> m s' < m s else Q s')" if I: "I s" for s
  proof -
    obtain idx seen where s: "s = (idx, seen)" by (cases s)
    obtain pre where xs: "xs = pre @ rev seen" "idx = prev_of pre" using I s by (auto simp: I_def)
    show ?thesis
    proof (cases pre rule: rev_cases)
      case Nil
      then show ?thesis using s xs by (intro exI [of _ False] exI [of _ s]) (simp add: back_step_def prev_of_def Q_def)
    next
      case (snoc pre' x)
      then have m: "x < length (links st)" "lprev (links st ! x) = prev_of pre'" "x \<noteq> 0"
        using shaped_middle [of pre' x "rev seen" st] sh xs by (auto simp: prev_of_def shaped_def)
      have "I (prev_of pre', seen @ [x])" "m (prev_of pre', seen @ [x]) < m s" using snoc xs s by (auto simp: I_def m_def)
      moreover have "back_step st s = Inr (True, prev_of pre', seen @ [x])" using s m snoc xs by (simp add: back_step_def prev_of_def)
      ultimately show ?thesis by (metis (full_types))
    qed
  qed
  ultimately have "\<exists>s'. loop (back_step st) (q_last st, []) = Inr s' \<and> Q s'" by (rule loop_returns)
  then show ?thesis by (auto simp: backwards_def Q_def)
qed

lemma swaps_ok:
  assumes "\<forall>i \<in> set is. i < length xs \<and> pick i < length xs"
  shows "\<exists>ys. swaps pick is xs = Inr ys \<and> mset ys = mset xs"
  using assms
proof (induction pick "is" xs rule: swaps.induct)
  case (2 pick i "is" xs)
  then have "\<exists>ys. swaps pick is (xs[i := xs ! pick i, pick i := xs ! i]) = Inr ys \<and> mset ys = mset (xs[i := xs ! pick i, pick i := xs ! i])"
    by simp
  then show ?case using 2(2) by (auto simp: mset_swap)
qed simp

lemma relinked_refl: "relinked st st"
  by (simp add: relinked_def)

lemma relinked_trans: "relinked st st1 \<Longrightarrow> relinked st1 st2 \<Longrightarrow> relinked st st2"
  unfolding relinked_def by auto

lemma enqueue_all_ok:
  assumes "distinct ys" "\<forall>y \<in> set ys. y \<noteq> 0 \<and> y < length (links st)"
  shows "\<exists>st'. fold_res enqueue ys (st\<lparr>q_first := 0, q_last := 0\<rparr>) = Inr st' \<and> shaped ys st' \<and> relinked st st'"
proof (rule fold_res_invariant)
  show "shaped [] (st\<lparr>q_first := 0, q_last := 0\<rparr>) \<and> relinked st (st\<lparr>q_first := 0, q_last := 0\<rparr>)"
    by (simp add: relinked_def shaped_def)
next
  fix pre x post s
  assume "ys = pre @ x # post" "shaped pre s \<and> relinked st s"
  then show "\<exists>s'. enqueue x s = Inr s' \<and> shaped (pre @ [x]) s' \<and> relinked st s'"
    using enqueue_ok [of pre s x] assms relinkedD(7) [of st s] relinked_trans [of st s] by auto
qed

text \<open>The new stamps go down from \<open>q_bumped\<close>, from the end of the queue.\<close>

lemma stamp_loop_ok:
  assumes sh: "shaped ys st" and len: "length (btab st) = length (links st)" and room: "INT64_MIN + int (length ys) \<le> q_bumped st"
  shows "\<exists>idx b bs. loop stamp_step (q_last st, q_bumped st, st) = Inr (idx, b, st\<lparr>btab := bs\<rparr>) \<and> length bs = length (btab st) \<and>
     (\<forall>i. i \<notin> set ys \<longrightarrow> bs ! i = btab st ! i) \<and>
     sorted_wrt (\<lambda>x y. bs ! x < bs ! y) ys \<and> (\<forall>x \<in> set ys. q_bumped st - int (length ys) < bs ! x \<and> bs ! x \<le> q_bumped st)"
proof -
  define I where "I = (\<lambda>(idx, b, st'). \<exists>pre post bs. ys = pre @ post \<and> idx = prev_of pre \<and> b = q_bumped st - int (length post) \<and>
     st' = st\<lparr>btab := bs\<rparr> \<and> length bs = length (btab st) \<and> (\<forall>i. i \<notin> set ys \<longrightarrow> bs ! i = btab st ! i) \<and>
     sorted_wrt (\<lambda>x y. bs ! x < bs ! y) post \<and>
     (\<forall>x \<in> set post. b < bs ! x \<and> bs ! x \<le> q_bumped st))"
  define m where "m = (\<lambda>(idx :: nat, b, st' :: vmtf). nat (b - (q_bumped st - int (length ys))))"
  define Q where "Q = (\<lambda>(idx :: nat, b :: int, st'). \<exists>bs. st' = st\<lparr>btab := bs\<rparr> \<and> length bs = length (btab st) \<and>
     (\<forall>i. i \<notin> set ys \<longrightarrow> bs ! i = btab st ! i) \<and> sorted_wrt (\<lambda>x y. bs ! x < bs ! y) ys \<and> (\<forall>x \<in> set ys. q_bumped st - int (length ys) < bs ! x \<and> bs ! x \<le> q_bumped st))"
  have "I (q_last st, q_bumped st, st)"
    using sh unfolding I_def by (auto simp: prev_of_def shaped_def intro!: exI [of _ ys] exI [of _ "btab st"])
  moreover have "\<exists>go s'. stamp_step s = Inr (go, s') \<and> (if go then I s' \<and> m s' < m s else Q s')" if I: "I s" for s
  proof -
    obtain idx b st' where s: "s = (idx, b, st')" by (cases s)
    obtain pre post bs where ys: "ys = pre @ post" "idx = prev_of pre" "b = q_bumped st - int (length post)" "st' = st\<lparr>btab := bs\<rparr>"
      "length bs = length (btab st)" "sorted_wrt (\<lambda>x y. bs ! x < bs ! y) post" "\<forall>x \<in> set post. b < bs ! x \<and> bs ! x \<le> q_bumped st" "\<forall>i. i \<notin> set ys \<longrightarrow> bs ! i = btab st ! i"
      using I s by (auto simp: I_def)
    show ?thesis
    proof (cases pre rule: rev_cases)
      case Nil
      then have "Q s" using s ys by (auto simp: Q_def)
      then show ?thesis using Nil s ys(2) by (intro exI [of _ False] exI [of _ s]) (simp add: stamp_step_def prev_of_def)
    next
      case (snoc pre' x)
      have l: "x < length (links st)" "lprev (links st ! x) = prev_of pre'" "x \<noteq> 0" "x \<notin> set post"
        using shaped_middle [of pre' x post st] sh ys(1) snoc by (auto simp: prev_of_def shaped_def)
      have old: "bs[x := b] ! y = bs ! y" if "y \<in> set post" for y using that l(4) by (metis nth_list_update_neq)
      have "b \<noteq> INT64_MIN" using room ys(1,3) snoc by simp
      then have step: "stamp_step s = Inr (True, prev_of pre', b - 1, st\<lparr>btab := bs[x := b]\<rparr>)"
        using s ys(2,4,5) l len snoc by (simp add: stamp_step_def set_stamp_def prev_of_def)
      have "sorted_wrt (\<lambda>y z. bs[x := b] ! y < bs[x := b] ! z) post"
        using ys(6) old by (auto intro: sorted_wrt_mono_rel [rotated])
      then have "sorted_wrt (\<lambda>y z. bs[x := b] ! y < bs[x := b] ! z) (x # post)" using ys(5,7) l len old by simp
      moreover have "\<forall>y \<in> set (x # post). b - 1 < bs[x := b] ! y \<and> bs[x := b] ! y \<le> q_bumped st"
        using ys(3,5,7) l len old by fastforce
      ultimately have "I (prev_of pre', b - 1, st\<lparr>btab := bs[x := b]\<rparr>)"
        unfolding I_def prod.case using ys(1,3,5,8) snoc
        by (intro exI [of _ pre'] exI [of _ "x # post"] exI [of _ "bs[x := b]"]) simp
      moreover have "m (prev_of pre', b - 1, st\<lparr>btab := bs[x := b]\<rparr>) < m s" using s ys(1,3) snoc by (simp add: m_def)
      ultimately show ?thesis using step by (metis (full_types))
    qed
  qed
  ultimately have "\<exists>s'. loop stamp_step (q_last st, q_bumped st, st) = Inr s' \<and> Q s'" by (rule loop_returns)
  then show ?thesis by (fastforce simp: Q_def)
qed

text \<open>The order after a shuffle.\<close>

definition shuffled :: "bool \<Rightarrow> (nat \<Rightarrow> nat) \<Rightarrow> nat \<Rightarrow> nat list \<Rightarrow> nat list" where
  "shuffled random pick n xs =
     (if random then case swaps pick [0..<n - 1] (rev [1..<n + 1]) of Inr ys \<Rightarrow> ys | Inl _ \<Rightarrow> [] else rev xs)"

lemma shuffled_mset:
  assumes "random \<Longrightarrow> \<forall>i. i + 1 < n \<longrightarrow> pick i < n"
  shows "mset (shuffled random pick n xs) = (if random then mset [1..<n + 1] else mset xs)"
    "random \<Longrightarrow> swaps pick [0..<n - 1] (rev [1..<n + 1]) = Inr (shuffled random pick n xs)"
proof -
  have ok: "\<exists>ys. swaps pick [0..<n - 1] (rev [1..<n + 1]) = Inr ys \<and> mset ys = mset (rev [1..<n + 1])" if random
    using assms [OF that] by (intro swaps_ok) auto
  then show "mset (shuffled random pick n xs) = (if random then mset [1..<n + 1] else mset xs)"
    by (auto simp: shuffled_def)
  show "random \<Longrightarrow> swaps pick [0..<n - 1] (rev [1..<n + 1]) = Inr (shuffled random pick n xs)"
    using ok by (auto simp: shuffled_def)
qed

lemma shuffle_queue_ok:
  assumes inv: "queue_inv xs st" and w: "within B xs st" and pick: "random \<Longrightarrow> \<forall>i. i + 1 < q_max_var st \<longrightarrow> pick i < q_max_var st"
    and B: "B + int (length (shuffled random pick (q_max_var st) xs)) \<le> INT64_MAX"
  defines "B' \<equiv> B + int (length (shuffled random pick (q_max_var st) xs))"
  shows "\<exists>st'. shuffle_queue random pick st = Inr st' \<and> moved B' (shuffled random pick (q_max_var st) xs) st st'"
proof -
  have room: "INT64_MIN + int (length (shuffled random pick (q_max_var st) xs)) \<le> q_bumped st"
    using w B by (simp add: within_def INT64_MIN_def INT64_MAX_def)
  let ?ys = "shuffled random pick (q_max_var st) xs"
  have ms: "mset ?ys = (if random then mset [1..<q_max_var st + 1] else mset xs)"
    "random \<Longrightarrow> swaps pick [0..<q_max_var st - 1] (rev [1..<q_max_var st + 1]) = Inr ?ys"
    by (rule shuffled_mset, use pick in blast)+
  have sh: "shaped xs st" and sz: "sized xs st" and s: "stamped xs st" using inv by (auto simp: queue_inv_def)
  have set: "set ?ys = (if random then set [1..<q_max_var st + 1] else set xs)"
    using arg_cong [OF ms(1), of set_mset] by (cases random) (simp_all only: if_True if_False set_mset_mset)
  have d: "distinct ?ys" using ms(1) sh mset_eq_imp_distinct_iff [of ?ys "if random then [1..<q_max_var st + 1] else xs"]
    by (auto simp: shaped_def split: if_splits)
  have range: "y \<noteq> 0" "y < length (links st)" "y \<le> q_max_var st" if "y \<in> set ?ys" for y
    using that set sz queue_in_range [OF inv, of y] by (auto simp: sized_def split: if_splits)
  have order: "(if random then swaps pick [0..<q_max_var st - 1] (rev [1..<q_max_var st + 1]) else backwards st) = Inr ?ys"
    using ms(2) backwards_ok [OF sh] by (simp add: shuffled_def)
  obtain st1 where st1: "fold_res enqueue ?ys (st\<lparr>q_first := 0, q_last := 0\<rparr>) = Inr st1" "shaped ?ys st1" "relinked st st1"
    using enqueue_all_ok [OF d, of st] range by blast
  note e = relinkedD [OF st1(3)]
  obtain idx b bs where bs: "loop stamp_step (q_last st1, q_bumped st1, st1) = Inr (idx, b, st1\<lparr>btab := bs\<rparr>)"
    "length bs = length (btab st1)" "sorted_wrt (\<lambda>x y. bs ! x < bs ! y) ?ys" "\<forall>x \<in> set ?ys. q_bumped st1 - int (length ?ys) < bs ! x \<and> bs ! x \<le> q_bumped st1"
    "\<forall>i. i \<notin> set ?ys \<longrightarrow> bs ! i = btab st1 ! i"
    using stamp_loop_ok [OF st1(2)] sz room e by (auto simp: sized_def)
  let ?st = "st1\<lparr>btab := bs, q_unassigned := q_last st1\<rparr>"
  have "shuffle_queue random pick st = Inr ?st"
    unfolding shuffle_queue_def order by (simp add: st1(1) bs(1))
  moreover have "after_above ?ys (q_last st1) (q_bumped st1) bs"
  proof (cases ?ys rule: rev_cases)
    case Nil
    then show ?thesis using st1(2) by (simp add: shaped_def after_above_def)
  next
    case (snoc ws w)
    then show ?thesis using st1(2) by (intro after_aboveI [of _ ws _ "[]"]) (auto simp: shaped_def)
  qed
  then have "pointed ?ys ?st" using bs(4) by (auto simp: pointed_def above_valued_def)
  moreover have "stamped ?ys ?st" using s bs(3,4) e by (auto simp: stamped_def)
  moreover have "sized ?ys ?st" using sz e bs(2) range(3) by (auto simp: sized_def)
  moreover have "shaped ?ys ?st" using st1(2) by (simp add: shaped_def)
  moreover have "within B' ?ys ?st" using w bs(4) e unfolding B'_def within_def by fastforce
  moreover have "\<forall>i. i = 0 \<or> q_max_var st < i \<longrightarrow> bs ! i = btab st ! i" using bs(5) e range(1,3) by (metis linorder_not_less)
  ultimately show ?thesis using e by (simp add: moved_def queue_inv_def)
qed

section \<open>Compacting\<close>

text \<open>The first fixed variable is kept, the other variables that are not active are not.\<close>

definition kept :: "(nat \<Rightarrow> bool) \<Rightarrow> (nat \<Rightarrow> bool) \<Rightarrow> nat \<Rightarrow> bool" where
  "kept active fixed x \<longleftrightarrow> active x \<or> (fixed x \<and> (\<forall>y \<in> set [1..<x]. \<not> (fixed y \<and> \<not> active y)))"

definition new_index :: "(nat \<Rightarrow> bool) \<Rightarrow> (nat \<Rightarrow> bool) \<Rightarrow> nat \<Rightarrow> nat" where
  "new_index active fixed x = length (filter (kept active fixed) [1..<x + 1])"

lemma new_index_0 [simp]: "new_index active fixed 0 = 0"
  by (simp add: new_index_def)

lemma new_index_Suc: "new_index active fixed (Suc x) = new_index active fixed x + (if kept active fixed (Suc x) then 1 else 0)"
proof -
  have "[1..<Suc x + 1] = [1..<x + 1] @ [Suc x]" by simp
  then have "new_index active fixed (Suc x) = length (filter (kept active fixed) ([1..<x + 1] @ [Suc x]))"
    by (simp only: new_index_def)
  then show ?thesis by (cases "kept active fixed (Suc x)") (simp_all add: new_index_def del: upt_Suc)
qed

lemma new_index_mono: "x \<le> y \<Longrightarrow> new_index active fixed x \<le> new_index active fixed y"
  by (rule lift_Suc_mono_le [of "new_index active fixed"]) (simp_all add: new_index_Suc)

lemma new_index_less: "x < y \<Longrightarrow> kept active fixed y \<Longrightarrow> new_index active fixed x < new_index active fixed y"
  using new_index_mono [of x "y - 1" active fixed] new_index_Suc [of active fixed "y - 1"] by (cases y) auto

lemma new_index_le: "new_index active fixed x \<le> x"
  by (induction x) (auto simp: new_index_Suc)

lemma new_index_pos: "kept active fixed x \<Longrightarrow> x \<noteq> 0 \<Longrightarrow> new_index active fixed x \<noteq> 0"
  using new_index_less [of 0 x active fixed] by simp

text \<open>The table the mapper builds.\<close>

definition mapped_to :: "(nat \<Rightarrow> bool) \<Rightarrow> (nat \<Rightarrow> bool) \<Rightarrow> nat \<Rightarrow> nat \<Rightarrow> mapper \<Rightarrow> bool" where
  "mapped_to active fixed n k m \<longleftrightarrow>
     length (m_table m) = n + 1 \<and> m_new_max_var m = new_index active fixed k \<and>
     (\<forall>x \<le> n. m_table m ! x = (if x \<noteq> 0 \<and> x \<le> k \<and> kept active fixed x then new_index active fixed x else 0)) \<and>
     (m_first_fixed m = 0 \<longleftrightarrow> (\<forall>y. 1 \<le> y \<and> y \<le> k \<longrightarrow> \<not> (fixed y \<and> \<not> active y))) \<and>
     (m_first_fixed m \<noteq> 0 \<longrightarrow> fixed (m_first_fixed m) \<and> \<not> active (m_first_fixed m) \<and> m_first_fixed m \<le> k \<and>
       (\<forall>y. 1 \<le> y \<and> y < m_first_fixed m \<longrightarrow> \<not> (fixed y \<and> \<not> active y)))"

lemma map_one_ok:
  assumes m: "mapped_to active fixed n k m" and k: "Suc k \<le> n"
  shows "\<exists>m'. map_one active fixed (Suc k) m = Inr m' \<and> mapped_to active fixed n (Suc k) m'"
proof -
  have first: "m_first_fixed m = 0 \<longleftrightarrow> (\<forall>y \<in> set [1..<Suc k]. \<not> (fixed y \<and> \<not> active y))"
    using m unfolding mapped_to_def by (auto simp: less_Suc_eq_le)
  consider (act) "active (Suc k)" | (fix1) "\<not> active (Suc k)" "fixed (Suc k)" "m_first_fixed m = 0"
    | (other) "\<not> active (Suc k)" "\<not> (fixed (Suc k) \<and> m_first_fixed m = 0)" by metis
  then show ?thesis
  proof cases
    case act
    then have "kept active fixed (Suc k)" by (simp add: kept_def)
    then show ?thesis using act m k
      by (auto simp: map_one_def mapped_to_def new_index_Suc nth_list_update le_Suc_eq)
  next
    case fix1
    then have "kept active fixed (Suc k)" using first by (simp add: kept_def)
    then show ?thesis using fix1 m k
      by (auto simp: map_one_def mapped_to_def new_index_Suc nth_list_update le_Suc_eq)
  next
    case other
    then have "\<not> kept active fixed (Suc k)" using first by (auto simp: kept_def)
    then show ?thesis using other m k
      by (auto simp: map_one_def mapped_to_def new_index_Suc le_Suc_eq)
  qed
qed

lemma Mapper_new_ok: "\<exists>m. Mapper_new active fixed n = Inr m \<and> mapped_to active fixed n n m"
proof -
  let ?m = "\<lparr>m_table = replicate (n + 1) 0, m_new_max_var = 0, m_first_fixed = 0, m_map_first_fixed = 0\<rparr>"
  have "returns (\<lambda>_. fold_res (map_one active fixed) [1..<n + 1] ?m) (mapped_to active fixed n n)"
  proof (rule returns_upto [where f = "\<lambda>_. map_one active fixed" and I = "mapped_to active fixed n"])
    show "mapped_to active fixed n 0 ?m" by (auto simp: mapped_to_def nth_Cons split: nat.splits)
  next
    fix k m
    assume "k < n" "mapped_to active fixed n k m"
    then show "returns (\<lambda>_. map_one active fixed (Suc k) m) (mapped_to active fixed n (Suc k))"
      using map_one_ok [of active fixed n k m] by (auto simp: returns_def)
  qed
  then show ?thesis by (auto simp: returns_def Mapper_new_def)
qed

definition target :: "(nat \<Rightarrow> bool) \<Rightarrow> (nat \<Rightarrow> bool) \<Rightarrow> nat \<Rightarrow> nat" where
  "target active fixed x = (if kept active fixed x then new_index active fixed x else 0)"

lemma target_le: "target active fixed x \<le> x"
  using new_index_le [of active fixed x] by (simp add: target_def)

lemma target_less: "kept active fixed y \<Longrightarrow> x < y \<Longrightarrow> target active fixed x < target active fixed y"
  using new_index_less [of x y active fixed] by (auto simp: target_def)

lemma target_pos: "x \<noteq> 0 \<Longrightarrow> target active fixed x = 0 \<longleftrightarrow> \<not> kept active fixed x"
  using new_index_pos [of active fixed x] by (simp add: target_def)

lemma target_bound: "x \<le> n \<Longrightarrow> target active fixed x \<le> new_index active fixed n"
  using new_index_mono [of x n active fixed] by (simp add: target_def)

lemma map_idx_ok:
  "mapped_to active fixed n n m \<Longrightarrow> 0 < x \<Longrightarrow> x \<le> n \<Longrightarrow> map_idx dbg n m x = Inr (target active fixed x)"
  using target_bound [of x n active fixed] by (simp add: map_idx_def mapped_to_def cassert_def target_def)

text \<open>The entries of the variables that are kept move to their new indices.\<close>

lemma map_vector_ok:
  assumes m: "mapped_to active fixed n n m" and len: "n < length v \<or> n = 0"
  shows "returns (\<lambda>dbg. map_vector dbg n m d v) (\<lambda>v'. length v' = new_index active fixed n + 1 \<and> v' ! 0 = (if v = [] then d else v ! 0) \<and>
     (\<forall>x. 1 \<le> x \<and> x \<le> n \<and> kept active fixed x \<longrightarrow> v' ! target active fixed x = v ! x))"
proof -
  define I where "I = (\<lambda>k v'. length v' = length v \<and> v' ! 0 = v ! 0 \<and> (\<forall>i. k < i \<longrightarrow> v' ! i = v ! i) \<and>
    (\<forall>x. 1 \<le> x \<and> x \<le> k \<and> kept active fixed x \<longrightarrow> v' ! target active fixed x = v ! x))"
  have "returns (\<lambda>dbg. fold_res (map_entry dbg n m) [1..<n + 1] v) (I n)"
  proof (rule returns_upto)
    show "I 0 v" by (simp add: I_def)
  next
    fix k v'
    assume k: "k < n" and I: "I k v'"
    note le = target_le [of active fixed "Suc k"]
    show "returns (\<lambda>dbg. map_entry dbg n m (Suc k) v') (I (Suc k))"
    proof (cases "kept active fixed (Suc k)")
      case True
      let ?v = "v'[target active fixed (Suc k) := v' ! Suc k]"
      have "target active fixed (Suc k) \<noteq> 0" using True target_pos [of "Suc k"] by simp
      moreover have "length v' = length v" using I by (simp add: I_def)
      ultimately have "map_entry dbg n m (Suc k) v' = Inr ?v" for dbg
        using map_idx_ok [OF m, of "Suc k" dbg] k len le by (simp add: map_entry_def cassert_def)
      moreover have "?v ! target active fixed x = v ! x" if "1 \<le> x" "x \<le> Suc k" "kept active fixed x" for x
      proof (cases "x = Suc k")
        case False
        then have "target active fixed x < target active fixed (Suc k)" using target_less [OF True] that by simp
        then show ?thesis using I that False by (simp add: I_def)
      qed (use I k len le in \<open>simp add: I_def\<close>)
      then have "I (Suc k) ?v" using I le \<open>target active fixed (Suc k) \<noteq> 0\<close> by (simp add: I_def)
      ultimately show ?thesis by simp
    next
      case False
      then have "map_entry dbg n m (Suc k) v' = Inr v'" for dbg
        using map_idx_ok [OF m, of "Suc k" dbg] k by (simp add: map_entry_def target_def)
      moreover have "I (Suc k) v'" using I False by (auto simp: I_def le_Suc_eq)
      ultimately show ?thesis by simp
    qed
  qed
  then show ?thesis unfolding map_vector_def
  proof (rule returns_bind)
    fix v' assume I: "I n v'"
    have b: "target active fixed x < new_index active fixed n + 1 \<and> target active fixed x < length v'" if "x \<le> n" "1 \<le> x" for x
      using target_bound [OF that(1), of active fixed] target_le [of active fixed x] that len I by (auto simp: I_def)
    show "returns (\<lambda>dbg. Inr (resize (m_new_max_var m + 1) d v')) (\<lambda>v'. length v' = new_index active fixed n + 1 \<and>
        v' ! 0 = (if v = [] then d else v ! 0) \<and> (\<forall>x. 1 \<le> x \<and> x \<le> n \<and> kept active fixed x \<longrightarrow> v' ! target active fixed x = v ! x))"
    proof (cases "v = []")
      case True
      then have "v' = []" "n = 0" using I len by (auto simp: I_def)
      then show ?thesis using True m by (auto simp: mapped_to_def)
    next
      case False
      then show ?thesis using I b m by (simp add: I_def mapped_to_def nth_resize)
    qed
  qed
qed

lemma map_vals_ok:
  assumes m: "mapped_to active fixed n n m" and len: "n < length vals \<or> n = 0" "length new = new_index active fixed n + 1"
  shows "returns (\<lambda>dbg. map_vals dbg n m new vals) (\<lambda>vs. length vs = new_index active fixed n + 1 \<and>
     (\<forall>x. 1 \<le> x \<and> x \<le> n \<and> kept active fixed x \<longrightarrow> vs ! target active fixed x = vals ! x))"
proof -
  define I where "I = (\<lambda>k vs. length vs = length new \<and>
    (\<forall>x. 1 \<le> x \<and> x \<le> k \<and> kept active fixed x \<longrightarrow> vs ! target active fixed x = vals ! x))"
  have "returns (\<lambda>dbg. fold_res (map_value dbg n m vals) [1..<n + 1] new) (I n)"
  proof (rule returns_upto)
    show "I 0 new" by (simp add: I_def)
  next
    fix k vs
    assume k: "k < n" and I: "I k vs"
    let ?vs = "vs[target active fixed (Suc k) := vals ! Suc k]"
    have b: "target active fixed (Suc k) < length vs" using target_bound [of "Suc k" n active fixed] I len k by (simp add: I_def)
    then have "map_value dbg n m vals (Suc k) vs = Inr ?vs" for dbg
      using map_idx_ok [OF m, of "Suc k" dbg] k len by (simp add: map_value_def)
    moreover have "?vs ! target active fixed x = vals ! x" if x: "1 \<le> x" "x \<le> Suc k" "kept active fixed x" for x
    proof (cases "x = Suc k")
      case False
      have "target active fixed x \<noteq> target active fixed (Suc k)"
        using target_less [of active fixed "Suc k" x] target_pos [of x active fixed] target_pos [of "Suc k" active fixed] x False by fastforce
      then show ?thesis using I x False by (simp add: I_def)
    qed (use b in simp)
    ultimately show "returns (\<lambda>dbg. map_value dbg n m vals (Suc k) vs) (I (Suc k))" using I by (simp add: I_def)
  qed
  then show ?thesis unfolding map_vals_def
  proof (rule returns_bind)
    fix vs assume I: "I n vs"
    have "target active fixed x \<noteq> 0" if "1 \<le> x" "kept active fixed x" for x using that target_pos [of x active fixed] by simp
    then show "returns (\<lambda>dbg. set_at vs 0 0) (\<lambda>vs. length vs = new_index active fixed n + 1 \<and>
     (\<forall>x. 1 \<le> x \<and> x \<le> n \<and> kept active fixed x \<longrightarrow> vs ! target active fixed x = vals ! x))"
      using I len by (simp add: I_def)
  qed
qed

text \<open>The queue loses the variables that are not active; its links already hold new indices.\<close>

lemma flushed:
  assumes m: "mapped_to active fixed n n m" and x: "x \<noteq> 0" "x \<le> n"
  shows "x = m_first_fixed m \<or> target active fixed x = 0 \<longleftrightarrow> \<not> active x"
proof -
  have "x = m_first_fixed m" if k: "kept active fixed x" "\<not> active x"
  proof -
    have f: "fixed x" "\<forall>y \<in> set [1..<x]. \<not> (fixed y \<and> \<not> active y)" using k by (auto simp: kept_def)
    then have "m_first_fixed m \<noteq> 0" using m x k(2) unfolding mapped_to_def by (metis One_nat_def Suc_leI neq0_conv)
    then have "\<not> m_first_fixed m < x" "\<not> x < m_first_fixed m" using m f x k(2) by (auto simp: mapped_to_def)
    then show ?thesis by simp
  qed
  moreover have "x \<noteq> m_first_fixed m" if "active x" using m x that by (auto simp: mapped_to_def)
  ultimately show ?thesis using target_pos [OF x(1), of active fixed] by (auto simp: kept_def)
qed

definition flush_inv :: "(nat \<Rightarrow> bool) \<Rightarrow> (nat \<Rightarrow> nat) \<Rightarrow> nat list \<Rightarrow> vmtf \<Rightarrow> nat list \<Rightarrow> nat \<times> nat \<times> nat \<times> vmtf \<Rightarrow> bool" where
  "flush_inv active tab pre st post s \<longleftrightarrow>
     (case s of (idx, prev, mprev, st') \<Rightarrow>
        (let zs = filter active pre
         in idx = (if post = [] then 0 else hd post) \<and> prev = prev_of zs \<and> mprev = (if zs = [] then 0 else tab (last zs)) \<and>
            (\<exists>nx. chain tab (links st') 0 zs nx) \<and> (\<forall>y \<in> set post. links st' ! y = links st ! y) \<and>
            (zs \<noteq> [] \<longrightarrow> q_first st' = tab (hd zs)) \<and> relinked st st'))"

lemma flush_keep:
  assumes c: "chain tab ls 0 zs nx" and x: "x < length ls" "x \<notin> set zs" and d: "distinct zs"
  shows "\<exists>nx. chain tab ((if zs = [] then ls else ls[last zs := (ls ! last zs)\<lparr>lnext := tab x\<rparr>])[x := l\<lparr>lprev := if zs = [] then 0 else tab (last zs)\<rparr>])
    0 (zs @ [x]) nx"
proof (cases "zs = []")
  case False
  let ?ls = "ls[last zs := (ls ! last zs)\<lparr>lnext := tab x\<rparr>]"
  have "chain tab ?ls 0 zs (tab x)" by (rule chain_set_next [OF c d False])
  then have "chain tab (?ls[x := l\<lparr>lprev := tab (last zs)\<rparr>]) 0 zs (tab x)" using x(2) by (simp add: chain_update)
  then show ?thesis using False x(1) by (intro exI [of _ "lnext l"]) (simp add: chain_append)
qed (use x in \<open>simp add: chain_append\<close>)

lemma flush_step_ok:
  assumes inv: "queue_inv xs st" and m: "mapped_to active fixed (q_max_var st) (q_max_var st) m"
    and xs: "xs = pre @ x # post" and s: "flush_inv active (target active fixed) pre st (x # post) s"
  shows "returns (\<lambda>dbg. flush_step dbg m active s) (\<lambda>(go, s'). go \<and> flush_inv active (target active fixed) (pre @ [x]) st post s')"
proof -
  let ?tab = "target active fixed"
  obtain idx prev mprev st' where t: "s = (idx, prev, mprev, st')" by (cases s)
  let ?zs = "filter active pre"
  obtain nx where I: "idx = x" "prev = prev_of ?zs" "mprev = (if ?zs = [] then 0 else ?tab (last ?zs))"
    "chain ?tab (links st') 0 ?zs nx" "links st' ! x = links st ! x" "\<forall>y \<in> set post. links st' ! y = links st ! y"
    "?zs \<noteq> [] \<longrightarrow> q_first st' = ?tab (hd ?zs)" "relinked st st'"
    using s t by (auto simp: flush_inv_def Let_def)
  note e = relinkedD [OF I(8)]
  note r = queue_in_range [OF inv, of x]
  have x: "x \<noteq> 0" "x < length (links st')" "x \<le> q_max_var st" using r xs e by auto
  have n: "lnext (links st ! x) = (if post = [] then 0 else hd post)"
    using shaped_middle(3) [of pre x post st] inv xs by (simp add: queue_inv_def)
  have d: "distinct xs" "0 \<notin> set xs" using inv by (auto simp: queue_inv_def shaped_def)
  have f: "x = m_first_fixed m \<or> ?tab x = 0 \<longleftrightarrow> \<not> active x" by (rule flushed [OF m x(1,3)])
  have idx: "map_idx dbg (q_max_var st') m x = Inr (?tab x)" for dbg using map_idx_ok [OF m, of x dbg] x e by simp
  show ?thesis
  proof (cases "active x")
    case False
    then have "flush_step dbg m active s = Inr (True, lnext (links st ! x), prev, mprev, st')" for dbg
      using t I(1,5) x f idx by (auto simp: flush_step_def)
    moreover have "flush_inv active ?tab (pre @ [x]) st post (lnext (links st ! x), prev, mprev, st')"
      using False I n by (auto simp: flush_inv_def Let_def)
    ultimately show ?thesis by simp
  next
    case True
    let ?ls = "if ?zs = [] then links st' else (links st')[last ?zs := (links st' ! last ?zs)\<lparr>lnext := ?tab x\<rparr>]"
    let ?ls' = "?ls[x := (?ls ! x)\<lparr>lprev := mprev\<rparr>]"
    let ?st = "st'\<lparr>links := ?ls', q_first := if ?zs = [] then ?tab x else q_first st'\<rparr>"
    have zs: "x \<notin> set ?zs" "0 \<notin> set ?zs" "distinct ?zs" "set ?zs \<inter> set post = {}" "x \<notin> set post" using d xs by auto
    have last: "last ?zs \<noteq> 0 \<and> last ?zs < length (links st') \<and> last ?zs \<noteq> x \<and> last ?zs \<notin> set post" if "?zs \<noteq> []"
      using zs last_in_set [OF that] chain_bounded [OF I(4)] by (metis disjoint_iff)
    have "flush_step dbg m active s = Inr (True, lnext (links st ! x), x, ?tab x, ?st)" for dbg
    proof (cases "?zs = []")
      case True
      then show ?thesis using \<open>active x\<close> t I(1,2,5) x f idx
        by (auto simp: flush_step_def cassert_def prev_of_def set_prev_def)
    next
      case False
      then show ?thesis using \<open>active x\<close> t I(1,2,5) x f idx last
        by (auto simp: flush_step_def cassert_def prev_of_def set_prev_def set_next_def)
    qed
    moreover have "flush_inv active ?tab (pre @ [x]) st post (lnext (links st ! x), x, ?tab x, ?st)"
    proof -
      have "\<exists>nx. chain ?tab ?ls' 0 (?zs @ [x]) nx" unfolding I(3) by (rule flush_keep [OF I(4) x(2) zs(1,3)])
      moreover have "\<forall>y \<in> set post. ?ls' ! y = links st ! y"
      proof
        fix y assume y: "y \<in> set post"
        then have "?ls' ! y = ?ls ! y" using zs(5) by (metis nth_list_update_neq)
        also have "\<dots> = links st' ! y"
        proof (cases "?zs = []")
          case False
          then have "last ?zs \<noteq> y" using last y by blast
          then show ?thesis by simp
        qed simp
        finally show "?ls' ! y = links st ! y" using I(6) y by simp
      qed
      moreover have "relinked st ?st" using I(8) by (simp add: relinked_def)
      moreover have "q_first ?st = ?tab (hd (?zs @ [x]))" using I(7) by simp
      ultimately show ?thesis using True n by (simp add: flush_inv_def Let_def prev_of_def)
    qed
    ultimately show ?thesis by simp
  qed
qed

lemma flush_loop_ok:
  assumes inv: "queue_inv xs st" and m: "mapped_to active fixed (q_max_var st) (q_max_var st) m"
  shows "xs = pre @ post \<Longrightarrow> flush_inv active (target active fixed) pre st post s \<Longrightarrow>
     returns (\<lambda>dbg. loop (flush_step dbg m active) s) (flush_inv active (target active fixed) xs st [])"
proof (induction post arbitrary: pre s)
  case Nil
  then obtain prev mprev st' where "s = (0, prev, mprev, st')" by (cases s) (auto simp: flush_inv_def Let_def)
  then have "loop (flush_step dbg m active) s = Inr s" for dbg by (subst loop_unfold) (simp add: flush_step_def)
  then show ?case using Nil by simp
next
  case (Cons x post)
  obtain go s' where s': "\<And>dbg. flush_step dbg m active s = Inr (go, s')" "go" "flush_inv active (target active fixed) (pre @ [x]) st post s'"
    using flush_step_ok [OF inv m Cons.prems] by (auto simp: returns_def)
  then have "loop (flush_step dbg m active) s = loop (flush_step dbg m active) s'" for dbg by (subst loop_unfold) simp
  then show ?case using Cons.IH [of "pre @ [x]" s'] Cons.prems(1) s'(3) by simp
qed

lemma flush_queue_ok:
  assumes inv: "queue_inv xs st" and m: "mapped_to active fixed (q_max_var st) (q_max_var st) m"
  defines "zs \<equiv> filter active xs" and "tab \<equiv> target active fixed"
  shows "returns (\<lambda>dbg. flush_queue dbg m active st) (\<lambda>st'. chain tab (links st') 0 zs 0 \<and> length (links st') = length (links st) \<and>
     q_first st' = (if zs = [] then 0 else tab (hd zs)) \<and> q_last st' = (if zs = [] then 0 else tab (last zs)) \<and>
     q_unassigned st' = q_last st' \<and> q_bumped st' = q_bumped st \<and> btab st' = btab st \<and> bump_count st' = bump_count st \<and>
     q_vals st' = q_vals st \<and> q_max_var st' = q_max_var st)"
proof -
  have sh: "shaped xs st" using inv by (simp add: queue_inv_def)
  have start: "flush_inv active tab [] st xs (q_first st, 0, 0, st)"
    using sh chain.simps(1) by (auto simp: flush_inv_def Let_def prev_of_def relinked_refl shaped_def)
  have "returns (\<lambda>dbg. loop (flush_step dbg m active) (q_first st, 0, 0, st)) (flush_inv active tab xs st [])"
    using flush_loop_ok [OF inv m, of "[]" xs] start unfolding tab_def by simp
  then show ?thesis unfolding flush_queue_def
  proof (rule returns_bind)
    fix s assume s: "flush_inv active tab xs st [] s"
    obtain idx prev mprev st' where t: "s = (idx, prev, mprev, st')" by (cases s)
    obtain nx where I: "prev = prev_of zs" "mprev = (if zs = [] then 0 else tab (last zs))" "chain tab (links st') 0 zs nx"
      "zs \<noteq> [] \<longrightarrow> q_first st' = tab (hd zs)" "relinked st st'"
      using s t by (auto simp: flush_inv_def Let_def zs_def)
    note e = relinkedD [OF I(5)]
    show "returns (\<lambda>dbg. case s of (idx, prev, mapped_prev, st) \<Rightarrow>
        bind_res (if prev \<noteq> 0 then set_next prev 0 st else Inr (st\<lparr>q_first := 0\<rparr>)) (\<lambda>st.
          Inr (st\<lparr>q_last := mapped_prev, q_unassigned := mapped_prev\<rparr>)))
      (\<lambda>st'. chain tab (links st') 0 zs 0 \<and> length (links st') = length (links st) \<and>
     q_first st' = (if zs = [] then 0 else tab (hd zs)) \<and> q_last st' = (if zs = [] then 0 else tab (last zs)) \<and>
     q_unassigned st' = q_last st' \<and> q_bumped st' = q_bumped st \<and> btab st' = btab st \<and> bump_count st' = bump_count st \<and>
     q_vals st' = q_vals st \<and> q_max_var st' = q_max_var st)"
    proof (cases "zs = []")
      case True
      then show ?thesis using t I e by (simp add: prev_of_def)
    next
      case False
      have d: "distinct zs" "0 \<notin> set zs" using sh by (auto simp: shaped_def zs_def)
      have l: "last zs \<noteq> 0" "last zs < length (links st')"
        using d(2) last_in_set [OF False] chain_bounded [OF I(3) last_in_set [OF False]] by metis+
      show ?thesis using False t I(1,2,4) e l chain_set_next [OF I(3) d(1) False, of 0] by (simp add: prev_of_def set_next_ok)
    qed
  qed
qed

lemma chain_mapped:
  assumes "chain f ls p xs n" "\<forall>x \<in> set xs. f x < length ls' \<and> ls' ! f x = ls ! x"
  shows "chain id ls' p (map f xs) n"
  using assms by (induction xs arbitrary: p) (auto simp: hd_map)

lemma compact_queue_ok:
  assumes inv: "queue_inv xs st" and w: "within B xs st"
  shows "returns (\<lambda>dbg. compact_queue dbg active fixed junk st)
    (\<lambda>st'. queue_inv (map (target active fixed) (filter active xs)) st' \<and> within B (map (target active fixed) (filter active xs)) st' \<and>
      q_max_var st' = new_index active fixed (q_max_var st) \<and> length (q_vals st') = q_max_var st' + 1 \<and> (fresh st \<longrightarrow> fresh st') \<and>
      (\<forall>x. 1 \<le> x \<and> x \<le> q_max_var st \<and> kept active fixed x \<longrightarrow> q_vals st' ! target active fixed x = q_vals st ! x))"
proof -
  let ?tab = "target active fixed" and ?zs = "filter active xs" and ?n = "q_max_var st" and ?k = "new_index active fixed (q_max_var st)"
  obtain m where m: "Mapper_new active fixed ?n = Inr m" "mapped_to active fixed ?n ?n m" using Mapper_new_ok by blast
  have new: "m_new_max_var m = ?k" using m(2) by (simp add: mapped_to_def)
  have sz: "sized xs st" and s: "stamped xs st" and p: "pointed xs st" and sh: "shaped xs st" using inv by (auto simp: queue_inv_def)
  obtain st1 where st1: "\<And>dbg. flush_queue dbg m active st = Inr st1" "chain ?tab (links st1) 0 ?zs 0" "length (links st1) = length (links st)"
     "q_first st1 = (if ?zs = [] then 0 else ?tab (hd ?zs))" "q_last st1 = (if ?zs = [] then 0 else ?tab (last ?zs))"
     "q_unassigned st1 = q_last st1" "q_bumped st1 = q_bumped st" "btab st1 = btab st" "bump_count st1 = bump_count st"
     "q_vals st1 = q_vals st" "q_max_var st1 = ?n"
    using flush_queue_ok [OF inv m(2)] by (auto simp: returns_def)
  have len: "?n < length (btab st1) \<or> ?n = 0" "?n < length (links st1) \<or> ?n = 0" "?n < length (q_vals st1) \<or> ?n = 0"
    using sz st1(3,8,10) by (auto simp: sized_def)
  obtain vs where vs: "\<And>dbg. map_vals dbg ?n m (map junk [0..<m_new_max_var m + 1]) (q_vals st1) = Inr vs" "length vs = ?k + 1"
    "\<And>x. 1 \<le> x \<Longrightarrow> x \<le> ?n \<Longrightarrow> kept active fixed x \<Longrightarrow> vs ! ?tab x = q_vals st1 ! x"
    using map_vals_ok [OF m(2) len(3), of "map junk [0..<m_new_max_var m + 1]"] new by (auto simp: returns_def)
  obtain bs where bs: "\<And>dbg. map_vector dbg ?n m 0 (btab st1) = Inr bs" "length bs = ?k + 1" "bs ! 0 = (if btab st1 = [] then 0 else btab st1 ! 0)"
    "\<And>x. 1 \<le> x \<Longrightarrow> x \<le> ?n \<Longrightarrow> kept active fixed x \<Longrightarrow> bs ! ?tab x = btab st1 ! x"
    using map_vector_ok [OF m(2) len(1), of 0] by (auto simp: returns_def)
  obtain ls where ls: "\<And>dbg. map_vector dbg ?n m \<lparr>lprev = 0, lnext = 0\<rparr> (links st1) = Inr ls" "length ls = ?k + 1"
    "\<And>x. 1 \<le> x \<Longrightarrow> x \<le> ?n \<Longrightarrow> kept active fixed x \<Longrightarrow> ls ! ?tab x = links st1 ! x"
    using map_vector_ok [OF m(2) len(2), of "\<lparr>lprev = 0, lnext = 0\<rparr>"] by (auto simp: returns_def)
  let ?st = "st1\<lparr>q_vals := vs, btab := bs, links := ls, q_max_var := ?k\<rparr>"
  have run: "compact_queue dbg active fixed junk st = Inr ?st" for dbg
    using m(1) st1(1,11) vs(1) bs(1) ls(1) new by (simp add: compact_queue_def)
  have zs: "1 \<le> x" "x \<le> ?n" "kept active fixed x" "active x" if "x \<in> set ?zs" for x
    using queue_in_range [OF inv, of x] that by (auto simp: kept_def)
  have at: "bs ! ?tab x = btab st ! x" "vs ! ?tab x = q_vals st ! x" "ls ! ?tab x = links st1 ! x" "?tab x < ?k + 1" "?tab x \<noteq> 0"
    if "x \<in> set ?zs" for x
    using zs [OF that] vs(3) bs(4) ls(3) st1(8,10) target_bound [of x ?n active fixed] target_pos [of x active fixed] by auto
  have d: "distinct ?zs" using sh by (simp add: shaped_def)
  have "inj_on ?tab (set ?zs)"
  proof (rule linorder_inj_onI')
    fix x y assume "x \<in> set ?zs" "y \<in> set ?zs" "x < y"
    then show "?tab x \<noteq> ?tab y" using target_less [of active fixed y x] zs(3) [of y] by simp
  qed
  then have "distinct (map ?tab ?zs)" using d by (simp add: distinct_map)
  moreover have "chain id ls 0 (map ?tab ?zs) 0"
    by (rule chain_mapped [OF st1(2)]) (use at(3,4) ls(2) in auto)
  moreover have "0 \<notin> set (map ?tab ?zs)" using at(5) by (metis (no_types, lifting) image_iff list.set_map)
  ultimately have "shaped (map ?tab ?zs) ?st"
    using st1(4,5) unfolding shaped_def by (simp add: hd_map last_map)
  moreover have "stamped (map ?tab ?zs) ?st"
  proof -
    have "sorted_wrt (\<lambda>x y. btab st ! x < btab st ! y) ?zs" using s by (auto simp: stamped_def intro: sorted_wrt_filter)
    then have "sorted_wrt (\<lambda>x y. bs ! ?tab x < bs ! ?tab y) ?zs" using at(1) by (auto intro: sorted_wrt_mono_rel [rotated])
    then show ?thesis using s at(1) st1(7,9) by (auto simp: stamped_def sorted_wrt_map)
  qed
  moreover have "pointed (map ?tab ?zs) ?st"
  proof -
    have "after_above (map ?tab ?zs) (q_last st1) b bs" for b
    proof (cases ?zs rule: rev_cases)
      case Nil
      then show ?thesis using st1(5) by (simp add: after_above_def)
    next
      case (snoc ws w)
      then show ?thesis using st1(5) by (intro after_aboveI [of _ "map ?tab ws" _ "[]"]) auto
    qed
    moreover have "above_valued (map ?tab ?zs) (q_bumped st) bs vs"
      using p at(1,2) by (auto simp: pointed_def above_valued_def)
    ultimately show ?thesis using st1(6,7) by (simp add: pointed_def)
  qed
  moreover have "sized (map ?tab ?zs) ?st" using vs(2) bs(2) ls(2) at(4) by (fastforce simp: sized_def)
  ultimately have "queue_inv (map ?tab ?zs) ?st" by (simp add: queue_inv_def)
  moreover have "within B (map ?tab ?zs) ?st" using w at(1) st1(7,9) by (simp add: within_def)
  moreover have "fresh st \<longrightarrow> fresh ?st" using bs(3) ls(2) st1(8) sz by (auto simp: fresh_def sized_def)
  ultimately show ?thesis using run vs(2,3) st1(10) by simp
qed

end
