(* ===== verification/QueueRuns.thy ===== *)
theory QueueRuns
  imports QueueReorder
begin

text \<open>
  The decision queue refines a list of variables with values: any sequence of operations does what it promises on the
  list, and the decision is the last variable of the list without a value.
\<close>

section \<open>Runs\<close>

text \<open>
  What the queue promises, without links, stamps and the pointer: the order of the variables, their values and their
  number, how an event changes them, and the decisions.
\<close>

record order_state =
  a_order :: "nat list"
  a_vals :: "nat \<Rightarrow> int"
  a_max :: nat

definition renamed_vals :: "(nat \<Rightarrow> bool) \<Rightarrow> (nat \<Rightarrow> bool) \<Rightarrow> nat \<Rightarrow> (nat \<Rightarrow> int) \<Rightarrow> nat \<Rightarrow> int" where
  "renamed_vals active fixed n vals y =
     (let ks = filter (kept active fixed) [1..<n + 1] in if 1 \<le> y \<and> y \<le> length ks then vals (ks ! (y - 1)) else 0)"

fun order_step :: "queue_event \<Rightarrow> order_state \<Rightarrow> order_state" where
  "order_step (AddVars reverse n) a =
     (if n \<le> a_max a then a else a\<lparr>a_max := n, a_order := new_order reverse [a_max a + 1..<n + 1] (a_order a)\<rparr>)"
| "order_step (BumpVar x) a = a\<lparr>a_order := bumped_order x (a_order a)\<rparr>"
| "order_step (AssignVar x v) a = a\<lparr>a_vals := (a_vals a)(x := v)\<rparr>"
| "order_step (UnassignVar x) a = a\<lparr>a_vals := (a_vals a)(x := 0)\<rparr>"
| "order_step DecideQueue a = a"
| "order_step (ShuffleQueue random picks) a = a\<lparr>a_order := shuffled random (picker picks) (a_max a) (a_order a)\<rparr>"
| "order_step (CompactQueue actives fixeds) a =
     (let active = (\<lambda>x. x \<in> set actives); fixed = (\<lambda>x. x \<in> set fixeds)
      in \<lparr>a_order = map (target active fixed) (filter active (a_order a)),
         a_vals = renamed_vals active fixed (a_max a) (a_vals a), a_max = new_index active fixed (a_max a)\<rparr>)"

definition unassigned_of :: "order_state \<Rightarrow> nat list" where
  "unassigned_of a = filter (\<lambda>x. a_vals a x = 0) (a_order a)"

definition decision_of :: "queue_event \<Rightarrow> order_state \<Rightarrow> nat" where
  "decision_of e a = (case e of DecideQueue \<Rightarrow> last (unassigned_of a) | _ \<Rightarrow> 0)"

text \<open>
  When an event is allowed: it is about variables of the queue, a decision is asked for only while a variable has no
  value, in reverse order variables are added to an empty queue or while a variable has no value, and the numbers
  drawn for a shuffle are in range.  The cost bounds the stamps an event uses up.
\<close>

fun legal :: "queue_event \<Rightarrow> order_state \<Rightarrow> bool" where
  "legal (AddVars reverse n) a = (n \<le> a_max a \<or> \<not> reverse \<or> a_order a = [] \<or> unassigned_of a \<noteq> [])"
| "legal (BumpVar x) a = (x \<in> set (a_order a))"
| "legal (AssignVar x v) a = (x \<in> set (a_order a) \<and> (v = 1 \<or> v = - 1))"
| "legal (UnassignVar x) a = (x \<in> set (a_order a))"
| "legal DecideQueue a = (unassigned_of a \<noteq> [])"
| "legal (ShuffleQueue random picks) a = (\<not> random \<or> (\<forall>i \<in> set [0..<a_max a - 1]. picker picks i < a_max a))"
| "legal (CompactQueue actives fixeds) a = True"

fun cost :: "queue_event \<Rightarrow> order_state \<Rightarrow> int" where
  "cost (AddVars reverse n) a = int (n - a_max a)"
| "cost (BumpVar x) a = 1"
| "cost (ShuffleQueue random picks) a = int (length (shuffled random (picker picks) (a_max a) (a_order a)))"
| "cost _ a = 0"

fun legal_run :: "int \<Rightarrow> queue_event list \<Rightarrow> order_state \<Rightarrow> bool" where
  "legal_run B [] a = True"
| "legal_run B (e # es) a = (legal e a \<and> B + cost e a \<le> INT64_MAX \<and> legal_run (B + cost e a) es (order_step e a))"

fun promised :: "queue_event list \<Rightarrow> order_state \<Rightarrow> nat list \<times> order_state" where
  "promised [] a = ([], a)"
| "promised (e # es) a = (case promised es (order_step e a) of (rs, a') \<Rightarrow> (decision_of e a # rs, a'))"

definition represents :: "int \<Rightarrow> order_state \<Rightarrow> vmtf \<Rightarrow> bool" where
  "represents B a st \<longleftrightarrow>
     queue_inv (a_order a) st \<and> within B (a_order a) st \<and> q_max_var st = a_max a \<and>
     (\<forall>x. 1 \<le> x \<and> x \<le> a_max a \<longrightarrow> q_vals st ! x = a_vals a x) \<and>
     (\<forall>i. a_max a < i \<longrightarrow> a_vals a i = 0) \<and> fresh st"

lemma represents_vals:
  assumes "represents B a st" "x \<in> set (a_order a)"
  shows "q_vals st ! x = a_vals a x" "x \<le> a_max a" "1 \<le> x" "x < length (q_vals st)"
  using assms queue_in_range [of "a_order a" st x] by (auto simp: represents_def)

lemma represents_unassigned:
  assumes "represents B a st"
  shows "filter (\<lambda>x. q_vals st ! x = 0) (a_order a) = unassigned_of a"
  unfolding unassigned_of_def by (rule filter_cong) (use represents_vals [OF assms] in auto)

lemma represents_some:
  assumes "represents B a st"
  shows "(\<exists>x \<in> set (a_order a). q_vals st ! x = 0) \<longleftrightarrow> unassigned_of a \<noteq> []"
  using represents_unassigned [OF assms] by (metis (mono_tags, lifting) filter_empty_conv)

text \<open>The events that only move variables.\<close>

lemma represents_moved:
  assumes "represents B a st" "moved B' ys st st'"
  shows "represents B' (a\<lparr>a_order := ys\<rparr>) st'"
proof -
  have "sized (a_order a) st" "fresh st" using assms(1) by (auto simp: represents_def queue_inv_def)
  then have "fresh st'" by (rule moved_fresh [OF assms(2)])
  then show ?thesis using assms by (simp add: represents_def moved_def)
qed

lemma renamed_vals_target:
  assumes "1 \<le> x" "x \<le> n" "kept active fixed x"
  shows "renamed_vals active fixed n vals (target active fixed x) = vals x"
proof -
  have split: "[1..<n + 1] = [1..<x] @ x # [x + 1..<n + 1]"
    using assms(1,2) upt_add_eq_append [of 1 x "n + 1 - x"] upt_conv_Cons [of x "n + 1"] by simp
  have idx: "new_index active fixed x = length (filter (kept active fixed) [1..<x]) + 1"
    using assms(1,3) by (simp add: new_index_def)
  show ?thesis using assms(3) idx
    unfolding renamed_vals_def split by (simp add: target_def nth_append del: upt_Suc)
qed

lemma renamed_vals_cases:
  assumes "1 \<le> y" "y \<le> new_index active fixed n"
  obtains x where "1 \<le> x" "x \<le> n" "kept active fixed x" "target active fixed x = y"
proof -
  have "\<exists>x. 1 \<le> x \<and> x \<le> n \<and> kept active fixed x \<and> new_index active fixed x = y"
    using assms
  proof (induction n)
    case (Suc n)
    show ?case
    proof (cases "y \<le> new_index active fixed n")
      case True
      then show ?thesis using Suc.IH Suc.prems(1) by (meson le_SucI)
    next
      case False
      then have "kept active fixed (Suc n)" "new_index active fixed (Suc n) = y"
        using Suc.prems(2) by (auto simp: new_index_Suc split: if_splits)
      then show ?thesis by (intro exI [of _ "Suc n"]) simp
    qed
  qed simp
  then show ?thesis using that by (auto simp: target_def)
qed

lemma represents_compacted:
  assumes r: "represents B a st" and "queue_inv ys st'" "within B ys st'"
    and n: "q_max_var st' = new_index active fixed (q_max_var st)" "length (q_vals st') = q_max_var st' + 1"
    and f: "fresh st \<longrightarrow> fresh st'"
    and v: "\<forall>x. 1 \<le> x \<and> x \<le> q_max_var st \<and> kept active fixed x \<longrightarrow> q_vals st' ! target active fixed x = q_vals st ! x"
  shows "represents B \<lparr>a_order = ys, a_vals = renamed_vals active fixed (a_max a) (a_vals a), a_max = new_index active fixed (a_max a)\<rparr> st'"
proof -
  have m: "q_max_var st = a_max a" and vals: "\<And>x. 1 \<le> x \<Longrightarrow> x \<le> a_max a \<Longrightarrow> q_vals st ! x = a_vals a x"
    using r by (auto simp: represents_def)
  have "q_vals st' ! y = renamed_vals active fixed (a_max a) (a_vals a) y" if y: "1 \<le> y" "y \<le> new_index active fixed (a_max a)" for y
  proof -
    obtain x where x: "1 \<le> x" "x \<le> a_max a" "kept active fixed x" "target active fixed x = y" using renamed_vals_cases [OF y] .
    have "q_vals st' ! target active fixed x = q_vals st ! x" using v x(1-3) m by simp
    then show ?thesis using vals [OF x(1,2)] renamed_vals_target [OF x(1-3), of "a_vals a"] unfolding x(4) by simp
  qed
  moreover have "renamed_vals active fixed (a_max a) (a_vals a) y = 0" if "new_index active fixed (a_max a) < y" for y
    using that by (simp add: renamed_vals_def new_index_def Let_def)
  ultimately show ?thesis using assms(2,3) n m f r by (simp add: represents_def)
qed

lemma returns_silent: "returns f Q \<Longrightarrow> (\<And>st. Q st \<Longrightarrow> R st) \<Longrightarrow> returns (\<lambda>dbg. silent (f dbg)) (\<lambda>(r, st). r = 0 \<and> R st)"
  unfolding silent_def by (erule returns_bind) simp

lemma represents_room:
  assumes r: "represents B a st" and n: "a_max a < n"
  shows "represents B (a\<lparr>a_max := n\<rparr>) (with_room_for n st)"
proof -
  have inv: "queue_inv (a_order a) st" "q_max_var st = a_max a" "within B (a_order a) st" and f: "fresh st"
    and sz: "sized (a_order a) st" using r by (auto simp: represents_def queue_inv_def)
  note w = with_room_for_ok [OF inv(1), of n]
  have "q_vals (with_room_for n st) ! i = a_vals a i" if i: "1 \<le> i" "i \<le> n" for i
  proof (cases "i \<le> a_max a")
    case True
    then have "i < length (links st)" using sz inv(2) i by (auto simp: sized_def)
    then show ?thesis using with_room_for_entries(4) [OF sz, of i n] True i r by (simp add: represents_def)
  next
    case False
    then show ?thesis using with_room_for_fresh(1) [OF sz f] n i inv(2) r by (simp add: represents_def)
  qed
  then show ?thesis using w n inv r with_room_for_fresh(3) [OF sz f] by (simp add: represents_def)
qed

lemma represents_value:
  assumes r: "represents B a st" and x: "x \<in> set (a_order a)"
    and st': "queue_inv (a_order a) st'" "within B (a_order a) st'" "q_vals st' = (q_vals st)[x := v]" "q_max_var st' = q_max_var st"
    and b: "btab st' = btab st"
  shows "represents B (a\<lparr>a_vals := (a_vals a)(x := v)\<rparr>) st'"
proof -
  have "length (links st') = length (links st)" using r st' by (simp add: represents_def queue_inv_def sized_def)
  then show ?thesis using represents_vals [OF r x] r st' b by (auto simp: represents_def nth_list_update fresh_def)
qed

lemma queue_step_ok:
  assumes r: "represents B a st" and legal: "legal e a" and B: "B + cost e a \<le> INT64_MAX"
  shows "returns (\<lambda>dbg. queue_step dbg junk e st) (\<lambda>(d, st'). d = decision_of e a \<and> represents (B + cost e a) (order_step e a) st')"
proof -
  have inv: "queue_inv (a_order a) st" "within B (a_order a) st" and m: "q_max_var st = a_max a" using r by (auto simp: represents_def)
  have silent: "returns (\<lambda>dbg. silent (f dbg)) (\<lambda>(d, st'). d = decision_of e a \<and> represents (B + cost e a) (order_step e a) st')"
    if "returns f Q" "decision_of e a = 0" "\<And>st'. Q st' \<Longrightarrow> represents (B + cost e a) (order_step e a) st'" for f Q
    using returns_silent [OF that(1,3)] that(2) by simp
  show ?thesis
  proof (cases e)
    case (AddVars reverse n)
    show ?thesis
    proof (cases "n \<le> a_max a")
      case True
      then show ?thesis using AddVars r m by (simp add: silent_def decision_of_def add_variables_def)
    next
      case False
      have "reverse \<Longrightarrow> low_first (a_order a) st"
        using legal AddVars False unassigned_low_first [OF inv(1)] represents_some [OF r] by (auto simp: low_first_def)
      then have "returns (\<lambda>dbg. add_variables dbg reverse n st)
          (moved (B + int (n - a_max a)) (new_order reverse [a_max a + 1..<n + 1] (a_order a)) (with_room_for n st))"
        using add_variables_ok [OF inv, of n reverse] B AddVars False m r by (simp del: upt_Suc add: represents_def)
      moreover have "queue_step dbg junk e st = silent (add_variables dbg reverse n st)" for dbg using AddVars by simp
      moreover have "represents B (a\<lparr>a_max := n\<rparr>) (with_room_for n st)" using represents_room [OF r] False by simp
      from represents_moved [OF this] have "moved (B + int (n - a_max a)) (new_order reverse [a_max a + 1..<n + 1] (a_order a)) (with_room_for n st) st' \<Longrightarrow>
          represents (B + cost e a) (order_step e a) st'" for st'
        using AddVars False by (simp del: upt_Suc)
      ultimately show ?thesis using silent AddVars by (simp add: decision_of_def)
    qed
  next
    case (BumpVar x)
    then show ?thesis using bump_queue_ok [OF inv, of x] legal B represents_moved [OF r] silent by (simp add: decision_of_def)
  next
    case (AssignVar x v)
    then show ?thesis using assign_value_ok [OF inv, of x v] legal represents_value [OF r, of x] silent by (simp add: decision_of_def)
  next
    case (UnassignVar x)
    then show ?thesis using unassign_queue_ok [OF inv, of x] legal represents_value [OF r, of x] silent by (simp add: decision_of_def)
  next
    case DecideQueue
    have "returns (\<lambda>dbg. next_decision_variable_on_queue dbg st)
        (\<lambda>(r, st'). moved B (a_order a) st st' \<and> r = last (filter (\<lambda>x. q_vals st ! x = 0) (a_order a)))"
      using legal DecideQueue represents_some [OF r] by (intro next_decision_ok [OF inv]) simp
    then show ?thesis
      using DecideQueue represents_unassigned [OF r] represents_moved [OF r, of B "a_order a"]
      by (auto simp: decision_of_def elim!: returns_mono)
  next
    case (ShuffleQueue random picks)
    then have "\<exists>st'. shuffle_queue random (picker picks) st = Inr st' \<and>
        moved (B + cost e a) (shuffled random (picker picks) (q_max_var st) (a_order a)) st st'"
      using shuffle_queue_ok [OF inv, of random "picker picks"] legal m B by fastforce
    then show ?thesis using ShuffleQueue m represents_moved [OF r] by (auto simp: silent_def decision_of_def)
  next
    case (CompactQueue actives fixeds)
    let ?active = "\<lambda>x. x \<in> set actives" and ?fixed = "\<lambda>x. x \<in> set fixeds"
    show ?thesis unfolding CompactQueue queue_step.simps
      using CompactQueue represents_compacted [OF r]
      by (intro silent [OF compact_queue_ok [OF inv, of ?active ?fixed], unfolded CompactQueue]) (simp_all add: decision_of_def Let_def)
  qed
qed

lemma queue_run_ok:
  "represents B a st \<Longrightarrow> legal_run B es a \<Longrightarrow>
     returns (\<lambda>dbg. queue_run dbg junk es st) (\<lambda>(rs, st'). rs = fst (promised es a) \<and> (\<exists>B. represents B (snd (promised es a)) st'))"
proof (induction es arbitrary: B a st)
  case (Cons e es)
  have legal: "legal e a" "B + cost e a \<le> INT64_MAX" "legal_run (B + cost e a) es (order_step e a)" using Cons.prems(2) by auto
  have "returns (\<lambda>dbg. bind_res (queue_step dbg junk e st) (\<lambda>(r, st). bind_res (queue_run dbg junk es st) (\<lambda>(rs, st). Inr (r # rs, st))))
      (\<lambda>(rs, st'). rs = fst (promised (e # es) a) \<and> (\<exists>B. represents B (snd (promised (e # es) a)) st'))"
  proof (rule returns_bind [OF queue_step_ok [OF Cons.prems(1) legal(1,2)]])
    fix p assume "case p of (d, st') \<Rightarrow> d = decision_of e a \<and> represents (B + cost e a) (order_step e a) st'"
    then obtain st1 where p: "p = (decision_of e a, st1)" "represents (B + cost e a) (order_step e a) st1" by (cases p) auto
    have "returns (\<lambda>dbg. bind_res (queue_run dbg junk es st1) (\<lambda>(rs, st). Inr (decision_of e a # rs, st)))
      (\<lambda>(rs, st'). rs = fst (promised (e # es) a) \<and> (\<exists>B. represents B (snd (promised (e # es) a)) st'))"
      by (rule returns_bind [OF Cons.IH [OF p(2) legal(3)]]) (auto simp: case_prod_beta)
    then show "returns (\<lambda>dbg. case p of (r, st) \<Rightarrow> bind_res (queue_run dbg junk es st) (\<lambda>(rs, st). Inr (r # rs, st)))
      (\<lambda>(rs, st'). rs = fst (promised (e # es) a) \<and> (\<exists>B. represents B (snd (promised (e # es) a)) st'))"
      using p(1) by simp
  qed
  then show ?case by simp
qed auto

definition order_new :: order_state where
  "order_new = \<lparr>a_order = [], a_vals = (\<lambda>_. 0), a_max = 0\<rparr>"

lemma vmtf_new_represents: "represents 0 order_new vmtf_new"
  by (simp add: represents_def order_new_def within_def fresh_def queue_inv_def shaped_def pointed_def after_above_def
      above_valued_def stamped_def sized_def vmtf_new_def)

text \<open>
  C38: from the empty queue, every allowed sequence of operations that does not use up the time stamps returns, no
  assertion fails, and the result does not depend on assertions.  What the operations promise is kept: the walk back
  through the links is the list of variables (new variables at its end, or at its front in reverse order, a bumped variable moved to
  the end, the list reversed or permuted by a shuffle, cut down to the active variables and renamed by compaction), the
  table holds their values, and each decision is the last variable of the list without a value.
\<close>

theorem queue_refines_list:
  assumes "legal_run 0 es order_new"
  shows "\<exists>st. (\<forall>dbg. queue_run dbg junk es vmtf_new = Inr (fst (promised es order_new), st)) \<and>
    backwards st = Inr (rev (a_order (snd (promised es order_new)))) \<and>
    (\<forall>x \<in> set (a_order (snd (promised es order_new))). get_at (q_vals st) x = Inr (a_vals (snd (promised es order_new)) x)) \<and>
    q_max_var st = a_max (snd (promised es order_new))"
proof -
  obtain st B where st: "\<forall>dbg. queue_run dbg junk es vmtf_new = Inr (fst (promised es order_new), st)"
    "represents B (snd (promised es order_new)) st"
    using queue_run_ok [OF vmtf_new_represents assms, of junk] by (auto simp: returns_def)
  have "shaped (a_order (snd (promised es order_new))) st" "q_max_var st = a_max (snd (promised es order_new))"
    using st(2) by (auto simp: represents_def queue_inv_def)
  then show ?thesis using st(1) backwards_ok represents_vals [OF st(2)] by auto
qed

definition queue_example :: "queue_event list" where
  "queue_example =
     [AddVars False 4, AssignVar 4 1, DecideQueue, BumpVar 2, AssignVar 2 (-1), DecideQueue, UnassignVar 4, UnassignVar 2,
      ShuffleQueue False [], DecideQueue, AssignVar 3 1, CompactQueue [1, 4] [3], AddVars False 5, BumpVar 1, DecideQueue]"

theorem queue_refines_list_witness:
  "\<exists>st. queue_run True (\<lambda>_. 0) queue_example vmtf_new = Inr ([0, 0, 3, 0, 0, 3, 0, 0, 0, 1, 0, 0, 0, 0, 1], st) \<and>
     backwards st = Inr [1, 5, 4, 3]"
proof -
  have "legal_run 0 queue_example order_new" by code_simp
  from queue_refines_list [OF this, of "\<lambda>_. 0"] obtain st where
    "queue_run True (\<lambda>_. 0) queue_example vmtf_new = Inr (fst (promised queue_example order_new), st)"
    "backwards st = Inr (rev (a_order (snd (promised queue_example order_new))))" by blast
  moreover have "fst (promised queue_example order_new) = [0, 0, 3, 0, 0, 3, 0, 0, 0, 1, 0, 0, 0, 0, 1]" by code_simp
  moreover have "a_order (snd (promised queue_example order_new)) = [3, 4, 5, 1]" by code_simp
  ultimately show ?thesis by simp
qed

end
