(* ===== verification/Reluctant.thy ===== *)
theory Reluctant
  imports Prelude
begin

text \<open>
  Reluctant doubling (\<^verbatim>\<open>reluctant.hpp\<close>), which signals restarts in stable mode: after \<open>period * v\<close> conflicts, where \<open>v\<close>
  runs through the Luby sequence, computed with two machine words.
\<close>

unbundle bit_operations_syntax

record reluctant =
  rel_u :: u64
  rel_v :: u64
  rel_limit :: u64
  rel_period :: u64
  rel_countdown :: u64
  rel_trigger :: bool
  rel_limited :: bool

text \<open>The constructor sets the period and the trigger only; the other members are \<open>junk\<close>.\<close>

definition Reluctant_new :: "reluctant \<Rightarrow> reluctant" where
  "Reluctant_new junk = junk\<lparr>rel_period := 0, rel_trigger := False\<rparr>"

definition rel_enable :: "bool \<Rightarrow> int \<Rightarrow> int \<Rightarrow> reluctant \<Rightarrow> reluctant res" where
  "rel_enable dbg p l r =
     bind_res (cassert dbg (p > 0)) (\<lambda>_.
       let r = r\<lparr>rel_u := 1, rel_v := 1, rel_period := word_of_int p, rel_countdown := word_of_int p, rel_trigger := False\<rparr>
       in Inr (if l \<le> 0 then r\<lparr>rel_limited := False\<rparr> else r\<lparr>rel_limited := True, rel_limit := word_of_int l\<rparr>))"

definition rel_disable :: "reluctant \<Rightarrow> reluctant" where
  "rel_disable r = r\<lparr>rel_period := 0, rel_trigger := False\<rparr>"

definition rel_advance :: "reluctant \<Rightarrow> reluctant" where
  "rel_advance r =
     (let r = (if rel_u r AND - rel_u r = rel_v r then r\<lparr>rel_u := rel_u r + 1, rel_v := 1\<rparr> else r\<lparr>rel_v := 2 * rel_v r\<rparr>);
          r = (if rel_limited r \<and> rel_v r \<ge> rel_limit r then r\<lparr>rel_u := 1, rel_v := 1\<rparr> else r)
      in r\<lparr>rel_countdown := rel_v r * rel_period r, rel_trigger := True\<rparr>)"

definition rel_tick :: "reluctant \<Rightarrow> reluctant" where
  "rel_tick r =
     (if rel_period r = 0 then r
      else if rel_trigger r then r
      else let r = r\<lparr>rel_countdown := rel_countdown r - 1\<rparr> in if rel_countdown r \<noteq> 0 then r else rel_advance r)"

definition rel_bool :: "reluctant \<Rightarrow> bool \<times> reluctant" where
  "rel_bool r = (if \<not> rel_trigger r then (False, r) else (True, r\<lparr>rel_trigger := False\<rparr>))"

text \<open>The limits of the search set the sequence up.\<close>

definition init_reluctant :: "bool \<Rightarrow> bool \<Rightarrow> int \<Rightarrow> int \<Rightarrow> reluctant \<Rightarrow> reluctant res" where
  "init_reluctant dbg stabilize reluctant_opt reluctantmax r =
     (if stabilize \<and> reluctant_opt \<noteq> 0 then rel_enable dbg reluctant_opt reluctantmax r else Inr (rel_disable r))"

text \<open>A conflict in stable mode ticks, and the next test for a restart asks for the signal.\<close>

definition rel_conflict :: "reluctant \<Rightarrow> bool \<times> reluctant" where
  "rel_conflict r = rel_bool (rel_tick r)"

fun rel_signals :: "nat \<Rightarrow> reluctant \<Rightarrow> bool list" where
  "rel_signals 0 r = []"
| "rel_signals (Suc n) r = (case rel_conflict r of (b, r) \<Rightarrow> b # rel_signals n r)"

section \<open>The lowest bit\<close>

fun low :: "nat \<Rightarrow> nat" where
  "low n = (if n = 0 then 0 else if even n then 2 * low (n div 2) else 1)"

declare low.simps [simp del]

lemma and_double: "(2 * a) AND (2 * b) = 2 * (a AND b)" for a b :: int
  using push_bit_and [of 1 a b] by (simp add: push_bit_eq_mult mult.commute)

lemma and_odd: "(2 * a + 1) AND (2 * b + 1) = 2 * (a AND b) + 1" for a b :: int
  by (subst and_int_rec) simp

lemma and_minus_int: "int n AND - int n = int (low n)"
proof (induction n rule: low.induct)
  case (1 n)
  consider (zero) "n = 0" | (even) m where "n = 2 * m" "m \<noteq> 0" | (odd) m where "n = 2 * m + 1"
    by (metis evenE mult_0_right oddE)
  then show ?case
  proof cases
    case zero
    then show ?thesis by (simp add: low.simps)
  next
    case (even m)
    then have "int m AND - int m = int (low m)" using "1.IH" by simp
    then have "(2 * int m) AND (2 * (- int m)) = 2 * int (low m)" by (simp only: and_double)
    moreover have "low n = 2 * low m" using even low.simps [of n] by simp
    ultimately show ?thesis using even by simp
  next
    case (odd m)
    have "int m AND (- int m - 1) = 0" using bit.conj_cancel_right [of "int m"] by (simp add: not_int_def)
    then have "(2 * int m + 1) AND (2 * (- int m - 1) + 1) = 1" by (simp only: and_odd)
    moreover have e: "- int n = 2 * (- int m - 1) + 1" "int n = 2 * int m + 1" using odd by simp_all
    moreover have "low n = 1" using odd low.simps [of n] by simp
    ultimately show ?thesis by (simp only: e of_nat_1)
  qed
qed

lemma low_le: "low n \<le> n"
  by (induction n rule: low.induct) (subst low.simps, auto)

lemma unat_small: "n < 2 ^ 64 \<Longrightarrow> unat (of_nat n :: u64) = n"
  by (simp add: unat_of_nat take_bit_nat_eq_self)

lemma and_minus_word: "(of_nat n :: u64) AND - of_nat n = of_nat (low n)"
proof -
  have "(word_of_int (int n) :: u64) AND word_of_int (- int n) = word_of_int (int n AND - int n)"
    by (rule bit_word_eqI) (auto simp only: bit_and_iff bit_word_of_int_iff)
  then show ?thesis by (simp add: and_minus_int)
qed

section \<open>The Luby sequence\<close>

text \<open>The beginnings of the Luby sequence: twice what there is, then the next power of two.\<close>

fun luby :: "nat \<Rightarrow> nat list" where
  "luby 0 = []"
| "luby (Suc k) = luby k @ luby k @ [2 ^ k]"

definition adv :: "nat \<times> nat \<Rightarrow> nat \<times> nat" where
  "adv s = (case s of (u, v) \<Rightarrow> if low u = v then (u + 1, 1) else (u, 2 * v))"

fun doubled :: "nat \<Rightarrow> nat \<times> nat \<Rightarrow> nat list" where
  "doubled 0 s = []"
| "doubled (Suc n) s = snd s # doubled n (adv s)"

lemma doubled_add: "doubled (m + n) s = doubled m s @ doubled n ((adv ^^ m) s)"
  by (induction m arbitrary: s) (simp_all add: funpow_swap1)

lemma low_odd: "odd n \<Longrightarrow> low n = 1"
  by (subst low.simps) (auto simp: odd_pos)

lemma low_mult: "n \<noteq> 0 \<Longrightarrow> low (2 ^ k * n) = 2 ^ k * low n"
proof (induction k)
  case (Suc k)
  then show ?case using low.simps [of "2 ^ Suc k * n"] by (simp add: mult.assoc)
qed simp

lemma length_luby: "length (luby k) = 2 ^ k - 1"
  by (induction k) (simp_all add: mult_2)

text \<open>Starting after a multiple of \<open>2 ^ k\<close> the sequence repeats its beginning.\<close>

lemma doubled_luby:
  "doubled (length (luby (Suc k))) (2 ^ k * c + 1, 1) = luby (Suc k) \<and>
   (adv ^^ length (luby k @ luby k)) (2 ^ k * c + 1, 1) = (2 ^ k * (c + 1), 2 ^ k)"
proof (induction k arbitrary: c)
  case (Suc k)
  let ?n = "length (luby k @ luby k)"
  have even: "2 ^ Suc k * c + 1 = 2 ^ k * (2 * c) + 1" by simp
  have l: "length (luby (Suc k)) = Suc ?n" by simp
  have a1: "doubled (Suc ?n) (2 ^ Suc k * c + 1, 1) = luby (Suc k)" "(adv ^^ ?n) (2 ^ Suc k * c + 1, 1) = (2 ^ k * (2 * c + 1), 2 ^ k)"
    using Suc.IH [of "2 * c"] unfolding even l by auto
  have "low (2 ^ k * (2 * c + 1)) = 2 ^ k" by (simp only: low_mult) (simp add: low_odd)
  then have n1: "(adv ^^ Suc ?n) (2 ^ Suc k * c + 1, 1) = (2 ^ k * (2 * c + 1) + 1, 1)" using a1(2) by (simp add: adv_def)
  have a2: "doubled (Suc ?n) (2 ^ k * (2 * c + 1) + 1, 1) = luby (Suc k)" "(adv ^^ ?n) (2 ^ k * (2 * c + 1) + 1, 1) = (2 ^ k * (2 * c + 2), 2 ^ k)"
    using Suc.IH [of "2 * c + 1"] unfolding l by auto
  have "low (2 ^ k * (2 * c + 2)) = 2 ^ Suc k * low (c + 1)" using low_mult [of "c + 1" "Suc k"] by (simp add: algebra_simps)
  moreover have "low (c + 1) \<noteq> 0" by (induction "c + 1" arbitrary: c rule: low.induct) (subst low.simps, auto)
  ultimately have "low (2 ^ k * (2 * c + 2)) \<noteq> 2 ^ k" by simp
  then have n2: "(adv ^^ Suc ?n) (2 ^ k * (2 * c + 1) + 1, 1) = (2 ^ Suc k * (c + 1), 2 ^ Suc k)"
    using a2(2) by (simp add: adv_def algebra_simps)
  have len: "length (luby (Suc (Suc k))) = Suc ?n + (Suc ?n + 1)" "length (luby (Suc k) @ luby (Suc k)) = Suc ?n + Suc ?n" by simp_all
  have "(adv ^^ (Suc ?n + Suc ?n)) (2 ^ Suc k * c + 1, 1) = (2 ^ Suc k * (c + 1), 2 ^ Suc k)"
    using n1 n2 by (simp only: funpow_add o_apply)
  moreover have "doubled (Suc ?n + (Suc ?n + 1)) (2 ^ Suc k * c + 1, 1) = luby (Suc k) @ luby (Suc k) @ [2 ^ Suc k]"
    using a1(1) a2(1) n1 n2 by (simp only: doubled_add One_nat_def doubled.simps snd_conv)
  ultimately show ?case unfolding len by (simp only: luby.simps(2) [of "Suc k"])
qed (simp add: adv_def)

section \<open>Signals\<close>

definition counting :: "nat \<Rightarrow> nat \<times> nat \<Rightarrow> nat \<Rightarrow> reluctant \<Rightarrow> bool" where
  "counting p s c r \<longleftrightarrow>
     rel_u r = of_nat (fst s) \<and> rel_v r = of_nat (snd s) \<and> rel_countdown r = of_nat c \<and> rel_period r = of_nat p \<and>
     \<not> rel_trigger r \<and> \<not> rel_limited r"

lemma of_nat_eq_small: "m < 2 ^ 64 \<Longrightarrow> n < 2 ^ 64 \<Longrightarrow> (of_nat m :: u64) = of_nat n \<longleftrightarrow> m = n"
  by (metis unat_small)

lemma advance_counting:
  assumes "counting p s c r" "fst s < 2 ^ 64" "snd s < 2 ^ 64"
  shows "counting p (adv s) (p * snd (adv s)) (snd (rel_bool (rel_advance r)))" "fst (rel_bool (rel_advance r))"
proof -
  have "rel_u r AND - rel_u r = rel_v r \<longleftrightarrow> low (fst s) = snd s"
    using assms le_less_trans [OF low_le assms(2)] by (simp add: counting_def and_minus_word of_nat_eq_small)
  then show "counting p (adv s) (p * snd (adv s)) (snd (rel_bool (rel_advance r)))" "fst (rel_bool (rel_advance r))"
    using assms(1) by (auto simp: counting_def rel_advance_def rel_bool_def adv_def Let_def case_prod_beta add.commute mult.commute)
qed

lemma signals_gap:
  assumes "counting p s (Suc c) r" "Suc c < 2 ^ 64" "0 < p" "p < 2 ^ 64" "fst s < 2 ^ 64" "snd s < 2 ^ 64"
  shows "\<exists>r'. rel_signals (Suc c + n) r = replicate c False @ True # rel_signals n r' \<and> counting p (adv s) (p * snd (adv s)) r'"
  using assms(1,2)
proof (induction c arbitrary: r)
  case 0
  let ?r = "r\<lparr>rel_countdown := rel_countdown r - 1\<rparr>"
  have p: "rel_period r \<noteq> 0" "\<not> rel_trigger r" "rel_countdown r = 1"
    using 0 assms(3,4) of_nat_eq_small [of p 0] by (auto simp: counting_def)
  then have t: "rel_tick r = rel_advance ?r" by (simp add: rel_tick_def Let_def)
  have "counting p s 0 ?r" using 0 p by (simp add: counting_def)
  from advance_counting [OF this assms(5,6)] show ?case using t by (auto simp: rel_conflict_def split: prod.splits)
next
  case (Suc c)
  let ?r = "r\<lparr>rel_countdown := rel_countdown r - 1\<rparr>"
  have p: "rel_period r \<noteq> 0" "\<not> rel_trigger r" using Suc.prems assms(3,4) of_nat_eq_small [of p 0] by (auto simp: counting_def)
  have r: "counting p s (Suc c) ?r" using Suc.prems(1) by (simp add: counting_def)
  then have "rel_countdown ?r \<noteq> 0" using Suc.prems(2) of_nat_eq_small [of "Suc c" 0] by (simp add: counting_def)
  then have "rel_conflict r = (False, ?r)" using p by (simp add: rel_conflict_def rel_tick_def rel_bool_def Let_def)
  then show ?case using Suc.IH [OF r] Suc.prems(2) by simp
qed

lemma signals_doubled:
  assumes "counting p s (p * snd s) r" "0 < p" "\<forall>i < n. fst ((adv ^^ i) s) < 2 ^ 64"
    "\<forall>v \<in> set (doubled n s). 0 < v \<and> p * v < 2 ^ 64"
  shows "rel_signals (p * sum_list (doubled n s)) r = concat (map (\<lambda>v. replicate (p * v - 1) False @ [True]) (doubled n s))"
  using assms(1,3,4)
proof (induction n arbitrary: s r)
  case (Suc n)
  have v: "0 < snd s" "p * snd s < 2 ^ 64" "fst s < 2 ^ 64" using Suc.prems by auto
  have "p * 1 \<le> p * snd s" "1 * snd s \<le> p * snd s" using v(1) assms(2) by (simp_all only: mult_le_mono2 mult_le_mono1 Suc_leI One_nat_def)
  then have b: "p < 2 ^ 64" "snd s < 2 ^ 64" using v(2) by linarith+
  obtain c where c: "p * snd s = Suc c" using v(1) assms(2) by (metis Suc_pred nat_0_less_mult_iff)
  obtain r' where r': "rel_signals (Suc c + p * sum_list (doubled n (adv s))) r = replicate c False @ True # rel_signals (p * sum_list (doubled n (adv s))) r'"
    "counting p (adv s) (p * snd (adv s)) r'"
    using signals_gap [of p s c r] Suc.prems(1) c v b assms(2) by metis
  have "rel_signals (p * sum_list (doubled n (adv s))) r' = concat (map (\<lambda>v. replicate (p * v - 1) False @ [True]) (doubled n (adv s)))"
  proof (rule Suc.IH [OF r'(2)])
    show "\<forall>i < n. fst ((adv ^^ i) (adv s)) < 2 ^ 64" using Suc.prems(2) by (metis Suc_less_eq funpow_simps_right(2) o_apply)
    show "\<forall>v \<in> set (doubled n (adv s)). 0 < v \<and> p * v < 2 ^ 64" using Suc.prems(3) by simp
  qed
  then show ?case using r'(1) c by (simp add: distrib_left)
qed simp

lemma adv_fst: "fst ((adv ^^ i) s) \<le> fst s + i"
  by (induction i) (auto simp: adv_def split: prod.splits)

lemma luby_bound: "v \<in> set (luby k) \<Longrightarrow> 0 < v \<and> 2 * v \<le> 2 ^ k"
  by (induction k) auto

text \<open>
  C39: without a limit, the numbers of conflicts from one restart signal to the next are the period times the Luby sequence, for
  the first \<open>2 ^ k - 1\<close> signals while \<open>period * 2 ^ k\<close> fits into 64 bits.
\<close>

theorem reluctant_luby:
  assumes "0 < p" "l \<le> 0" "p * 2 ^ k < (2 :: nat) ^ 64"
  shows "\<exists>r. (\<forall>dbg. rel_enable dbg (int p) l r0 = Inr r) \<and>
    rel_signals (p * sum_list (luby k)) r = concat (map (\<lambda>v. replicate (p * v - 1) False @ [True]) (luby k))"
proof -
  let ?r = "r0\<lparr>rel_u := 1, rel_v := 1, rel_period := of_nat p, rel_countdown := of_nat p, rel_trigger := False, rel_limited := False\<rparr>"
  have enable: "rel_enable dbg (int p) l r0 = Inr ?r" for dbg using assms(1,2) by (simp add: rel_enable_def cassert_def Let_def)
  have k: "doubled (length (luby k)) (1, 1) = luby k"
  proof (cases k)
    case (Suc j)
    then show ?thesis using doubled_luby [of j 0] by simp
  qed simp
  have "1 * (2 :: nat) ^ k \<le> p * 2 ^ k" using assms(1) by (intro mult_le_mono1) simp
  then have small: "(2 :: nat) ^ k < 2 ^ 64" using assms(3) by linarith
  have "rel_signals (p * sum_list (doubled (length (luby k)) (1, 1))) ?r =
      concat (map (\<lambda>v. replicate (p * v - 1) False @ [True]) (doubled (length (luby k)) (1, 1)))"
  proof (rule signals_doubled [OF _ assms(1)])
    show "counting p (1, 1) (p * snd (1 :: nat, 1 :: nat)) ?r" by (simp add: counting_def)
    show "\<forall>i < length (luby k). fst ((adv ^^ i) (1, 1)) < 2 ^ 64"
    proof (intro allI impI)
      fix i assume "i < length (luby k)"
      then have "fst ((adv ^^ i) (1, 1)) \<le> 2 ^ k" using adv_fst [of i "(1, 1)"] by (simp add: length_luby)
      then show "fst ((adv ^^ i) (1, 1)) < 2 ^ 64" using small by linarith
    qed
    show "\<forall>v \<in> set (doubled (length (luby k)) (1, 1)). 0 < v \<and> p * v < 2 ^ 64"
    proof
      fix v assume "v \<in> set (doubled (length (luby k)) (1, 1))"
      then have v: "0 < v" "2 * v \<le> 2 ^ k" using luby_bound [of v k] k by simp_all
      then have "p * v \<le> p * 2 ^ k" by (intro mult_le_mono2) simp
      then show "0 < v \<and> p * v < 2 ^ 64" using v(1) assms(3) by linarith
    qed
  qed
  then show ?thesis using enable k by auto
qed

definition rel_example :: reluctant where
  "rel_example = \<lparr>rel_u = 7, rel_v = 9, rel_limit = 5, rel_period = 0, rel_countdown = 3, rel_trigger = False, rel_limited = True\<rparr>"

theorem reluctant_luby_witness:
  "\<exists>r. rel_enable True 2 0 rel_example = Inr r \<and>
     rel_signals 8 r = [False, True, False, True, False, False, False, True]"
proof -
  have "luby 2 = [1, 1, 2]" by code_simp
  then have "2 * sum_list (luby 2) = 8"
    "concat (map (\<lambda>v. replicate (2 * v - 1) False @ [True]) (luby 2)) = [False, True, False, True, False, False, False, True]"
    by (simp_all add: numeral_3_eq_3)
  then show ?thesis using reluctant_luby [of 2 0 2 rel_example] by auto
qed

section \<open>The signal comes\<close>

datatype rel_event = RelTick | RelQuery

fun rel_event_step :: "rel_event \<Rightarrow> reluctant \<Rightarrow> reluctant" where
  "rel_event_step RelTick r = rel_tick r"
| "rel_event_step RelQuery r = snd (rel_bool r)"

definition rel_inv :: "nat \<Rightarrow> nat \<Rightarrow> reluctant \<Rightarrow> bool" where
  "rel_inv p l r \<longleftrightarrow>
     rel_period r = of_nat p \<and> rel_limited r \<and> rel_limit r = of_nat l \<and>
     1 \<le> unat (rel_v r) \<and> (unat (rel_v r) < l \<or> unat (rel_v r) = 1) \<and>
     1 \<le> unat (rel_countdown r) \<and> unat (rel_countdown r) \<le> p * l"

lemma factor_small:
  assumes "0 < l" "p * l < (2 :: nat) ^ 64"
  shows "p < 2 ^ 64"
proof -
  have "p * 1 \<le> p * l" using assms(1) by (intro mult_le_mono2) simp
  then show ?thesis using assms(2) by linarith
qed

lemma rel_advance_inv:
  assumes inv: "rel_inv p l r" and p: "0 < p" "0 < l" "p * l < 2 ^ 64" "l < 2 ^ 63"
  shows "rel_inv p l (rel_advance r)"
proof -
  define v where "v = (if rel_u r AND - rel_u r = rel_v r then 1 else 2 * rel_v r)"
  define v' where "v' = (if v \<ge> of_nat l then 1 else v)"
  have l: "unat (of_nat l :: u64) = l" "unat (of_nat p :: u64) = p"
    using factor_small [OF p(2,3)] p(4) by (simp_all add: unat_small)
  have "unat (2 * rel_v r) = 2 * unat (rel_v r)"
    using inv p(2,4) by (auto simp: rel_inv_def unat_word_ariths)
  then have v: "1 \<le> unat v" using inv by (auto simp: v_def rel_inv_def)
  then have v': "1 \<le> unat v'" "unat v' < l \<or> unat v' = 1" by (auto simp: v'_def word_le_nat_alt l)
  then have le: "unat v' \<le> l" using p(2) by auto
  have h: "unat v' * p \<le> p * l" using mult_le_mono1 [OF le, of p] by (simp only: mult.commute)
  then have "unat v' * p < 2 ^ 64" using p(3) by linarith
  then have c: "unat (v' * of_nat p) = unat v' * p" by (simp only: unat_word_ariths l) simp
  have lim: "rel_limit r = of_nat l" "rel_limited r" "rel_period r = of_nat p" using inv by (auto simp: rel_inv_def)
  have e: "rel_v (rel_advance r) = v'" "rel_countdown (rel_advance r) = v' * of_nat p" "rel_period (rel_advance r) = of_nat p"
    "rel_limited (rel_advance r)" "rel_limit (rel_advance r) = of_nat l"
    using lim by (simp_all add: rel_advance_def Let_def v_def v'_def)
  have "1 \<le> unat v' * p" using v'(1) p(1) by (simp add: Suc_leI)
  then show ?thesis using v' h e(4) unfolding rel_inv_def e(1-3,5) c by simp
qed

lemma rel_tick_inv:
  assumes inv: "rel_inv p l r" and p: "0 < p" "0 < l" "p * l < 2 ^ 64" "l < 2 ^ 63"
  shows "rel_inv p l (rel_tick r)"
    "rel_trigger (rel_tick r) \<or> unat (rel_countdown (rel_tick r)) = unat (rel_countdown r) - 1 \<and> 1 < unat (rel_countdown r)"
proof -
  have "p < 2 ^ 64" using factor_small [OF p(2,3)] .
  then have p0: "rel_period r \<noteq> 0" using inv p(1) of_nat_eq_small [of p 0] by (simp add: rel_inv_def)
  let ?r = "r\<lparr>rel_countdown := rel_countdown r - 1\<rparr>"
  have c: "unat (rel_countdown r - 1) = unat (rel_countdown r) - 1"
    using inv by (simp add: rel_inv_def unat_sub word_le_nat_alt)
  have "rel_advance ?r = rel_advance r" by (simp add: rel_advance_def Let_def)
  then have adv: "rel_inv p l (rel_advance ?r)" "rel_trigger (rel_advance ?r)"
    using rel_advance_inv [OF assms] by (auto simp: rel_advance_def Let_def)
  have "rel_countdown r - 1 \<noteq> 0 \<longleftrightarrow> 1 < unat (rel_countdown r)" using c inv by (auto simp: rel_inv_def unat_eq_zero [symmetric])
  then show "rel_inv p l (rel_tick r)"
    "rel_trigger (rel_tick r) \<or> unat (rel_countdown (rel_tick r)) = unat (rel_countdown r) - 1 \<and> 1 < unat (rel_countdown r)"
    using inv p0 adv c by (auto simp: rel_tick_def Let_def rel_inv_def)
qed

lemma rel_bool_inv: "rel_inv p l r \<Longrightarrow> rel_inv p l (snd (rel_bool r))"
  by (auto simp: rel_bool_def rel_inv_def)

lemma rel_events_inv:
  assumes "rel_inv p l r" "0 < p" "0 < l" "p * l < 2 ^ 64" "l < 2 ^ 63"
  shows "rel_inv p l (fold rel_event_step es r)"
  using assms(1)
proof (induction es arbitrary: r)
  case (Cons e es)
  then show ?case using rel_tick_inv(1) [OF Cons.prems assms(2-)] rel_bool_inv by (cases e) auto
qed simp

lemma signal_within:
  assumes "rel_inv p l r" "0 < p" "0 < l" "p * l < 2 ^ 64" "l < 2 ^ 63" "unat (rel_countdown r) \<le> n"
  shows "True \<in> set (rel_signals n r)"
  using assms(1,6)
proof (induction n arbitrary: r)
  case (Suc n)
  note t = rel_tick_inv [OF Suc.prems(1) assms(2-5)]
  show ?case
  proof (cases "rel_trigger (rel_tick r)")
    case True
    then show ?thesis by (simp add: rel_conflict_def rel_bool_def)
  next
    case False
    then have "unat (rel_countdown (rel_tick r)) \<le> n" using t(2) Suc.prems(2) by simp
    then have "True \<in> set (rel_signals n (rel_tick r))" by (rule Suc.IH [OF t(1)])
    then show ?thesis using False by (simp add: rel_conflict_def rel_bool_def)
  qed
qed (simp add: rel_inv_def)

text \<open>
  C40: with a period and a limit, in every state reached by ticks and queries, the next restart signal comes after at most
  \<open>period * limit\<close> further conflicts.
\<close>

theorem reluctant_signals:
  assumes "0 < p" "0 < l" "p * l < 2 ^ 64" "l < 2 ^ 63"
  shows "\<exists>r. (\<forall>dbg. rel_enable dbg (int p) (int l) r0 = Inr r) \<and> True \<in> set (rel_signals (p * l) (fold rel_event_step es r))"
proof -
  let ?r = "r0\<lparr>rel_u := 1, rel_v := 1, rel_period := of_nat p, rel_countdown := of_nat p, rel_trigger := False,
     rel_limited := True, rel_limit := of_nat l\<rparr>"
  have enable: "rel_enable dbg (int p) (int l) r0 = Inr ?r" for dbg using assms(1,2) by (simp add: rel_enable_def cassert_def Let_def)
  have "p * 1 \<le> p * l" using assms(2) by (intro mult_le_mono2) simp
  then have "unat (of_nat p :: u64) = p" using assms(3) by (intro unat_small) linarith
  then have "rel_inv p l ?r" using assms(1,2) by (simp add: rel_inv_def)
  then have inv: "rel_inv p l (fold rel_event_step es ?r)" using assms by (intro rel_events_inv)
  then have "True \<in> set (rel_signals (p * l) (fold rel_event_step es ?r))"
    using assms by (intro signal_within [OF inv]) (auto simp: rel_inv_def)
  then show ?thesis using enable by blast
qed

theorem reluctant_signals_witness:
  "\<exists>r. rel_enable True 1024 1048576 rel_example = Inr r \<and>
     True \<in> set (rel_signals 1073741824 (fold rel_event_step [RelTick, RelQuery, RelTick] r))"
  using reluctant_signals [of 1024 1048576 rel_example "[RelTick, RelQuery, RelTick]"] by auto

end
