(* ===== verification/Spec2Isabelle.thy ===== *)
theory Spec2Isabelle
  imports MainProgram CadicalOptions LratChecker ProofTracers ExtensionStack BinaryHeap RupSound QueueRuns Reluctant
begin

text \<open>
  A verification of AF\_Analyzer, a solver for abstract argumentation frameworks.  The program reads a
  framework in the ICCMA'23 format and a query argument, and decides whether the argument is in every
  preferred extension (the task DS-PR).  The repository contains the SAT solver CaDiCaL, which it calls;
  several of its parts are verified here on their own.

  \<^bold>\<open>How the program works.\<close>  \<^verbatim>\<open>Main.cpp\<close> reads the command line, \<^verbatim>\<open>Parser_iccma.cpp\<close> fills an \<^verbatim>\<open>AF\<close>,
  and \<^verbatim>\<open>Solver_DS_PR::solve\<close> decides the query.  It calls the preprocessor (\<^verbatim>\<open>PreProcessor_DS_PR.cpp\<close>):
  the cone of arguments with a path to the query, then the grounded extension of the cone.  What is left
  undecided is searched by OpenMP tasks.  A task holds an admissible set built so far, computes its
  reduct (\<^verbatim>\<open>Reduct.cpp\<close>), encodes the non-empty admissible sets of the reduct as clauses
  (\<^verbatim>\<open>Encoding.cpp\<close>) for its own SAT solver (\<^verbatim>\<open>SatSolver_cadical.cpp\<close> over CaDiCaL) and enumerates them:
  a set that attacks the query rejects it, a set with the query ends the branch, any other set becomes
  the start of a new task; a complement clause then excludes the supersets of that set.

  \<^bold>\<open>The theories\<close>, in the order of their imports.
    \<^item> \<open>Prelude\<close>: machine words, the faults of C++ code as values, the result type \<open>'a res\<close> with sequencing,
      bounds-checked vectors, loops over a list with an invariant rule, and computations that return whether or not
      assertions are compiled in (\<open>returns\<close>).
    \<^item> \<open>Argumentation\<close>: the specification, Dung's semantics over a set of arguments and an attack
      relation; how preferred extensions decompose along an admissible set (\<open>preferred_rest\<close>), that the
      sceptical status is decided by an unattacked set, and the grounded extension.
    \<^item> \<open>VectorBitSet\<close>, \<open>AF\<close>, \<open>Reduct\<close>, \<open>Checks\<close>, \<open>PreProcessor\<close>: the classes of the same names;
      \<open>Checks\<close> holds \<^verbatim>\<open>ScepticalCheck.cpp\<close> and \<^verbatim>\<open>Prioritizer.cpp\<close>.  \<open>vbs_ok\<close> and \<open>af_ok\<close> are the type
      invariants; every operation is shown total on well-formed input, which means that no index is out
      of range, and its result is related to \<open>Argumentation\<close>.
    \<^item> \<open>CadicalApi\<close>, \<open>ReferenceEngine\<close>, \<open>SatSolver\<close>: the states and contracts of the CaDiCaL interface,
      with the search itself a parameter of type \<open>engine\<close>; an engine that meets the contract; the
      abstract solver class as a record of operations and its CaDiCaL implementation.
    \<^item> \<open>Encoding\<close>: the encoder and decoder, written over any \<open>sat_ops\<close>; the clauses added are sound and
      complete for non-empty admissible sets, and for those that contain no blocked set.
    \<^item> \<open>Search\<close>, \<open>Pool\<close>, \<open>Solver\<close>: one task, cut at its accesses to shared memory into steps of a state
      machine; a pool of tasks with all interleavings; and \<open>solve\<close>.
    \<^item> \<open>Text\<close>, \<open>Parser\<close>, \<open>MainProgram\<close>: the used part of C++ streams and strings, the parser, and the
      program from the command line to its output.

  \<^bold>\<open>Parts of the SAT solver\<close> (\<^verbatim>\<open>src/lib/cadical/src\<close>).
    \<^item> \<open>Clauses\<close>: the meaning of clauses, entailment, and the reconstruction of models along a list of removed
      clauses with witnesses (\<open>redundant_stack\<close>).
    \<^item> \<open>CadicalOptions\<close>: \<^verbatim>\<open>options.cpp\<close>, \<^verbatim>\<open>config.cpp\<close> and the number parser of \<^verbatim>\<open>util.cpp\<close>; the options stay within
      their limits, and command line options are parsed back as they are written.
    \<^item> \<open>LratChecker\<close>: \<^verbatim>\<open>lratchecker.cpp\<close>; a proof that the checker accepts is a proof, an accepted conflict
      or failing set of assumptions is one; \<open>lrat_constraint_too_weak\<close> shows a gap in \<^verbatim>\<open>conclude_unsat\<close>.
    \<^item> \<open>RupChecker\<close>, \<open>RupPropagation\<close>, \<open>RupTable\<close>, \<open>RupEvents\<close>, \<open>RupSound\<close>: the online checker \<^verbatim>\<open>checker.cpp\<close>, a small
      solver that accepts a clause when unit propagation refutes its negation.  \<open>RupChecker\<close> is the model, with clauses
      as objects in a store that the hash table, the garbage list and the watches share.  \<open>RupPropagation\<close> is about
      values, trail and watches (\<open>prop_inv\<close>): propagation ends, does not fault, permutes literals only, and derives only
      consequences; a successful check is an entailment.  \<open>RupTable\<close> is about the store (\<open>table_ok\<close>): insertion,
      enlarging, search and garbage collection, and their effect on the multiset of stored clauses (\<open>keys\<close>).
      \<open>RupEvents\<close> joins both in the invariant \<open>event_inv\<close> of the handlers of proof events and tracks the live clauses
      (\<open>covers\<close>).  \<open>RupSound\<close> has the results on runs: \<open>rup_proof_sound\<close>, \<open>rup_store_consistent\<close>, \<open>rup_run_total\<close>.
      They hold for literals below \<open>2 ^ 30\<close>, above which \<^verbatim>\<open>l2u\<close> overflows, and for runs of fewer than \<open>2 ^ 57\<close> events.
    \<^item> \<open>ProofTracers\<close>: the proof writers for DRAT, FRAT, LRAT and their binary forms; the files read back as the
      events written.
    \<^item> \<open>VariableFlags\<close>: the status of variables and its counters (\<^verbatim>\<open>flags.cpp\<close>, \<^verbatim>\<open>var.cpp\<close>): the counters are exact, and
      the assertions of the code keep each variable on a graph of statuses.
    \<^item> \<open>ExtensionStack\<close>: removed clauses and their witnesses (\<^verbatim>\<open>extend.cpp\<close>, \<^verbatim>\<open>restore.cpp\<close>, \<^verbatim>\<open>external.cpp\<close>); the
      extended model satisfies every removed clause, also after clauses have been restored; \<open>large_id_misread\<close> shows
      that ids from \<open>2 ^ 31\<close> on are changed.
    \<^item> \<open>BinaryHeap\<close>: the priority queue \<^verbatim>\<open>heap.hpp\<close> with the order by scores, and the decision by scores.
    \<^item> \<open>DecisionQueue\<close>, \<open>QueueOrder\<close>, \<open>QueueReorder\<close>, \<open>QueueRuns\<close>: the other decision queue, a doubly linked list of the
      variables with time stamps (\<^verbatim>\<open>queue.hpp\<close>, \<^verbatim>\<open>queue.cpp\<close>, and its uses in \<^verbatim>\<open>decide.cpp\<close>, \<^verbatim>\<open>analyze.cpp\<close>,
      \<^verbatim>\<open>backtrack.cpp\<close>, \<^verbatim>\<open>compact.cpp\<close>).  \<open>DecisionQueue\<close> is the model; \<open>QueueOrder\<close> has the invariant (links, stamps that
      grow along the list, no variable without a value after the saved position) for new variables, bumps, values
      and decisions, \<open>QueueReorder\<close> for shuffling and compaction.  \<open>QueueRuns\<close> refines the queue to a plain
      list of variables.  A run is \<open>legal_run\<close> when its events meet the preconditions of the code and the stamps it can
      use up (\<open>cost\<close>) fit into 64 bits; the random numbers of a shuffle are part of the event.
    \<^item> \<open>Reluctant\<close>: the restarts of stable mode (\<^verbatim>\<open>reluctant.hpp\<close>); they follow the Luby sequence, and with a limit the
      next one always comes within \<open>period * limit\<close> conflicts.
  These theories have an argument \<open>dbg\<close> that says whether assertions are compiled in.  Values and fixed literals of
  the internal solver are parameters of \<open>ExtensionStack\<close> (\<open>val\<close>, \<open>ifixed\<close>, with the contract \<open>fixed_sound\<close>).

  \<^bold>\<open>Interfaces.\<close>  Locales: \<open>attack_graph\<close> (what the algorithms use of a framework, interpreted on \<open>af\<close>),
  \<open>sat_solver\<close> (what the encoder and the search use of a solver, interpreted on the CaDiCaL wrapper),
  \<open>work_pool\<close> (what the pool needs to know about a step of a task, interpreted on \<open>task_step\<close>) and
  \<open>heap_order\<close> (what the heap needs of its order, interpreted on the orders of the code).

  \<^bold>\<open>What is shown.\<close>  Under every schedule and every interleaving of the tasks the search does not fault,
  ends, loses no preferred extension without the query, and answers rightly; with the preprocessor, the
  parser and \<open>main\<close> this gives \<open>program_correct\<close>: the program prints YES exactly for the sceptically
  accepted queries.  The behaviour on inputs the format forbids, on reuse of a framework and on very
  large frameworks is stated too (\<open>query_unchecked\<close>, \<open>attack_out_of_range\<close>,
  \<open>incomplete_line_indeterminate\<close>, \<open>stale_distances_accept\<close>, \<open>literal_narrowing\<close>).

  \<^bold>\<open>Bounds.\<close>  \<open>num_args\<close> is a 32 bit word; \<open>af_ok\<close> asks for at most \<open>2 ^ 31\<close> slots because the code copies
  arguments through \<^verbatim>\<open>int32_t\<close>; the search asks for \<open>2 * n < 2 ^ 31\<close> because literals reach the SAT
  solver as \<^verbatim>\<open>int\<close>.  Loops whose end is not syntactic are \<open>function\<close>s with a measure or \<open>partial_function\<close>s in
  the option monad (\<open>loop\<close> in \<open>Prelude\<close> is the common one), and their end is proved; there is no fuel.

  \<^bold>\<open>Parameters.\<close>  The SAT search (\<open>engine\<close>, with the documented contract \<open>engine_ok\<close>), the order in which
  an unordered set is iterated (\<open>iter\<close>), the scheduler (\<open>sched\<close>), the file system (\<open>files\<close>) and the values
  returned by \<^verbatim>\<open>getopt_long_only\<close> (\<open>events\<close>).

  \<^bold>\<open>Not modelled.\<close>  Memory exhaustion, the lifetime of the stack frames that tasks share, the C++ memory
  model (a step reads or writes the shared flag atomically, although the pragma that should make it so
  is misspelt), the interleaving of debug output inside one line, \<^verbatim>\<open>Printer::print_set\<close>, the test drivers,
  and of CaDiCaL the search, inprocessing and preprocessing of the internal solver, the other proof tracers,
  the file parser, the compaction of variables outside the decision queue, unit ids of LRAT proofs, and the
  external propagator.
\<close>

end
